(* ===== verification/Kernel_Prelude.thy ===== *)
theory Kernel_Prelude
  imports Main "HOL-Library.Word" "HOL-Library.Monad_Syntax"
begin

text \<open>
  The vocabulary every component shares: the fixed-width integer types of the kernel, the
  constants and macros of \<^verbatim>\<open>include/kernel.h\<close>, the two combinators that stand for C's
  counting loops, and the word lemmas the component proofs rest on.
\<close>

unbundle bit_operations_syntax

section \<open>Types\<close>

type_synonym u8 = "8 word"
type_synonym u16 = "16 word"
type_synonym u32 = "32 word"
type_synonym u64 = "64 word"

text \<open>Byte-addressed memory: what a C pointer of type \<^verbatim>\<open>uint8_t*\<close> reads and writes.\<close>

type_synonym bytes = "u64 \<Rightarrow> u8"

abbreviation NULL :: u64 where "NULL \<equiv> 0"

section \<open>Collections\<close>

named_theorems kconst \<open>the numeric constants of the headers\<close>
named_theorems kmacro \<open>the function-like macros of the headers\<close>

section \<open>Constants and macros of kernel.h\<close>

definition PAGE_SIZE :: u64 where [kconst]: "PAGE_SIZE = 4096"
definition HIGHER_HALF_OFFSET :: u64 where [kconst]: "HIGHER_HALF_OFFSET = 0xFFFF800000000000"
definition SIGN_MASK :: u64 where [kconst]: "SIGN_MASK = 0x000ffffffffff000"
definition KERNEL_PT_ENTRY :: u64 where [kconst]: "KERNEL_PT_ENTRY = 0b11"
definition USER_PT_ENTRY :: u64 where [kconst]: "USER_PT_ENTRY = 0b111"

definition DIV_CEIL :: "u64 \<Rightarrow> u64 \<Rightarrow> u64" where
  [kmacro]: "DIV_CEIL num dividend = (num + (dividend - 1)) div dividend"

definition SIZE_TO_PAGES :: "u64 \<Rightarrow> u64" where
  [kmacro]: "SIZE_TO_PAGES sz = DIV_CEIL sz PAGE_SIZE"

definition ALIGN_ADDR :: "u64 \<Rightarrow> u64" where
  [kmacro]: "ALIGN_ADDR address = address AND - PAGE_SIZE"

definition VADDR :: "u64 \<Rightarrow> u64" where
  [kmacro]: "VADDR addr = addr OR HIGHER_HALF_OFFSET"

definition PADDR :: "u64 \<Rightarrow> u64" where
  [kmacro]: "PADDR addr = addr AND NOT HIGHER_HALF_OFFSET"

definition P4_ENTRY :: "u64 \<Rightarrow> u64" where
  [kmacro]: "P4_ENTRY addr = drop_bit 39 addr AND 0x1FF"

definition P3_ENTRY :: "u64 \<Rightarrow> u64" where
  [kmacro]: "P3_ENTRY addr = drop_bit 30 addr AND 0x1FF"

definition P2_ENTRY :: "u64 \<Rightarrow> u64" where
  [kmacro]: "P2_ENTRY addr = drop_bit 21 addr AND 0x1FF"

definition P1_ENTRY :: "u64 \<Rightarrow> u64" where
  [kmacro]: "P1_ENTRY addr = drop_bit 12 addr AND 0x1FF"

section \<open>Counting loops\<close>

text \<open>
  \<^verbatim>\<open>for (i = 0; i < n; i++) s = f(i, s);\<close> runs \<open>f 0\<close>, \<open>f 1\<close>, \<dots>, \<open>f (n - 1)\<close> in this order.
  \<open>for_opt\<close> is the same loop with a body that may fail to return.
\<close>

primrec for_upto :: "nat \<Rightarrow> (nat \<Rightarrow> 's \<Rightarrow> 's) \<Rightarrow> 's \<Rightarrow> 's" where
  "for_upto 0 f s = s"
| "for_upto (Suc n) f s = f n (for_upto n f s)"

primrec for_opt :: "nat \<Rightarrow> (nat \<Rightarrow> 's \<Rightarrow> 's option) \<Rightarrow> 's \<Rightarrow> 's option" where
  "for_opt 0 f s = Some s"
| "for_opt (Suc n) f s = Option.bind (for_opt n f s) (f n)"

lemma for_upto_numeral:
  "for_upto (numeral k) f s = f (pred_numeral k) (for_upto (pred_numeral k) f s)"
  by (simp add: numeral_eq_Suc)

lemma for_opt_numeral:
  "for_opt (numeral k) f s = Option.bind (for_opt (pred_numeral k) f s) (f (pred_numeral k))"
  by (simp add: numeral_eq_Suc)

lemma for_upto_inv:
  assumes "P 0 s" and "\<And>i t. i < n \<Longrightarrow> P i t \<Longrightarrow> P (Suc i) (f i t)"
  shows "P n (for_upto n f s)"
  using assms by (induction n) auto

lemma for_upto_id: "(\<And>i. i < n \<Longrightarrow> f i s = s) \<Longrightarrow> for_upto n f s = s"
  by (rule for_upto_inv [where P = "\<lambda>_ t. t = s"]) auto

lemma for_opt_inv:
  assumes "for_opt n f s = Some t" and "P 0 s"
    and "\<And>i u v. i < n \<Longrightarrow> P i u \<Longrightarrow> f i u = Some v \<Longrightarrow> P (Suc i) v"
  shows "P n t"
  using assms by (induction n arbitrary: t) (auto simp: bind_eq_Some_conv)

lemma for_opt_returns:
  assumes "P 0 s" and "\<And>i u. i < n \<Longrightarrow> P i u \<Longrightarrow> \<exists>v. f i u = Some v \<and> P (Suc i) v"
  shows "\<exists>t. for_opt n f s = Some t \<and> P n t"
  using assms
proof (induction n)
  case 0
  then show ?case by simp
next
  case (Suc n)
  then obtain u where "for_opt n f s = Some u" "P n u" by fastforce
  with Suc.prems(2) [of n u] show ?case by auto
qed

section \<open>Words\<close>

lemma unat_add_nowrap:
  "unat a + unat b < 2 ^ LENGTH('a) \<Longrightarrow> unat (a + b) = unat a + unat b"
  for a b :: "'a::len word"
  by (simp add: unat_word_ariths)

lemma unat_mult_nowrap:
  "unat a * unat b < 2 ^ LENGTH('a) \<Longrightarrow> unat (a * b) = unat a * unat b"
  for a b :: "'a::len word"
  by (simp add: unat_word_ariths)

lemma unat_of_nat64: "n < 2 ^ 64 \<Longrightarrow> unat (of_nat n :: u64) = n"
  by (simp add: unat_of_nat take_bit_nat_eq_self)

lemma unat_lt_exp64: "unat (x :: u64) < 2 ^ 64"
  using unsigned_less [of x] by simp

lemma unat_le_exp64: "unat (x :: u64) \<le> 2 ^ 64"
  using unat_lt_exp64 [of x] by (rule less_imp_le)

lemma unat_sub_le: "b \<le> a \<Longrightarrow> unat (a - b) = unat a - unat b"
  for a b :: "'a::len word"
  by (metis unat_sub)

lemma of_nat_eq_iff64:
  "i < 2 ^ 64 \<Longrightarrow> j < 2 ^ 64 \<Longrightarrow> (of_nat i :: u64) = of_nat j \<longleftrightarrow> i = j"
  by (metis unat_of_nat64)

lemma nat_div_ceil_bounds:
  fixes n d :: nat
  assumes "0 < d"
  shows "n \<le> (n + (d - 1)) div d * d" and "(n + (d - 1)) div d * d < n + d"
proof -
  have *: "(n + (d - 1)) div d * d + (n + (d - 1)) mod d = n + (d - 1)" by simp
  have "(n + (d - 1)) mod d < d" using assms by simp
  with * show "n \<le> (n + (d - 1)) div d * d" by linarith
  from * assms show "(n + (d - 1)) div d * d < n + d" by linarith
qed

lemma add_pred_le_mult: "0 < x \<Longrightarrow> 0 < d \<Longrightarrow> x + (d - 1) \<le> x * (d :: nat)"
  by (cases x; cases d) auto

text \<open>\<open>DIV_CEIL\<close> is the rounded-up quotient as long as the addition inside it does not wrap.\<close>

lemma unat_DIV_CEIL:
  assumes "0 < d" and "unat n + (unat d - 1) < 2 ^ 64"
  shows "unat (DIV_CEIL n d) = (unat n + (unat d - 1)) div unat d"
proof -
  from assms(1) have "unat (d - 1) = unat d - 1"
    by (metis unat_minus_one word_greater_zero_iff)
  with assms(2) have "unat (n + (d - 1)) = unat n + (unat d - 1)"
    by (subst unat_add_nowrap) simp_all
  then show ?thesis by (simp add: DIV_CEIL_def unat_div)
qed

section \<open>Address ranges\<close>

text \<open>\<open>span p n\<close> is the \<open>n\<close> addresses from \<open>p\<close> on (the address space wraps around).\<close>

definition span :: "u64 \<Rightarrow> nat \<Rightarrow> u64 set" where
  "span p n = {a. unat (a - p) < n}"

lemma span_iff: "a \<in> span p n \<longleftrightarrow> unat (a - p) < n"
  by (simp add: span_def)

lemma span_offset [simp]: "i < 2 ^ 64 \<Longrightarrow> p + of_nat i \<in> span p n \<longleftrightarrow> i < n"
  by (simp add: span_iff unat_of_nat64)

lemma offset_eq_iff:
  fixes a p :: u64
  assumes "n < 2 ^ 64"
  shows "a = p + of_nat n \<longleftrightarrow> unat (a - p) = n"
proof
  assume "unat (a - p) = n"
  then have "of_nat n = a - p" by auto
  then show "a = p + of_nat n" by simp
qed (use assms in \<open>simp add: unat_of_nat64\<close>)

lemma span_imageE:
  assumes "a \<in> span p n"
  obtains i where "i < n" "i < 2 ^ 64" "a = p + of_nat i"
  using assms unat_lt_exp64 [of "a - p"] by (force simp: span_iff)

lemma span_nowrap:
  assumes "unat p + n \<le> 2 ^ 64"
  shows "a \<in> span p n \<longleftrightarrow> unat p \<le> unat a \<and> unat a < unat p + n"
proof (cases "p \<le> a")
  case True
  then have "unat (a - p) = unat a - unat p" by (rule unat_sub_le)
  with True show ?thesis by (auto simp: span_iff word_le_nat_alt)
next
  case False
  then have "unat (a - p) = 2 ^ 64 + unat a - unat p"
    by (simp add: unat_sub_if_size word_size word_le_nat_alt)
  with False assms unat_lt_exp64 [of p] show ?thesis
    by (simp add: span_iff word_le_nat_alt)
qed

text \<open>A loop of byte stores to consecutive addresses, and what it leaves behind.\<close>

lemma for_upto_stores:
  fixes m :: bytes
  assumes "n \<le> 2 ^ 64"
  shows "for_upto n (\<lambda>i m. m(d + of_nat i := g i)) m a =
    (if a \<in> span d n then g (unat (a - d)) else m a)"
  using assms
proof (induction n)
  case 0
  then show ?case by (simp add: span_iff)
next
  case (Suc n)
  have "a = d + of_nat n \<longleftrightarrow> unat (a - d) = n"
    using Suc.prems by (intro offset_eq_iff) simp
  with Suc show ?case by (auto simp: span_iff less_Suc_eq)
qed

end
