(* ===== verification/Linked_List.thy ===== *)
theory Linked_List
  imports Kernel_Prelude
begin

text \<open>
  Singly linked, null-terminated lists in a store: \<open>nxt p\<close> is the \<open>next\<close> field of the structure at
  address \<open>p\<close>, \<open>path nxt p xs q\<close> says that following it from \<open>p\<close> visits \<open>xs\<close> and ends at \<open>q\<close>. The thread
  lists of the scheduler are \<open>linked\<close> lists.
\<close>

primrec path :: "(u64 \<Rightarrow> u64) \<Rightarrow> u64 \<Rightarrow> u64 list \<Rightarrow> u64 \<Rightarrow> bool" where
  "path nxt p [] q \<longleftrightarrow> p = q"
| "path nxt p (x # xs) q \<longleftrightarrow> p = x \<and> x \<noteq> NULL \<and> path nxt (nxt x) xs q"

abbreviation linked :: "(u64 \<Rightarrow> u64) \<Rightarrow> u64 \<Rightarrow> u64 list \<Rightarrow> bool" where
  "linked nxt p xs \<equiv> path nxt p xs NULL"

lemma path_append: "path nxt p (xs @ ys) q \<longleftrightarrow> (\<exists>r. path nxt p xs r \<and> path nxt r ys q)"
  by (induction xs arbitrary: p) auto

lemma path_cong: "(\<And>x. x \<in> set xs \<Longrightarrow> nxt' x = nxt x) \<Longrightarrow> path nxt' p xs q = path nxt p xs q"
  by (induction xs arbitrary: p) auto

lemma path_upd [simp]: "x \<notin> set xs \<Longrightarrow> path (nxt(x := y)) p xs q = path nxt p xs q"
  by (rule path_cong) auto

lemma path_nonzero: "path nxt p xs q \<Longrightarrow> NULL \<notin> set xs"
  by (induction xs arbitrary: p) auto

lemma linked_Nil_iff: "linked nxt p xs \<Longrightarrow> p = NULL \<longleftrightarrow> xs = []"
  by (cases xs) auto

lemma linked_unique: "linked nxt p xs \<Longrightarrow> linked nxt p ys \<Longrightarrow> xs = ys"
proof (induction xs arbitrary: p ys)
  case Nil
  then show ?case by (cases ys) auto
next
  case (Cons x xs)
  then show ?case by (cases ys) auto
qed

lemma linked_distinct: "linked nxt p xs \<Longrightarrow> distinct xs"
proof (induction xs arbitrary: p)
  case (Cons x xs)
  have "x \<notin> set xs"
  proof
    assume "x \<in> set xs"
    then obtain ys zs where "xs = ys @ x # zs" by (meson split_list)
    then have "linked nxt (nxt x) (ys @ x # zs)" "linked nxt (nxt x) zs"
      using Cons.prems by (auto simp: path_append)
    then show False using linked_unique by fastforce
  qed
  with Cons show ?case by auto
qed simp

text \<open>Unlinking an element: its predecessor skips it.\<close>

lemma linked_skip:
  assumes "linked nxt p (ys @ y # x # zs)"
  shows "linked (nxt(y := nxt x)) p (ys @ y # zs)"
proof -
  have d: "distinct (ys @ y # x # zs)" using assms by (rule linked_distinct)
  obtain r where "path nxt p ys r" "path nxt r (y # x # zs) NULL" using assms by (auto simp: path_append)
  with d show ?thesis by (auto simp: path_append)
qed

text \<open>Linking a new element behind \<open>y\<close>.\<close>

lemma linked_insert:
  assumes "linked nxt p (ys @ y # zs)" "t \<noteq> NULL" "t \<notin> set (ys @ y # zs)"
  shows "linked (nxt(y := t, t := nxt y)) p (ys @ y # t # zs)"
proof -
  have d: "distinct (ys @ y # zs)" using assms(1) by (rule linked_distinct)
  obtain r where "path nxt p ys r" "path nxt r (y # zs) NULL" using assms(1) by (auto simp: path_append)
  with d assms(2,3) show ?thesis by (auto simp: path_append fun_upd_twist)
qed

end
