(* ===== verification/Libc_String.thy ===== *)
theory Libc_String
  imports Kernel_Prelude "HOL-Library.Signed_Division"
begin

text \<open>
  The kernel's string and memory routines, \<^verbatim>\<open>src/kernel/libc/string.c\<close>, over byte-addressed
  memory. A pointer is a 64-bit address; a routine that writes returns the new memory. Loops
  that stop at a NUL byte may run forever on memory without one, so they are
  \<open>partial_function (option)\<close>: \<open>None\<close> is "does not return".
\<close>

section \<open>Definitions\<close>

subsection \<open>Memory blocks\<close>

text \<open>\<open>memcpy\<close>, \<open>memset\<close> and \<open>strcpy\<close> return their first argument; the model returns the memory.\<close>

definition memcpy :: "u64 \<Rightarrow> u64 \<Rightarrow> u64 \<Rightarrow> bytes \<Rightarrow> bytes" where
  "memcpy dest src len m =
     for_upto (unat len) (\<lambda>i m. m(dest + of_nat i := m (src + of_nat i))) m"

definition memset :: "u64 \<Rightarrow> u32 \<Rightarrow> u64 \<Rightarrow> bytes \<Rightarrow> bytes" where
  "memset dest val len m = for_upto (unat len) (\<lambda>i m. m(dest + of_nat i := ucast val)) m"

fun memcmp_loop :: "nat \<Rightarrow> u64 \<Rightarrow> u64 \<Rightarrow> bytes \<Rightarrow> int" where
  "memcmp_loop 0 s1 s2 m = 0"
| "memcmp_loop (Suc count) s1 s2 m =
     (if m s1 \<noteq> m s2 then (if m s1 < m s2 then - 1 else 1)
      else memcmp_loop count (s1 + 1) (s2 + 1) m)"

definition memcmp :: "u64 \<Rightarrow> u64 \<Rightarrow> u64 \<Rightarrow> bytes \<Rightarrow> int" where
  "memcmp str1 str2 count m = memcmp_loop (unat count) str1 str2 m"

subsection \<open>NUL-terminated strings\<close>

partial_function (option) strlen_loop :: "u64 \<Rightarrow> u64 \<Rightarrow> bytes \<Rightarrow> u64 option" where
  [code]: "strlen_loop str s m = (if m s \<noteq> 0 then strlen_loop str (s + 1) m else Some (s - str))"

definition strlen :: "u64 \<Rightarrow> bytes \<Rightarrow> u64 option" where
  "strlen str m = strlen_loop str str m"

partial_function (option) strcmp :: "u64 \<Rightarrow> u64 \<Rightarrow> bytes \<Rightarrow> int option" where
  [code]: "strcmp s1 s2 m =
     (let c1 = m s1; c2 = m s2 in
      if c1 = 0 then Some (uint c1 - uint c2)
      else if c1 = c2 then strcmp (s1 + 1) (s2 + 1) m
      else Some (uint c1 - uint c2))"

partial_function (option) strcpy :: "u64 \<Rightarrow> u64 \<Rightarrow> bytes \<Rightarrow> bytes option" where
  [code]: "strcpy output src m =
     (if m src \<noteq> 0 then strcpy (output + 1) (src + 1) (m(output := m src))
      else Some (m(output := 0)))"

function strncpy_copy :: "u64 \<Rightarrow> u64 \<Rightarrow> nat \<Rightarrow> nat \<Rightarrow> bytes \<Rightarrow> nat \<times> bytes" where
  "strncpy_copy dest src num i m =
     (if m (src + of_nat i) \<noteq> 0 \<and> i < num
      then strncpy_copy dest src num (Suc i) (m(dest + of_nat i := m (src + of_nat i)))
      else (i, m))"
  by pat_completeness auto
termination
  by (relation "measure (\<lambda>(dest, src, num, i, m). num - i)") auto

declare strncpy_copy.simps [simp del]

function strncpy_pad :: "u64 \<Rightarrow> nat \<Rightarrow> nat \<Rightarrow> bytes \<Rightarrow> bytes" where
  "strncpy_pad dest num i m =
     (if i < num then strncpy_pad dest num (Suc i) (m(dest + of_nat i := 0)) else m)"
  by pat_completeness auto
termination
  by (relation "measure (\<lambda>(dest, num, i, m). num - i)") auto

declare strncpy_pad.simps [simp del]

definition strncpy :: "u64 \<Rightarrow> u64 \<Rightarrow> u64 \<Rightarrow> bytes \<Rightarrow> bytes" where
  "strncpy dest src num m =
     (let (i, m') = strncpy_copy dest src (unat num) 0 m in strncpy_pad dest (unat num) i m')"

subsection \<open>Reversal in place\<close>

text \<open>\<open>i\<close> and \<open>j\<close> are C ints; \<open>j\<close> starts at \<open>len - 1\<close> narrowed to an int.\<close>

function strrev_loop :: "u64 \<Rightarrow> int \<Rightarrow> int \<Rightarrow> bytes \<Rightarrow> bytes" where
  "strrev_loop str i j m =
     (if i < j
      then strrev_loop str (i + 1) (j - 1)
             (let a = m (str + word_of_int i);
                  m1 = m(str + word_of_int i := m (str + word_of_int j))
              in m1(str + word_of_int j := a))
      else m)"
  by pat_completeness auto
termination
  by (relation "measure (\<lambda>(str, i, j, m). nat (j - i))") auto

declare strrev_loop.simps [simp del]

definition strrev :: "u64 \<Rightarrow> u64 \<Rightarrow> bytes \<Rightarrow> bytes" where
  "strrev str len m = strrev_loop str 0 (sint (ucast (len - 1) :: u32)) m"

subsection \<open>Numbers to digits\<close>

text \<open>
  \<open>itoa\<close>. \<open>num\<close> is the value of an \<^verbatim>\<open>int64_t\<close>, \<open>len\<close> and \<open>base\<close> of ints. C's \<open>/\<close> and \<open>%\<close>
  truncate towards zero (\<open>sdiv\<close>, \<open>smod\<close>). Negating the least \<^verbatim>\<open>int64_t\<close> gives itself on the
  target (two's complement).
\<close>

function itoa_loop :: "u64 \<Rightarrow> int \<Rightarrow> int \<Rightarrow> int \<Rightarrow> int \<Rightarrow> bytes \<Rightarrow> int \<times> int \<times> bytes" where
  "itoa_loop str len base sm i m =
     (let digit = sm smod base;
          ch = (if digit < 0xA then 48 + digit else 65 + digit - 0xA);
          m' = m(str + word_of_int i := word_of_int ch);
          sm' = sm sdiv base;
          i' = i + 1
      in if sm' \<noteq> 0 \<and> i' < len - 1 then itoa_loop str len base sm' i' m' else (sm', i', m'))"
  by pat_completeness auto
termination
  by (relation "measure (\<lambda>(str, len, base, sm, i, m). nat (len - i))") auto

declare itoa_loop.simps [simp del]

definition itoa :: "int \<Rightarrow> u64 \<Rightarrow> int \<Rightarrow> int \<Rightarrow> bytes \<Rightarrow> int \<times> bytes" where
  "itoa num str len base m =
     (let sm = (if num < 0 then sint (- word_of_int num :: u64) else num) in
      if len = 0 then (0, m)
      else let (sm', i, m1) = itoa_loop str len base sm 0 m in
        if i = len - 1 \<and> sm' \<noteq> 0 then (i, m1)
        else let (i2, m2) = (if num < 0 then (i + 1, m1(str + word_of_int i := 45)) else (i, m1))
             in (i2, strrev str (word_of_int i2) m2))"

text \<open>
  \<open>ultoa\<close>. \<open>temp\<close> is the local array of 65 chars, written from index 0 on; the digits stored so
  far are the list. A radix of 1 never ends.
\<close>

definition ultoa_char :: "u64 \<Rightarrow> u8" where
  "ultoa_char digit = (if digit < 10 then ucast digit + 48 else ucast digit - 10 + 65)"

partial_function (option) ultoa_loop :: "u64 \<Rightarrow> u64 \<Rightarrow> u8 list \<Rightarrow> u8 list option" where
  [code]: "ultoa_loop num radix temp =
     (let temp' = temp @ [ultoa_char (num mod radix)];
          num' = num div radix
      in if 0 < num' then ultoa_loop num' radix temp' else Some temp')"

definition ultoa :: "u64 \<Rightarrow> u64 \<Rightarrow> u64 \<Rightarrow> bytes \<Rightarrow> (nat \<times> bytes) option" where
  "ultoa num str radix m =
     map_option (\<lambda>temp. (length temp,
         for_upto (length temp)
           (\<lambda>k m. m(str + of_nat k := temp ! (length temp - 1 - k))) m))
       (ultoa_loop num radix [])"

section \<open>Memory blocks\<close>

lemma memset_apply:
  "memset dest val len m a = (if a \<in> span dest (unat len) then ucast val else m a)"
  unfolding memset_def by (rule for_upto_stores) (rule unat_le_exp64)

lemma memcpy_apply:
  assumes dis: "span dest (unat len) \<inter> span src (unat len) = {}"
  shows "memcpy dest src len m a =
    (if a \<in> span dest (unat len) then m (src + (a - dest)) else m a)"
proof -
  let ?copy = "\<lambda>m0 i m'. m'(dest + of_nat i := m0 (src + of_nat i))"
  have "for_upto n (\<lambda>i m. m(dest + of_nat i := m (src + of_nat i))) m = for_upto n (?copy m) m"
    if "n \<le> unat len" for n
    using that
  proof (induction n)
    case (Suc n)
    have n: "n < unat len" "n < 2 ^ 64" using Suc.prems unat_lt_exp64 [of len] by linarith+
    then have "src + of_nat n \<in> span src (unat len)" by simp
    then have "src + of_nat n \<notin> span dest (unat len)" using dis by blast
    then have "src + of_nat n \<notin> span dest n" using n(1) by (simp add: span_iff)
    then have keep: "for_upto n (?copy m) m (src + of_nat n) = m (src + of_nat n)"
      using n(2) by (subst for_upto_stores) simp_all
    have "n \<le> unat len" using n(1) by simp
    from Suc.IH [OF this] keep show ?case by (simp only: for_upto.simps)
  qed simp
  from this [OF order_refl] show ?thesis
    unfolding memcpy_def by (simp only: for_upto_stores [OF unat_le_exp64] span_iff)
      (simp add: span_iff)
qed

section \<open>Strings\<close>

text \<open>\<open>cstring m p xs\<close>: memory holds the non-zero bytes \<open>xs\<close> at \<open>p\<close> and a NUL behind them.\<close>

fun cstring :: "bytes \<Rightarrow> u64 \<Rightarrow> u8 list \<Rightarrow> bool" where
  "cstring m p [] \<longleftrightarrow> m p = 0"
| "cstring m p (x # xs) \<longleftrightarrow> m p = x \<and> x \<noteq> 0 \<and> cstring m (p + 1) xs"

lemma cstring_cong:
  "(\<And>i. i \<le> length xs \<Longrightarrow> m' (p + of_nat i) = m (p + of_nat i)) \<Longrightarrow> cstring m' p xs = cstring m p xs"
proof (induction xs arbitrary: p)
  case Nil
  then show ?case using Nil [of 0] by simp
next
  case (Cons x xs)
  have "m' p = m p" using Cons.prems [of 0] by simp
  moreover have "m' (p + 1 + of_nat i) = m (p + 1 + of_nat i)" if "i \<le> length xs" for i
    using Cons.prems [of "Suc i"] that by (simp add: ac_simps)
  ultimately show ?case using Cons.IH [of "p + 1"] by simp
qed

lemma strlen_loop_cstring:
  "cstring m p xs \<Longrightarrow> strlen_loop str p m = Some (p + of_nat (length xs) - str)"
proof (induction xs arbitrary: p)
  case Nil
  then show ?case by (subst strlen_loop.simps) simp
next
  case (Cons x xs)
  then have "strlen_loop str p m = strlen_loop str (p + 1) m" by (subst strlen_loop.simps) simp
  with Cons show ?case by (simp add: ac_simps)
qed

lemma strlen_cstring: "cstring m p xs \<Longrightarrow> strlen p m = Some (of_nat (length xs))"
  by (simp add: strlen_def strlen_loop_cstring)

text \<open>Copying a string to a place the string is not at.\<close>

lemma strcpy_cstring:
  assumes "cstring m src xs" "length xs < 2 ^ 64" "span dst (Suc (length xs)) \<inter> span src (Suc (length xs)) = {}"
  shows "\<exists>m'. strcpy dst src m = Some m' \<and> cstring m' dst xs \<and> (\<forall>a. a \<notin> span dst (Suc (length xs)) \<longrightarrow> m' a = m a)"
  using assms
proof (induction xs arbitrary: src dst m)
  case Nil
  have "strcpy dst src m = Some (m(dst := 0))" using Nil.prems(1) by (subst strcpy.simps) simp
  then show ?case by (auto simp: span_iff)
next
  case (Cons x xs)
  let ?n = "length xs" and ?m = "m(dst := x)"
  have sub: "a \<in> span (p + 1) (Suc ?n) \<Longrightarrow> a \<in> span p (Suc (Suc ?n))" for a p :: u64
  proof (elim span_imageE)
    fix i assume i: "i < Suc ?n" "a = p + 1 + of_nat i"
    then have "a = p + of_nat (Suc i)" "Suc i < Suc (Suc ?n)" "Suc i < 2 ^ 64" using Cons.prems(2) by simp_all
    then show "a \<in> span p (Suc (Suc ?n))" by (simp only: span_offset)
  qed
  have apart: "span (dst + 1) (Suc ?n) \<inter> span (src + 1) (Suc ?n) = {}"
    using Cons.prems(3) sub by auto
  have dst: "dst \<in> span dst k" "src \<in> span src k" if "0 < k" for k using that by (simp_all add: span_iff)
  have "src + 1 + of_nat i \<noteq> dst" if "i \<le> ?n" for i
  proof
    assume "src + 1 + of_nat i = dst"
    then have "dst = src + of_nat (Suc i)" by (simp add: ac_simps)
    moreover have "src + of_nat (Suc i) \<in> span src (Suc (length (x # xs)))"
      using that Cons.prems(2) by (intro span_offset [THEN iffD2]) simp_all
    ultimately show False using Cons.prems(3) dst(1) [of "Suc (length (x # xs))"] by auto
  qed
  then have cs: "cstring ?m (src + 1) xs" using Cons.prems(1) by (subst cstring_cong [where m = m]) auto
  have len: "length xs < 2 ^ 64" using Cons.prems(2) by simp
  from Cons.IH [OF cs len apart] obtain m' where m':
    "strcpy (dst + 1) (src + 1) ?m = Some m'" "cstring m' (dst + 1) xs" "\<forall>a. a \<notin> span (dst + 1) (Suc ?n) \<longrightarrow> m' a = ?m a"
    by blast
  have "dst \<notin> span (dst + 1) (Suc ?n)"
  proof -
    have "unat (- 1 :: u64) = 2 ^ 64 - 1" by (simp add: unsigned_minus_1_eq_mask mask_eq_exp_minus_1)
    with Cons.prems(2) show ?thesis by (simp add: span_iff)
  qed
  then have "m' dst = x" using m'(3) by simp
  moreover have "strcpy dst src m = Some m'" using m'(1) Cons.prems(1) by (subst strcpy.simps) simp
  moreover have "m' a = m a" if "a \<notin> span dst (Suc (Suc ?n))" for a
    using m'(3) sub [of a dst] that dst(1) [of "Suc (Suc ?n)"] by (metis fun_upd_apply zero_less_Suc)
  ultimately show ?case using m'(2) Cons.prems(1) by auto
qed

section \<open>Digits\<close>

text \<open>The digits of a number, least significant first, and the number they stand for.\<close>

fun digits_le :: "nat \<Rightarrow> nat \<Rightarrow> nat list" where
  "digits_le r n = (if r < 2 \<or> n < r then [n] else n mod r # digits_le r (n div r))"

declare digits_le.simps [simp del]

definition from_digits :: "nat \<Rightarrow> nat list \<Rightarrow> nat" where
  "from_digits r ds = foldl (\<lambda>a d. a * r + d) 0 ds"

lemma from_digits_snoc: "from_digits r (ds @ [d]) = from_digits r ds * r + d"
  by (simp add: from_digits_def)

lemma digits_le_value: "from_digits r (rev (digits_le r n)) = n"
proof (induction r n rule: digits_le.induct)
  case (1 r n)
  then show ?case by (subst digits_le.simps) (auto simp: from_digits_snoc from_digits_def mult.commute)
qed

lemma digits_le_lt: "2 \<le> r \<Longrightarrow> d \<in> set (digits_le r n) \<Longrightarrow> d < r"
proof (induction r n rule: digits_le.induct)
  case (1 r n)
  then show ?case by (subst (asm) (2) digits_le.simps) (auto split: if_splits)
qed

lemma digits_le_length: "2 \<le> r \<Longrightarrow> n < r ^ k \<Longrightarrow> 0 < k \<Longrightarrow> length (digits_le r n) \<le> k"
proof (induction r n arbitrary: k rule: digits_le.induct)
  case (1 r n)
  show ?case
  proof (cases "n < r")
    case True
    with 1 show ?thesis by (subst digits_le.simps) simp
  next
    case False
    obtain j where j: "k = Suc j" using 1(4) by (cases k) auto
    have "0 < j" using False 1(3) j by (cases j) auto
    moreover have "n div r < r ^ j" using 1(2,3) j by (simp add: div_less_iff_less_mult mult.commute)
    ultimately have "length (digits_le r (n div r)) \<le> j" using 1(1) [of j] 1(2) False by simp
    with False 1(2) j show ?thesis by (subst digits_le.simps) simp
  qed
qed

lemma digits_le_nonempty: "digits_le r n \<noteq> []"
  by (subst digits_le.simps) simp

lemma ultoa_loop_digits:
  assumes "2 \<le> unat radix"
  shows "ultoa_loop num radix temp = Some (temp @ map (\<lambda>d. ultoa_char (of_nat d)) (digits_le (unat radix) (unat num)))"
  using assms
proof (induction "unat radix" "unat num" arbitrary: num temp rule: digits_le.induct)
  case (1 num)
  have m: "num mod radix = of_nat (unat num mod unat radix)" by (simp add: word_arith_nat_mod)
  have d: "unat (num div radix) = unat num div unat radix" by (simp add: unat_div)
  show ?case
  proof (cases "unat num < unat radix")
    case True
    then have "\<not> 0 < num div radix" using d by (simp add: word_less_nat_alt)
    with True m show ?thesis by (subst ultoa_loop.simps, subst digits_le.simps) (simp add: Let_def)
  next
    case False
    then have "0 < unat num div unat radix" using 1(2) by (simp add: div_greater_zero_iff)
    then have pos: "0 < num div radix" using d by (simp add: word_less_nat_alt)
    from 1(1) [OF _ d [symmetric]] False 1(2)
    have "ultoa_loop (num div radix) radix t = Some (t @ map (\<lambda>d. ultoa_char (of_nat d)) (digits_le (unat radix) (unat num div unat radix)))" for t
      by (simp add: d)
    with pos False m show ?thesis using 1(2)
      by (subst ultoa_loop.simps, subst digits_le.simps) (simp add: Let_def)
  qed
qed


text \<open>
  \<open>ultoa\<close> as a whole: the digits, most significant first, at \<open>str\<close>; nothing else is written and no
  terminator either. 64 digits are enough for any radix, so the local array of 65 never overflows.
\<close>

definition digits :: "nat \<Rightarrow> nat \<Rightarrow> nat list" where
  "digits r n = rev (digits_le r n)"

lemma digits_props:
  "from_digits r (digits r n) = n" "digits r n \<noteq> []"
  "2 \<le> r \<Longrightarrow> d \<in> set (digits r n) \<Longrightarrow> d < r"
  by (simp_all add: digits_def digits_le_value digits_le_lt digits_le_nonempty)

lemma digits_length64:
  assumes "2 \<le> r" "n < 2 ^ 64"
  shows "length (digits r n) \<le> 64"
proof -
  have "n < r ^ 64" using assms power_mono [of 2 r 64] by linarith
  with assms(1) show ?thesis unfolding digits_def length_rev by (rule digits_le_length) simp
qed

lemma ultoa_eq:
  fixes num radix :: u64
  assumes "2 \<le> unat radix"
  defines "cs \<equiv> map (\<lambda>d. ultoa_char (of_nat d)) (digits (unat radix) (unat num))"
  shows "ultoa num str radix m =
    Some (length cs, \<lambda>a. if a \<in> span str (length cs) then cs ! unat (a - str) else m a)"
proof -
  let ?t = "map (\<lambda>d. ultoa_char (of_nat d)) (digits_le (unat radix) (unat num))"
  have cs: "cs = rev ?t" by (simp add: cs_def digits_def rev_map)
  have len: "length cs \<le> 64"
    using digits_length64 [OF assms(1) unat_lt_exp64 [of num]] by (simp add: cs_def)
  have "ultoa num str radix m =
      Some (length cs, for_upto (length cs) (\<lambda>k m. m(str + of_nat k := ?t ! (length cs - 1 - k))) m)"
    using ultoa_loop_digits [OF assms(1), of num "[]"] by (simp add: ultoa_def cs)
  moreover have "for_upto (length cs) (\<lambda>k m. m(str + of_nat k := ?t ! (length cs - 1 - k))) m =
      (\<lambda>a. if a \<in> span str (length cs) then cs ! unat (a - str) else m a)"
  proof
    fix a
    have "length cs \<le> 2 ^ 64" using len by simp
    then show "for_upto (length cs) (\<lambda>k m. m(str + of_nat k := ?t ! (length cs - 1 - k))) m a =
        (if a \<in> span str (length cs) then cs ! unat (a - str) else m a)"
      by (subst for_upto_stores) (auto simp: span_iff cs rev_nth)
  qed
  ultimately show ?thesis by simp
qed

lemma ultoa_char_nat:
  assumes "d < 36"
  shows "ultoa_char (of_nat d) = (if d < 10 then of_nat (48 + d) else of_nat (55 + d))"
proof -
  have "(of_nat d :: u64) < 10 \<longleftrightarrow> d < 10" using assms by (simp add: word_less_nat_alt unat_of_nat64)
  moreover have "ucast (of_nat d :: u64) = (of_nat d :: u8)"
    using assms by (intro word_unat_eq_iff [THEN iffD2]) (simp add: unsigned_ucast_eq unat_of_nat take_bit_eq_mod)
  ultimately show ?thesis by (simp add: ultoa_char_def)
qed

lemma unat_ultoa_char: "d < 36 \<Longrightarrow> unat (ultoa_char (of_nat d)) = (if d < 10 then 48 + d else 55 + d)"
  using ultoa_char_nat [of d] by (simp add: unat_of_nat take_bit_eq_mod del: of_nat_add)

section \<open>Properties\<close>



text \<open>
  \<open>strcpy\<close> of a NUL-terminated string to memory it does not overlap returns, leaves a copy of the string
  with its terminator there and changes nothing else; \<open>strlen\<close> of the copy is the length of the string.
\<close>

theorem strcpy_copies_string:
  assumes "cstring m src xs" "length xs < 2 ^ 64" "span dst (Suc (length xs)) \<inter> span src (Suc (length xs)) = {}"
  shows "\<exists>m'. strcpy dst src m = Some m' \<and> cstring m' dst xs \<and> strlen dst m' = Some (of_nat (length xs)) \<and>
    (\<forall>a. a \<notin> span dst (Suc (length xs)) \<longrightarrow> m' a = m a)"
  using strcpy_cstring [OF assms] strlen_cstring by blast

theorem strcpy_copies_string_witness:
  "\<exists>m'. strcpy 0x200 0x100 (\<lambda>a. if a = 0x100 then 72 else if a = 0x101 then 105 else 0) = Some m' \<and>
     cstring m' 0x200 [72, 105]"
proof -
  have "span 0x200 3 \<inter> span 0x100 3 = {}"
  proof (rule equals0I)
    fix a :: u64 assume "a \<in> span 0x200 3 \<inter> span 0x100 3"
    then have "512 \<le> unat a" "unat a < 259"
      using span_nowrap [of "0x200" 3 a] span_nowrap [of "0x100" 3 a] by auto
    then show False by linarith
  qed
  then show ?thesis
    using strcpy_copies_string [of "\<lambda>a. if a = 0x100 then 72 else if a = 0x101 then 105 else 0" "0x100" "[72, 105]" "0x200"]
    by (auto simp: numeral_3_eq_3)
qed

end
