(* ===== verification/Bitmap_Alloc.thy ===== *)
theory Bitmap_Alloc
  imports Libc_String
begin

text \<open>
  The block allocator behind the virtual memory manager and the heap,
  \<^verbatim>\<open>src/kernel/mem/bitmap.c\<close> and \<^verbatim>\<open>include/mem/bitmap.h\<close>. A region of memory is cut into
  blocks; the first \<open>BM_BLOCKS\<close> of them hold a table of 2-bit ids, one per block, that lives in
  the region itself. The memory is the byte memory of the prelude, shared by the id table and
  the payload. Block counters (\<^verbatim>\<open>size_t\<close>) are naturals: each stays below the number of blocks
  of the region. Sizes, addresses and the fields of the descriptor keep their 64 bits.

  A block size of 0 would trap in the first division; every caller passes 16 or 4096 and the
  invariant \<open>wf_bitmap\<close> asks for a positive one.
\<close>

section \<open>Definitions\<close>

definition BITS_PER_ID :: nat where [kconst]: "BITS_PER_ID = 2"
definition BLOCKS_PER_INT :: nat where [kconst]: "BLOCKS_PER_INT = 8 div BITS_PER_ID"

record bitmap_t =
  bmp_size :: u64
  bmp_bsize :: u64
  bmp_used :: u64
  bmp_ffa :: u64
  bmp_bm :: u64

definition BM_BLOCKS :: "u64 \<Rightarrow> u64 \<Rightarrow> u64" where
  "BM_BLOCKS sz bsize = DIV_CEIL (DIV_CEIL (sz div bsize) (of_nat BLOCKS_PER_INT)) bsize"

definition set_bm :: "bytes \<Rightarrow> u64 \<Rightarrow> nat \<Rightarrow> u8 \<Rightarrow> bytes" where
  "set_bm m bm block bid =
     (let row = block div BLOCKS_PER_INT;
          col = (block mod BLOCKS_PER_INT) * BITS_PER_ID
      in m(bm + of_nat row :=
             m (bm + of_nat row) OR push_bit col (bid AND (push_bit BITS_PER_ID 1 - 1))))"

definition get_bm :: "bytes \<Rightarrow> u64 \<Rightarrow> nat \<Rightarrow> u8" where
  "get_bm m bm block =
     (let row = block div BLOCKS_PER_INT;
          col = (block mod BLOCKS_PER_INT) * BITS_PER_ID
      in m (bm + of_nat row) AND push_bit col (push_bit BITS_PER_ID 1 - 1))"

text \<open>The search for an id starts at \<open>c = 1\<close>; at most two values are taken, so it ends.\<close>

function bm_unique_id_loop :: "u8 \<Rightarrow> u8 \<Rightarrow> u8 \<Rightarrow> u8" where
  "bm_unique_id_loop c a b = (if c = a \<or> c = b then bm_unique_id_loop (c + 1) a b else c)"
  by pat_completeness auto
termination
proof (relation "measure (\<lambda>(c, a, b). LEAST n. c + of_nat n \<noteq> a \<and> c + of_nat n \<noteq> b)")
  show "wf (measure (\<lambda>(c, a, b). LEAST n. c + of_nat n \<noteq> a \<and> c + of_nat n \<noteq> b))" by simp
  fix c a b :: u8
  assume taken: "c = a \<or> c = b"
  let ?P = "\<lambda>c n. c + of_nat n \<noteq> a \<and> c + of_nat n \<noteq> b"
  have "?P c 0 \<or> ?P c 1 \<or> ?P c 2" by auto
  then obtain n where "?P c n" by blast
  then have least: "?P c (LEAST n. ?P c n)" by (rule LeastI)
  with taken obtain k where k: "(LEAST n. ?P c n) = Suc k"
    by (cases "LEAST n. ?P c n") auto
  with least have "?P (c + 1) k" by (simp add: add.assoc)
  then have "(LEAST n. ?P (c + 1) n) \<le> k" by (rule Least_le)
  with k show "((c + 1, a, b), c, a, b) \<in>
      measure (\<lambda>(c, a, b). LEAST n. c + of_nat n \<noteq> a \<and> c + of_nat n \<noteq> b)" by simp
qed

declare bm_unique_id_loop.simps [simp del]

definition bm_unique_id :: "u8 \<Rightarrow> u8 \<Rightarrow> u8" where
  "bm_unique_id a b = bm_unique_id_loop 1 a b"

definition init_bitmap :: "bitmap_t \<Rightarrow> u64 \<Rightarrow> u64 \<Rightarrow> bytes \<Rightarrow> bitmap_t \<times> bytes" where
  "init_bitmap b sz bsize m =
     (let b = b\<lparr>bmp_bsize := bsize, bmp_size := sz\<rparr>;
          bm = bmp_bm b;
          blocks = bmp_size b div bmp_bsize b;
          m = for_upto (unat blocks) (\<lambda>i m. set_bm m bm i 0) m;
          blocks = BM_BLOCKS (bmp_size b) (bmp_bsize b);
          m = for_upto (unat blocks) (\<lambda>i m. set_bm m bm i 1) m
      in (b\<lparr>bmp_ffa := blocks, bmp_used := blocks\<rparr>, m))"

text \<open>The inner loop of \<open>bm_alloc\<close>: how many blocks from \<open>i\<close> on are free, at most \<open>nblocks\<close>.\<close>

function bm_free_run :: "bytes \<Rightarrow> u64 \<Rightarrow> nat \<Rightarrow> nat \<Rightarrow> nat \<Rightarrow> nat \<Rightarrow> nat" where
  "bm_free_run m bm tblocks nblocks i fblocks =
     (if fblocks < nblocks \<and> i + fblocks < tblocks \<and> get_bm m bm (i + fblocks) = 0
      then bm_free_run m bm tblocks nblocks i (Suc fblocks) else fblocks)"
  by pat_completeness auto
termination
  by (relation "measure (\<lambda>(m, bm, tblocks, nblocks, i, fblocks). nblocks - fblocks)") auto

declare bm_free_run.simps [simp del]

text \<open>The outer loop: the start block of the run it settles on.\<close>

function bm_scan :: "bytes \<Rightarrow> u64 \<Rightarrow> nat \<Rightarrow> nat \<Rightarrow> nat \<Rightarrow> nat option" where
  "bm_scan m bm tblocks nblocks i =
     (if i < tblocks
      then if get_bm m bm i \<noteq> 0 then bm_scan m bm tblocks nblocks (Suc i)
           else let fblocks = bm_free_run m bm tblocks nblocks i 0 in
                if fblocks = nblocks then Some i
                else bm_scan m bm tblocks nblocks (Suc (i + fblocks))
      else None)"
  by pat_completeness auto
termination
  by (relation "measure (\<lambda>(m, bm, tblocks, nblocks, i). tblocks - i)") auto

declare bm_scan.simps [simp del]

definition bm_alloc :: "u64 \<Rightarrow> bitmap_t \<Rightarrow> bytes \<Rightarrow> u64 \<times> bitmap_t \<times> bytes" where
  "bm_alloc sz b m =
     (let tblocks = bmp_size b div bmp_bsize b;
          nblocks = DIV_CEIL sz (bmp_bsize b);
          bm = bmp_bm b
      in if tblocks - bmp_used b < nblocks then (NULL, b, m)
         else case bm_scan m bm (unat tblocks) (unat nblocks) (unat (bmp_ffa b)) of
           None \<Rightarrow> (NULL, b, m)
         | Some i \<Rightarrow>
             let fblocks = unat nblocks;
                 nid = bm_unique_id
                   (if 0 < i then get_bm m bm (i - 1) else 0)
                   (if i + fblocks < unat tblocks - 1 then get_bm m bm (i + fblocks) else 0);
                 m = for_upto fblocks (\<lambda>j m. set_bm m bm (i + j) nid) m;
                 b = (if of_nat i = bmp_ffa b then b\<lparr>bmp_ffa := of_nat (i + fblocks)\<rparr> else b)
             in (bm + of_nat i * bmp_bsize b,
                 b\<lparr>bmp_used := bmp_used b + of_nat fblocks\<rparr>, m))"

function bm_free_loop :: "u64 \<Rightarrow> nat \<Rightarrow> nat \<Rightarrow> u8 \<Rightarrow> nat \<Rightarrow> bytes \<Rightarrow> nat \<times> bytes" where
  "bm_free_loop bm tblocks sblock bid i m =
     (if get_bm m bm (sblock + i) = bid \<and> sblock + i < tblocks
      then bm_free_loop bm tblocks sblock bid (Suc i) (set_bm m bm (sblock + i) 0)
      else (i, m))"
  by pat_completeness auto
termination
  by (relation "measure (\<lambda>(bm, tblocks, sblock, bid, i, m). tblocks - (sblock + i))") auto

declare bm_free_loop.simps [simp del]

definition bm_free :: "u64 \<Rightarrow> bitmap_t \<Rightarrow> bytes \<Rightarrow> u64 \<times> bitmap_t \<times> bytes" where
  "bm_free ptr b m =
     (let start = bmp_bm b + BM_BLOCKS (bmp_size b) (bmp_bsize b) * bmp_bsize b;
          endp = bmp_bm b + bmp_size b
      in if start > ptr \<or> ptr \<ge> endp then (0, b, m)
         else let bm = bmp_bm b;
                  sblock = unat ((ptr - bm) div bmp_bsize b);
                  bid = get_bm m bm sblock;
                  (i, m) = bm_free_loop bm (unat (bmp_size b div bmp_bsize b)) sblock bid 0 m;
                  b = (if of_nat sblock < bmp_ffa b then b\<lparr>bmp_ffa := of_nat sblock\<rparr> else b)
              in (of_nat i * bmp_bsize b, b, m))"

text \<open>The length of the run of blocks with id \<open>bid\<close>, as \<open>bm_realloc\<close> measures it.\<close>

function bm_same_run :: "bytes \<Rightarrow> u64 \<Rightarrow> nat \<Rightarrow> nat \<Rightarrow> u8 \<Rightarrow> nat \<Rightarrow> nat" where
  "bm_same_run m bm tblocks sblock bid i =
     (if get_bm m bm (sblock + i) = bid \<and> sblock + i < tblocks
      then bm_same_run m bm tblocks sblock bid (Suc i) else i)"
  by pat_completeness auto
termination
  by (relation "measure (\<lambda>(m, bm, tblocks, sblock, bid, i). tblocks - (sblock + i))") auto

declare bm_same_run.simps [simp del]

definition bm_realloc :: "u64 \<Rightarrow> u64 \<Rightarrow> bitmap_t \<Rightarrow> bytes \<Rightarrow> u64 \<times> bitmap_t \<times> bytes" where
  "bm_realloc old new_size b m =
     (let start = bmp_bm b + BM_BLOCKS (bmp_size b) (bmp_bsize b) * bmp_bsize b;
          endp = bmp_bm b + bmp_size b
      in if start > old \<or> old \<ge> endp then (NULL, b, m)
         else let (new, b, m) = bm_alloc new_size b m;
                  bm = bmp_bm b;
                  sblock = unat ((old - bm) div bmp_bsize b);
                  bid = get_bm m bm sblock;
                  i = bm_same_run m bm (unat (bmp_size b div bmp_bsize b)) sblock bid 0;
                  m = memcpy new old (of_nat i * bmp_bsize b) m;
                  (_, b, m) = bm_free old b m
              in (new, b, m))"

section \<open>Specification\<close>

text \<open>
  \<open>bm_fits\<close>: block \<open>i\<close> starts a run of \<open>n\<close> free blocks. \<open>bm_tblocks\<close> and \<open>bm_reserved\<close> are the number
  of blocks of a region and of those under its id table, \<open>bm_used_blocks\<close> the blocks whose id is not
  0. \<open>wf_bitmap\<close> is the invariant: the region does not wrap around, the blocks under the id table
  are in use, \<open>used\<close> counts the blocks in use and nothing below \<open>ffa\<close> is free.
\<close>

definition bm_id_mask :: "nat \<Rightarrow> u8" where
  "bm_id_mask block = push_bit ((block mod 4) * 2) 3"

definition bm_fits :: "bytes \<Rightarrow> u64 \<Rightarrow> nat \<Rightarrow> nat \<Rightarrow> nat \<Rightarrow> bool" where
  "bm_fits m bm tblocks nblocks i \<longleftrightarrow>
     i < tblocks \<and> get_bm m bm i = 0 \<and>
     (\<forall>k<nblocks. i + k < tblocks \<and> get_bm m bm (i + k) = 0)"

definition bm_tblocks :: "bitmap_t \<Rightarrow> nat" where
  "bm_tblocks b = unat (bmp_size b div bmp_bsize b)"

definition bm_reserved :: "bitmap_t \<Rightarrow> nat" where
  "bm_reserved b = unat (BM_BLOCKS (bmp_size b) (bmp_bsize b))"

definition bm_addr :: "bitmap_t \<Rightarrow> nat \<Rightarrow> u64" where
  "bm_addr b i = bmp_bm b + of_nat i * bmp_bsize b"

definition region_ok :: "bitmap_t \<Rightarrow> bool" where
  "region_ok b \<longleftrightarrow> 0 < unat (bmp_bsize b) \<and> unat (bmp_bsize b) < 2 ^ 63 \<and>
     unat (bmp_size b) < 2 ^ 63 \<and> 0 < unat (bmp_bm b) \<and>
     unat (bmp_bm b) + unat (bmp_size b) < 2 ^ 64"

definition bm_used_blocks :: "bytes \<Rightarrow> bitmap_t \<Rightarrow> nat set" where
  "bm_used_blocks m b = {i. i < bm_tblocks b \<and> get_bm m (bmp_bm b) i \<noteq> 0}"

definition wf_bitmap :: "bytes \<Rightarrow> bitmap_t \<Rightarrow> bool" where
  "wf_bitmap m b \<longleftrightarrow> region_ok b \<and>
     {..<bm_reserved b} \<subseteq> bm_used_blocks m b \<and>
     unat (bmp_used b) = card (bm_used_blocks m b) \<and>
     unat (bmp_ffa b) \<le> bm_tblocks b \<and> {..<unat (bmp_ffa b)} \<subseteq> bm_used_blocks m b"

definition bm_nblocks :: "u64 \<Rightarrow> bitmap_t \<Rightarrow> nat" where
  "bm_nblocks sz b = unat (DIV_CEIL sz (bmp_bsize b))"

abbreviation bm_fits_in :: "bytes \<Rightarrow> bitmap_t \<Rightarrow> nat \<Rightarrow> nat \<Rightarrow> bool" where
  "bm_fits_in m b n i \<equiv> bm_fits m (bmp_bm b) (bm_tblocks b) n i"

definition bm_mark :: "bytes \<Rightarrow> bitmap_t \<Rightarrow> nat \<Rightarrow> nat \<Rightarrow> u8 \<Rightarrow> bytes" where
  "bm_mark m b i n v = for_upto n (\<lambda>j m. set_bm m (bmp_bm b) (i + j) v) m"

definition bm_taken :: "bitmap_t \<Rightarrow> nat \<Rightarrow> nat \<Rightarrow> bitmap_t" where
  "bm_taken b i n =
     b\<lparr>bmp_ffa := (if i = unat (bmp_ffa b) then of_nat (i + n) else bmp_ffa b),
       bmp_used := bmp_used b + of_nat n\<rparr>"

definition bm_block_of :: "bitmap_t \<Rightarrow> u64 \<Rightarrow> nat" where
  "bm_block_of b ptr = unat ((ptr - bmp_bm b) div bmp_bsize b)"

definition bm_in_payload :: "bitmap_t \<Rightarrow> u64 \<Rightarrow> bool" where
  "bm_in_payload b ptr \<longleftrightarrow> unat (bm_addr b (bm_reserved b)) \<le> unat ptr \<and>
     unat ptr < unat (bmp_bm b) + unat (bmp_size b)"

section \<open>Ids\<close>

lemma blocks_per_int: "BLOCKS_PER_INT = 4" "BITS_PER_ID = 2"
  by (simp_all add: kconst)

lemma get_bm_eq: "get_bm m bm i = m (bm + of_nat (i div 4)) AND bm_id_mask i"
  by (simp add: get_bm_def bm_id_mask_def blocks_per_int Let_def)

lemma set_bm_eq:
  "set_bm m bm i v = m(bm + of_nat (i div 4) := m (bm + of_nat (i div 4)) OR (push_bit ((i mod 4) * 2) v AND bm_id_mask i))"
  by (simp add: set_bm_def bm_id_mask_def blocks_per_int Let_def push_bit_and)

lemma mod4_cases: "i mod 4 = 0 \<or> i mod 4 = 1 \<or> i mod 4 = 2 \<or> i mod 4 = (3::nat)"
  by presburger

lemma id_mask_values:
  "bm_id_mask i \<in> {3, 12, 48, 192}"
  using mod4_cases [of i] by (auto simp: bm_id_mask_def)

lemma id_mask_disjoint: "i mod 4 \<noteq> j mod 4 \<Longrightarrow> bm_id_mask i AND bm_id_mask j = 0"
  using mod4_cases [of i] mod4_cases [of j] by (auto simp: bm_id_mask_def)

lemma row_eq_iff:
  "i div 4 < 2 ^ 64 \<Longrightarrow> j div 4 < 2 ^ 64 \<Longrightarrow>
     bm + of_nat (i div 4) = bm + (of_nat (j div 4) :: u64) \<longleftrightarrow> i div 4 = j div 4"
  by (simp add: of_nat_eq_iff64)

lemma get_set_bm:
  assumes "i div 4 < 2 ^ 64" "j div 4 < 2 ^ 64"
  shows "get_bm (set_bm m bm i v) bm j =
    (if i = j then get_bm m bm i OR (push_bit ((i mod 4) * 2) v AND bm_id_mask i) else get_bm m bm j)"
proof (cases "i div 4 = j div 4")
  case True
  show ?thesis
  proof (cases "i = j")
    case eq: True
    then show ?thesis by (simp add: get_bm_eq set_bm_eq word_ao_dist word_bw_assocs)
  next
    case False
    with True have "i mod 4 \<noteq> j mod 4" by (metis div_mult_mod_eq)
    then have "bm_id_mask i AND bm_id_mask j = 0" by (rule id_mask_disjoint)
    with False True show ?thesis
      by (simp add: get_bm_eq set_bm_eq word_ao_dist word_bw_assocs)
  qed
next
  case False
  with assms show ?thesis by (auto simp: get_bm_eq set_bm_eq row_eq_iff of_nat_eq_iff64)
qed

lemma set_bm_0 [simp]: "set_bm m bm i 0 = m"
  by (simp add: set_bm_eq)

lemma bm_unique_id_cases: "bm_unique_id a b \<in> {1, 2, 3} \<and> bm_unique_id a b \<noteq> a \<and> bm_unique_id a b \<noteq> b"
  by (simp add: bm_unique_id_def bm_unique_id_loop.simps [of 1 a b]
      bm_unique_id_loop.simps [of 2 a b] bm_unique_id_loop.simps [of 3 1 2]
      bm_unique_id_loop.simps [of 3 2 1])

lemma mark_nonzero:
  assumes "v \<in> {1, 2, 3}"
  shows "push_bit ((i mod 4) * 2) v AND bm_id_mask i \<noteq> 0"
  using assms mod4_cases [of i] by (auto simp: bm_id_mask_def)

lemma bm_free_run_spec:
  assumes "f \<le> n" and "\<forall>k<f. i + k < t \<and> get_bm m bm (i + k) = 0"
  defines "r \<equiv> bm_free_run m bm t n i f"
  shows "f \<le> r \<and> r \<le> n \<and> (\<forall>k<r. i + k < t \<and> get_bm m bm (i + k) = 0) \<and>
    (r < n \<longrightarrow> \<not> (i + r < t \<and> get_bm m bm (i + r) = 0))"
  unfolding r_def using assms(1,2)
proof (induction m bm t n i f rule: bm_free_run.induct)
  case (1 m bm t n i f)
  show ?case
  proof (cases "f < n \<and> i + f < t \<and> get_bm m bm (i + f) = 0")
    case True
    with 1 show ?thesis
      by (simp add: bm_free_run.simps [of m bm t n i f] less_Suc_eq) 
  next
    case False
    with 1(2,3) show ?thesis by (auto simp: bm_free_run.simps [of m bm t n i f])
  qed
qed

lemma bm_scan_spec:
  "case bm_scan m bm t n lo of
     None \<Rightarrow> \<forall>j\<ge>lo. \<not> bm_fits m bm t n j
   | Some i \<Rightarrow> lo \<le> i \<and> bm_fits m bm t n i \<and> (\<forall>j. lo \<le> j \<and> j < i \<longrightarrow> \<not> bm_fits m bm t n j)"
proof (induction m bm t n lo rule: bm_scan.induct)
  case (1 m bm t n i)
  let ?r = "bm_free_run m bm t n i 0"
  have r: "?r \<le> n" "\<And>k. k < ?r \<Longrightarrow> i + k < t \<and> get_bm m bm (i + k) = 0"
    "?r < n \<Longrightarrow> \<not> (i + ?r < t \<and> get_bm m bm (i + ?r) = 0)"
    using bm_free_run_spec [of 0 n i t m bm] by auto
  consider "\<not> i < t" | "i < t" "get_bm m bm i \<noteq> 0" | "i < t" "get_bm m bm i = 0" "?r = n"
    | "i < t" "get_bm m bm i = 0" "?r < n" using r(1) by linarith
  then show ?case
  proof cases
    case a: 1
    then show ?thesis by (auto simp: bm_scan.simps [of m bm t n i] bm_fits_def)
  next
    case 2
    then have "\<not> bm_fits m bm t n i" by (simp add: bm_fits_def)
    with 1(1) 2 show ?thesis
      by (auto simp: bm_scan.simps [of m bm t n i] Suc_le_eq split: option.splits)
        (metis le_neq_implies_less)+
  next
    case 3
    with r(2) show ?thesis
      by (auto simp: bm_scan.simps [of m bm t n i] bm_fits_def)
  next
    case 4
    have no: "\<not> bm_fits m bm t n j" if "i \<le> j" "j \<le> i + ?r" for j
    proof -
      from that 4(3) have "i + ?r - j < n" "j + (i + ?r - j) = i + ?r" by auto
      with r(3) [OF 4(3)] show ?thesis by (metis bm_fits_def)
    qed
    with 1(2) 4 show ?thesis
      by (auto simp: bm_scan.simps [of m bm t n i] Suc_le_eq split: option.splits)
        (metis not_le)+
  qed
qed

lemma bm_scan_SomeD:
  assumes "bm_scan m bm t n lo = Some i"
  shows "lo \<le> i" "bm_fits m bm t n i" "\<And>j. lo \<le> j \<Longrightarrow> j < i \<Longrightarrow> \<not> bm_fits m bm t n j"
  using bm_scan_spec [where m = m and bm = bm and t = t and n = n and lo = lo] assms by auto

lemma bm_scan_NoneD: "bm_scan m bm t n lo = None \<Longrightarrow> lo \<le> j \<Longrightarrow> \<not> bm_fits m bm t n j"
  using bm_scan_spec [where m = m and bm = bm and t = t and n = n and lo = lo] by auto

subsection \<open>Marking a run\<close>

lemma mark_run_get:
  assumes "v \<in> {1, 2, 3}" "i + n \<le> 2 ^ 64" "k < 2 ^ 64"
  shows "get_bm (for_upto n (\<lambda>j m. set_bm m bm (i + j) v) m) bm k = 0 \<longleftrightarrow>
    get_bm m bm k = 0 \<and> \<not> (i \<le> k \<and> k < i + n)"
  using assms(2)
proof (induction n)
  case (Suc n)
  have "get_bm (for_upto (Suc n) (\<lambda>j m. set_bm m bm (i + j) v) m) bm k = 0 \<longleftrightarrow>
     get_bm (for_upto n (\<lambda>j m. set_bm m bm (i + j) v) m) bm k = 0 \<and> k \<noteq> i + n"
    using Suc.prems assms(3) mark_nonzero [OF assms(1), of "i + n"]
    by (auto simp: get_set_bm or_eq_0_iff)
  with Suc show ?case by auto
qed auto

lemma mark_run_other:
  assumes "\<And>k. i \<le> k \<Longrightarrow> k < i + n \<Longrightarrow> a \<noteq> bm + of_nat (k div 4)"
  shows "for_upto n (\<lambda>j m. set_bm m bm (i + j) v) m a = m a"
  using assms by (induction n) (auto simp: set_bm_eq)

section \<open>The region and its invariant\<close>

lemma bm_tblocks_eq: "bm_tblocks b = unat (bmp_size b) div unat (bmp_bsize b)"
  by (simp add: bm_tblocks_def unat_div)

lemma bm_tblocks_less [simp]: "bm_tblocks b < 2 ^ 64"
  by (simp only: bm_tblocks_def unat_lt_exp64)

lemma bm_blocks_in_region: "bm_tblocks b * unat (bmp_bsize b) \<le> unat (bmp_size b)"
  by (simp add: bm_tblocks_eq)

lemma bm_reserved_eq:
  assumes "region_ok b"
  shows "bm_reserved b =
    ((bm_tblocks b + 3) div 4 + (unat (bmp_bsize b) - 1)) div unat (bmp_bsize b)"
proof -
  let ?t = "bmp_size b div bmp_bsize b"
  have t: "unat ?t < 2 ^ 63"
    using assms by (simp add: region_ok_def unat_div) (metis div_le_dividend le_less_trans)
  then have rows: "unat (DIV_CEIL ?t 4) = (unat ?t + 3) div 4"
    by (subst unat_DIV_CEIL) auto
  with t have "unat (DIV_CEIL ?t 4) < 2 ^ 62" by simp
  then have "unat (DIV_CEIL (DIV_CEIL ?t 4) (bmp_bsize b)) =
      (unat (DIV_CEIL ?t 4) + (unat (bmp_bsize b) - 1)) div unat (bmp_bsize b)"
    using assms by (subst unat_DIV_CEIL) (auto simp: region_ok_def word_less_nat_alt)
  with rows show ?thesis
    by (simp add: bm_reserved_def BM_BLOCKS_def blocks_per_int bm_tblocks_def)
qed

text \<open>The id table fits into the reserved blocks, which are blocks of the region.\<close>

lemma bm_table_fits:
  assumes "region_ok b" "i < bm_tblocks b"
  shows "i div 4 < bm_reserved b * unat (bmp_bsize b)"
proof -
  from assms(1) have "0 < unat (bmp_bsize b)" by (simp add: region_ok_def)
  then have "(bm_tblocks b + 3) div 4 \<le> bm_reserved b * unat (bmp_bsize b)"
    unfolding bm_reserved_eq [OF assms(1)] by (rule nat_div_ceil_bounds)
  with assms(2) show ?thesis by linarith
qed

lemma bm_reserved_le: "region_ok b \<Longrightarrow> bm_reserved b \<le> bm_tblocks b"
proof -
  assume ok: "region_ok b"
  let ?x = "(bm_tblocks b + 3) div 4" and ?d = "unat (bmp_bsize b)"
  have d: "0 < ?d" using ok by (simp add: region_ok_def)
  have "(?x + (?d - 1)) div ?d \<le> ?x"
  proof (cases "?x = 0")
    case False
    with d have "?x + (?d - 1) \<le> ?x * ?d" by (intro add_pred_le_mult) auto
    then have "(?x + (?d - 1)) div ?d \<le> ?x * ?d div ?d" by (rule div_le_mono)
    with d show ?thesis by simp
  qed (use d in simp)
  also have "?x \<le> bm_tblocks b" by linarith
  finally show ?thesis by (simp add: bm_reserved_eq [OF ok])
qed

lemma unat_bm_addr:
  assumes "region_ok b" "i \<le> bm_tblocks b"
  shows "unat (bm_addr b i) = unat (bmp_bm b) + i * unat (bmp_bsize b)"
proof -
  have le: "i * unat (bmp_bsize b) \<le> unat (bmp_size b)"
    using assms(2) bm_blocks_in_region [of b] mult_le_mono1 [OF assms(2)] order_trans by blast
  have i: "unat (of_nat i :: u64) = i"
    using assms(2) by (intro unat_of_nat64) (metis bm_tblocks_less le_less_trans)
  have "unat (of_nat i * bmp_bsize b) = i * unat (bmp_bsize b)"
    using le i assms(1) by (subst unat_mult_nowrap) (auto simp: region_ok_def)
  with le assms(1) show ?thesis
    unfolding bm_addr_def by (subst unat_add_nowrap) (auto simp: region_ok_def)
qed

section \<open>Allocation\<close>

lemma bm_used_blocks_finite [simp]: "finite (bm_used_blocks m b)"
  by (simp add: bm_used_blocks_def)

lemma card_used_le: "card (bm_used_blocks m b) \<le> bm_tblocks b"
  using card_mono [of "{..<bm_tblocks b}" "bm_used_blocks m b"]
  by (auto simp: bm_used_blocks_def)

lemma bm_fits_room:
  assumes "bm_fits_in m b n i"
  shows "{i..<i + n} \<inter> bm_used_blocks m b = {}" "i + n \<le> bm_tblocks b"
    "n + card (bm_used_blocks m b) \<le> bm_tblocks b"
proof -
  have fit: "i + k < bm_tblocks b \<and> get_bm m (bmp_bm b) (i + k) = 0" if "k < n" for k
    using assms that by (simp add: bm_fits_def)
  have "get_bm m (bmp_bm b) k = 0" if "i \<le> k" "k < i + n" for k
    using fit [of "k - i"] that by simp
  then show dis: "{i..<i + n} \<inter> bm_used_blocks m b = {}"
    by (auto simp: bm_used_blocks_def)
  show le: "i + n \<le> bm_tblocks b"
    using fit [of "n - 1"] assms by (cases n) (auto simp: bm_fits_def)
  have "{i..<i + n} \<union> bm_used_blocks m b \<subseteq> {..<bm_tblocks b}"
    using le by (auto simp: bm_used_blocks_def)
  then have "card ({i..<i + n} \<union> bm_used_blocks m b) \<le> bm_tblocks b"
    using card_mono [of "{..<bm_tblocks b}"] by fastforce
  with dis show "n + card (bm_used_blocks m b) \<le> bm_tblocks b"
    by (simp add: card_Un_disjoint)
qed

lemma wf_room:
  assumes "wf_bitmap m b"
  shows "unat (bmp_size b div bmp_bsize b - bmp_used b) =
    bm_tblocks b - card (bm_used_blocks m b)"
  using assms card_used_le [of m b]
  by (subst unat_sub_le) (auto simp: wf_bitmap_def word_le_nat_alt bm_tblocks_def)

lemma bm_fits_above_ffa: "wf_bitmap m b \<Longrightarrow> bm_fits_in m b n i \<Longrightarrow> unat (bmp_ffa b) \<le> i"
  by (auto simp: wf_bitmap_def bm_fits_def bm_used_blocks_def subset_iff not_le [symmetric])

lemma bm_alloc_cases:
  assumes wf: "wf_bitmap m b"
  obtains (none) "bm_alloc sz b m = (NULL, b, m)" "\<And>i. \<not> bm_fits_in m b (bm_nblocks sz b) i"
  | (some) i v where "bm_alloc sz b m =
        (bm_addr b i, bm_taken b i (bm_nblocks sz b), bm_mark m b i (bm_nblocks sz b) v)"
      "bm_fits_in m b (bm_nblocks sz b) i" "\<And>j. j < i \<Longrightarrow> \<not> bm_fits_in m b (bm_nblocks sz b) j"
      "v \<in> {1, 2, 3}"
proof -
  let ?n = "bm_nblocks sz b" and ?lo = "unat (bmp_ffa b)"
  let ?scan = "bm_scan m (bmp_bm b) (bm_tblocks b) ?n ?lo"
  show ?thesis
  proof (cases "bmp_size b div bmp_bsize b - bmp_used b < DIV_CEIL sz (bmp_bsize b)")
    case True
    then have "bm_tblocks b - card (bm_used_blocks m b) < ?n"
      by (simp add: word_less_nat_alt wf_room [OF wf] bm_nblocks_def)
    then have "\<not> bm_fits_in m b ?n i" for i using bm_fits_room(3) [of m b ?n i] by auto
    then show ?thesis using True none by (simp add: bm_alloc_def)
  next
    case room: False
    show ?thesis
    proof (cases ?scan)
      case None
      then have "\<not> bm_fits_in m b ?n i" for i
        using bm_scan_NoneD bm_fits_above_ffa [OF wf] by blast
      with None room show ?thesis
        by (intro none) (simp_all add: bm_alloc_def bm_tblocks_def bm_nblocks_def)
    next
      case (Some i)
      note found = bm_scan_SomeD [OF Some]
      let ?v = "bm_unique_id (if 0 < i then get_bm m (bmp_bm b) (i - 1) else 0)
         (if i + ?n < bm_tblocks b - 1 then get_bm m (bmp_bm b) (i + ?n) else 0)"
      have "i < 2 ^ 64" using found(2) bm_tblocks_less [of b] by (simp add: bm_fits_def)
      then have "of_nat i = bmp_ffa b \<longleftrightarrow> i = unat (bmp_ffa b)"
        by (metis unat_of_nat64 word_unat_eq_iff)
      then have "bm_alloc sz b m = (bm_addr b i, bm_taken b i ?n, bm_mark m b i ?n ?v)"
        using room Some
        by (simp add: bm_alloc_def bm_tblocks_def bm_nblocks_def Let_def bm_addr_def bm_taken_def
            bm_mark_def)
      moreover have "\<not> bm_fits_in m b ?n j" if "j < i" for j
        using found(3) that bm_fits_above_ffa [OF wf] by blast
      ultimately show ?thesis using some found(2) bm_unique_id_cases by blast
    qed
  qed
qed

lemma bm_taken_fields [simp]:
  "bmp_size (bm_taken b i n) = bmp_size b" "bmp_bsize (bm_taken b i n) = bmp_bsize b"
  "bmp_bm (bm_taken b i n) = bmp_bm b" "bm_tblocks (bm_taken b i n) = bm_tblocks b"
  "bm_reserved (bm_taken b i n) = bm_reserved b" "region_ok (bm_taken b i n) = region_ok b"
  "bm_used_blocks m (bm_taken b i n) = bm_used_blocks m b"
  "bm_addr (bm_taken b i n) = bm_addr b" "bmp_used (bm_taken b i n) = bmp_used b + of_nat n"
  "bmp_ffa (bm_taken b i n) = (if i = unat (bmp_ffa b) then of_nat (i + n) else bmp_ffa b)"
  by (simp_all add: bm_taken_def bm_tblocks_def bm_reserved_def region_ok_def bm_used_blocks_def
      bm_addr_def fun_eq_iff)

lemma used_blocks_mark:
  assumes "v \<in> {1, 2, 3}" "i + n \<le> bm_tblocks b"
  shows "bm_used_blocks (bm_mark m b i n v) b = bm_used_blocks m b \<union> {i..<i + n}"
proof -
  have "get_bm (bm_mark m b i n v) (bmp_bm b) k = 0 \<longleftrightarrow>
      get_bm m (bmp_bm b) k = 0 \<and> \<not> (i \<le> k \<and> k < i + n)" if "k < bm_tblocks b" for k
    unfolding bm_mark_def using assms that bm_tblocks_less [of b]
    by (intro mark_run_get) linarith+
  with assms(2) show ?thesis by (auto simp: bm_used_blocks_def)
qed

text \<open>Marking writes the id table only, so no payload byte changes.\<close>

lemma mark_payload:
  assumes ok: "region_ok b" and "i + n \<le> bm_tblocks b"
    and a: "a \<notin> span (bmp_bm b) (bm_reserved b * unat (bmp_bsize b))"
  shows "bm_mark m b i n v a = m a"
  unfolding bm_mark_def
proof (rule mark_run_other)
  fix k assume k: "i \<le> k" "k < i + n"
  with assms(2) have "k < bm_tblocks b" by simp
  then have "k div 4 < bm_reserved b * unat (bmp_bsize b)" "k div 4 < 2 ^ 64"
    using bm_table_fits [OF ok] bm_tblocks_less [of b] by (simp, linarith)
  then show "a \<noteq> bmp_bm b + of_nat (k div 4)" using a by auto
qed

lemma wf_bitmap_taken:
  assumes wf: "wf_bitmap m b" and fit: "bm_fits_in m b n i" and v: "v \<in> {1, 2, 3}"
  shows "wf_bitmap (bm_mark m b i n v) (bm_taken b i n)"
proof -
  note room = bm_fits_room [OF fit]
  note used = used_blocks_mark [OF v room(2), of m]
  have small: "i + n < 2 ^ 64" "n < 2 ^ 64" "card (bm_used_blocks m b) + n < 2 ^ 64"
    using room(2,3) bm_tblocks_less [of b] by linarith+
  have "card (bm_used_blocks m b \<union> {i..<i + n}) = card (bm_used_blocks m b) + n"
    using room(1) by (subst card_Un_disjoint) auto
  moreover have "unat (bmp_used b + of_nat n) = card (bm_used_blocks m b) + n"
    using wf small by (subst unat_add_nowrap) (auto simp: wf_bitmap_def unat_of_nat64)
  moreover have "unat (of_nat (i + n) :: u64) = i + n"
    by (rule unat_of_nat64 [OF small(1)])
  ultimately show ?thesis
    using wf room(2) used by (auto simp: wf_bitmap_def subset_iff simp del: of_nat_add)
qed

lemma bm_alloc_wf:
  assumes "wf_bitmap m b" "bm_alloc sz b m = (p, b', m')"
  shows "wf_bitmap m' b'"
  using assms(1)
proof (cases rule: bm_alloc_cases [where sz = sz])
  case none
  with assms show ?thesis by simp
next
  case (some i v)
  with assms wf_bitmap_taken show ?thesis by auto
qed

section \<open>Release\<close>

text \<open>
  \<open>set_bm\<close> can only set bits, so the loop of \<open>bm_free\<close> that stores id 0 stores nothing; and since
  \<open>get_bm\<close> does not shift the id down, the ids of two neighbouring blocks are never equal unless
  both are 0, so the loop stops after one block.
\<close>

lemma bm_free_loop_eq:
  "bm_free_loop bm t s bid i m = (bm_same_run m bm t s bid i, m)"
  by (induction bm t s bid i m rule: bm_free_loop.induct)
    (simp add: bm_free_loop.simps bm_same_run.simps)

lemma get_bm_masked: "get_bm m bm i AND bm_id_mask i = get_bm m bm i"
  by (simp add: get_bm_eq word_bw_assocs)

lemma neighbour_ids_differ:
  assumes "get_bm m bm s \<noteq> 0"
  shows "get_bm m bm (Suc s) \<noteq> get_bm m bm s"
proof
  assume eq: "get_bm m bm (Suc s) = get_bm m bm s"
  have "bm_id_mask s AND bm_id_mask (Suc s) = 0" by (rule id_mask_disjoint) presburger
  then have "(get_bm m bm s AND bm_id_mask s) AND bm_id_mask (Suc s) = 0"
    by (simp add: word_bw_assocs)
  then have "get_bm m bm (Suc s) = 0"
    using eq get_bm_masked [of m bm s] get_bm_masked [of m bm "Suc s"] by simp
  with eq assms show False by simp
qed

lemma bm_same_run_used:
  assumes "get_bm m bm s \<noteq> 0" "s < t"
  shows "bm_same_run m bm t s (get_bm m bm s) 0 = 1"
  using assms neighbour_ids_differ [OF assms(1)]
  by (simp add: bm_same_run.simps [of m bm t s _ 0] bm_same_run.simps [of m bm t s _ "Suc 0"])

lemma bm_in_payload_iff:
  assumes "region_ok b"
  shows "bm_in_payload b ptr \<longleftrightarrow>
    \<not> (bmp_bm b + BM_BLOCKS (bmp_size b) (bmp_bsize b) * bmp_bsize b > ptr \<or>
       ptr \<ge> bmp_bm b + bmp_size b)"
proof -
  have "unat (bmp_bm b + bmp_size b) = unat (bmp_bm b) + unat (bmp_size b)"
    using assms by (subst unat_add_nowrap) (auto simp: region_ok_def)
  moreover have "bm_addr b (bm_reserved b) =
      bmp_bm b + BM_BLOCKS (bmp_size b) (bmp_bsize b) * bmp_bsize b"
    by (simp add: bm_addr_def bm_reserved_def)
  ultimately show ?thesis
    by (auto simp: bm_in_payload_def word_less_nat_alt word_le_nat_alt)
qed

lemma bm_block_of_bounds:
  assumes ok: "region_ok b" and ptr: "bm_in_payload b ptr"
  shows "bm_reserved b \<le> bm_block_of b ptr" "bm_block_of b ptr < 2 ^ 64"
    "bm_block_of b ptr \<le> bm_tblocks b"
proof -
  let ?d = "unat (bmp_bsize b)"
  have d: "0 < ?d" using ok by (simp add: region_ok_def)
  have r: "unat (bm_addr b (bm_reserved b)) = unat (bmp_bm b) + bm_reserved b * ?d"
    by (rule unat_bm_addr [OF ok bm_reserved_le [OF ok]])
  have "bmp_bm b \<le> ptr" using ptr r by (simp add: bm_in_payload_def word_le_nat_alt)
  then have eq: "bm_block_of b ptr = (unat ptr - unat (bmp_bm b)) div ?d"
    by (simp add: bm_block_of_def unat_div unat_sub_le)
  have "bm_reserved b * ?d \<le> unat ptr - unat (bmp_bm b)"
    using ptr r unfolding bm_in_payload_def by linarith
  from div_le_mono [OF this, of ?d] d show "bm_reserved b \<le> bm_block_of b ptr"
    by (simp add: eq)
  show "bm_block_of b ptr < 2 ^ 64" by (simp only: bm_block_of_def unat_lt_exp64)
  have "unat ptr - unat (bmp_bm b) \<le> unat (bmp_size b)"
    using ptr unfolding bm_in_payload_def by linarith
  from div_le_mono [OF this] show "bm_block_of b ptr \<le> bm_tblocks b"
    by (simp add: eq bm_tblocks_eq)
qed

lemma bm_free_eq:
  assumes ok: "region_ok b"
  shows "bm_free ptr b m =
    (if bm_in_payload b ptr
     then (of_nat (bm_same_run m (bmp_bm b) (bm_tblocks b) (bm_block_of b ptr)
             (get_bm m (bmp_bm b) (bm_block_of b ptr)) 0) * bmp_bsize b,
           b\<lparr>bmp_ffa := min (bmp_ffa b) (of_nat (bm_block_of b ptr))\<rparr>, m)
     else (0, b, m))"
  using bm_in_payload_iff [OF ok, of ptr]
  by (auto simp: bm_free_def bm_free_loop_eq Let_def bm_block_of_def bm_tblocks_def min_def not_le
      not_less)

lemma bm_free_wf:
  assumes wf: "wf_bitmap m b" and free: "bm_free ptr b m = (freed, b', m')"
  shows "wf_bitmap m' b' \<and> m' = m \<and> bm_used_blocks m b' = bm_used_blocks m b"
proof (cases "bm_in_payload b ptr")
  case True
  let ?s = "bm_block_of b ptr" 
  let ?b = "b\<lparr>bmp_ffa := min (bmp_ffa b) (of_nat ?s)\<rparr>"
  have ok: "region_ok b" using wf by (simp add: wf_bitmap_def)
  have eq: "b' = ?b" "m' = m" using free True by (auto simp: bm_free_eq [OF ok])
  have fields: "bm_tblocks ?b = bm_tblocks b" "bm_reserved ?b = bm_reserved b"
    "region_ok ?b = region_ok b" "bm_used_blocks m ?b = bm_used_blocks m b"
    by (simp_all add: bm_tblocks_def bm_reserved_def region_ok_def bm_used_blocks_def)
  have "unat (bmp_ffa ?b) \<le> unat (bmp_ffa b)"
    by (simp add: word_le_nat_alt [symmetric])
  then show ?thesis using wf eq fields by (auto simp: wf_bitmap_def subset_iff)
next
  case False
  with assms show ?thesis by (auto simp: bm_free_eq wf_bitmap_def)
qed

lemma bm_free_used_block:
  assumes "region_ok b" "bm_in_payload b ptr"
    "bm_block_of b ptr \<in> bm_used_blocks m b"
  shows "bm_free ptr b m =
    (bmp_bsize b, b\<lparr>bmp_ffa := min (bmp_ffa b) (of_nat (bm_block_of b ptr))\<rparr>, m)"
  using assms bm_same_run_used [of m "bmp_bm b" "bm_block_of b ptr" "bm_tblocks b"]
  by (simp add: bm_free_eq bm_used_blocks_def)

section \<open>Initialisation and reallocation\<close>

lemma init_bitmap_eq:
  "init_bitmap b sz bsize m =
    (let b = b\<lparr>bmp_bsize := bsize, bmp_size := sz, bmp_ffa := BM_BLOCKS sz bsize,
               bmp_used := BM_BLOCKS sz bsize\<rparr>
     in (b, bm_mark m b 0 (bm_reserved b) 1))"
  by (simp add: init_bitmap_def for_upto_id bm_mark_def bm_reserved_def Let_def)

lemma init_bitmap_wf:
  assumes ok: "region_ok (b\<lparr>bmp_bsize := bsize, bmp_size := sz\<rparr>)"
    and zero: "\<And>i. i < unat (sz div bsize) \<Longrightarrow> get_bm m (bmp_bm b) i = 0"
    and init: "init_bitmap b sz bsize m = (b', m')"
  shows "wf_bitmap m' b' \<and> bm_used_blocks m' b' = {..<bm_reserved b'}"
proof -
  have b': "bmp_size b' = sz" "bmp_bsize b' = bsize" "bmp_bm b' = bmp_bm b"
    "unat (bmp_ffa b') = bm_reserved b'" "unat (bmp_used b') = bm_reserved b'"
    and m': "m' = bm_mark m b' 0 (bm_reserved b') 1"
    using init by (auto simp: init_bitmap_eq bm_reserved_def Let_def)
  have ok': "region_ok b'" using ok b' by (simp add: region_ok_def)
  have none: "bm_used_blocks m b' = {}"
    using zero b' by (auto simp: bm_used_blocks_def bm_tblocks_def)
  have used: "bm_used_blocks m' b' = {..<bm_reserved b'}"
    unfolding m' by (subst used_blocks_mark)
      (use bm_reserved_le [OF ok'] none in \<open>auto simp: atLeast0LessThan\<close>)
  then show ?thesis using ok' b' bm_reserved_le [OF ok'] by (simp add: wf_bitmap_def)
qed

lemma init_bitmap_keeps_ids:
  assumes "get_bm m (bmp_bm b) i \<noteq> 0" "i < 2 ^ 64" "init_bitmap b sz bsize m = (b', m')"
  shows "get_bm m' (bmp_bm b) i \<noteq> 0"
proof -
  have "m' = for_upto (bm_reserved b') (\<lambda>j m. set_bm m (bmp_bm b) (0 + j) 1) m"
    using assms(3) by (auto simp: init_bitmap_eq bm_mark_def Let_def)
  moreover have "0 + bm_reserved b' \<le> 2 ^ 64"
    using unat_lt_exp64 by (simp add: bm_reserved_def less_imp_le)
  ultimately show ?thesis using assms(1,2) mark_run_get [of 1 0 "bm_reserved b'" i "bmp_bm b" m]
    by simp
qed

lemma bm_realloc_outside:
  "region_ok b \<Longrightarrow> \<not> bm_in_payload b old \<Longrightarrow> bm_realloc old sz b m = (NULL, b, m)"
  using bm_in_payload_iff [of b old] by (auto simp: bm_realloc_def)

text \<open>\<open>bm_realloc\<close> of a used block copies exactly one block, whatever was allocated there.\<close>

lemma bm_realloc_eq:
  assumes wf: "wf_bitmap m b" and ptr: "bm_in_payload b old"
    and used: "bm_block_of b old \<in> bm_used_blocks m b"
    and alloc: "bm_alloc sz b m = (new, b1, m1)"
  shows "bm_realloc old sz b m =
    (new, b1\<lparr>bmp_ffa := min (bmp_ffa b1) (of_nat (bm_block_of b old))\<rparr>,
     memcpy new old (bmp_bsize b) m1)"
proof -
  have ok: "region_ok b" using wf by (simp add: wf_bitmap_def)
  have same: "bmp_bm b1 = bmp_bm b" "bmp_size b1 = bmp_size b" "bmp_bsize b1 = bmp_bsize b"
    "bm_used_blocks m b \<subseteq> bm_used_blocks m1 b1"
    using wf alloc by (cases rule: bm_alloc_cases [where sz = sz];
        auto dest: bm_fits_room(2) simp: used_blocks_mark)+
  have derived: "bm_tblocks b1 = bm_tblocks b" "bm_block_of b1 = bm_block_of b"
    "bm_in_payload b1 = bm_in_payload b" "region_ok b1 = region_ok b"
    by (simp_all add: same bm_tblocks_def bm_block_of_def bm_in_payload_def region_ok_def
        bm_addr_def bm_reserved_def fun_eq_iff)
  let ?s = "bm_block_of b old"
  have "?s < bm_tblocks b" "get_bm m1 (bmp_bm b) ?s \<noteq> 0"
    using used same derived(1) by (auto simp: bm_used_blocks_def)
  then have run: "bm_same_run m1 (bmp_bm b) (bm_tblocks b) ?s (get_bm m1 (bmp_bm b) ?s) 0 = 1"
    by (intro bm_same_run_used)
  have "\<not> (bmp_bm b + BM_BLOCKS (bmp_size b) (bmp_bsize b) * bmp_bsize b > old \<or>
       old \<ge> bmp_bm b + bmp_size b)"
    using bm_in_payload_iff [OF ok] ptr by blast
  moreover obtain freed where "bm_free old b1 (memcpy new old (bmp_bsize b) m1) =
     (freed, b1\<lparr>bmp_ffa := min (bmp_ffa b1) (of_nat ?s)\<rparr>, memcpy new old (bmp_bsize b) m1)"
    using ok ptr derived by (simp add: bm_free_eq)
  ultimately show ?thesis
    using run alloc same derived
    by (simp add: bm_realloc_def Let_def bm_block_of_def bm_tblocks_def)
qed

section \<open>The contract of a block allocator\<close>

text \<open>Blocks claimed one after the other: each is disjoint from what was taken before it.\<close>

fun claimed_apart :: "nat set \<Rightarrow> nat set list \<Rightarrow> bool" where
  "claimed_apart T [] \<longleftrightarrow> True"
| "claimed_apart T (B # Bs) \<longleftrightarrow> B \<inter> T = {} \<and> claimed_apart (T \<union> B) Bs"

lemma claimed_apart_mono: "claimed_apart T Bs \<Longrightarrow> S \<subseteq> T \<Longrightarrow> claimed_apart S Bs"
  by (induction Bs arbitrary: S T) (auto, metis Un_mono order_refl)

lemma claimed_apart_disjoint: "claimed_apart T Bs \<Longrightarrow> B \<in> set Bs \<Longrightarrow> B \<inter> T = {}"
  by (induction Bs arbitrary: T) auto

lemma claimed_apart_pairwise:
  "claimed_apart T Bs \<Longrightarrow> i < j \<Longrightarrow> j < length Bs \<Longrightarrow> Bs ! i \<inter> Bs ! j = {}"
proof (induction Bs arbitrary: T i j)
  case (Cons B Bs)
  show ?case
  proof (cases i)
    case 0
    with Cons.prems claimed_apart_disjoint [of "T \<union> B" Bs "Bs ! (j - 1)"] show ?thesis
      by (cases j) auto
  next
    case (Suc i')
    with Cons.prems Cons.IH [of "T \<union> B" i' "j - 1"] show ?thesis by (cases j) auto
  qed
qed simp

text \<open>
  A client's history: a list of allocations and releases, run one after the other. The first
  component of the result lists the pointers handed out, with the size asked for.
\<close>

datatype bm_op = Op_alloc u64 | Op_free u64

fun bm_run :: "(u64 \<Rightarrow> 'b \<Rightarrow> 'm \<Rightarrow> u64 \<times> 'b \<times> 'm) \<Rightarrow> (u64 \<Rightarrow> 'b \<Rightarrow> 'm \<Rightarrow> u64 \<times> 'b \<times> 'm) \<Rightarrow>
    bm_op list \<Rightarrow> 'b \<Rightarrow> 'm \<Rightarrow> (u64 \<times> u64) list \<times> 'b \<times> 'm" where
  "bm_run alloc release [] b m = ([], b, m)"
| "bm_run alloc release (Op_alloc sz # ops) b m =
     (let (p, b1, m1) = alloc sz b m;
          (gs, b2, m2) = bm_run alloc release ops b1 m1
      in (if p = NULL then gs else (p, sz) # gs, b2, m2))"
| "bm_run alloc release (Op_free p # ops) b m =
     (let (_, b1, m1) = release p b m in bm_run alloc release ops b1 m1)"

locale block_allocator =
  fixes inv :: "'m \<Rightarrow> 'b \<Rightarrow> bool"
    and taken :: "'m \<Rightarrow> 'b \<Rightarrow> nat set"
    and cap :: "'b \<Rightarrow> nat"
    and need :: "u64 \<Rightarrow> 'b \<Rightarrow> nat"
    and start :: "'b \<Rightarrow> nat \<Rightarrow> u64"
    and alloc :: "u64 \<Rightarrow> 'b \<Rightarrow> 'm \<Rightarrow> u64 \<times> 'b \<times> 'm"
    and release :: "u64 \<Rightarrow> 'b \<Rightarrow> 'm \<Rightarrow> u64 \<times> 'b \<times> 'm"
  assumes taken_cap: "inv m b \<Longrightarrow> taken m b \<subseteq> {..<cap b}"
    and alloc_inv: "inv m b \<Longrightarrow> alloc sz b m = (p, b', m') \<Longrightarrow> inv m' b'"
    and alloc_fail: "inv m b \<Longrightarrow> alloc sz b m = (NULL, b', m') \<Longrightarrow> b' = b \<and> m' = m"
    and alloc_block: "inv m b \<Longrightarrow> alloc sz b m = (p, b', m') \<Longrightarrow> p \<noteq> NULL \<Longrightarrow>
      \<exists>i. p = start b i \<and> i \<notin> taken m b \<and> {i..<i + need sz b} \<inter> taken m b = {} \<and>
          taken m' b' = taken m b \<union> {i..<i + need sz b}"
    and alloc_geometry: "inv m b \<Longrightarrow> alloc sz b m = (p, b', m') \<Longrightarrow>
      start b' = start b \<and> cap b' = cap b \<and> (\<forall>n. need n b' = need n b)"
    and release_inv: "inv m b \<Longrightarrow> release p b m = (n, b', m') \<Longrightarrow> inv m' b'"
    and release_taken: "inv m b \<Longrightarrow> release p b m = (n, b', m') \<Longrightarrow> taken m' b' = taken m b"
    and release_geometry: "inv m b \<Longrightarrow> release p b m = (n, b', m') \<Longrightarrow>
      start b' = start b \<and> cap b' = cap b \<and> (\<forall>n. need n b' = need n b)"
begin

lemma run_inv: "inv m b \<Longrightarrow> bm_run alloc release ops b m = (gs, b', m') \<Longrightarrow> inv m' b'"
proof (induction ops arbitrary: b m gs b' m')
  case (Cons op ops)
  then show ?case
    by (cases op) (auto split: prod.splits dest: alloc_inv release_inv)
qed simp

lemma run_grants:
  assumes "inv m b" "bm_run alloc release ops b m = (gs, b', m')"
  shows "\<exists>is. gs = map (\<lambda>(i, sz). (start b i, sz)) is \<and>
    claimed_apart (taken m b) (map (\<lambda>(i, sz). {i..<i + need sz b}) is) \<and>
    (\<forall>(i, sz) \<in> set is. i \<notin> taken m b \<and> {i..<i + need sz b} \<subseteq> {..<cap b})"
  using assms
proof (induction ops arbitrary: b m gs b' m')
  case Nil
  then show ?case by (intro exI [of _ "[]"]) simp
next
  case (Cons op ops)
  show ?case
  proof (cases op)
    case (Op_alloc sz)
    obtain p b1 m1 where a: "alloc sz b m = (p, b1, m1)" by (metis surj_pair)
    obtain gs1 where run: "bm_run alloc release ops b1 m1 = (gs1, b', m')"
      and gs: "gs = (if p = NULL then gs1 else (p, sz) # gs1)"
      using Cons.prems(2) Op_alloc a by (auto split: prod.splits)
    note geo = alloc_geometry [OF Cons.prems(1) a]
    obtain xs where xs: "gs1 = map (\<lambda>(i, sz). (start b i, sz)) xs"
        "claimed_apart (taken m1 b1) (map (\<lambda>(i, sz). {i..<i + need sz b}) xs)"
        "\<forall>(i, sz) \<in> set xs. i \<notin> taken m1 b1 \<and> {i..<i + need sz b} \<subseteq> {..<cap b}"
      using Cons.IH [OF alloc_inv [OF Cons.prems(1) a] run] geo by auto
    show ?thesis
    proof (cases "p = NULL")
      case True
      with alloc_fail [OF Cons.prems(1)] a have "b1 = b" "m1 = m" by auto
      with xs gs True show ?thesis
        by (intro exI [of _ xs]) simp
    next
      case False
      obtain i where i: "p = start b i" "i \<notin> taken m b" "{i..<i + need sz b} \<inter> taken m b = {}"
          "taken m1 b1 = taken m b \<union> {i..<i + need sz b}"
        using alloc_block [OF Cons.prems(1) a False] by auto
      moreover have "taken m1 b1 \<subseteq> {..<cap b}"
        using taken_cap [OF alloc_inv [OF Cons.prems(1) a]] geo by simp
      ultimately show ?thesis using xs gs False
        by (intro exI [of _ "(i, sz) # xs"]) auto
    qed
  next
    case (Op_free p)
    obtain n b1 m1 where r: "release p b m = (n, b1, m1)" by (metis surj_pair)
    with Cons.prems(2) Op_free have run: "bm_run alloc release ops b1 m1 = (gs, b', m')" by simp
    from Cons.IH [OF release_inv [OF Cons.prems(1) r] run]
      release_taken [OF Cons.prems(1) r] release_geometry [OF Cons.prems(1) r]
    show ?thesis by simp
  qed
qed

end

interpretation bma: block_allocator wf_bitmap bm_used_blocks bm_tblocks bm_nblocks bm_addr bm_alloc bm_free
proof
  fix m b sz p b' m' n
  assume wf: "wf_bitmap m b"
  have ok: "region_ok b" using wf by (simp add: wf_bitmap_def)
  show "bm_used_blocks m b \<subseteq> {..<bm_tblocks b}" by (auto simp: bm_used_blocks_def)
  show "bm_alloc sz b m = (p, b', m') \<Longrightarrow> wf_bitmap m' b'" by (rule bm_alloc_wf [OF wf])
  show "bm_free p b m = (n, b', m') \<Longrightarrow> wf_bitmap m' b'" using bm_free_wf [OF wf] by blast
  show "bm_free p b m = (n, b', m') \<Longrightarrow> bm_used_blocks m' b' = bm_used_blocks m b"
    using bm_free_wf [OF wf] by blast
  show "bm_free p b m = (n, b', m') \<Longrightarrow>
      bm_addr b' = bm_addr b \<and> bm_tblocks b' = bm_tblocks b \<and>
      (\<forall>n. bm_nblocks n b' = bm_nblocks n b)"
    by (auto simp: bm_free_eq [OF ok] bm_addr_def bm_nblocks_def bm_tblocks_def split: if_splits)
  show "b' = b \<and> m' = m" if "bm_alloc sz b m = (NULL, b', m')"
    using wf
  proof (cases rule: bm_alloc_cases [where sz = sz])
    case none
    with that show ?thesis by simp
  next
    case (some i v)
    then have "unat (bm_addr b i) = 0" using that by simp
    with some(2) unat_bm_addr [OF ok, of i] ok show ?thesis
      by (simp add: bm_fits_def region_ok_def)
  qed
  show "bm_addr b' = bm_addr b \<and> bm_tblocks b' = bm_tblocks b \<and>
      (\<forall>n. bm_nblocks n b' = bm_nblocks n b)"
    if "bm_alloc sz b m = (p, b', m')"
    using wf by (cases rule: bm_alloc_cases [where sz = sz])
      (use that in \<open>auto simp: bm_nblocks_def\<close>)
  show "\<exists>i. p = bm_addr b i \<and> i \<notin> bm_used_blocks m b \<and>
      {i..<i + bm_nblocks sz b} \<inter> bm_used_blocks m b = {} \<and>
      bm_used_blocks m' b' = bm_used_blocks m b \<union> {i..<i + bm_nblocks sz b}"
    if "bm_alloc sz b m = (p, b', m')" "p \<noteq> NULL"
    using wf
  proof (cases rule: bm_alloc_cases [where sz = sz])
    case none
    with that show ?thesis by simp
  next
    case (some i v)
    note room = bm_fits_room [OF some(2)]
    have "i \<notin> bm_used_blocks m b" using some(2) by (simp add: bm_fits_def bm_used_blocks_def)
    with some room(1) that used_blocks_mark [OF some(4) room(2)] show ?thesis by auto
  qed
qed

section \<open>Grants in bytes\<close>

lemma bm_nblocks_covers:
  assumes ok: "region_ok b" and sz: "unat sz \<le> 2 ^ 63"
  shows "unat sz \<le> bm_nblocks sz b * unat (bmp_bsize b)"
proof -
  have d: "0 < unat (bmp_bsize b)" "unat (bmp_bsize b) < 2 ^ 63" using ok by (auto simp: region_ok_def)
  have "bm_nblocks sz b = (unat sz + (unat (bmp_bsize b) - 1)) div unat (bmp_bsize b)"
    unfolding bm_nblocks_def using d sz
    by (intro unat_DIV_CEIL) (auto simp: word_less_nat_alt)
  with nat_div_ceil_bounds(1) [OF d(1), of "unat sz"] show ?thesis by simp
qed

text \<open>The bytes a grant of \<open>sz\<close> bytes at block \<open>i\<close> may use belong to its blocks.\<close>

lemma grant_bytes:
  assumes ok: "region_ok b" and sz: "unat sz \<le> 2 ^ 63"
    and blocks: "{i..<i + bm_nblocks sz b} \<subseteq> {..<bm_tblocks b}" and a: "a \<in> span (bm_addr b i) (unat sz)"
  shows "(unat a - unat (bmp_bm b)) div unat (bmp_bsize b) \<in> {i..<i + bm_nblocks sz b}"
    "unat (bmp_bm b) \<le> unat a" "unat a < unat (bmp_bm b) + unat (bmp_size b)"
proof -
  let ?n = "bm_nblocks sz b" and ?d = "unat (bmp_bsize b)"
  have d: "0 < ?d" using ok by (simp add: region_ok_def)
  have cover: "unat sz \<le> ?n * ?d" by (rule bm_nblocks_covers [OF ok sz])
  have pos: "0 < unat sz" using a by (simp add: span_iff)
  with cover have "0 < ?n" by (cases ?n) auto
  with blocks have le: "i + ?n \<le> bm_tblocks b" "i \<le> bm_tblocks b"
    by (auto simp: subset_iff) (metis Suc_pred add_Suc_right less_eq_Suc_le atLeastLessThan_iff
        le_add1 lessI not_less_eq_eq)+
  have addr: "unat (bm_addr b i) = unat (bmp_bm b) + i * ?d" by (rule unat_bm_addr [OF ok le(2)])
  have top: "(i + ?n) * ?d \<le> unat (bmp_size b)"
    using mult_le_mono1 [OF le(1), of ?d] bm_blocks_in_region [of b] by linarith
  have "unat (bm_addr b i) + unat sz \<le> 2 ^ 64"
    using addr cover top ok by (simp add: region_ok_def add_mult_distrib)
  then have lo: "unat (bmp_bm b) + i * ?d \<le> unat a" and hi: "unat a < unat (bmp_bm b) + (i + ?n) * ?d"
    using a span_nowrap [of "bm_addr b i" "unat sz" a] addr cover
    by (simp_all add: add_mult_distrib)
  then show "unat (bmp_bm b) \<le> unat a" "unat a < unat (bmp_bm b) + unat (bmp_size b)"
    using top by linarith+
  have "i \<le> (unat a - unat (bmp_bm b)) div ?d"
    using lo d by (simp add: less_eq_div_iff_mult_less_eq)
  moreover have "(unat a - unat (bmp_bm b)) div ?d < i + ?n"
    using hi lo d by (simp add: div_less_iff_less_mult)
  ultimately show "(unat a - unat (bmp_bm b)) div ?d \<in> {i..<i + ?n}" by simp
qed

lemma grants_apart:
  assumes ok: "region_ok b" and sz: "unat sz \<le> 2 ^ 63" "unat sz' \<le> 2 ^ 63"
    and blocks: "{i..<i + bm_nblocks sz b} \<subseteq> {..<bm_tblocks b}"
      "{j..<j + bm_nblocks sz' b} \<subseteq> {..<bm_tblocks b}"
    and dis: "{i..<i + bm_nblocks sz b} \<inter> {j..<j + bm_nblocks sz' b} = {}"
  shows "span (bm_addr b i) (unat sz) \<inter> span (bm_addr b j) (unat sz') = {}"
  using grant_bytes(1) [OF ok sz(1) blocks(1)] grant_bytes(1) [OF ok sz(2) blocks(2)] dis by blast

lemma bm_addr_span:
  assumes ok: "region_ok b" and i: "i < bm_tblocks b"
  shows "a \<in> span (bm_addr b i) (unat (bmp_bsize b)) \<longleftrightarrow>
    unat (bmp_bm b) + i * unat (bmp_bsize b) \<le> unat a \<and>
    unat a < unat (bmp_bm b) + Suc i * unat (bmp_bsize b)"
proof -
  have addr: "unat (bm_addr b i) = unat (bmp_bm b) + i * unat (bmp_bsize b)"
    using i by (intro unat_bm_addr [OF ok]) simp
  have "Suc i * unat (bmp_bsize b) \<le> unat (bmp_size b)"
    using mult_le_mono1 [of "Suc i" "bm_tblocks b" "unat (bmp_bsize b)"] i bm_blocks_in_region [of b]
    by linarith
  then have "unat (bm_addr b i) + unat (bmp_bsize b) \<le> 2 ^ 64"
    using addr ok by (simp add: region_ok_def)
  from span_nowrap [OF this, of a] addr show ?thesis by (simp add: algebra_simps)
qed

lemma block_bytes_below:
  assumes "region_ok b" "i < k" "k < bm_tblocks b"
  shows "span (bm_addr b i) (unat (bmp_bsize b)) \<inter> span (bm_addr b k) (unat (bmp_bsize b)) = {}"
proof (rule equals0I)
  fix a
  assume "a \<in> span (bm_addr b i) (unat (bmp_bsize b)) \<inter> span (bm_addr b k) (unat (bmp_bsize b))"
  then have "unat a < unat (bmp_bm b) + Suc i * unat (bmp_bsize b)"
    "unat (bmp_bm b) + k * unat (bmp_bsize b) \<le> unat a"
    using assms bm_addr_span [of b i a] bm_addr_span [of b k a] by auto
  moreover have "Suc i * unat (bmp_bsize b) \<le> k * unat (bmp_bsize b)"
    using assms(2) by (intro mult_le_mono1) simp
  ultimately show False by linarith
qed

lemma block_bytes_apart:
  assumes "region_ok b" "i \<noteq> k" "i < bm_tblocks b" "k < bm_tblocks b"
  shows "span (bm_addr b i) (unat (bmp_bsize b)) \<inter> span (bm_addr b k) (unat (bmp_bsize b)) = {}"
  using assms block_bytes_below [of b i k] block_bytes_below [of b k i]
  by (cases i k rule: linorder_cases) auto

lemma block_above_table:
  assumes ok: "region_ok b" and i: "i < bm_tblocks b" "bm_reserved b \<le> i" and j: "j < unat (bmp_bsize b)"
  shows "bm_addr b i + of_nat j \<notin> span (bmp_bm b) (bm_reserved b * unat (bmp_bsize b))"
proof -
  let ?d = "unat (bmp_bsize b)"
  have "j < 2 ^ 64" using j unat_lt_exp64 [of "bmp_bsize b"] by linarith
  with j have "bm_addr b i + of_nat j \<in> span (bm_addr b i) ?d" by simp
  then have "unat (bmp_bm b) + i * ?d \<le> unat (bm_addr b i + of_nat j)"
    by (simp add: bm_addr_span [OF ok i(1)])
  moreover have "bm_reserved b * ?d \<le> i * ?d" using i(2) by (rule mult_le_mono1)
  ultimately have "\<not> unat (bm_addr b i + of_nat j) < unat (bmp_bm b) + bm_reserved b * ?d"
    by linarith
  moreover have "unat (bmp_bm b) + bm_reserved b * ?d \<le> 2 ^ 64"
    using unat_bm_addr [OF ok bm_reserved_le [OF ok]] unat_le_exp64 by metis
  ultimately show ?thesis using span_nowrap by blast
qed

lemma bm_addr_in_payload:
  assumes ok: "region_ok b" and i: "i < bm_tblocks b" "bm_reserved b \<le> i"
  shows "bm_in_payload b (bm_addr b i)"
proof -
  let ?d = "unat (bmp_bsize b)"
  have "bm_reserved b * ?d \<le> i * ?d" using i(2) by (rule mult_le_mono1)
  moreover have "Suc i * ?d \<le> unat (bmp_size b)"
    using mult_le_mono1 [of "Suc i" "bm_tblocks b" ?d] i bm_blocks_in_region [of b] by linarith
  moreover have "0 < ?d" using ok by (simp add: region_ok_def)
  ultimately show ?thesis
    using i unat_bm_addr [OF ok, of i] unat_bm_addr [OF ok bm_reserved_le [OF ok]]
    by (simp add: bm_in_payload_def)
qed

lemma bm_block_of_addr:
  assumes ok: "region_ok b" and i: "i < bm_tblocks b"
  shows "bm_block_of b (bm_addr b i) = i"
proof -
  have d: "0 < unat (bmp_bsize b)" using ok by (simp add: region_ok_def)
  have "unat (bm_addr b i) = unat (bmp_bm b) + i * unat (bmp_bsize b)"
    using i by (intro unat_bm_addr [OF ok]) simp
  then have "unat (bm_addr b i - bmp_bm b) = i * unat (bmp_bsize b)"
    by (simp add: unat_sub_le word_le_nat_alt)
  with d show ?thesis by (simp add: bm_block_of_def unat_div)
qed

lemma bm_alloc_result:
  assumes "wf_bitmap m b" "bm_alloc sz b m = (p, b', m')"
  shows "(p = NULL \<longleftrightarrow> (\<forall>i. \<not> bm_fits_in m b (bm_nblocks sz b) i)) \<and>
    (p \<noteq> NULL \<longrightarrow> (\<exists>i. p = bm_addr b i \<and> bm_fits_in m b (bm_nblocks sz b) i \<and>
        (\<forall>j<i. \<not> bm_fits_in m b (bm_nblocks sz b) j)))"
  using assms(1)
proof (cases rule: bm_alloc_cases [where sz = sz])
  case none
  with assms(2) show ?thesis by auto
next
  case (some i v)
  have ok: "region_ok b" using assms(1) by (simp add: wf_bitmap_def)
  have "unat (bm_addr b i) \<noteq> 0"
    using unat_bm_addr [OF ok, of i] some(2) ok by (simp add: bm_fits_def region_ok_def)
  then have "bm_addr b i \<noteq> NULL" by auto
  with some assms(2) show ?thesis by auto
qed

lemma bm_alloc_grant:
  assumes "wf_bitmap m b" "bm_alloc sz b m = (p, b', m')" "p \<noteq> NULL"
  shows "wf_bitmap m' b' \<and>
    (\<exists>i. p = bm_addr b i \<and> bm_reserved b \<le> i \<and> i + bm_nblocks sz b \<le> bm_tblocks b \<and>
       {i..<i + bm_nblocks sz b} \<inter> bm_used_blocks m b = {} \<and>
       bm_used_blocks m' b' = bm_used_blocks m b \<union> {i..<i + bm_nblocks sz b}) \<and>
    (\<forall>a. a \<notin> span (bmp_bm b) (bm_reserved b * unat (bmp_bsize b)) \<longrightarrow> m' a = m a)"
  using assms(1)
proof (cases rule: bm_alloc_cases [where sz = sz])
  case none
  with assms show ?thesis by simp
next
  case (some i v)
  note room = bm_fits_room [OF some(2)]
  have ok: "region_ok b" using assms(1) by (simp add: wf_bitmap_def)
  have "i \<notin> bm_used_blocks m b" using some(2) by (simp add: bm_fits_def bm_used_blocks_def)
  then have "bm_reserved b \<le> i" using assms(1) by (auto simp: wf_bitmap_def not_less [symmetric])
  moreover have "m' a = m a" if "a \<notin> span (bmp_bm b) (bm_reserved b * unat (bmp_bsize b))" for a
    using mark_payload [OF ok room(2) that] some(1) assms(2) by simp
  ultimately show ?thesis
    using some assms room bm_alloc_wf [OF assms(1,2)] used_blocks_mark [OF some(4) room(2)] by auto
qed

section \<open>A small region\<close>

text \<open>
  Sixteen blocks of four bytes at address 4096, freshly initialised on zeroed memory: the
  concrete input of the witnesses.
\<close>

definition demo_region :: bitmap_t where
  "demo_region = \<lparr>bmp_size = 64, bmp_bsize = 4, bmp_used = 1, bmp_ffa = 1, bmp_bm = 4096\<rparr>"

definition demo_bytes :: bytes where
  "demo_bytes = (\<lambda>_. 0)(4096 := 1)"

lemma demo_init:
  "init_bitmap \<lparr>bmp_size = 0, bmp_bsize = 0, bmp_used = 0, bmp_ffa = 0, bmp_bm = 4096\<rparr> 64 4 (\<lambda>_. 0) =
    (demo_region, demo_bytes)"
  by (simp add: demo_region_def demo_bytes_def init_bitmap_eq BM_BLOCKS_def DIV_CEIL_def bm_mark_def
      bm_reserved_def blocks_per_int set_bm_eq bm_id_mask_def)

lemma demo_wf: "wf_bitmap demo_bytes demo_region"
  by (rule conjunct1 [OF init_bitmap_wf [OF _ _ demo_init]]) (simp_all add: region_ok_def get_bm_eq)

lemmas bm_eval = for_upto_numeral demo_region_def demo_bytes_def bm_scan.simps bm_free_run.simps
  bm_unique_id_loop.simps bm_same_run.simps bm_unique_id_def get_bm_eq set_bm_eq
  bm_id_mask_def DIV_CEIL_def BM_BLOCKS_def blocks_per_int

lemma demo_alloc:
  "bm_alloc 7 demo_region demo_bytes =
    (4100, demo_region\<lparr>bmp_ffa := 3, bmp_used := 3\<rparr>, demo_bytes(4096 := 0x29))"
  by (simp add: bm_alloc_def bm_eval Let_def)

lemma demo_run:
  "fst (bm_run bm_alloc bm_free [Op_alloc 7, Op_free 4100, Op_alloc 5] demo_region demo_bytes) =
    [(4100, 7), (4108, 5)]"
  by (simp add: demo_alloc) (simp add: bm_alloc_def bm_free_def bm_free_loop_eq bm_eval Let_def)

section \<open>Properties\<close>

text \<open>
  \<open>bm_alloc\<close> is first fit and complete. On a region that satisfies the invariant it returns
  NULL exactly when no run of the blocks it needs is free anywhere in the region (starting the
  search at \<open>ffa\<close> and giving up early on \<open>used\<close> lose nothing), and otherwise the address of the
  lowest such run.
\<close>

theorem bm_alloc_first_fit:
  assumes "wf_bitmap m b" "bm_alloc sz b m = (p, b', m')"
  shows "(p = NULL \<longleftrightarrow> (\<forall>i. \<not> bm_fits_in m b (bm_nblocks sz b) i)) \<and>
    (p \<noteq> NULL \<longrightarrow> (\<exists>i. p = bm_addr b i \<and> bm_fits_in m b (bm_nblocks sz b) i \<and>
        (\<forall>j<i. \<not> bm_fits_in m b (bm_nblocks sz b) j)))"
  using assms by (rule bm_alloc_result)

theorem bm_alloc_first_fit_witness:
  "\<exists>i. 4100 = bm_addr demo_region i \<and>
     bm_fits_in demo_bytes demo_region (bm_nblocks 7 demo_region) i \<and>
     (\<forall>j<i. \<not> bm_fits_in demo_bytes demo_region (bm_nblocks 7 demo_region) j)"
  using bm_alloc_first_fit [OF demo_wf demo_alloc] by simp

text \<open>
  C4. What \<open>bm_alloc\<close> hands out is safe to use: the blocks lie inside the region and above the id
  table, were all free, are all in use afterwards (and nothing else is), the invariant is kept,
  and no byte outside the id table is written.
\<close>

theorem bm_alloc_safe:
  assumes "wf_bitmap m b" "bm_alloc sz b m = (p, b', m')" "p \<noteq> NULL"
  shows "wf_bitmap m' b' \<and>
    (\<exists>i. p = bm_addr b i \<and> bm_reserved b \<le> i \<and> i + bm_nblocks sz b \<le> bm_tblocks b \<and>
       {i..<i + bm_nblocks sz b} \<inter> bm_used_blocks m b = {} \<and>
       bm_used_blocks m' b' = bm_used_blocks m b \<union> {i..<i + bm_nblocks sz b}) \<and>
    (\<forall>a. a \<notin> span (bmp_bm b) (bm_reserved b * unat (bmp_bsize b)) \<longrightarrow> m' a = m a)"
  using assms by (rule bm_alloc_grant)

theorem bm_alloc_safe_witness:
  "wf_bitmap (demo_bytes(4096 := 0x29)) (demo_region\<lparr>bmp_ffa := 3, bmp_used := 3\<rparr>)"
  using bm_alloc_safe [OF demo_wf demo_alloc] by simp



text \<open>
  \<open>init_bitmap\<close> on a region whose id table is zeroed establishes the invariant, with exactly
  the blocks under the id table in use.
\<close>

theorem init_bitmap_establishes:
  assumes "region_ok (b\<lparr>bmp_bsize := bsize, bmp_size := sz\<rparr>)"
    and "\<And>i. i < unat (sz div bsize) \<Longrightarrow> get_bm m (bmp_bm b) i = 0"
    and "init_bitmap b sz bsize m = (b', m')"
  shows "wf_bitmap m' b' \<and> bm_used_blocks m' b' = {..<bm_reserved b'}"
  using assms by (rule init_bitmap_wf)

theorem init_bitmap_establishes_witness: "bm_used_blocks demo_bytes demo_region = {..<1}"
  using init_bitmap_establishes [OF _ _ demo_init]
  by (simp add: region_ok_def get_bm_eq bm_reserved_def bm_eval)

text \<open>
  The clearing loop of \<open>init_bitmap\<close> clears nothing: a block that carries an id before the call
  carries one after it, so memory that is not already zero leaves blocks in use for ever.
\<close>

theorem init_bitmap_keeps_stale_ids:
  assumes "get_bm m (bmp_bm b) i \<noteq> 0" "i < 2 ^ 64" "init_bitmap b sz bsize m = (b', m')"
  shows "get_bm m' (bmp_bm b) i \<noteq> 0"
  using assms by (rule init_bitmap_keeps_ids)

theorem init_bitmap_keeps_stale_ids_witness:
  "get_bm (snd (init_bitmap demo_region 64 4 (\<lambda>_. 0xFF))) 4096 15 \<noteq> 0"
  using init_bitmap_keeps_stale_ids [of "\<lambda>_. 0xFF" demo_region 15, OF _ _ prod.collapse [symmetric]]
  by (simp add: bm_eval)

text \<open>
  C39. \<open>bm_free\<close> gives nothing back. Whatever the pointer, the memory (and with it the id of every
  block) and the \<open>used\<close> count stay as they are; and for a pointer into a block in use it reports
  one block as freed, however many the allocation had.
\<close>

theorem bm_free_reclaims_nothing:
  assumes wf: "wf_bitmap m b" and free: "bm_free ptr b m = (freed, b', m')"
  shows "wf_bitmap m' b' \<and> m' = m \<and> bm_used_blocks m' b' = bm_used_blocks m b \<and>
    bmp_used b' = bmp_used b \<and>
    (bm_in_payload b ptr \<and> bm_block_of b ptr \<in> bm_used_blocks m b \<longrightarrow> freed = bmp_bsize b)"
proof -
  have ok: "region_ok b" using wf by (simp add: wf_bitmap_def)
  have "bmp_used b' = bmp_used b" using free by (auto simp: bm_free_eq [OF ok] split: if_splits)
  moreover have "freed = bmp_bsize b"
    if "bm_in_payload b ptr" "bm_block_of b ptr \<in> bm_used_blocks m b"
    using bm_free_used_block [OF ok that] free by simp
  ultimately show ?thesis using bm_free_wf [OF wf free] by auto
qed

theorem bm_free_reclaims_nothing_witness:
  "(case bm_alloc 7 demo_region demo_bytes of (p, b, m) \<Rightarrow>
      case bm_free p b m of (freed, b', m') \<Rightarrow> m' = m \<and> bmp_used b' = bmp_used b \<and> freed = 4)"
proof -
  let ?b = "demo_region\<lparr>bmp_ffa := 3, bmp_used := 3\<rparr>" and ?m = "demo_bytes(4096 := 0x29)"
  have wf: "wf_bitmap ?m ?b" by (rule bma.alloc_inv [OF demo_wf demo_alloc])
  have "bm_in_payload ?b 4100" "bm_block_of ?b 4100 \<in> bm_used_blocks ?m ?b"
    by (simp_all add: bm_in_payload_def bm_block_of_def bm_used_blocks_def bm_addr_def
        bm_reserved_def bm_tblocks_def bm_eval)
  then show ?thesis
    using bm_free_reclaims_nothing [OF wf, of 4100] by (auto simp: demo_alloc split: prod.splits)
      (auto simp: demo_region_def)
qed

text \<open>
  \<open>bm_realloc\<close> of an allocation at block \<open>k\<close>: the new blocks receive exactly the first block of
  the old allocation, whatever the old and new sizes are; every other byte outside the id table
  is untouched (so the rest of a longer allocation is lost).
\<close>

theorem bm_realloc_copies_one_block:
  assumes wf: "wf_bitmap m b" and k: "k \<in> bm_used_blocks m b" "bm_reserved b \<le> k"
    and alloc: "bm_alloc sz b m = (new, b1, m1)" "new \<noteq> NULL" "0 < bm_nblocks sz b"
  shows "\<exists>b' m'. bm_realloc (bm_addr b k) sz b m = (new, b', m') \<and>
    (\<forall>i<unat (bmp_bsize b). m' (new + of_nat i) = m (bm_addr b k + of_nat i)) \<and>
    (\<forall>a. a \<notin> span new (unat (bmp_bsize b)) \<and>
         a \<notin> span (bmp_bm b) (bm_reserved b * unat (bmp_bsize b)) \<longrightarrow> m' a = m a)"
proof -
  let ?d = "unat (bmp_bsize b)" and ?old = "bm_addr b k"
  have ok: "region_ok b" and kt: "k < bm_tblocks b"
    using wf k by (auto simp: wf_bitmap_def bm_used_blocks_def)
  obtain i where i: "new = bm_addr b i" "{i..<i + bm_nblocks sz b} \<inter> bm_used_blocks m b = {}"
      "i + bm_nblocks sz b \<le> bm_tblocks b" "bm_reserved b \<le> i"
    and payload: "\<And>a. a \<notin> span (bmp_bm b) (bm_reserved b * ?d) \<Longrightarrow> m1 a = m a"
    using bm_alloc_grant [OF wf alloc(1,2)] by auto
  have ne: "i \<noteq> k" "i < bm_tblocks b" using i(2,3) alloc(3) k(1) by (force, simp)
  have apart: "span new ?d \<inter> span ?old ?d = {}"
    using block_bytes_apart [OF ok ne kt] i(1) by simp
  have clear: "?old + of_nat j \<notin> span (bmp_bm b) (bm_reserved b * ?d)" if "j < ?d" for j
    using block_above_table [OF ok kt k(2) that] .
  have ptr: "bm_in_payload b ?old" "bm_block_of b ?old = k"
    using bm_addr_in_payload [OF ok kt k(2)] bm_block_of_addr [OF ok kt] by auto
  have eq: "bm_realloc ?old sz b m =
      (new, b1\<lparr>bmp_ffa := min (bmp_ffa b1) (of_nat k)\<rparr>, memcpy new ?old (bmp_bsize b) m1)"
    using bm_realloc_eq [OF wf ptr(1) _ alloc(1)] ptr(2) k(1) by simp
  have "memcpy new ?old (bmp_bsize b) m1 (new + of_nat j) = m (?old + of_nat j)" if "j < ?d" for j
  proof -
    have "j < 2 ^ 64" using that unat_lt_exp64 [of "bmp_bsize b"] by linarith
    then show ?thesis using that payload clear by (subst memcpy_apply [OF apart]) simp
  qed
  moreover have "memcpy new ?old (bmp_bsize b) m1 a = m a"
    if "a \<notin> span new ?d" "a \<notin> span (bmp_bm b) (bm_reserved b * ?d)" for a
    using that payload by (subst memcpy_apply [OF apart]) simp
  ultimately show ?thesis using eq by blast
qed

theorem bm_realloc_copies_one_block_witness:
  "(case bm_alloc 7 demo_region demo_bytes of (old, b, m) \<Rightarrow>
      \<exists>b' m'. bm_realloc old 12 b m = (4108, b', m') \<and> m' 4108 = m 4100 \<and> m' 4112 = m 4112)"
proof -
  let ?b = "demo_region\<lparr>bmp_ffa := 3, bmp_used := 3\<rparr>" and ?m = "demo_bytes(4096 := 0x29)"
  have wf: "wf_bitmap ?m ?b" by (rule bma.alloc_inv [OF demo_wf demo_alloc])
  have k: "1 \<in> bm_used_blocks ?m ?b" "bm_reserved ?b \<le> 1" "0 < bm_nblocks 12 ?b"
    and addr: "bm_addr ?b 1 = 4100" "unat (bmp_bsize ?b) = 4" "bmp_bm ?b = 4096" "bm_reserved ?b = 1"
    by (simp_all add: bm_used_blocks_def bm_reserved_def bm_tblocks_def bm_nblocks_def bm_addr_def
        bm_eval)
  obtain b1 m1 where alloc: "bm_alloc 12 ?b ?m = (4108, b1, m1)"
    by (simp add: bm_alloc_def bm_eval Let_def)
  obtain b' m' where r: "bm_realloc 4100 12 ?b ?m = (4108, b', m')"
      "\<And>i. i < 4 \<Longrightarrow> m' (4108 + of_nat i) = ?m (4100 + of_nat i)"
      "\<And>a. a \<notin> span 4108 4 \<and> a \<notin> span 4096 4 \<Longrightarrow> m' a = ?m a"
    using bm_realloc_copies_one_block [OF wf k(1,2) alloc _ k(3)] addr by auto
  show ?thesis using r(1) r(2) [of 0] r(3) [of 4112] by (simp add: demo_alloc span_iff)
qed

text \<open>
  \<open>bm_realloc\<close> does not check whether the new allocation succeeded: when it did not, the first
  block of the old allocation is copied to address 0 and NULL is returned.
\<close>

theorem bm_realloc_failure_writes_null:
  assumes wf: "wf_bitmap m b" and k: "k \<in> bm_used_blocks m b" "bm_reserved b \<le> k"
    and fail: "\<And>i. \<not> bm_fits_in m b (bm_nblocks sz b) i"
    and low: "unat (bmp_bsize b) \<le> unat (bmp_bm b)"
  shows "\<exists>b' m'. bm_realloc (bm_addr b k) sz b m = (NULL, b', m') \<and>
    (\<forall>i<unat (bmp_bsize b). m' (of_nat i) = m (bm_addr b k + of_nat i))"
proof -
  let ?d = "unat (bmp_bsize b)" and ?old = "bm_addr b k"
  have ok: "region_ok b" and kt: "k < bm_tblocks b"
    using wf k by (auto simp: wf_bitmap_def bm_used_blocks_def)
  have alloc: "bm_alloc sz b m = (NULL, b, m)"
    using wf fail by (cases rule: bm_alloc_cases [where sz = sz]) auto
  have ptr: "bm_in_payload b ?old" "bm_block_of b ?old = k"
    using bm_addr_in_payload [OF ok kt k(2)] bm_block_of_addr [OF ok kt] by auto
  have eq: "bm_realloc ?old sz b m =
      (NULL, b\<lparr>bmp_ffa := min (bmp_ffa b) (of_nat k)\<rparr>, memcpy NULL ?old (bmp_bsize b) m)"
    using bm_realloc_eq [OF wf ptr(1) _ alloc] ptr(2) k(1) by simp
  have "?d \<le> unat a" if "a \<in> span ?old ?d" for a
    using that bm_addr_span [OF ok kt, of a] low by linarith
  then have apart: "span NULL ?d \<inter> span ?old ?d = {}"
    by (force simp: span_iff)
  have "memcpy NULL ?old (bmp_bsize b) m (of_nat j) = m (?old + of_nat j)" if "j < ?d" for j
  proof -
    have "j < 2 ^ 64" using that unat_lt_exp64 [of "bmp_bsize b"] by linarith
    then have "of_nat j \<in> span NULL ?d" using that span_offset [of j NULL ?d] by simp
    then show ?thesis by (subst memcpy_apply [OF apart]) simp
  qed
  with eq show ?thesis by blast
qed

theorem bm_realloc_failure_writes_null_witness:
  "\<exists>b' m'. bm_realloc 4100 0x40 (demo_region\<lparr>bmp_ffa := 3, bmp_used := 3\<rparr>)
       (demo_bytes(4096 := 0x29, 4100 := 0x5A)) = (NULL, b', m') \<and> m' 0 = 0x5A"
proof -
  let ?b = "demo_region\<lparr>bmp_ffa := 3, bmp_used := 3\<rparr>" and ?mz = "demo_bytes(4096 := 0x29)"
  let ?m = "?mz(4100 := 0x5A)"
  have wf0: "wf_bitmap ?mz ?b" by (rule bma.alloc_inv [OF demo_wf demo_alloc])
  have geo: "bm_tblocks ?b = 16" "bm_reserved ?b = 1" "bm_nblocks 0x40 ?b = 16" "bmp_bm ?b = 4096"
    "bm_addr ?b 1 = 4100" "unat (bmp_bsize ?b) = 4"
    by (simp_all add: bm_reserved_def bm_tblocks_def bm_nblocks_def bm_addr_def bm_eval)
  have row: "of_nat (i div 4) \<noteq> (4 :: u64)" if "i < 16" for i
    using that of_nat_eq_iff64 [of "i div 4" 4] by auto
  have same: "get_bm ?m 4096 i = get_bm ?mz 4096 i" if "i < 16" for i
    using row [OF that] by (simp add: get_bm_eq)
  have used: "bm_used_blocks ?m ?b = bm_used_blocks ?mz ?b"
    using same by (auto simp: bm_used_blocks_def geo)
  have wf: "wf_bitmap ?m ?b" using wf0 used by (simp add: wf_bitmap_def)
  have k: "1 \<in> bm_used_blocks ?m ?b"
    using same [of 1] by (simp add: bm_used_blocks_def geo) (simp add: bm_eval)
  have "\<not> bm_fits_in ?m ?b 16 i" for i
    using bm_fits_room(3) [of ?m ?b 16 i] k card_gt_0_iff [of "bm_used_blocks ?m ?b"] by (auto simp: geo)
  then obtain b' m' where "bm_realloc 4100 0x40 ?b ?m = (NULL, b', m')"
      "\<And>i. i < 4 \<Longrightarrow> m' (of_nat i) = ?m (4100 + of_nat i)"
    using bm_realloc_failure_writes_null [where sz = "0x40", OF wf k] geo by auto
  from this(1) this(2) [of 0] show ?thesis by simp
qed

text \<open>
  A request close to \<open>2^64\<close> wraps around in \<open>DIV_CEIL\<close> and is treated as a request for no blocks
  at all: with a free block left, \<open>bm_alloc\<close> succeeds, returns the address of a free block and
  marks nothing as used.
\<close>

theorem bm_alloc_huge_request_wraps:
  assumes wf: "wf_bitmap m b" and huge: "2 ^ 64 < unat sz + unat (bmp_bsize b)"
    and free: "i < bm_tblocks b" "get_bm m (bmp_bm b) i = 0"
  shows "bm_nblocks sz b = 0 \<and>
    (\<exists>p b' m'. bm_alloc sz b m = (p, b', m') \<and> p \<noteq> NULL \<and> m' = m \<and> bmp_used b' = bmp_used b)"
proof -
  have ok: "region_ok b" using wf by (simp add: wf_bitmap_def)
  then have d: "0 < unat (bmp_bsize b)" by (simp add: region_ok_def)
  then have d1: "unat (bmp_bsize b - 1) = unat (bmp_bsize b) - 1"
    by (intro unat_minus_one) auto
  have "unat (sz + (bmp_bsize b - 1)) = unat sz + (unat (bmp_bsize b) - 1) - 2 ^ 64"
    using huge d d1 unat_lt_exp64 [of sz] unat_lt_exp64 [of "bmp_bsize b"]
    by (simp add: unat_word_ariths(1) mod_if)
  also have "\<dots> < unat (bmp_bsize b)" using unat_lt_exp64 [of sz] d by linarith
  finally have n: "bm_nblocks sz b = 0"
    by (simp add: bm_nblocks_def DIV_CEIL_def unat_div)
  have "bm_fits_in m b 0 i" using free by (simp add: bm_fits_def)
  obtain p b' m' where a: "bm_alloc sz b m = (p, b', m')" by (metis surj_pair)
  have p: "p \<noteq> NULL" using bm_alloc_result [OF wf a] n \<open>bm_fits_in m b 0 i\<close> by auto
  have "m' = m \<and> bmp_used b' = bmp_used b"
    using wf by (cases rule: bm_alloc_cases [where sz = sz]) (use a n p in \<open>auto simp: bm_mark_def\<close>)
  with a n p show ?thesis by blast
qed

theorem bm_alloc_huge_request_wraps_witness:
  "\<exists>p b' m'. bm_alloc (- 2) demo_region demo_bytes = (p, b', m') \<and> p \<noteq> NULL \<and> m' = demo_bytes"
  using bm_alloc_huge_request_wraps [OF demo_wf, of "- 2" 5]
  by (auto simp: bm_tblocks_def bm_eval)

end
