(* ===== verification/Kernel_Info.thy ===== *)
theory Kernel_Info
  imports Bitmap_Alloc
begin

text \<open>
  The part of \<^verbatim>\<open>struct kernel_info\<close> (\<^verbatim>\<open>include/kernel.h\<close>) the memory managers share, as a record
  that later theories extend, and the record of one virtual memory manager
  (\<^verbatim>\<open>include/mem/vmm.h\<close>). Arrays reached through a pointer of unknown length are functions of the
  index: a store or load past the end then touches the memory behind the array, as in C.

  \<^item> \<open>km_mmap i\<close> is the descriptor at byte offset \<open>i * mmap_desc_size\<close> of the firmware's memory map.
  \<^item> \<open>km_bitmap r\<close> is row \<open>r\<close> (64 frames) of the frame bitmap; the array has \<open>bitmap_entries\<close> rows.
  \<^item> \<open>km_bitmap_addr\<close> is the value of the pointer \<open>KMEM.bitmap\<close> itself.
\<close>

record mmap_desc_t =
  md_type :: u32
  md_physical_start :: u64
  md_virtual_start :: u64
  md_count :: u64
  md_attributes :: u64

record kernel_entry_t =
  ke_vaddr :: u64
  ke_paddr :: u64
  ke_num_pages :: u64

record vmm_t =
  vm_flags :: u64
  vm_p4_tbl :: u64
  vm_bm :: bitmap_t

record kmem =
  km_mmap :: "nat \<Rightarrow> mmap_desc_t"
  km_mmap_size :: u64
  km_mmap_desc_size :: u64
  km_num_ke :: u64
  km_ke :: "nat \<Rightarrow> kernel_entry_t"
  km_pml4 :: u64
  km_bitmap :: "nat \<Rightarrow> u64"
  km_bitmap_addr :: u64
  km_bitmap_entries :: u64
  km_bitmap_size :: u64
  km_mem_pages :: u64
  k_vmm :: vmm_t

end
