(* ===== verification/Pmm.thy ===== *)
theory Pmm
  imports Kernel_Info
begin

text \<open>
  The physical memory manager: the frame bitmap half of \<^verbatim>\<open>src/kernel/mem/pmm.c\<close> (the page-table
  half is in \<open>Paging\<close>). One bit per 4 KiB frame, 1 = in use. Frames are numbered by naturals.
  Log calls are left out.
\<close>

section \<open>Definitions\<close>

definition BITMAP_ROW_FULL :: u64 where [kconst]: "BITMAP_ROW_FULL = 0xFFFFFFFFFFFFFFFF"
definition BITMAP_ROW_BITS :: u64 where [kconst]: "BITMAP_ROW_BITS = 64"

definition pmm_set_bit :: "u64 \<Rightarrow> 'a kmem_scheme \<Rightarrow> 'a kmem_scheme" where
  "pmm_set_bit address s =
     (if address = 0 then s
      else let address = address div PAGE_SIZE in
        if address > km_mem_pages s then s
        else let row = unat (address div BITMAP_ROW_BITS) in
          s\<lparr>km_bitmap := (km_bitmap s)(row :=
              km_bitmap s row OR push_bit (unat (address mod BITMAP_ROW_BITS)) 1)\<rparr>)"

definition pmm_clear_bit :: "u64 \<Rightarrow> 'a kmem_scheme \<Rightarrow> 'a kmem_scheme" where
  "pmm_clear_bit address s =
     (if address = 0 then s
      else let address = address div PAGE_SIZE;
               row = unat (address div BITMAP_ROW_BITS) in
          s\<lparr>km_bitmap := (km_bitmap s)(row :=
              km_bitmap s row AND NOT (push_bit (unat (address mod BITMAP_ROW_BITS)) 1))\<rparr>)"

definition pmm_check_bit :: "u64 \<Rightarrow> 'a kmem_scheme \<Rightarrow> bool" where
  "pmm_check_bit address s =
     (let address = address div PAGE_SIZE in
      km_bitmap s (unat (address div BITMAP_ROW_BITS)) AND
        push_bit (unat (address mod BITMAP_ROW_BITS)) 1 = 0)"

definition pmm_set_area :: "u64 \<Rightarrow> u64 \<Rightarrow> 'a kmem_scheme \<Rightarrow> 'a kmem_scheme" where
  "pmm_set_area start num_pages s =
     for_upto (unat num_pages) (\<lambda>i s. pmm_set_bit (start + PAGE_SIZE * of_nat i) s) s"

definition pmm_clear_area :: "u64 \<Rightarrow> u64 \<Rightarrow> 'a kmem_scheme \<Rightarrow> 'a kmem_scheme" where
  "pmm_clear_area start num_pages s =
     for_upto (unat num_pages) (\<lambda>i s. pmm_clear_bit (start + PAGE_SIZE * of_nat i) s) s"

text \<open>
  \<open>pmm_request_frame\<close>. The inner loop looks for the lowest clear bit of a row. The row counter of
  the outer loop is a \<^verbatim>\<open>uint16_t\<close> compared with the 64-bit number of rows, so it may never reach it:
  \<open>None\<close> is "does not return".
\<close>

function pmm_find_col :: "u64 \<Rightarrow> nat \<Rightarrow> nat option" where
  "pmm_find_col row col =
     (if col < unat BITMAP_ROW_BITS
      then if row AND push_bit col 1 = 0 then Some col else pmm_find_col row (Suc col)
      else None)"
  by pat_completeness auto
termination
  by (relation "measure (\<lambda>(row, col). 64 - col)") (auto simp: kconst)

declare pmm_find_col.simps [simp del]

partial_function (option) pmm_request_loop :: "u64 \<Rightarrow> (nat \<Rightarrow> u64) \<Rightarrow> u16 \<Rightarrow> int option" where
  [code]: "pmm_request_loop entries bitmap row =
     (if (ucast row :: u64) < entries
      then case (if bitmap (unat row) \<noteq> BITMAP_ROW_FULL then pmm_find_col (bitmap (unat row)) 0 else None) of
             Some col \<Rightarrow> Some (uint row * 64 + int col)
           | None \<Rightarrow> pmm_request_loop entries bitmap (row + 1)
      else Some (- 1))"

definition pmm_request_frame :: "'a kmem_scheme \<Rightarrow> int option" where
  "pmm_request_frame s = pmm_request_loop (km_bitmap_entries s) (km_bitmap s) 0"

definition alloc_frame :: "'a kmem_scheme \<Rightarrow> (u64 \<times> 'a kmem_scheme) option" where
  "alloc_frame s =
     Option.bind (pmm_request_frame s) (\<lambda>frame.
       if frame > 0
       then let a = word_of_int frame * PAGE_SIZE in Some (a, pmm_set_bit a s)
       else Some (NULL, s))"

text \<open>\<open>init_pmm\<close>: every row full, frame 8 reserved, then the usable descriptors of the map freed.\<close>

definition init_pmm_desc :: "nat \<Rightarrow> 'a kmem_scheme \<Rightarrow> 'a kmem_scheme" where
  "init_pmm_desc i s =
     (let current_desc = km_mmap s i;
          type = (ucast (md_type current_desc) :: u8)
      in if type = 3 \<or> type = 4 \<or> type = 7
         then pmm_clear_area (md_physical_start current_desc) (md_count current_desc) s
         else s)"

definition init_pmm :: "'a kmem_scheme \<Rightarrow> 'a kmem_scheme" where
  "init_pmm s =
     (let s = s\<lparr>k_vmm := (k_vmm s)\<lparr>vm_p4_tbl := km_pml4 s\<rparr>\<rparr>;
          s = for_upto (unat (km_bitmap_entries s))
                (\<lambda>i s. s\<lparr>km_bitmap := (km_bitmap s)(i := BITMAP_ROW_FULL)\<rparr>) s;
          s = pmm_set_bit 0x8000 s;
          mmap_num_entries = km_mmap_size s div km_mmap_desc_size s
      in for_upto (unat mmap_num_entries) init_pmm_desc s)"

section \<open>Specification\<close>

definition frame_used :: "'a kmem_scheme \<Rightarrow> nat \<Rightarrow> bool" where
  "frame_used s f \<longleftrightarrow> bit (km_bitmap s (f div 64)) (f mod 64)"

definition free_frames :: "'a kmem_scheme \<Rightarrow> nat set" where
  "free_frames s = {f. f < 64 * unat (km_bitmap_entries s) \<and> \<not> frame_used s f}"

definition frame_addr :: "nat \<Rightarrow> u64" where
  "frame_addr f = of_nat f * PAGE_SIZE"

text \<open>
  The invariant of the frame bitmap: few enough rows for the 16-bit row counter, frame 0 never
  free, and every free frame inside the memory (so that setting its bit has an effect).
\<close>

definition wf_pmm :: "'a kmem_scheme \<Rightarrow> bool" where
  "wf_pmm s \<longleftrightarrow> unat (km_bitmap_entries s) < 2 ^ 16 \<and> 0 \<notin> free_frames s \<and>
     (\<forall>f\<in>free_frames s. f \<le> unat (km_mem_pages s))"

section \<open>Bits\<close>

lemma row_bits: "BITMAP_ROW_BITS = 64" "PAGE_SIZE = 4096" "BITMAP_ROW_FULL = - 1"
  by (simp_all add: kconst)

lemma and_push_bit_eq_0: "x AND 2 ^ n = 0 \<longleftrightarrow> \<not> bit x n" for x :: u64
  using bit_iff_and_push_bit_not_eq_0 [of x n] by simp

lemma bit_set_one: "n < 64 \<Longrightarrow> bit (x OR 2 ^ k) n \<longleftrightarrow> bit x n \<or> n = k" for x :: u64
  by (auto simp: bit_simps)

lemma bit_clear_one: "n < 64 \<Longrightarrow> bit (x AND NOT (2 ^ k)) n \<longleftrightarrow> bit x n \<and> n \<noteq> k" for x :: u64
  by (auto simp: bit_simps)

lemma frame_used_set_bit:
  "frame_used (pmm_set_bit a s) f \<longleftrightarrow>
     frame_used s f \<or> (a \<noteq> 0 \<and> f = unat (a div PAGE_SIZE) \<and> f \<le> unat (km_mem_pages s))"
proof -
  let ?p = "unat (a div PAGE_SIZE)"
  have "f div 64 = ?p div 64 \<and> f mod 64 = ?p mod 64 \<longleftrightarrow> f = ?p"
    by (metis div_mult_mod_eq)
  then show ?thesis
    by (auto simp: pmm_set_bit_def frame_used_def Let_def row_bits unat_div unat_mod word_less_nat_alt
        bit_set_one not_less)
qed

lemma frame_used_clear_bit:
  "frame_used (pmm_clear_bit a s) f \<longleftrightarrow> frame_used s f \<and> \<not> (a \<noteq> 0 \<and> f = unat (a div PAGE_SIZE))"
proof -
  let ?p = "unat (a div PAGE_SIZE)"
  have "f div 64 = ?p div 64 \<and> f mod 64 = ?p mod 64 \<longleftrightarrow> f = ?p"
    by (metis div_mult_mod_eq)
  then show ?thesis
    by (auto simp: pmm_clear_bit_def frame_used_def Let_def row_bits unat_div unat_mod bit_clear_one)
qed

lemma pmm_check_bit_iff: "pmm_check_bit a s \<longleftrightarrow> \<not> frame_used s (unat (a div PAGE_SIZE))"
  by (simp add: pmm_check_bit_def frame_used_def Let_def row_bits unat_div unat_mod and_push_bit_eq_0)

lemma pmm_bit_frame [simp]:
  "km_bitmap_entries (pmm_set_bit a s) = km_bitmap_entries s"
  "km_mem_pages (pmm_set_bit a s) = km_mem_pages s"
  "km_pml4 (pmm_set_bit a s) = km_pml4 s"
  "km_mmap (pmm_set_bit a s) = km_mmap s"
  "km_bitmap_entries (pmm_clear_bit a s) = km_bitmap_entries s"
  "km_mem_pages (pmm_clear_bit a s) = km_mem_pages s"
  "km_pml4 (pmm_clear_bit a s) = km_pml4 s"
  "km_mmap (pmm_clear_bit a s) = km_mmap s"
  "kmem.more (pmm_set_bit a s) = kmem.more s"
  "kmem.more (pmm_clear_bit a s) = kmem.more s"
  by (simp_all add: pmm_set_bit_def pmm_clear_bit_def Let_def)

section \<open>The search for a free frame\<close>

lemma pmm_find_col_spec:
  "case pmm_find_col row lo of
     None \<Rightarrow> \<forall>c. lo \<le> c \<and> c < 64 \<longrightarrow> bit row c
   | Some c \<Rightarrow> lo \<le> c \<and> c < 64 \<and> \<not> bit row c \<and> (\<forall>c'. lo \<le> c' \<and> c' < c \<longrightarrow> bit row c')"
proof (induction row lo rule: pmm_find_col.induct)
  case (1 row col)
  show ?case
  proof (cases "col < 64 \<and> bit row col")
    case True
    then have "pmm_find_col row col = pmm_find_col row (Suc col)"
      by (simp add: pmm_find_col.simps [of row col] row_bits and_push_bit_eq_0)
    with 1 True show ?thesis
      by (auto simp: row_bits and_push_bit_eq_0 split: option.splits) (metis le_neq_implies_less
          Suc_leI)+
  next
    case False
    then show ?thesis
      by (auto simp: pmm_find_col.simps [of row col] row_bits and_push_bit_eq_0)
  qed
qed

lemma row_full_iff: "row = BITMAP_ROW_FULL \<longleftrightarrow> (\<forall>c<64. bit row c)"
proof
  assume "\<forall>c<64. bit row c"
  then show "row = BITMAP_ROW_FULL" by (intro bit_word_eqI) (simp add: row_bits)
qed (simp add: row_bits)

lemma unat_ucast_row: "r < 2 ^ 16 \<Longrightarrow> unat (ucast (of_nat r :: u16) :: u64) = r"
  by (simp add: unsigned_ucast_eq take_bit_nat_eq_self unat_of_nat)

lemma pmm_request_row:
  assumes "r < unat entries" "r < 2 ^ 16"
  shows "pmm_request_loop entries bm (of_nat r) =
    (if \<exists>c<64. \<not> bit (bm r) c then Some (int (r * 64 + (LEAST c. \<not> bit (bm r) c)))
     else pmm_request_loop entries bm (of_nat (Suc r)))"
proof -
  have r: "unat (of_nat r :: u16) = r" using assms(2) by (simp add: unat_of_nat take_bit_nat_eq_self)
  then have u: "uint (of_nat r :: u16) = int r" by (metis of_nat_unat)
  have lt: "(ucast (of_nat r :: u16) :: u64) < entries"
    using assms unat_ucast_row by (simp add: word_less_nat_alt)
  show ?thesis
  proof (cases "\<exists>c<64. \<not> bit (bm r) c")
    case True
    then obtain c where c: "pmm_find_col (bm r) 0 = Some c" "\<not> bit (bm r) c" "\<forall>c'<c. bit (bm r) c'"
      using pmm_find_col_spec [where row = "bm r" and lo = 0] by (auto split: option.splits)
    then have "(LEAST c. \<not> bit (bm r) c) = c" by (intro Least_equality) (auto simp: not_less [symmetric])
    with True c lt r u row_full_iff [of "bm r"] show ?thesis
      by (subst pmm_request_loop.simps) auto
  next
    case False
    then have "bm r = BITMAP_ROW_FULL" using row_full_iff by blast
    with False lt r show ?thesis by (subst pmm_request_loop.simps) (auto simp: add.commute)
  qed
qed

lemma pmm_request_loop_result:
  assumes "unat entries < 2 ^ 16" "r \<le> unat entries"
    and "\<And>f. f < 64 * r \<Longrightarrow> bit (bm (f div 64)) (f mod 64)"
  defines "F \<equiv> {f. f < 64 * unat entries \<and> \<not> bit (bm (f div 64)) (f mod 64)}"
  shows "pmm_request_loop entries bm (of_nat r) = Some (if F = {} then - 1 else int (LEAST f. f \<in> F))"
  using assms(2,3)
proof (induction "unat entries - r" arbitrary: r)
  case 0
  then have r: "r = unat entries" by simp
  have "\<not> (ucast (of_nat r :: u16) :: u64) < entries"
    using assms(1) r unat_ucast_row [of r] by (metis less_irrefl word_less_nat_alt)
  moreover have "F = {}" using 0(3) r by (auto simp: F_def)
  ultimately show ?case by (subst pmm_request_loop.simps) simp
next
  case (Suc k)
  then have r: "r < unat entries" "r < 2 ^ 16" using assms(1) by auto
  show ?case
  proof (cases "\<exists>c<64. \<not> bit (bm r) c")
    case True
    then obtain c0 where c0: "c0 < 64" "\<not> bit (bm r) c0" by blast
    define c where "c = (LEAST c. \<not> bit (bm r) c)"
    have c: "\<not> bit (bm r) c" unfolding c_def by (rule LeastI [of _ c0]) (rule c0(2))
    have below: "bit (bm r) c'" if "c' < c" for c'
      using not_less_Least [of c' "\<lambda>c. \<not> bit (bm r) c"] that unfolding c_def by blast
    have "c \<le> c0" unfolding c_def by (rule Least_le) (rule c0(2))
    then have c64: "c < 64" using c0(1) by simp
    have mem: "r * 64 + c \<in> F" using c c64 r(1) by (simp add: F_def)
    have "r * 64 + c \<le> f" if "f \<in> F" for f
    proof (rule ccontr)
      assume less: "\<not> r * 64 + c \<le> f"
      have "\<not> f < 64 * r" using that Suc.prems(2) by (auto simp: F_def)
      with less c64 have "f div 64 = r" by (intro div_nat_eqI) auto
      moreover from this less have "f mod 64 < c" using div_mult_mod_eq [of f 64] by linarith
      ultimately show False using below that by (simp add: F_def)
    qed
    with mem have "(LEAST f. f \<in> F) = r * 64 + c" by (intro Least_equality) auto
    with mem True show ?thesis by (subst pmm_request_row [OF r]) (auto simp: c_def)
  next
    case False
    have full: "bit (bm (f div 64)) (f mod 64)" if "f < 64 * Suc r" for f
    proof (cases "f < 64 * r")
      case f: False
      with that have "f div 64 = r" by (intro div_nat_eqI) auto
      with False show ?thesis by simp
    qed (rule Suc.prems(2))
    have "pmm_request_loop entries bm (of_nat (Suc r)) =
        Some (if F = {} then - 1 else int (LEAST f. f \<in> F))"
      using Suc.hyps(2) r(1) full by (intro Suc.hyps(1)) auto
    with False show ?thesis by (subst pmm_request_row [OF r]) auto
  qed
qed

lemma pmm_request_frame_result:
  assumes "unat (km_bitmap_entries s) < 2 ^ 16"
  shows "pmm_request_frame s =
    Some (if free_frames s = {} then - 1 else int (LEAST f. f \<in> free_frames s))"
  using pmm_request_loop_result [OF assms, of 0 "km_bitmap s"]
  by (simp add: pmm_request_frame_def free_frames_def frame_used_def)

section \<open>Allocating and releasing frames\<close>

lemma free_frames_finite [simp]: "finite (free_frames s)"
  by (simp add: free_frames_def)

lemma free_frame_bound:
  assumes "wf_pmm s" "f \<in> free_frames s"
  shows "f < 2 ^ 22" "0 < f" "f \<le> unat (km_mem_pages s)"
  using assms by (auto simp: wf_pmm_def free_frames_def intro: gr0I)

lemma unat_frame_addr: "f < 2 ^ 52 \<Longrightarrow> unat (frame_addr f) = f * 4096"
  unfolding frame_addr_def
  by (subst unat_mult_nowrap) (auto simp: row_bits unat_of_nat64)

lemma frame_addr_page: "f < 2 ^ 52 \<Longrightarrow> unat (frame_addr f div PAGE_SIZE) = f"
  by (simp add: unat_div unat_frame_addr row_bits)

lemma free_frames_clear_bit:
  assumes "f < 2 ^ 52" "f \<noteq> 0"
  shows "free_frames (pmm_clear_bit (frame_addr f) s) =
    free_frames s \<union> (if f < 64 * unat (km_bitmap_entries s) then {f} else {})"
proof -
  have "frame_addr f \<noteq> 0" using unat_frame_addr [OF assms(1)] assms(2) by auto
  then show ?thesis
    using frame_addr_page [OF assms(1)] by (auto simp: free_frames_def frame_used_clear_bit)
qed

lemma free_frames_set_bit:
  assumes "f < 2 ^ 52" "f \<noteq> 0" "f \<le> unat (km_mem_pages s)"
  shows "free_frames (pmm_set_bit (frame_addr f) s) = free_frames s - {f}"
proof -
  have "frame_addr f \<noteq> 0" using unat_frame_addr [OF assms(1)] assms(2) by auto
  then show ?thesis
    using frame_addr_page [OF assms(1)] assms(3) by (auto simp: free_frames_def frame_used_set_bit)
qed

lemma alloc_frame_cases:
  assumes wf: "wf_pmm s"
  obtains (none) "free_frames s = {}" "alloc_frame s = Some (NULL, s)"
  | (some) f where "f \<in> free_frames s" "\<And>g. g \<in> free_frames s \<Longrightarrow> f \<le> g"
      "alloc_frame s = Some (frame_addr f, pmm_set_bit (frame_addr f) s)"
      "free_frames (pmm_set_bit (frame_addr f) s) = free_frames s - {f}"
      "wf_pmm (pmm_set_bit (frame_addr f) s)"
proof (cases "free_frames s = {}")
  case True
  with wf pmm_request_frame_result [of s] none show ?thesis
    by (simp add: wf_pmm_def alloc_frame_def)
next
  case False
  define f where "f = (LEAST f. f \<in> free_frames s)"
  have f: "f \<in> free_frames s" "\<And>g. g \<in> free_frames s \<Longrightarrow> f \<le> g"
    using False unfolding f_def by (metis LeastI equals0I) (rule Least_le)
  note b = free_frame_bound [OF wf f(1)]
  have free: "free_frames (pmm_set_bit (frame_addr f) s) = free_frames s - {f}"
    using b by (intro free_frames_set_bit) auto
  moreover have "wf_pmm (pmm_set_bit (frame_addr f) s)"
    using wf free by (simp add: wf_pmm_def)
  moreover have "alloc_frame s = Some (frame_addr f, pmm_set_bit (frame_addr f) s)"
    using wf False b(2) pmm_request_frame_result [of s]
    by (simp add: wf_pmm_def alloc_frame_def f_def [symmetric] frame_addr_def Let_def)
  ultimately show ?thesis using some f by blast
qed


section \<open>Areas and initialisation\<close>

text \<open>The frames \<open>n\<close> pages from address \<open>a\<close> on cover, page-aligned and inside the address space.\<close>

definition area_frames :: "u64 \<Rightarrow> u64 \<Rightarrow> nat set" where
  "area_frames a n = {unat a div 4096 ..< unat a div 4096 + unat n}"

definition area_ok :: "u64 \<Rightarrow> u64 \<Rightarrow> bool" where
  "area_ok a n \<longleftrightarrow> unat a mod 4096 = 0 \<and> unat a + unat n * 4096 \<le> 2 ^ 64"

lemma area_step:
  assumes ok: "area_ok a n" and i: "i < unat n"
  shows "unat (a + PAGE_SIZE * of_nat i) = unat a + i * 4096"
proof -
  have lt: "unat a + i * 4096 < 2 ^ 64" "i < 2 ^ 64"
    using ok i unat_lt_exp64 [of n] by (auto simp: area_ok_def)
  then have "unat (PAGE_SIZE * of_nat i :: u64) = 4096 * i"
    by (subst unat_mult_nowrap) (auto simp: row_bits unat_of_nat64)
  with lt show ?thesis by (subst unat_add_nowrap) auto
qed

lemma area_step_page:
  assumes "area_ok a n" "i < unat n"
  shows "unat ((a + PAGE_SIZE * of_nat i) div PAGE_SIZE) = unat a div 4096 + i"
    "a + PAGE_SIZE * of_nat i = 0 \<longleftrightarrow> unat a div 4096 + i = 0"
proof -
  note eq = area_step [OF assms]
  show "unat ((a + PAGE_SIZE * of_nat i) div PAGE_SIZE) = unat a div 4096 + i"
    by (simp only: unat_div eq) (simp add: row_bits)
  have "a + PAGE_SIZE * of_nat i = 0 \<longleftrightarrow> unat a + i * 4096 = 0"
    using eq by (metis unat_eq_zero)
  also have "\<dots> \<longleftrightarrow> unat a div 4096 + i = 0" using assms(1) by (auto simp: area_ok_def)
  finally show "a + PAGE_SIZE * of_nat i = 0 \<longleftrightarrow> unat a div 4096 + i = 0" .
qed

lemma pmm_clear_area_used:
  assumes ok: "area_ok a n"
  shows "frame_used (pmm_clear_area a n s) f \<longleftrightarrow> frame_used s f \<and> f \<notin> area_frames a n - {0}"
proof -
  have "frame_used (for_upto k (\<lambda>i s. pmm_clear_bit (a + PAGE_SIZE * of_nat i) s) s) f \<longleftrightarrow>
      frame_used s f \<and> \<not> (f \<noteq> 0 \<and> unat a div 4096 \<le> f \<and> f < unat a div 4096 + k)"
    if "k \<le> unat n" for k
    using that
  proof (induction k)
    case (Suc k)
    then have k: "k < unat n" by simp
    show ?case using Suc area_step_page [OF ok k] by (auto simp: frame_used_clear_bit)
  qed simp
  from this [OF order_refl] show ?thesis by (auto simp: pmm_clear_area_def area_frames_def)
qed

lemma pmm_set_area_used:
  assumes ok: "area_ok a n"
  shows "frame_used (pmm_set_area a n s) f \<longleftrightarrow>
    frame_used s f \<or> f \<in> area_frames a n - {0} \<and> f \<le> unat (km_mem_pages s)"
proof -
  have "km_mem_pages (for_upto k (\<lambda>i s. pmm_set_bit (a + PAGE_SIZE * of_nat i) s) s) = km_mem_pages s \<and>
    (frame_used (for_upto k (\<lambda>i s. pmm_set_bit (a + PAGE_SIZE * of_nat i) s) s) f \<longleftrightarrow>
      frame_used s f \<or> (f \<noteq> 0 \<and> unat a div 4096 \<le> f \<and> f < unat a div 4096 + k \<and>
        f \<le> unat (km_mem_pages s)))"
    if "k \<le> unat n" for k
    using that
  proof (induction k)
    case (Suc k)
    then have k: "k < unat n" by simp
    show ?case using Suc area_step_page [OF ok k] by (auto simp: frame_used_set_bit)
  qed auto
  from this [OF order_refl] show ?thesis by (auto simp: pmm_set_area_def area_frames_def)
qed

lemma pmm_clear_area_keeps:
  assumes "\<And>b t. g (pmm_clear_bit b t) = g t"
  shows "g (pmm_clear_area a n s) = g s"
  unfolding pmm_clear_area_def
  by (rule for_upto_inv [where P = "\<lambda>_ t. g t = g s"]) (simp_all add: assms)

lemma pmm_area_frame [simp]:
  "km_bitmap_entries (pmm_clear_area a n s) = km_bitmap_entries s"
  "km_mem_pages (pmm_clear_area a n s) = km_mem_pages s"
  "km_mmap (pmm_clear_area a n s) = km_mmap s"
  "kmem.more (pmm_clear_area a n s) = kmem.more s"
  by (rule pmm_clear_area_keeps, simp)+

definition usable_desc :: "mmap_desc_t \<Rightarrow> bool" where
  "usable_desc d \<longleftrightarrow> (ucast (md_type d) :: u8) \<in> {3, 4, 7}"

definition mmap_entries :: "'a kmem_scheme \<Rightarrow> nat" where
  "mmap_entries s = unat (km_mmap_size s div km_mmap_desc_size s)"

definition usable_frames :: "'a kmem_scheme \<Rightarrow> nat set" where
  "usable_frames s = (\<Union>i\<in>{i. i < mmap_entries s \<and> usable_desc (km_mmap s i)}.
     area_frames (md_physical_start (km_mmap s i)) (md_count (km_mmap s i)))"

lemma init_pmm_desc_used:
  assumes "usable_desc (km_mmap s i) \<Longrightarrow>
      area_ok (md_physical_start (km_mmap s i)) (md_count (km_mmap s i))"
  shows "frame_used (init_pmm_desc i s) f \<longleftrightarrow> frame_used s f \<and>
    \<not> (f \<noteq> 0 \<and> usable_desc (km_mmap s i) \<and>
       f \<in> area_frames (md_physical_start (km_mmap s i)) (md_count (km_mmap s i)))"
  using assms by (auto simp: init_pmm_desc_def usable_desc_def Let_def pmm_clear_area_used)

lemma init_pmm_desc_frame [simp]:
  "km_bitmap_entries (init_pmm_desc i s) = km_bitmap_entries s"
  "km_mem_pages (init_pmm_desc i s) = km_mem_pages s" "km_mmap (init_pmm_desc i s) = km_mmap s"
  "kmem.more (init_pmm_desc i s) = kmem.more s"
  by (simp_all add: init_pmm_desc_def Let_def)


lemma init_pmm_loop_used:
  assumes "\<And>i. i < n \<Longrightarrow> usable_desc (km_mmap s i) \<Longrightarrow>
      area_ok (md_physical_start (km_mmap s i)) (md_count (km_mmap s i))"
  shows "frame_used (for_upto n init_pmm_desc s) f \<longleftrightarrow> frame_used s f \<and>
    \<not> (f \<noteq> 0 \<and> (\<exists>i<n. usable_desc (km_mmap s i) \<and>
       f \<in> area_frames (md_physical_start (km_mmap s i)) (md_count (km_mmap s i))))"
proof -
  have keep: "km_mmap (for_upto k init_pmm_desc s) = km_mmap s" for k
    by (induction k) simp_all
  show ?thesis using assms
  proof (induction n)
    case (Suc n)
    then show ?case
      using init_pmm_desc_used [of "for_upto n init_pmm_desc s" n f] keep by (auto simp: less_Suc_eq)
  qed (simp add: keep)
qed

lemma init_pmm_keeps:
  assumes "\<And>i t. g (init_pmm_desc i t) = g t" "\<And>b t. g (pmm_set_bit b t) = g t"
    "\<And>x t. g (t\<lparr>km_bitmap := x\<rparr>) = g t" "\<And>x t. g (t\<lparr>k_vmm := x\<rparr>) = g t"
  shows "g (init_pmm s) = g s"
proof -
  have "g (for_upto n init_pmm_desc t) = g t" for n t
    by (induction n) (simp_all add: assms)
  moreover have "g (for_upto n (\<lambda>i s. s\<lparr>km_bitmap := (km_bitmap s)(i := v)\<rparr>) t) = g t" for n v t
    by (induction n) (simp_all add: assms)
  ultimately show ?thesis by (simp add: init_pmm_def Let_def assms)
qed

lemma init_pmm_frame [simp]:
  "km_bitmap_entries (init_pmm s) = km_bitmap_entries s"
  "km_mem_pages (init_pmm s) = km_mem_pages s" "km_mmap (init_pmm s) = km_mmap s"
  "kmem.more (init_pmm s) = kmem.more s"
  by (rule init_pmm_keeps, simp_all)+

lemma fill_bitmap:
  "for_upto n (\<lambda>i s. s\<lparr>km_bitmap := (km_bitmap s)(i := v)\<rparr>) s =
     s\<lparr>km_bitmap := (\<lambda>r. if r < n then v else km_bitmap s r)\<rparr>"
  by (induction n) (auto simp: fun_eq_iff less_Suc_eq)

lemma init_pmm_free_frames:
  assumes "\<And>i. i < mmap_entries s \<Longrightarrow> usable_desc (km_mmap s i) \<Longrightarrow>
      area_ok (md_physical_start (km_mmap s i)) (md_count (km_mmap s i))"
  shows "free_frames (init_pmm s) = {f \<in> usable_frames s. 0 < f \<and> f < 64 * unat (km_bitmap_entries s)}"
proof -
  define t where "t = pmm_set_bit 0x8000 (s\<lparr>k_vmm := (k_vmm s)\<lparr>vm_p4_tbl := km_pml4 s\<rparr>,
      km_bitmap := (\<lambda>r. if r < unat (km_bitmap_entries s) then BITMAP_ROW_FULL else km_bitmap s r)\<rparr>)"
  have t: "km_mmap t = km_mmap s" by (simp add: t_def)
  have "km_mmap_size (pmm_set_bit a s) = km_mmap_size s"
    "km_mmap_desc_size (pmm_set_bit a s) = km_mmap_desc_size s" for a and s :: "'a kmem_scheme"
    by (simp_all add: pmm_set_bit_def Let_def)
  then have init: "init_pmm s = for_upto (mmap_entries s) init_pmm_desc t"
    by (simp add: init_pmm_def Let_def fill_bitmap t_def mmap_entries_def cong: if_cong)
  have full: "frame_used t f" if "f < 64 * unat (km_bitmap_entries s)" for f
    unfolding t_def frame_used_set_bit
    using that by (auto simp: frame_used_def row_bits less_mult_imp_div_less mult.commute)
  have "frame_used (init_pmm s) f \<longleftrightarrow> \<not> (f \<noteq> 0 \<and> f \<in> usable_frames s)"
    if "f < 64 * unat (km_bitmap_entries s)" for f
    using init_pmm_loop_used [of "mmap_entries s" t f] assms full [OF that]
    unfolding init t usable_frames_def by auto
  then show ?thesis by (auto simp: free_frames_def)
qed

definition mmap_ok :: "'a kmem_scheme \<Rightarrow> bool" where
  "mmap_ok s \<longleftrightarrow> (\<forall>i<mmap_entries s. usable_desc (km_mmap s i) \<longrightarrow>
     area_ok (md_physical_start (km_mmap s i)) (md_count (km_mmap s i)))"

lemma init_pmm_free:
  "mmap_ok s \<Longrightarrow>
    free_frames (init_pmm s) = {f \<in> usable_frames s. 0 < f \<and> f < 64 * unat (km_bitmap_entries s)}"
  by (rule init_pmm_free_frames) (simp add: mmap_ok_def)

lemma init_pmm_wf:
  assumes "mmap_ok s" "unat (km_bitmap_entries s) < 2 ^ 16"
    and "\<forall>f\<in>usable_frames s. f \<le> unat (km_mem_pages s)"
  shows "wf_pmm (init_pmm s)"
  using assms(2,3) by (auto simp: wf_pmm_def init_pmm_free [OF assms(1)])

lemma pmm_request_loop_diverges:
  assumes "unat entries \<ge> 2 ^ 16" and full: "\<And>r. r < 2 ^ 16 \<Longrightarrow> bm r = BITMAP_ROW_FULL"
  shows "pmm_request_loop entries bm row = None"
proof -
  have lt16: "unat r < 2 ^ 16" for r :: u16
    using unsigned_less [of r] by simp
  have lt: "(ucast r :: u64) < entries" for r :: u16
  proof -
    show ?thesis using assms(1) lt16 [of r] by (simp add: word_less_nat_alt unsigned_ucast_eq take_bit_nat_eq_self)
  qed
  have f: "bm (unat r) = BITMAP_ROW_FULL" for r :: u16
    using full lt16 [of r] by simp
  have "\<not> (entries = entries' \<and> bm = bm')" if "pmm_request_loop entries' bm' row = Some y" for entries' bm' y
    using that
  proof (rule pmm_request_loop.raw_induct [rotated])
    fix loop e b and r :: u16 and y
    assume "\<And>e b r y. loop e b r = Some y \<Longrightarrow> \<not> (entries = e \<and> bm = b)"
      and "(if (ucast r :: u64) < e
        then case if b (unat r) \<noteq> BITMAP_ROW_FULL then pmm_find_col (b (unat r)) 0 else None of
               None \<Rightarrow> loop e b (r + 1)
             | Some col \<Rightarrow> Some (uint r * 64 + int col)
        else Some (- 1)) = Some y"
    then show "\<not> (entries = e \<and> bm = b)" using lt [of r] f [of r] by (auto split: if_splits)
  qed
  then show ?thesis by (cases "pmm_request_loop entries bm row") auto
qed

lemma pmm_clear_set_bit:
  assumes "\<not> frame_used s (unat (a div PAGE_SIZE))"
  shows "pmm_clear_bit a (pmm_set_bit a s) = s"
proof -
  let ?p = "unat (a div PAGE_SIZE)"
  have "\<not> bit (km_bitmap s (?p div 64)) (?p mod 64)" using assms by (simp add: frame_used_def)
  then have "km_bitmap s (?p div 64) AND NOT (2 ^ (?p mod 64)) = km_bitmap s (?p div 64)"
    by (intro bit_word_eqI) (auto simp: bit_simps)
  moreover have "(x OR 2 ^ k) AND NOT (2 ^ k) = x AND NOT (2 ^ k)" for x :: u64 and k
    by (intro bit_word_eqI) (auto simp: bit_simps)
  ultimately have "(km_bitmap s)(?p div 64 := (km_bitmap s (?p div 64) OR 2 ^ (?p mod 64)) AND
      NOT (2 ^ (?p mod 64))) = km_bitmap s"
    "(km_bitmap s)(?p div 64 := km_bitmap s (?p div 64) AND NOT (2 ^ (?p mod 64))) = km_bitmap s"
    by simp_all
  then show ?thesis
    by (simp add: pmm_clear_bit_def pmm_set_bit_def Let_def row_bits unat_div unat_mod)
qed

section \<open>Contract\<close>

text \<open>
  What the page-table and virtual memory code rely on: an allocation takes a free frame out of the
  free set or reports failure without a change, a release puts the frame back.
\<close>

primrec alloc_n :: "('s \<Rightarrow> (u64 \<times> 's) option) \<Rightarrow> nat \<Rightarrow> 's \<Rightarrow> (u64 list \<times> 's) option" where
  "alloc_n alloc 0 s = Some ([], s)"
| "alloc_n alloc (Suc n) s =
     Option.bind (alloc s) (\<lambda>(a, s). Option.bind (alloc_n alloc n s) (\<lambda>(as, s). Some (a # as, s)))"

locale frame_allocator =
  fixes inv :: "'s \<Rightarrow> bool" and free :: "'s \<Rightarrow> nat set"
    and alloc :: "'s \<Rightarrow> (u64 \<times> 's) option" and release :: "u64 \<Rightarrow> 's \<Rightarrow> 's"
  assumes finite_free: "finite (free s)"
    and free_bound: "inv s \<Longrightarrow> f \<in> free s \<Longrightarrow> 0 < f \<and> f < 2 ^ 22"
    and alloc_none: "inv s \<Longrightarrow> free s = {} \<Longrightarrow> alloc s = Some (NULL, s)"
    and alloc_some: "inv s \<Longrightarrow> free s \<noteq> {} \<Longrightarrow>
      \<exists>s'. alloc s = Some (frame_addr (Min (free s)), s') \<and> inv s' \<and>
        free s' = free s - {Min (free s)} \<and> release (frame_addr (Min (free s))) s' = s"
begin

lemma alloc_total: "inv s \<Longrightarrow> \<exists>a s'. alloc s = Some (a, s') \<and> inv s' \<and> free s' \<subseteq> free s"
  using alloc_none alloc_some by (cases "free s = {}") fastforce+

lemma alloc_n_frames:
  assumes "inv s" "n \<le> card (free s)"
  shows "\<exists>fs s'. alloc_n alloc n s = Some (map frame_addr fs, s') \<and> length fs = n \<and> distinct fs \<and>
    sorted fs \<and> set fs \<subseteq> free s \<and> inv s' \<and> free s' = free s - set fs"
  using assms
proof (induction n arbitrary: s)
  case 0
  then show ?case by (intro exI [of _ "[]"]) auto
next
  case (Suc n)
  let ?f = "Min (free s)"
  from Suc.prems have ne: "free s \<noteq> {}" by auto
  then obtain t where t: "alloc s = Some (frame_addr ?f, t)" "inv t" "free t = free s - {?f}"
    using alloc_some Suc.prems(1) by blast
  have f: "?f \<in> free s" using ne finite_free by (rule Min_in [rotated])
  with t(3) Suc.prems(2) have "n \<le> card (free t)" by (simp add: finite_free)
  from Suc.IH [OF t(2) this] obtain fs u where u: "alloc_n alloc n t = Some (map frame_addr fs, u)"
    "length fs = n" "distinct fs" "sorted fs" "set fs \<subseteq> free t" "inv u" "free u = free t - set fs"
    by blast
  have "\<forall>g\<in>set fs. ?f \<le> g" using u(5) t(3) finite_free by auto
  with t u f show ?case by (intro exI [of _ "?f # fs"] exI [of _ u]) auto
qed

end

interpretation pmm: frame_allocator wf_pmm free_frames alloc_frame pmm_clear_bit
proof
  fix s :: "'a kmem_scheme"
  assume wf: "wf_pmm s"
  {
    fix f assume "f \<in> free_frames s"
    then show "0 < f \<and> f < 2 ^ 22" using free_frame_bound [OF wf] by simp
  }
  {
    assume "free_frames s = {}"
    with alloc_frame_cases [OF wf] show "alloc_frame s = Some (NULL, s)" by blast
  }
  {
    assume ne: "free_frames s \<noteq> {}"
    show "\<exists>s'. alloc_frame s = Some (frame_addr (Min (free_frames s)), s') \<and> wf_pmm s' \<and>
        free_frames s' = free_frames s - {Min (free_frames s)} \<and>
        pmm_clear_bit (frame_addr (Min (free_frames s))) s' = s"
    proof (rule alloc_frame_cases [OF wf])
      fix f assume f: "f \<in> free_frames s" "\<And>g. g \<in> free_frames s \<Longrightarrow> f \<le> g"
        "alloc_frame s = Some (frame_addr f, pmm_set_bit (frame_addr f) s)"
        "free_frames (pmm_set_bit (frame_addr f) s) = free_frames s - {f}"
        "wf_pmm (pmm_set_bit (frame_addr f) s)"
      have "Min (free_frames s) = f" using f(1,2) by (intro Min_eqI) auto
      moreover have "pmm_clear_bit (frame_addr f) (pmm_set_bit (frame_addr f) s) = s"
        using f(1) free_frame_bound [OF wf f(1)] frame_addr_page [of f]
        by (intro pmm_clear_set_bit) (auto simp: free_frames_def)
      ultimately show ?thesis using f by auto
    qed (use ne in auto)
  }
qed simp


section \<open>A concrete machine\<close>

text \<open>Two rows (128 frames), one conventional-memory descriptor: eight pages at 0x8000.\<close>

definition demo_desc :: mmap_desc_t where
  "demo_desc = \<lparr>md_type = 7, md_physical_start = 0x8000, md_virtual_start = 0, md_count = 8, md_attributes = 0\<rparr>"

definition demo_kmem :: kmem where
  "demo_kmem = \<lparr>km_mmap = (\<lambda>_. demo_desc), km_mmap_size = 48, km_mmap_desc_size = 48,
     km_num_ke = 0, km_ke = (\<lambda>_. \<lparr>ke_vaddr = 0, ke_paddr = 0, ke_num_pages = 0\<rparr>), km_pml4 = 0x1000,
     km_bitmap = (\<lambda>_. 0), km_bitmap_addr = 0x3000, km_bitmap_entries = 2, km_bitmap_size = 16,
     km_mem_pages = 127, k_vmm = \<lparr>vm_flags = 0, vm_p4_tbl = 0,
       vm_bm = \<lparr>bmp_size = 0, bmp_bsize = 0, bmp_used = 0, bmp_ffa = 0, bmp_bm = 0\<rparr>\<rparr>\<rparr>"

lemma demo_mmap_ok: "mmap_ok demo_kmem" "mmap_entries demo_kmem = 1"
  by (simp_all add: mmap_ok_def mmap_entries_def demo_kmem_def demo_desc_def area_ok_def)

lemma demo_usable: "usable_frames demo_kmem = {8, 9, 10, 11, 12, 13, 14, 15}"
  unfolding usable_frames_def demo_mmap_ok(2)
  by (auto simp: demo_kmem_def demo_desc_def usable_desc_def area_frames_def)

lemma demo_pmm_free: "free_frames (init_pmm demo_kmem) = {8, 9, 10, 11, 12, 13, 14, 15}"
proof -
  have "unat (km_bitmap_entries demo_kmem) = 2" by (simp add: demo_kmem_def)
  then have "free_frames (init_pmm demo_kmem) = {f \<in> {8, 9, 10, 11, 12, 13, 14, 15}. 0 < f \<and> f < 64 * 2}"
    by (simp only: init_pmm_free [OF demo_mmap_ok(1)] demo_usable)
  also have "\<dots> = {8, 9, 10, 11, 12, 13, 14, 15}" by auto
  finally show ?thesis .
qed

lemma demo_pmm_wf: "wf_pmm (init_pmm demo_kmem)"
  by (rule init_pmm_wf) (simp_all add: demo_mmap_ok demo_usable, simp_all add: demo_kmem_def)

lemma demo_pmm_alloc: "\<exists>s'. alloc_frame (init_pmm demo_kmem) = Some (0x8000, s')"
  using pmm.alloc_some [OF demo_pmm_wf] by (auto simp: demo_pmm_free frame_addr_def kconst)

section \<open>Properties\<close>

text \<open>
  \<^verbatim>\<open>init_pmm\<close> establishes the invariant of the frame bitmap, and the free frames are exactly the
  frames of the memory map's usable descriptors (types 3, 4 and 7), without frame 0. The bitmap has
  no more rows than the 16-bit row counter reaches, and the map reports no usable frame past the
  end of memory.
\<close>

theorem init_pmm_frees_usable:
  assumes "mmap_ok s" "unat (km_bitmap_entries s) < 2 ^ 16"
    and "\<forall>f\<in>usable_frames s. f \<le> unat (km_mem_pages s)"
  shows "wf_pmm (init_pmm s) \<and>
    free_frames (init_pmm s) = {f \<in> usable_frames s. 0 < f \<and> f < 64 * unat (km_bitmap_entries s)}"
  using init_pmm_wf [OF assms] init_pmm_free [OF assms(1)] by (rule conjI)

theorem init_pmm_frees_usable_witness:
  "wf_pmm (init_pmm demo_kmem) \<and> free_frames (init_pmm demo_kmem) =
     {f \<in> usable_frames demo_kmem. 0 < f \<and> f < 64 * unat (km_bitmap_entries demo_kmem)}"
  by (rule init_pmm_frees_usable) (simp_all add: demo_mmap_ok demo_usable, simp_all add: demo_kmem_def)



text \<open>
  C7. As long as frames are left, successive calls of \<^verbatim>\<open>alloc_frame\<close> return pairwise distinct,
  increasing, non-null frames, and exactly these leave the free set.
\<close>

theorem alloc_frames_distinct:
  assumes "wf_pmm s" "n \<le> card (free_frames s)"
  shows "\<exists>fs s'. alloc_n alloc_frame n s = Some (map frame_addr fs, s') \<and> length fs = n \<and>
    distinct (map frame_addr fs) \<and> sorted fs \<and> NULL \<notin> set (map frame_addr fs) \<and>
    wf_pmm s' \<and> free_frames s' = free_frames s - set fs"
proof -
  from pmm.alloc_n_frames [OF assms] obtain fs s' where a:
    "alloc_n alloc_frame n s = Some (map frame_addr fs, s')" "length fs = n" "distinct fs" "sorted fs"
    "set fs \<subseteq> free_frames s" "wf_pmm s'" "free_frames s' = free_frames s - set fs" by blast
  have b: "f < 2 ^ 52" "0 < f" if "f \<in> set fs" for f
    using a(5) that free_frame_bound [OF assms(1)] by force+
  then have "inj_on frame_addr (set fs)" by (metis inj_onI frame_addr_page)
  moreover have "NULL \<notin> frame_addr ` set fs" using b unat_frame_addr by force
  ultimately show ?thesis using a by (intro exI [of _ fs] exI [of _ s']) (simp add: distinct_map)
qed

theorem alloc_frames_distinct_witness:
  "\<exists>fs s'. alloc_n alloc_frame 3 (init_pmm demo_kmem) = Some (map frame_addr fs, s') \<and> length fs = 3 \<and>
    distinct (map frame_addr fs) \<and> sorted fs \<and> NULL \<notin> set (map frame_addr fs) \<and>
    wf_pmm s' \<and> free_frames s' = free_frames (init_pmm demo_kmem) - set fs"
  by (rule alloc_frames_distinct) (simp_all add: demo_pmm_wf demo_pmm_free)

text \<open>
  Releasing a frame just allocated with \<^verbatim>\<open>pmm_clear_bit\<close> gives back the state before the
  allocation, bit for bit.
\<close>

theorem alloc_release_roundtrip:
  assumes "wf_pmm s" "alloc_frame s = Some (a, s')" "a \<noteq> NULL"
  shows "pmm_clear_bit a s' = s"
  using assms pmm.alloc_none [of s] pmm.alloc_some [of s] by (cases "free_frames s = {}") auto

theorem alloc_release_roundtrip_witness:
  "\<exists>s'. alloc_frame (init_pmm demo_kmem) = Some (0x8000, s') \<and> pmm_clear_bit 0x8000 s' = init_pmm demo_kmem"
proof -
  obtain s' where s': "alloc_frame (init_pmm demo_kmem) = Some (0x8000, s')"
    using demo_pmm_alloc by blast
  from alloc_release_roundtrip [OF demo_pmm_wf this] s' show ?thesis by simp
qed

text \<open>
  C40. The row counter of \<^verbatim>\<open>pmm_request_frame\<close> has 16 bits: with 65536 rows or more (16 GiB of
  memory) \<^verbatim>\<open>alloc_frame\<close> does not return once the first 65536 rows are full, although free frames
  may be left in the rows after them.
\<close>

theorem alloc_frame_diverges:
  assumes "unat (km_bitmap_entries s) \<ge> 2 ^ 16" "\<forall>r<2 ^ 16. km_bitmap s r = BITMAP_ROW_FULL"
  shows "alloc_frame s = None"
  using pmm_request_loop_diverges [OF assms(1), of "km_bitmap s"] assms(2)
  by (simp add: alloc_frame_def pmm_request_frame_def)

theorem alloc_frame_diverges_witness:
  "alloc_frame (demo_kmem\<lparr>km_bitmap := (\<lambda>r. if r < 2 ^ 16 then BITMAP_ROW_FULL else 0),
     km_bitmap_entries := 0x10001\<rparr>) = None"
  by (rule alloc_frame_diverges) simp_all

text \<open>
  \<^verbatim>\<open>init_pmm\<close> reserves the frame of the SMP trampoline (0x8000) before it frees the usable areas:
  when the firmware reports that frame as usable, it is free again after \<^verbatim>\<open>init_pmm\<close>.
\<close>

theorem init_pmm_trampoline_not_reserved:
  assumes "mmap_ok s" "0 < km_bitmap_entries s" "8 \<in> usable_frames s"
  shows "pmm_check_bit 0x8000 (init_pmm s) \<and> 8 \<in> free_frames (init_pmm s)"
proof -
  have "0 < unat (km_bitmap_entries s)" using assms(2) by (simp add: word_less_nat_alt)
  then have "8 \<in> free_frames (init_pmm s)"
    using assms(3) by (simp add: init_pmm_free [OF assms(1)])
  then show ?thesis by (simp add: pmm_check_bit_iff row_bits free_frames_def)
qed

theorem init_pmm_trampoline_not_reserved_witness:
  "pmm_check_bit 0x8000 (init_pmm demo_kmem) \<and> 8 \<in> free_frames (init_pmm demo_kmem)"
  by (rule init_pmm_trampoline_not_reserved) (simp_all add: demo_mmap_ok demo_usable, simp add: demo_kmem_def)

text \<open>
  The range check of \<^verbatim>\<open>pmm_set_bit\<close> is off by one: when the frames fill the rows exactly, setting
  the bit of the frame just past the end of memory writes the row after the last one.
\<close>

theorem pmm_set_bit_past_end:
  assumes "unat (km_mem_pages s) = 64 * unat (km_bitmap_entries s)"
    and "0 < km_bitmap_entries s" "unat (km_mem_pages s) < 2 ^ 52"
  shows "km_bitmap (pmm_set_bit (km_mem_pages s * PAGE_SIZE) s) (unat (km_bitmap_entries s)) =
    km_bitmap s (unat (km_bitmap_entries s)) OR 1"
proof -
  have a: "unat (km_mem_pages s * PAGE_SIZE) = unat (km_mem_pages s) * 4096"
    using assms(3) by (subst unat_mult_nowrap) (auto simp: row_bits)
  have ne: "km_mem_pages s * PAGE_SIZE \<noteq> 0"
  proof
    assume "km_mem_pages s * PAGE_SIZE = 0"
    with a assms(1,2) show False by (simp add: word_less_nat_alt)
  qed
  have p: "km_mem_pages s * PAGE_SIZE div PAGE_SIZE = km_mem_pages s"
  proof (rule word_unat_eq_iff [THEN iffD2])
    show "unat (km_mem_pages s * PAGE_SIZE div PAGE_SIZE) = unat (km_mem_pages s)"
      by (simp only: unat_div a) (simp add: row_bits)
  qed
  show ?thesis
    unfolding pmm_set_bit_def Let_def p using ne assms(1) by (simp add: unat_div unat_mod kconst)
qed

theorem pmm_set_bit_past_end_witness:
  "km_bitmap (pmm_set_bit (km_mem_pages (demo_kmem\<lparr>km_mem_pages := 128\<rparr>) * PAGE_SIZE)
     (demo_kmem\<lparr>km_mem_pages := 128\<rparr>)) (unat (km_bitmap_entries (demo_kmem\<lparr>km_mem_pages := 128\<rparr>))) =
   km_bitmap (demo_kmem\<lparr>km_mem_pages := 128\<rparr>) (unat (km_bitmap_entries (demo_kmem\<lparr>km_mem_pages := 128\<rparr>))) OR 1"
  by (rule pmm_set_bit_past_end) (simp_all add: demo_kmem_def)

end
