(* ===== verification/Paging.thy ===== *)
theory Paging
  imports Pmm
begin

text \<open>
  The page-table half of \<^verbatim>\<open>src/kernel/mem/pmm.c\<close>. Page tables live in \<open>pt_mem\<close>, a memory of 64-bit
  words indexed by the pointer value the code dereferences: entry \<open>i\<close> of the table at \<open>t\<close> is the word
  at \<open>t + 8 * i\<close>. The frame bitmap is kept apart in \<open>km_bitmap\<close>. \<^verbatim>\<open>invlpg\<close> and the log calls have no
  effect on this state and are left out.
\<close>

section \<open>Definitions\<close>

record paging = kmem +
  pt_mem :: "u64 \<Rightarrow> u64"

definition pt_read :: "'a paging_scheme \<Rightarrow> u64 \<Rightarrow> u64 \<Rightarrow> u64" where
  "pt_read s tbl i = pt_mem s (tbl + 8 * i)"

definition pt_write :: "u64 \<Rightarrow> u64 \<Rightarrow> u64 \<Rightarrow> 'a paging_scheme \<Rightarrow> 'a paging_scheme" where
  "pt_write tbl i v s = s\<lparr>pt_mem := (pt_mem s)(tbl + 8 * i := v)\<rparr>"

definition clean_table :: "u64 \<Rightarrow> 'a paging_scheme \<Rightarrow> 'a paging_scheme" where
  "clean_table table s = for_upto 512 (\<lambda>i. pt_write table (of_nat i) 0) s"

definition table_empty :: "u64 \<Rightarrow> 'a paging_scheme \<Rightarrow> bool" where
  "table_empty table s \<longleftrightarrow> list_all (\<lambda>i. pt_read s table (of_nat i) AND 1 = 0) [0..<512]"

text \<open>
  \<open>map_addr\<close> calls itself to map every table it adds; that it returns is a theorem. \<open>None\<close> is "does
  not return".
\<close>

partial_function (option) map_addr ::
    "u64 \<Rightarrow> u64 \<Rightarrow> u64 \<Rightarrow> u64 \<Rightarrow> 'a paging_scheme \<Rightarrow> 'a paging_scheme option" where
  [code]: "map_addr physical virtual flags p4_tbl s =
    (if physical = 0 \<or> virtual = 0 then Some s
     else
       let physical = ALIGN_ADDR physical;
           virtual = ALIGN_ADDR virtual;
           p4_idx = P4_ENTRY virtual; p3_idx = P3_ENTRY virtual;
           p2_idx = P2_ENTRY virtual; p1_idx = P1_ENTRY virtual
       in Option.bind
         (if pt_read s p4_tbl p4_idx AND 1 = 0
          then Option.bind (alloc_frame s) (\<lambda>(table, s).
                 map_addr table table KERNEL_PT_ENTRY p4_tbl
                   (clean_table table (pt_write p4_tbl p4_idx (table OR USER_PT_ENTRY) s)))
          else Some s)
         (\<lambda>s. let p3_tbl = pt_read s p4_tbl p4_idx AND SIGN_MASK in Option.bind
         (if pt_read s p3_tbl p3_idx AND 1 = 0
          then Option.bind (alloc_frame s) (\<lambda>(table, s).
                 map_addr table table KERNEL_PT_ENTRY p4_tbl
                   (clean_table table (pt_write p3_tbl p3_idx (table OR USER_PT_ENTRY) s)))
          else Some s)
         (\<lambda>s. let p2_tbl = pt_read s p3_tbl p3_idx AND SIGN_MASK in Option.bind
         (if pt_read s p2_tbl p2_idx AND 1 = 0
          then Option.bind (alloc_frame s) (\<lambda>(table, s).
                 map_addr table table KERNEL_PT_ENTRY p4_tbl
                   (clean_table table (pt_write p2_tbl p2_idx (table OR USER_PT_ENTRY) s)))
          else Some s)
         (\<lambda>s. let p1_tbl = pt_read s p2_tbl p2_idx AND SIGN_MASK in
            Some (pt_write p1_tbl p1_idx (physical OR flags) s)))))"

definition map_range ::
    "u64 \<Rightarrow> u64 \<Rightarrow> u64 \<Rightarrow> u64 \<Rightarrow> u64 \<Rightarrow> 'a paging_scheme \<Rightarrow> 'a paging_scheme option" where
  "map_range physical virtual num_pages flags p4_tbl s =
     for_opt (unat num_pages)
       (\<lambda>i. map_addr (physical + of_nat i * PAGE_SIZE) (virtual + of_nat i * PAGE_SIZE) flags p4_tbl) s"

definition map_kernel_entries :: "u64 \<Rightarrow> 'a paging_scheme \<Rightarrow> 'a paging_scheme option" where
  "map_kernel_entries p4_tbl s =
     for_opt (unat (km_num_ke s))
       (\<lambda>i s. map_range (ke_paddr (km_ke s i)) (ke_vaddr (km_ke s i)) (ke_num_pages (km_ke s i))
                USER_PT_ENTRY p4_tbl s) s"

definition map_pmm :: "u64 \<Rightarrow> 'a paging_scheme \<Rightarrow> 'a paging_scheme option" where
  "map_pmm table s =
     (let num_pages = DIV_CEIL (km_bitmap_size s) PAGE_SIZE in
      for_opt (unat num_pages)
        (\<lambda>i s. map_addr (km_bitmap_addr s + of_nat i * PAGE_SIZE)
                 (km_bitmap_addr s + of_nat i * PAGE_SIZE) KERNEL_PT_ENTRY table s) s)"

text \<open>
  \<open>unmap_addr\<close> up to its \<^verbatim>\<open>return\<close>; the clean-up of empty tables behind it is unreachable. It reaches
  the lower tables through their higher-half addresses (\<open>VADDR\<close>).
\<close>

definition unmap_addr :: "u64 \<Rightarrow> u64 \<Rightarrow> 'a paging_scheme \<Rightarrow> 'a paging_scheme" where
  "unmap_addr addr p4_tbl s =
     (let p4_tbl = (if p4_tbl = NULL then km_pml4 s else p4_tbl);
          p4_idx = P4_ENTRY addr; p3_idx = P3_ENTRY addr; p2_idx = P2_ENTRY addr; p1_idx = P1_ENTRY addr
      in if pt_read s p4_tbl p4_idx AND 1 = 0 then s
         else let p3_tbl = VADDR (pt_read s p4_tbl p4_idx AND SIGN_MASK) in
         if pt_read s p3_tbl p3_idx AND 1 = 0 then s
         else let p2_tbl = VADDR (pt_read s p3_tbl p3_idx AND SIGN_MASK) in
         if pt_read s p2_tbl p2_idx AND 1 = 0 then s
         else let p1_tbl = VADDR (pt_read s p2_tbl p2_idx AND SIGN_MASK) in
         pt_write p1_tbl p1_idx 0 s)"

definition translate_addr :: "u64 \<Rightarrow> u64 \<Rightarrow> 'a paging_scheme \<Rightarrow> u64" where
  "translate_addr virtual p4_tbl s =
     (let p4_tbl = (if p4_tbl = NULL then km_pml4 s else p4_tbl);
          virtual = ALIGN_ADDR virtual;
          p4_idx = P4_ENTRY virtual; p3_idx = P3_ENTRY virtual;
          p2_idx = P2_ENTRY virtual; p1_idx = P1_ENTRY virtual
      in if pt_read s p4_tbl p4_idx AND 1 = 0 then 0
         else let p3_tbl = pt_read s p4_tbl p4_idx AND SIGN_MASK in
         if pt_read s p3_tbl p3_idx AND 1 = 0 then 0
         else let p2_tbl = pt_read s p3_tbl p3_idx AND SIGN_MASK in
         if pt_read s p2_tbl p2_idx AND 1 = 0 then 0
         else let p1_tbl = pt_read s p2_tbl p2_idx AND SIGN_MASK in
         pt_read s p1_tbl p1_idx AND SIGN_MASK)"

fun free_page_table :: "u64 \<Rightarrow> nat \<Rightarrow> 'a paging_scheme \<Rightarrow> 'a paging_scheme" where
  "free_page_table table level s =
     (let s = (if level > 1
               then for_upto 512 (\<lambda>i s.
                      if pt_read s table (of_nat i) AND 1 \<noteq> 0
                      then free_page_table (pt_read s table (of_nat i) AND SIGN_MASK) (level - 1) s
                      else s) s
               else s)
      in pmm_clear_bit (PADDR table) s)"

declare free_page_table.simps [simp del]

section \<open>Table entries and slots\<close>

lemma bit_of_nat_frame: "f < 2 ^ 35 \<Longrightarrow> 35 \<le> k \<Longrightarrow> \<not> bit f k" for f :: nat
  by (metis bit_take_bit_iff linorder_not_less take_bit_nat_eq_self)

lemma frame_addr_push: "frame_addr f = push_bit 12 (of_nat f)"
  by (simp add: frame_addr_def row_bits push_bit_eq_mult mult.commute)

lemma bit_frame_addr:
  "bit (frame_addr f) n \<longleftrightarrow> 12 \<le> n \<and> n < 64 \<and> bit f (n - 12)"
  by (auto simp: frame_addr_push bit_simps)

lemma bit_SIGN_MASK: "bit SIGN_MASK n \<longleftrightarrow> 12 \<le> n \<and> n < 52"
proof -
  have "SIGN_MASK = push_bit 12 (mask 40)" by (simp add: kconst mask_eq_exp_minus_1 push_bit_eq_mult)
  show ?thesis unfolding \<open>SIGN_MASK = _\<close> by (auto simp: bit_simps)
qed

lemma frame_addr_SIGN_MASK: "f < 2 ^ 35 \<Longrightarrow> frame_addr f AND SIGN_MASK = frame_addr f"
  using bit_of_nat_frame [of f]
  by (intro bit_word_eqI) (auto simp: bit_and_iff bit_frame_addr bit_SIGN_MASK intro: ccontr)

lemma mask_or_flags:
  "flags AND SIGN_MASK = 0 \<Longrightarrow> (a OR flags) AND SIGN_MASK = a AND SIGN_MASK"
  by (simp add: bit.conj_disj_distrib2)

text \<open>The flags an entry for a table is written with: present, and outside of the address.\<close>

definition table_flags :: "u64 \<Rightarrow> bool" where
  "table_flags flags \<longleftrightarrow> flags AND SIGN_MASK = 0 \<and> bit flags 0"

lemma table_flags_user: "table_flags USER_PT_ENTRY" and table_flags_kernel: "table_flags KERNEL_PT_ENTRY"
  by (simp_all add: table_flags_def kconst)

lemma table_entry_flags:
  assumes "table_flags flags" "f < 2 ^ 35"
  shows "(frame_addr f OR flags) AND SIGN_MASK = frame_addr f" "(frame_addr f OR flags) AND 1 \<noteq> 0"
proof -
  show "(frame_addr f OR flags) AND SIGN_MASK = frame_addr f"
    using assms mask_or_flags [of flags "frame_addr f"] frame_addr_SIGN_MASK [of f] by (simp add: table_flags_def)
  have "bit ((frame_addr f OR flags) AND 1) 0"
    using assms(1) by (simp add: table_flags_def bit_and_iff bit_or_iff)
  then show "(frame_addr f OR flags) AND 1 \<noteq> 0" by auto
qed

lemmas table_entry = table_entry_flags [OF table_flags_user]

lemma unat_slot:
  assumes "f < 2 ^ 35" "i < 512"
  shows "unat (frame_addr f + 8 * i) = f * 4096 + 8 * unat i"
proof -
  have i: "unat i < 512" using assms(2) by (simp add: word_less_nat_alt)
  then have "unat (8 * i) = 8 * unat i" by (subst unat_mult_nowrap) auto
  then show ?thesis using i assms(1) by (subst unat_add_nowrap) (auto simp: unat_frame_addr)
qed

lemma slot_inj:
  assumes "f < 2 ^ 35" "i < 512" "g < 2 ^ 35" "j < 512"
  shows "frame_addr f + 8 * i = frame_addr g + 8 * j \<longleftrightarrow> f = g \<and> i = j"
proof
  assume "frame_addr f + 8 * i = frame_addr g + 8 * j"
  then have eq: "f * 4096 + 8 * unat i = g * 4096 + 8 * unat j"
    using unat_slot assms by metis
  moreover have "8 * unat i < 4096" "8 * unat j < 4096"
    using assms(2,4) by (simp_all add: word_less_nat_alt)
  ultimately have "f = g" by linarith
  with eq show "f = g \<and> i = j" by (simp add: word_unat_eq_iff)
qed simp

lemma frame_addr_inj: "f < 2 ^ 35 \<Longrightarrow> g < 2 ^ 35 \<Longrightarrow> frame_addr f = frame_addr g \<longleftrightarrow> f = g"
  using slot_inj [of f 0 g 0] by simp

lemma pt_read_write:
  "pt_read (pt_write t i v s) u j = (if t + 8 * i = u + 8 * j then v else pt_read s u j)"
  by (simp add: pt_read_def pt_write_def)

lemma pt_read_write_frame:
  assumes "f < 2 ^ 35" "i < 512" "g < 2 ^ 35" "j < 512"
  shows "pt_read (pt_write (frame_addr f) i v s) (frame_addr g) j =
    (if f = g \<and> i = j then v else pt_read s (frame_addr g) j)"
  using slot_inj [OF assms] by (simp add: pt_read_write)

lemma pt_write_frame [simp]:
  "free_frames (pt_write t i v s) = free_frames s" "wf_pmm (pt_write t i v s) = wf_pmm s"
  "km_pml4 (pt_write t i v s) = km_pml4 s" "km_num_ke (pt_write t i v s) = km_num_ke s"
  "km_ke (pt_write t i v s) = km_ke s" "km_bitmap_addr (pt_write t i v s) = km_bitmap_addr s"
  "km_bitmap (pt_write t i v s) = km_bitmap s"
  by (simp_all add: pt_write_def wf_pmm_def free_frames_def frame_used_def)

lemma clean_table_keeps:
  assumes "\<And>i t. g (pt_write table i 0 t) = g t"
  shows "g (clean_table table s) = g s"
  unfolding clean_table_def
  by (rule for_upto_inv [where P = "\<lambda>_ t. g t = g s"]) (simp_all add: assms)

lemma clean_table_frame [simp]:
  "free_frames (clean_table t s) = free_frames s" "wf_pmm (clean_table t s) = wf_pmm s"
  "km_pml4 (clean_table t s) = km_pml4 s" "km_num_ke (clean_table t s) = km_num_ke s"
  "km_ke (clean_table t s) = km_ke s" "km_bitmap_addr (clean_table t s) = km_bitmap_addr s"
  "km_bitmap (clean_table t s) = km_bitmap s"
  by (rule clean_table_keeps, simp)+

lemma clean_table_read:
  assumes "f < 2 ^ 35" "g < 2 ^ 35" "j < 512"
  shows "pt_read (clean_table (frame_addr f) s) (frame_addr g) j =
    (if f = g then 0 else pt_read s (frame_addr g) j)"
proof -
  have "pt_read (for_upto n (\<lambda>i. pt_write (frame_addr f) (of_nat i) 0) s) (frame_addr g) j =
      (if f = g \<and> unat j < n then 0 else pt_read s (frame_addr g) j)" if "n \<le> 512" for n
    using that
  proof (induction n)
    case (Suc n)
    then have n: "(of_nat n :: u64) < 512" "unat (of_nat n :: u64) = n"
      by (simp_all add: word_less_nat_alt unat_of_nat64)
    then have "of_nat n = j \<longleftrightarrow> unat j = n" by (metis word_unat_eq_iff)
    with Suc n assms show ?case by (auto simp: pt_read_write_frame less_Suc_eq)
  qed simp
  from this [of 512] assms(3) show ?thesis by (simp add: clean_table_def word_less_nat_alt)
qed

lemma alloc_frame_pt:
  "alloc_frame s = Some (a, s') \<Longrightarrow> pt_mem s' = pt_mem s \<and> pt_read s' = pt_read s"
  by (auto simp: alloc_frame_def pmm_set_bit_def Let_def pt_read_def fun_eq_iff bind_eq_Some_conv split: if_splits)

text \<open>Two states that differ in the frame bitmap and the table memory only.\<close>

definition pt_only :: "'a paging_scheme \<Rightarrow> 'a paging_scheme \<Rightarrow> bool" where
  "pt_only s s' \<longleftrightarrow> (\<exists>b m. s' = s\<lparr>km_bitmap := b, pt_mem := m\<rparr>)"

lemma pt_only_refl [simp]: "pt_only s s"
  unfolding pt_only_def by (rule exI [of _ "km_bitmap s"], rule exI [of _ "pt_mem s"]) simp

lemma pt_only_trans: "pt_only s t \<Longrightarrow> pt_only t u \<Longrightarrow> pt_only s u"
  unfolding pt_only_def by (elim exE, simp) blast

lemma pt_only_write: "pt_only s (pt_write t i v s)"
  unfolding pt_only_def pt_write_def by (rule exI [of _ "km_bitmap s"]) auto

lemma pt_only_set_bit: "pt_only s (pmm_set_bit a s)"
  unfolding pt_only_def by (rule exI [of _ "km_bitmap (pmm_set_bit a s)"], rule exI [of _ "pt_mem s"])
    (simp add: pmm_set_bit_def Let_def)

lemma pt_only_clean: "pt_only s (clean_table a s)"
  unfolding clean_table_def
  by (rule for_upto_inv [where P = "\<lambda>_. pt_only s"]) (auto intro: pt_only_trans pt_only_write)

section \<open>Termination\<close>

definition map_level :: "u64 \<Rightarrow> u64 \<Rightarrow> u64 \<Rightarrow> 'a paging_scheme \<Rightarrow> 'a paging_scheme option" where
  "map_level p4_tbl tbl i s =
     (if pt_read s tbl i AND 1 = 0
      then Option.bind (alloc_frame s) (\<lambda>(table, s).
             map_addr table table KERNEL_PT_ENTRY p4_tbl
               (clean_table table (pt_write tbl i (table OR USER_PT_ENTRY) s)))
      else Some s)"

lemma map_addr_levels:
  "map_addr physical virtual flags p4 s =
    (if physical = 0 \<or> virtual = 0 then Some s
     else let v = ALIGN_ADDR virtual in
       Option.bind (map_level p4 p4 (P4_ENTRY v) s) (\<lambda>s1.
         let p3 = pt_read s1 p4 (P4_ENTRY v) AND SIGN_MASK in
       Option.bind (map_level p4 p3 (P3_ENTRY v) s1) (\<lambda>s2.
         let p2 = pt_read s2 p3 (P3_ENTRY v) AND SIGN_MASK in
       Option.bind (map_level p4 p2 (P2_ENTRY v) s2) (\<lambda>s3.
         let p1 = pt_read s3 p2 (P2_ENTRY v) AND SIGN_MASK in
         Some (pt_write p1 (P1_ENTRY v) (ALIGN_ADDR physical OR flags) s3)))))"
  by (subst map_addr.simps) (simp only: map_level_def Let_def)

definition shrinks :: "('a paging_scheme \<Rightarrow> 'a paging_scheme option) \<Rightarrow> 'a paging_scheme \<Rightarrow> bool" where
  "shrinks f s \<longleftrightarrow> (\<exists>s'. f s = Some s' \<and> wf_pmm s' \<and> free_frames s' \<subseteq> free_frames s \<and> pt_only s s')"

lemma map_level_shrinks:
  fixes s :: "'a paging_scheme"
  assumes wf: "wf_pmm s"
    and rec: "\<And>(t :: 'a paging_scheme) a. wf_pmm t \<Longrightarrow> free_frames t \<subset> free_frames s \<Longrightarrow> shrinks (map_addr a a KERNEL_PT_ENTRY p4) t"
  shows "shrinks (map_level p4 tbl i) s"
proof (cases "pt_read s tbl i AND 1 = 0")
  case True
  show ?thesis
  proof (rule alloc_frame_cases [OF wf])
    assume "alloc_frame s = Some (NULL, s)"
    moreover have "pt_only s (clean_table NULL (pt_write tbl i USER_PT_ENTRY s))"
      by (blast intro: pt_only_trans pt_only_write pt_only_clean)
    ultimately show ?thesis using True wf by (simp add: shrinks_def map_level_def map_addr_levels)
  next
    fix f
    assume f: "f \<in> free_frames s" "alloc_frame s = Some (frame_addr f, pmm_set_bit (frame_addr f) s)"
      "free_frames (pmm_set_bit (frame_addr f) s) = free_frames s - {f}"
      "wf_pmm (pmm_set_bit (frame_addr f) s)"
    let ?t = "clean_table (frame_addr f) (pt_write tbl i (frame_addr f OR USER_PT_ENTRY) (pmm_set_bit (frame_addr f) s))"
    have "shrinks (map_addr (frame_addr f) (frame_addr f) KERNEL_PT_ENTRY p4) ?t"
      using f(1,3,4) by (intro rec) (simp_all, blast)
    moreover have "pt_only s ?t" by (blast intro: pt_only_trans pt_only_write pt_only_set_bit pt_only_clean)
    ultimately show ?thesis using True f by (auto simp: shrinks_def map_level_def intro: pt_only_trans)
  qed
qed (simp add: shrinks_def map_level_def wf)

lemma map_addr_shrinks: "wf_pmm s \<Longrightarrow> shrinks (map_addr physical virtual flags p4) s" for s :: "'a paging_scheme"
proof (induction "card (free_frames s)" arbitrary: s physical virtual flags rule: less_induct)
  case less
  have level: "shrinks (map_level p4 tbl i) t" if "wf_pmm t" "free_frames t \<subseteq> free_frames s" for tbl i and t :: "'a paging_scheme"
  proof (rule map_level_shrinks [OF that(1)])
    fix u :: "'a paging_scheme" and a
    assume "wf_pmm u" "free_frames u \<subset> free_frames t"
    then show "shrinks (map_addr a a KERNEL_PT_ENTRY p4) u"
      using psubset_card_mono [of "free_frames s" "free_frames u"] that(2) by (intro less.hyps) auto
  qed
  define v where "v = ALIGN_ADDR virtual"
  obtain s1 where s1: "map_level p4 p4 (P4_ENTRY v) s = Some s1" "wf_pmm s1" "free_frames s1 \<subseteq> free_frames s" "pt_only s s1"
    using level [of s] less.prems unfolding shrinks_def by blast
  define p3 where "p3 = pt_read s1 p4 (P4_ENTRY v) AND SIGN_MASK"
  obtain s2 where s2: "map_level p4 p3 (P3_ENTRY v) s1 = Some s2" "wf_pmm s2" "free_frames s2 \<subseteq> free_frames s1" "pt_only s1 s2"
    using level [of s1] s1 unfolding shrinks_def by blast
  define p2 where "p2 = pt_read s2 p3 (P3_ENTRY v) AND SIGN_MASK"
  obtain s3 where s3: "map_level p4 p2 (P2_ENTRY v) s2 = Some s3" "wf_pmm s3" "free_frames s3 \<subseteq> free_frames s2" "pt_only s2 s3"
    using level [of s2] s1 s2 unfolding shrinks_def by blast
  show ?case
    using less.prems s1 s2 s3 pt_only_trans [OF pt_only_trans [OF pt_only_trans [OF s1(4) s2(4)] s3(4)] pt_only_write]
    by (subst map_addr_levels [abs_def]) (auto simp: shrinks_def Let_def v_def [symmetric] p3_def [symmetric] p2_def [symmetric])
qed

end
