(* ===== verification/Page_Tables.thy ===== *)
theory Page_Tables
  imports Paging
begin

text \<open>
  The page tables as a tree: walks from the root, the invariant that distinct paths reach distinct
  frames in use, the view of the tree as a map from pages to physical addresses, and how
  \<open>map_addr\<close>, \<open>map_range\<close>, \<open>free_page_table\<close> and \<open>unmap_addr\<close> act on it.
\<close>

section \<open>Pages\<close>

definition page :: "u64 \<Rightarrow> u64 list \<times> u64" where
  "page v = ([P4_ENTRY v, P3_ENTRY v, P2_ENTRY v], P1_ENTRY v)"

lemma bit_entry:
  "bit (P4_ENTRY v) n \<longleftrightarrow> n < 9 \<and> bit v (39 + n)" "bit (P3_ENTRY v) n \<longleftrightarrow> n < 9 \<and> bit v (30 + n)"
  "bit (P2_ENTRY v) n \<longleftrightarrow> n < 9 \<and> bit v (21 + n)" "bit (P1_ENTRY v) n \<longleftrightarrow> n < 9 \<and> bit v (12 + n)"
proof -
  have m: "(0x1FF :: u64) = mask 9" by (simp add: mask_eq_exp_minus_1)
  show "bit (P4_ENTRY v) n \<longleftrightarrow> n < 9 \<and> bit v (39 + n)" "bit (P3_ENTRY v) n \<longleftrightarrow> n < 9 \<and> bit v (30 + n)"
    "bit (P2_ENTRY v) n \<longleftrightarrow> n < 9 \<and> bit v (21 + n)" "bit (P1_ENTRY v) n \<longleftrightarrow> n < 9 \<and> bit v (12 + n)"
    unfolding P4_ENTRY_def P3_ENTRY_def P2_ENTRY_def P1_ENTRY_def m
    by (auto simp: bit_and_iff bit_drop_bit_eq bit_mask_iff)
qed

lemma entry_less [simp]: "P4_ENTRY v < 512" "P3_ENTRY v < 512" "P2_ENTRY v < 512" "P1_ENTRY v < 512"
proof -
  have "x AND 0x1FF < 512" for x :: u64
  proof -
    have "x AND 0x1FF \<le> 0x1FF" by (rule word_and_le1)
    then show ?thesis by (rule order.strict_trans1) simp
  qed
  then show "P4_ENTRY v < 512" "P3_ENTRY v < 512" "P2_ENTRY v < 512" "P1_ENTRY v < 512"
    by (simp_all add: kmacro)
qed

lemma page_eq_iff: "page v = page w \<longleftrightarrow> (\<forall>n. 12 \<le> n \<and> n < 48 \<longrightarrow> bit v n = bit w n)"
proof
  assume eq: "page v = page w"
  show "\<forall>n. 12 \<le> n \<and> n < 48 \<longrightarrow> bit v n = bit w n"
  proof (intro allI impI)
    fix n :: nat assume n: "12 \<le> n \<and> n < 48"
    have e: "P4_ENTRY v = P4_ENTRY w" "P3_ENTRY v = P3_ENTRY w" "P2_ENTRY v = P2_ENTRY w" "P1_ENTRY v = P1_ENTRY w"
      using eq by (auto simp: page_def)
    consider "n < 21" | "21 \<le> n" "n < 30" | "30 \<le> n" "n < 39" | "39 \<le> n" by linarith
    then show "bit v n = bit w n"
    proof cases
      case 1
      then show ?thesis using bit_entry(4) [of v "n - 12"] bit_entry(4) [of w "n - 12"] e n by auto
    next
      case 2
      then show ?thesis using bit_entry(3) [of v "n - 21"] bit_entry(3) [of w "n - 21"] e by auto
    next
      case 3
      then show ?thesis using bit_entry(2) [of v "n - 30"] bit_entry(2) [of w "n - 30"] e by auto
    next
      case 4
      then show ?thesis using bit_entry(1) [of v "n - 39"] bit_entry(1) [of w "n - 39"] e n by auto
    qed
  qed
next
  assume "\<forall>n. 12 \<le> n \<and> n < 48 \<longrightarrow> bit v n = bit w n"
  then show "page v = page w"
    by (auto simp: page_def bit_entry intro!: bit_word_eqI)
qed

lemma bit_ALIGN_ADDR: "bit (ALIGN_ADDR v) n \<longleftrightarrow> 12 \<le> n \<and> bit v n"
proof -
  have "- PAGE_SIZE = NOT (mask 12)" by (simp add: kconst mask_eq_exp_minus_1 not_eq_complement)
  then show ?thesis by (auto simp: kmacro bit_simps dest: bit_imp_le_length)
qed

lemma page_ALIGN [simp]: "page (ALIGN_ADDR v) = page v"
  by (simp add: page_eq_iff bit_ALIGN_ADDR)

lemma page_frame_inj:
  assumes "f < 2 ^ 22" "g < 2 ^ 22" "page (frame_addr f) = page (frame_addr g)"
  shows "f = g"
proof (rule bit_eqI)
  fix n
  have hi: "\<not> bit h k" if "h < 2 ^ 22" "22 \<le> k" for h k :: nat
    using that by (metis bit_take_bit_iff linorder_not_less take_bit_nat_eq_self)
  show "bit f n = bit g n"
  proof (cases "n < 36")
    case True
    then have "bit (frame_addr f) (n + 12) = bit (frame_addr g) (n + 12)"
      using assms(3) by (simp add: page_eq_iff)
    with True show ?thesis by (simp add: bit_frame_addr)
  qed (use hi assms in auto)
qed

lemma ALIGN_frame_addr [simp]: "ALIGN_ADDR (frame_addr f) = frame_addr f"
  by (intro bit_word_eqI) (auto simp: bit_ALIGN_ADDR bit_frame_addr)

section \<open>Walks\<close>

primrec walk :: "'a paging_scheme \<Rightarrow> u64 \<Rightarrow> u64 list \<Rightarrow> u64 option" where
  "walk s t [] = Some t"
| "walk s t (i # is) = (if pt_read s t i AND 1 = 0 then None else walk s (pt_read s t i AND SIGN_MASK) is)"

lemma walk_snoc:
  "walk s t (q @ [i]) = (case walk s t q of None \<Rightarrow> None
     | Some u \<Rightarrow> if pt_read s u i AND 1 = 0 then None else Some (pt_read s u i AND SIGN_MASK))"
  by (induction q arbitrary: t) auto

definition valid_path :: "u64 list \<Rightarrow> bool" where
  "valid_path q \<longleftrightarrow> length q \<le> 3 \<and> (\<forall>i\<in>set q. i < 512)"

lemma valid_path_simps [simp]:
  "valid_path []" "valid_path (i # q) \<longleftrightarrow> i < 512 \<and> length q \<le> 2 \<and> valid_path q"
  "valid_path (q @ [i]) \<longleftrightarrow> i < 512 \<and> length q \<le> 2 \<and> valid_path q"
  by (auto simp: valid_path_def)

definition valid_page :: "u64 list \<times> u64 \<Rightarrow> bool" where
  "valid_page pg \<longleftrightarrow> valid_path (fst pg) \<and> length (fst pg) = 3 \<and> snd pg < 512"

lemma valid_page_page [simp]: "valid_page (page v)" "valid_path (fst (page v))" "length (fst (page v)) = 3"
  by (simp_all add: valid_page_def page_def)

definition pview :: "'a paging_scheme \<Rightarrow> u64 \<Rightarrow> u64 list \<times> u64 \<Rightarrow> u64" where
  "pview s p4 pg = (case walk s p4 (fst pg) of None \<Rightarrow> 0 | Some t \<Rightarrow> pt_read s t (snd pg) AND SIGN_MASK)"

lemma translate_addr_pview:
  "p4 \<noteq> NULL \<Longrightarrow> translate_addr v p4 s = pview s p4 (page v)"
proof -
  assume "p4 \<noteq> NULL"
  then have "translate_addr v p4 s = pview s p4 (page (ALIGN_ADDR v))"
    by (simp add: translate_addr_def pview_def page_def Let_def)
  then show ?thesis by simp
qed

definition pt_inv :: "u64 \<Rightarrow> 'a paging_scheme \<Rightarrow> bool" where
  "pt_inv p4 s \<longleftrightarrow>
     (\<forall>q t. valid_path q \<longrightarrow> walk s p4 q = Some t \<longrightarrow>
        (\<exists>f. t = frame_addr f \<and> 0 < f \<and> f < 2 ^ 35 \<and> f \<notin> free_frames s)) \<and>
     (\<forall>q r t. valid_path q \<longrightarrow> valid_path r \<longrightarrow> walk s p4 q = Some t \<longrightarrow> walk s p4 r = Some t \<longrightarrow> q = r)"

lemma pt_invE:
  assumes "pt_inv p4 s" "valid_path q" "walk s p4 q = Some t"
  obtains f where "t = frame_addr f" "0 < f" "f < 2 ^ 35" "f \<notin> free_frames s"
  using assms unfolding pt_inv_def by blast

lemma pt_inv_inj:
  "pt_inv p4 s \<Longrightarrow> valid_path q \<Longrightarrow> valid_path r \<Longrightarrow> walk s p4 q = Some t \<Longrightarrow> walk s p4 r = Some t \<Longrightarrow> q = r"
  unfolding pt_inv_def by blast

lemma pt_inv_same:
  assumes "pt_inv p4 s" "\<And>q. valid_path q \<Longrightarrow> walk t p4 q = walk s p4 q" "free_frames t \<subseteq> free_frames s"
  shows "pt_inv p4 t"
  unfolding pt_inv_def
proof (intro conjI allI impI)
  fix q u assume "valid_path q" "walk t p4 q = Some u"
  then show "\<exists>f. u = frame_addr f \<and> 0 < f \<and> f < 2 ^ 35 \<and> f \<notin> free_frames t"
    using assms pt_invE [of p4 s q u] by (metis subsetD)
next
  fix q r u assume "valid_path q" "valid_path r" "walk t p4 q = Some u" "walk t p4 r = Some u"
  then show "q = r" using assms pt_inv_inj [of p4 s q r u] by simp
qed

text \<open>The frame of the new table is zeroed and linked; all other tables keep their entries.\<close>

definition link_table :: "u64 \<Rightarrow> u64 \<Rightarrow> u64 \<Rightarrow> nat \<Rightarrow> 'a paging_scheme \<Rightarrow> 'a paging_scheme" where
  "link_table flags tbl i f s = clean_table (frame_addr f)
     (pt_write tbl i (frame_addr f OR flags) (pmm_set_bit (frame_addr f) s))"

abbreviation add_table :: "u64 \<Rightarrow> u64 \<Rightarrow> nat \<Rightarrow> 'a paging_scheme \<Rightarrow> 'a paging_scheme" where
  "add_table \<equiv> link_table USER_PT_ENTRY"

lemmas add_table_def = link_table_def [of USER_PT_ENTRY]

lemma pt_read_set_bit [simp]: "pt_read (pmm_set_bit a s) = pt_read s"
  by (simp add: pt_read_def pmm_set_bit_def Let_def fun_eq_iff)

lemma link_table_read:
  assumes "f < 2 ^ 35" "g < 2 ^ 35" "i < 512" "h < 2 ^ 35" "j < 512"
  shows "pt_read (link_table flags (frame_addr g) i f s) (frame_addr h) j =
    (if h = f then 0 else if h = g \<and> j = i then frame_addr f OR flags else pt_read s (frame_addr h) j)"
  unfolding link_table_def clean_table_read [OF assms(1,4,5)] pt_read_write_frame [OF assms(2,3,4,5)] by auto

lemma link_table_walk:
  assumes fl: "table_flags flags" and inv: "pt_inv p4 s" and p: "valid_path (p @ [i])" "walk s p4 p = Some (frame_addr g)" "g < 2 ^ 35"
    and np: "pt_read s (frame_addr g) i AND 1 = 0" and f: "f \<in> free_frames s" "f < 2 ^ 35"
    and q: "valid_path q"
  shows "walk (link_table flags (frame_addr g) i f s) p4 q = (if q = p @ [i] then Some (frame_addr f) else walk s p4 q)"
  using q
proof (induction q rule: rev_induct)
  case (snoc j r)
  let ?s = "link_table flags (frame_addr g) i f s"
  have i: "i < 512" "valid_path p" using p(1) by auto
  have r: "valid_path r" "j < 512" using snoc.prems by auto
  note IH = snoc.IH [OF r(1)]
  have none: "walk s p4 (p @ [i]) = None" using p np by (simp add: walk_snoc)
  show ?case
  proof (cases "r = p @ [i]")
    case True
    have "pt_read ?s (frame_addr f) j = 0" using link_table_read [OF f(2) p(3) i(1) f(2) r(2)] by simp
    with True IH none walk_snoc [of ?s p4 r j] walk_snoc [of s p4 r j] show ?thesis by simp
  next
    case False
    show ?thesis
    proof (cases "walk s p4 r")
      case None
      with IH False p(2) show ?thesis by (auto simp: walk_snoc)
    next
      case (Some u)
      from pt_invE [OF inv r(1) Some] obtain h where h: "u = frame_addr h" "h < 2 ^ 35" "h \<notin> free_frames s" .
      have hf: "h \<noteq> f" using f(1) h(3) by blast
      have hg: "h = g \<longleftrightarrow> r = p" using pt_inv_inj [OF inv r(1) i(2)] Some p(2) h p(3) frame_addr_inj by auto
      have "pt_read ?s u j = (if r = p \<and> j = i then frame_addr f OR flags else pt_read s u j)"
        using link_table_read [OF f(2) p(3) i(1) h(2) r(2), where s = s] hf hg h(1) by simp
      with False IH Some table_entry_flags [OF fl f(2)] show ?thesis by (auto simp: walk_snoc)
    qed
  qed
qed simp

lemma clean_table_mem: "unat a div 4096 \<noteq> f \<Longrightarrow> f < 2 ^ 35 \<Longrightarrow> pt_mem (clean_table (frame_addr f) s) a = pt_mem s a"
  unfolding clean_table_def
proof (rule for_upto_inv [where P = "\<lambda>_ t. pt_mem t a = pt_mem s a"])
  fix i t assume a: "unat a div 4096 \<noteq> f" "f < 2 ^ 35" "i < (512 :: nat)" "pt_mem t a = pt_mem s a"
  then have i: "(of_nat i :: u64) < 512" "unat (of_nat i :: u64) = i"
    by (simp_all add: word_less_nat_alt unat_of_nat64)
  then have "a \<noteq> frame_addr f + 8 * of_nat i" using a unat_slot [OF a(2) i(1)] by auto
  with a(4) show "pt_mem (pt_write (frame_addr f) (of_nat i) 0 t) a = pt_mem s a"
    by (simp add: pt_write_def)
qed simp

lemma slot_frame: "f < 2 ^ 35 \<Longrightarrow> i < 512 \<Longrightarrow> unat (frame_addr f + 8 * i) div 4096 = f"
  by (subst unat_slot) (auto simp: word_less_nat_alt)

section \<open>How a page table grows\<close>

lemma pt_only_link_table: "pt_only s (link_table flags t i f s)"
  unfolding link_table_def by (blast intro: pt_only_trans pt_only_write pt_only_set_bit pt_only_clean)

definition tables :: "u64 \<Rightarrow> 'a paging_scheme \<Rightarrow> nat set" where
  "tables p4 s = {f. \<exists>q. valid_path q \<and> walk s p4 q = Some (frame_addr f) \<and> f < 2 ^ 35}"

definition keeps_walks :: "u64 \<Rightarrow> 'a paging_scheme \<Rightarrow> 'a paging_scheme \<Rightarrow> bool" where
  "keeps_walks p4 s s' \<longleftrightarrow> wf_pmm s' \<and> pt_inv p4 s' \<and> free_frames s' \<subseteq> free_frames s \<and>
     (\<forall>q t. valid_path q \<longrightarrow> walk s p4 q = Some t \<longrightarrow> walk s' p4 q = Some t) \<and>
     (\<forall>a. unat a div 4096 \<notin> tables p4 s' \<longrightarrow> pt_mem s' a = pt_mem s a) \<and>
     pt_only s s'"

definition adds_ids :: "u64 \<Rightarrow> (u64 list \<times> u64) set \<Rightarrow> 'a paging_scheme \<Rightarrow> 'a paging_scheme \<Rightarrow> bool" where
  "adds_ids p4 X s s' \<longleftrightarrow>
     (\<forall>f\<in>free_frames s - free_frames s'. page (frame_addr f) \<notin> X \<longrightarrow> pview s' p4 (page (frame_addr f)) = frame_addr f) \<and>
     (\<forall>pg. valid_page pg \<longrightarrow> pg \<notin> X \<longrightarrow> pg \<notin> (\<lambda>f. page (frame_addr f)) ` (free_frames s - free_frames s') \<longrightarrow>
        pview s' p4 pg = pview s p4 pg)"

definition grown :: "u64 \<Rightarrow> (u64 list \<times> u64) set \<Rightarrow> 'a paging_scheme \<Rightarrow> 'a paging_scheme \<Rightarrow> bool" where
  "grown p4 X s s' \<longleftrightarrow> keeps_walks p4 s s' \<and> adds_ids p4 X s s'"

lemma keeps_walks_trans:
  assumes "keeps_walks p4 s t" "keeps_walks p4 t u"
  shows "keeps_walks p4 s u"
proof -
  have "tables p4 t \<subseteq> tables p4 u" using assms(2) by (auto simp: keeps_walks_def tables_def)
  moreover have "pt_only s u" using assms pt_only_trans by (auto simp: keeps_walks_def)
  ultimately show ?thesis using assms unfolding keeps_walks_def by (metis subset_eq)
qed

lemma adds_ids_trans:
  assumes wf: "wf_pmm s" and sub: "free_frames t \<subseteq> free_frames s" "free_frames u \<subseteq> free_frames t"
    and st: "adds_ids p4 X s t" and tu: "adds_ids p4 Y t u"
  shows "adds_ids p4 (X \<union> Y) s u"
  unfolding adds_ids_def
proof (intro conjI ballI allI impI)
  fix f assume f: "f \<in> free_frames s - free_frames u" "page (frame_addr f) \<notin> X \<union> Y"
  show "pview u p4 (page (frame_addr f)) = frame_addr f"
  proof (cases "f \<in> free_frames t")
    case True
    with f tu show ?thesis by (simp add: adds_ids_def)
  next
    case False
    have "page (frame_addr f) \<notin> (\<lambda>f. page (frame_addr f)) ` (free_frames t - free_frames u)"
    proof
      assume "page (frame_addr f) \<in> (\<lambda>f. page (frame_addr f)) ` (free_frames t - free_frames u)"
      then obtain g where g: "g \<in> free_frames t" "page (frame_addr f) = page (frame_addr g)" by blast
      then have "f = g" using f(1) sub free_frame_bound(1) [OF wf] by (intro page_frame_inj) auto
      with g False show False by simp
    qed
    with f tu have "pview u p4 (page (frame_addr f)) = pview t p4 (page (frame_addr f))"
      unfolding adds_ids_def by (metis Un_iff valid_page_page(1))
    with False f st show ?thesis by (simp add: adds_ids_def)
  qed
next
  fix pg assume "valid_page pg" "pg \<notin> X \<union> Y"
    "pg \<notin> (\<lambda>f. page (frame_addr f)) ` (free_frames s - free_frames u)"
  moreover have "free_frames t - free_frames u \<subseteq> free_frames s - free_frames u"
    "free_frames s - free_frames t \<subseteq> free_frames s - free_frames u" using sub by auto
  ultimately show "pview u p4 pg = pview s p4 pg"
    using st tu unfolding adds_ids_def by (metis (no_types, lifting) UnCI image_mono subsetD)
qed

lemma grown_trans:
  assumes "wf_pmm s" "grown p4 X s t" "grown p4 Y t u"
  shows "grown p4 (X \<union> Y) s u"
  using assms keeps_walks_trans [of p4 s t u] adds_ids_trans [of s t u p4 X Y]
  by (auto simp: grown_def keeps_walks_def)

lemma grown_refl: "wf_pmm s \<Longrightarrow> pt_inv p4 s \<Longrightarrow> grown p4 {} s s"
  by (auto simp: grown_def keeps_walks_def adds_ids_def)

lemma link_table_grows:
  assumes fl: "table_flags flags" and wf: "wf_pmm s" and inv: "pt_inv p4 s"
    and p: "valid_path (p @ [i])" "walk s p4 p = Some (frame_addr g)" "g < 2 ^ 35"
    and np: "pt_read s (frame_addr g) i AND 1 = 0" and f: "f \<in> free_frames s"
  defines "s' \<equiv> link_table flags (frame_addr g) i f s"
  shows "keeps_walks p4 s s'" and "free_frames s' = free_frames s - {f}"
    and "valid_page pg \<Longrightarrow> pview s' p4 pg = pview s p4 pg"
    and "walk s' p4 (p @ [i]) = Some (frame_addr f)"
proof -
  note b = free_frame_bound [OF wf f]
  have f40: "f < 2 ^ 35" using b(1) by simp
  note w = link_table_walk [OF fl inv p np f f40, folded s'_def]
  have i: "i < 512" "valid_path p" "length p \<le> 2" using p(1) by auto
  show free: "free_frames s' = free_frames s - {f}"
    using b free_frames_set_bit [of f s] by (simp add: s'_def link_table_def)
  show new: "walk s' p4 (p @ [i]) = Some (frame_addr f)" using w [OF p(1)] by simp
  have wf': "wf_pmm s'"
  proof -
    have "wf_pmm (pmm_set_bit (frame_addr f) s)"
      using wf b free_frames_set_bit [of f s] by (simp add: wf_pmm_def)
    then show ?thesis by (simp add: s'_def link_table_def)
  qed
  have old: "walk s' p4 q = Some t \<Longrightarrow> q \<noteq> p @ [i] \<Longrightarrow> valid_path q \<Longrightarrow> walk s p4 q = Some t" for q t
    using w by simp
  have none: "walk s p4 (p @ [i]) = None" using p np by (simp add: walk_snoc)
  have notf: "walk s p4 q = Some (frame_addr f) \<Longrightarrow> valid_path q \<Longrightarrow> False" for q
    using pt_invE [OF inv, of q "frame_addr f"] f f40 frame_addr_inj by metis
  have inv': "pt_inv p4 s'"
    unfolding pt_inv_def
  proof (intro conjI allI impI)
    fix q t assume q: "valid_path q" "walk s' p4 q = Some t"
    show "\<exists>f. t = frame_addr f \<and> 0 < f \<and> f < 2 ^ 35 \<and> f \<notin> free_frames s'"
    proof (cases "q = p @ [i]")
      case True
      with q new b f40 free show ?thesis by (intro exI [of _ f]) simp
    next
      case False
      from pt_invE [OF inv q(1) old [OF q(2) False q(1)]]
      obtain h where "t = frame_addr h" "0 < h" "h < 2 ^ 35" "h \<notin> free_frames s" .
      then show ?thesis unfolding free by (intro exI [of _ h]) simp
    qed
  next
    fix q r t assume "valid_path q" "valid_path r" "walk s' p4 q = Some t" "walk s' p4 r = Some t"
    then show "q = r" using w [of q] w [of r] notf pt_inv_inj [OF inv, of q r t]
      by (auto split: if_splits)
  qed
  have mem: "pt_mem s' a = pt_mem s a" if "unat a div 4096 \<notin> tables p4 s'" for a
  proof -
    have "f \<in> tables p4 s'" unfolding tables_def using new p(1) f40 by blast
    moreover have "g \<in> tables p4 s'" unfolding tables_def using w [of p] i p(2,3) by auto
    ultimately have "unat a div 4096 \<noteq> f" "unat a div 4096 \<noteq> g" using that by auto
    then have ne: "unat a div 4096 \<noteq> f" "unat a div 4096 \<noteq> g" by auto
    then have "a \<noteq> frame_addr g + 8 * i" using slot_frame [OF p(3) i(1)] by auto
    with ne f40 show ?thesis
      by (simp add: s'_def link_table_def clean_table_mem pt_write_def pmm_set_bit_def Let_def)
  qed
  show "keeps_walks p4 s s'"
    using wf' inv' free w none mem pt_only_link_table [of s flags "frame_addr g" i f, folded s'_def]
    unfolding keeps_walks_def by auto
  show "pview s' p4 pg = pview s p4 pg" if pg: "valid_page pg"
  proof (cases "fst pg = p @ [i]")
    case True
    have "pt_read s' (frame_addr f) (snd pg) = 0"
      using link_table_read [OF f40 p(3) i(1) f40, of "snd pg"] pg by (simp add: s'_def valid_page_def)
    with True new none show ?thesis by (simp add: pview_def)
  next
    case False
    show ?thesis
    proof (cases "walk s p4 (fst pg)")
      case (Some u)
      from pt_invE [OF inv _ Some] pg obtain h where h: "u = frame_addr h" "h < 2 ^ 35" "h \<notin> free_frames s"
        by (auto simp: valid_page_def)
      have "h \<noteq> g"
      proof
        assume "h = g"
        then have "fst pg = p" using pt_inv_inj [OF inv _ i(2) _ p(2)] Some h(1) pg by (auto simp: valid_page_def)
        with i(3) pg show False by (simp add: valid_page_def)
      qed
      moreover have "h \<noteq> f" using h(3) f by blast
      ultimately have "pt_read s' u (snd pg) = pt_read s u (snd pg)"
        using link_table_read [OF f40 p(3) i(1) h(2), of "snd pg"] pg h(1) by (simp add: s'_def valid_page_def)
      with False Some w [of "fst pg"] pg show ?thesis by (simp add: pview_def valid_page_def)
    qed (use False w [of "fst pg"] pg in \<open>simp add: pview_def valid_page_def\<close>)
  qed
qed

lemmas add_table_read = link_table_read [where flags = USER_PT_ENTRY]
lemmas add_table_grows = link_table_grows [OF table_flags_user]

lemma leaf_write_walk:
  assumes inv: "pt_inv p4 s" and r: "valid_path r" "length r = 3" "walk s p4 r = Some (frame_addr g)" "g < 2 ^ 35"
    and j: "j < 512" and q: "valid_path q"
  shows "walk (pt_write (frame_addr g) j v s) p4 q = walk s p4 q"
  using q
proof (induction q rule: rev_induct)
  case (snoc k q)
  have q: "valid_path q" "k < 512" "length q \<le> 2" using snoc.prems by auto
  show ?case
  proof (cases "walk s p4 q")
    case (Some u)
    from pt_invE [OF inv q(1) Some] obtain h where h: "u = frame_addr h" "h < 2 ^ 35" .
    have "h \<noteq> g" using pt_inv_inj [OF inv q(1) r(1)] Some r h(1) q(3) by auto
    then have "pt_read (pt_write (frame_addr g) j v s) u k = pt_read s u k"
      using pt_read_write_frame [OF r(4) j h(2) q(2), where s = s] h(1) by simp
    with Some snoc.IH [OF q(1)] show ?thesis by (simp add: walk_snoc)
  qed (use snoc.IH [OF q(1)] in \<open>simp add: walk_snoc\<close>)
qed simp

lemma leaf_write_grows:
  fixes v :: u64
  assumes wf: "wf_pmm s" and inv: "pt_inv p4 s"
    and r: "valid_page pg" "walk s p4 (fst pg) = Some (frame_addr g)" "g < 2 ^ 35"
  defines "s' \<equiv> pt_write (frame_addr g) (snd pg) v s"
  shows "grown p4 {pg} s s'" "pview s' p4 pg = v AND SIGN_MASK"
proof -
  have p: "valid_path (fst pg)" "length (fst pg) = 3" "snd pg < 512" using r(1) by (auto simp: valid_page_def)
  note w = leaf_write_walk [OF inv p(1,2) r(2,3) p(3), of _ v, folded s'_def]
  show "pview s' p4 pg = v AND SIGN_MASK"
    using w [OF p(1)] r(2) by (simp add: pview_def s'_def pt_read_write)
  have g: "g \<in> tables p4 s'" using r w [OF p(1)] p(1) by (auto simp: tables_def)
  have "pt_inv p4 s'" using inv w by (simp add: pt_inv_def s'_def)
  moreover have "pt_mem s' a = pt_mem s a" if "unat a div 4096 \<notin> tables p4 s'" for a
  proof -
    have "a \<noteq> frame_addr g + 8 * snd pg" using that g slot_frame [OF r(3) p(3)] by auto
    then show ?thesis by (simp add: s'_def pt_write_def)
  qed
  ultimately have "keeps_walks p4 s s'"
    using wf w pt_only_write [of s "frame_addr g" "snd pg" v] by (simp add: keeps_walks_def s'_def)
  moreover have "pview s' p4 qg = pview s p4 qg" if qg: "valid_page qg" "qg \<noteq> pg" for qg
  proof (cases "walk s p4 (fst qg)")
    case (Some u)
    have q: "valid_path (fst qg)" "snd qg < 512" using qg(1) by (auto simp: valid_page_def)
    from pt_invE [OF inv q(1) Some] obtain h where h: "u = frame_addr h" "h < 2 ^ 35" .
    have "\<not> (g = h \<and> snd pg = snd qg)"
      using pt_inv_inj [OF inv p(1) q(1) r(2)] Some h(1) qg(2) by (auto simp: prod_eq_iff)
    then have "pt_read s' u (snd qg) = pt_read s u (snd qg)"
      using pt_read_write_frame [OF r(3) p(3) h(2) q(2), where s = s and v = v] h(1) by (auto simp: s'_def)
    with Some w [OF q(1)] show ?thesis by (simp add: pview_def)
  next
    case None
    with w [of "fst qg"] qg(1) show ?thesis by (simp add: pview_def valid_page_def)
  qed
  ultimately show "grown p4 {pg} s s'"
    by (simp add: grown_def adds_ids_def s'_def)
qed

definition maps_page :: "u64 \<Rightarrow> (u64 list \<times> u64) \<Rightarrow> u64 \<Rightarrow> 'a paging_scheme \<Rightarrow> 'a paging_scheme \<Rightarrow> bool" where
  "maps_page p4 pg a s s' \<longleftrightarrow> grown p4 {pg} s s' \<and> pview s' p4 pg = a"

lemma grown_sub: "grown p4 X s t \<Longrightarrow> free_frames t \<subseteq> free_frames s \<and> wf_pmm t \<and> pt_inv p4 t"
  by (simp add: grown_def keeps_walks_def)

lemma grown_walk: "grown p4 X s t \<Longrightarrow> valid_path q \<Longrightarrow> walk s p4 q = Some u \<Longrightarrow> walk t p4 q = Some u"
  by (simp add: grown_def keeps_walks_def)

lemma shrinksD:
  "shrinks f s \<Longrightarrow> f s = Some s' \<Longrightarrow> wf_pmm s' \<and> free_frames s' \<subseteq> free_frames s"
  by (auto simp: shrinks_def)

definition keeps_pages :: "u64 \<Rightarrow> 'a paging_scheme \<Rightarrow> 'a paging_scheme \<Rightarrow> bool" where
  "keeps_pages p4 s s' \<longleftrightarrow> keeps_walks p4 s s' \<and>
     (\<forall>pg. valid_page pg \<longrightarrow> pg \<notin> (\<lambda>f. page (frame_addr f)) ` (free_frames s - free_frames s') \<longrightarrow>
        pview s' p4 pg = pview s p4 pg)"

lemma keeps_pages_trans:
  assumes "keeps_pages p4 s t" "keeps_pages p4 t u"
  shows "keeps_pages p4 s u"
proof -
  have sub: "free_frames t \<subseteq> free_frames s" "free_frames u \<subseteq> free_frames t"
    using assms by (auto simp: keeps_pages_def keeps_walks_def)
  then have "free_frames s - free_frames t \<subseteq> free_frames s - free_frames u"
    "free_frames t - free_frames u \<subseteq> free_frames s - free_frames u" by auto
  with assms show ?thesis using keeps_walks_trans unfolding keeps_pages_def by (metis (no_types, lifting) image_mono subsetD)
qed

lemma grown_keeps_pages: "grown p4 {} s t \<Longrightarrow> keeps_pages p4 s t"
  by (simp add: grown_def keeps_pages_def adds_ids_def)

text \<open>A table is linked and then mapped to itself.\<close>

lemma link_map_grows:
  assumes fl: "table_flags flags" and wf: "wf_pmm s" and inv: "pt_inv p4 s"
    and p: "valid_path (p @ [i])" "walk s p4 p = Some (frame_addr g)" "g < 2 ^ 35"
    and np: "pt_read s (frame_addr g) i AND 1 = 0" and f: "f \<in> free_frames s"
    and m: "maps_page p4 (page (frame_addr f)) (frame_addr f) (link_table flags (frame_addr g) i f s) s'"
  shows "grown p4 {} s s'" and "walk s' p4 (p @ [i]) = Some (frame_addr f)"
proof -
  define t where "t = link_table flags (frame_addr g) i f s"
  note b = free_frame_bound [OF wf f] and m = m [folded t_def]
  note add = link_table_grows [OF fl wf inv p np f, folded t_def]
  have keeps: "keeps_walks p4 s s'"
    using add(1) m keeps_walks_trans by (auto simp: maps_page_def grown_def)
  have ids: "adds_ids p4 {page (frame_addr f)} t s'" using m by (simp add: maps_page_def grown_def)
  have diff: "free_frames s - free_frames s' = insert f (free_frames t - free_frames s')"
    using add(2) f m grown_sub [of p4 _ t s'] by (auto simp: maps_page_def)
  have "adds_ids p4 {} s s'"
    unfolding adds_ids_def diff
  proof (intro conjI ballI allI impI)
    fix h assume "h \<in> insert f (free_frames t - free_frames s')"
    then show "pview s' p4 (page (frame_addr h)) = frame_addr h"
      using m ids page_frame_inj [of h f] b free_frame_bound(1) [OF wf, of h] add(2)
      unfolding maps_page_def adds_ids_def by auto
  next
    fix pg assume "valid_page pg" "pg \<notin> (\<lambda>f. page (frame_addr f)) ` insert f (free_frames t - free_frames s')"
    then show "pview s' p4 pg = pview s p4 pg"
      using ids add(3) [of pg] unfolding adds_ids_def by (cases pg) auto
  qed
  with keeps show "grown p4 {} s s'" by (simp add: grown_def)
  show "walk s' p4 (p @ [i]) = Some (frame_addr f)"
    using m by (intro grown_walk [OF _ p(1) add(4)]) (auto simp: maps_page_def)
qed

lemma map_level_grows:
  fixes s s' :: "'a paging_scheme"
  assumes wf: "wf_pmm s" and inv: "pt_inv p4 s"
    and p: "valid_path (p @ [i])" "walk s p4 p = Some tbl"
    and eq: "map_level p4 tbl i s = Some s'" and ne: "free_frames s' \<noteq> {}"
    and rec: "\<And>(t :: 'a paging_scheme) t' f. wf_pmm t \<Longrightarrow> pt_inv p4 t \<Longrightarrow> free_frames t \<subset> free_frames s \<Longrightarrow>
        0 < f \<Longrightarrow> f < 2 ^ 22 \<Longrightarrow>
        map_addr (frame_addr f) (frame_addr f) KERNEL_PT_ENTRY p4 t = Some t' \<Longrightarrow> free_frames t' \<noteq> {} \<Longrightarrow>
        maps_page p4 (page (frame_addr f)) (frame_addr f) t t'"
  shows "grown p4 {} s s' \<and> walk s' p4 (p @ [i]) = Some (pt_read s' tbl i AND SIGN_MASK)"
proof (cases "pt_read s tbl i AND 1 = 0")
  case False
  with eq have "s' = s" by (simp add: map_level_def)
  with False p(2) grown_refl [OF wf inv] show ?thesis by (simp add: walk_snoc)
next
  case True
  from pt_invE [OF inv _ p(2)] p(1) obtain g where g: "tbl = frame_addr g" "g < 2 ^ 35" by auto
  show ?thesis
  proof (rule alloc_frame_cases [OF wf])
    assume "free_frames s = {}" "alloc_frame s = Some (NULL, s)"
    with True eq ne show ?thesis by (auto simp: map_level_def map_addr_levels)
  next
    fix f
    assume f: "f \<in> free_frames s" "alloc_frame s = Some (frame_addr f, pmm_set_bit (frame_addr f) s)"
    note b = free_frame_bound [OF wf f(1)]
    define t where "t = add_table tbl i f s"
    note add = add_table_grows [OF wf inv p(1) p(2) [unfolded g(1)] g(2) _ f(1), folded g(1), OF True, folded t_def]
    have t: "wf_pmm t" "pt_inv p4 t" using add(1) by (auto simp: keeps_walks_def)
    have call: "map_addr (frame_addr f) (frame_addr f) KERNEL_PT_ENTRY p4 t = Some s'"
      using eq True f(2) by (simp add: map_level_def t_def add_table_def)
    have m: "maps_page p4 (page (frame_addr f)) (frame_addr f) t s'"
      using add(2) f(1) b by (intro rec [OF t _ _ _ call ne]) auto
    from link_map_grows [OF table_flags_user wf inv p(1) p(2) [unfolded g(1)] g(2) _ f(1), of s', folded g(1)] True m
    have l: "grown p4 {} s s'" "walk s' p4 (p @ [i]) = Some (frame_addr f)" by (simp_all add: t_def)
    moreover have "walk s' p4 p = Some tbl" using l(1) p by (simp add: grown_def keeps_walks_def)
    ultimately show ?thesis by (auto simp: walk_snoc split: if_splits)
  qed
qed

lemma snd_page: "snd (page v) = P1_ENTRY v"
  by (simp add: page_def)

lemma map_addr_maps:
  fixes s s' :: "'a paging_scheme"
  assumes "wf_pmm s" "pt_inv p4 s" "map_addr physical virtual flags p4 s = Some s'" "free_frames s' \<noteq> {}"
    and "physical \<noteq> 0" "virtual \<noteq> 0" "flags AND SIGN_MASK = 0"
  shows "maps_page p4 (page virtual) (ALIGN_ADDR physical AND SIGN_MASK) s s'"
  using assms
proof (induction "card (free_frames s)" arbitrary: s s' physical virtual flags rule: less_induct)
  case less
  have rec: "maps_page p4 (page (frame_addr f)) (frame_addr f) t t'"
    if "wf_pmm t" "pt_inv p4 t" "free_frames t \<subset> free_frames s" "0 < f" "f < 2 ^ 22"
      "map_addr (frame_addr f) (frame_addr f) KERNEL_PT_ENTRY p4 t = Some t'" "free_frames t' \<noteq> {}"
    for t t' :: "'a paging_scheme" and f
  proof -
    have "frame_addr f \<noteq> 0" using unat_frame_addr [of f] that(4,5) by auto
    then show ?thesis
      using less.hyps [OF psubset_card_mono [OF _ that(3)] that(1,2,6,7)] that(5) frame_addr_SIGN_MASK [of f]
      by (simp add: kconst)
  qed
  define v where "v = ALIGN_ADDR virtual"
  have shr: "shrinks (map_level p4 tbl i) t" if "wf_pmm t" for tbl i and t :: "'a paging_scheme"
    using that map_addr_shrinks by (intro map_level_shrinks)
  from less.prems obtain s1 s2 s3 where
    s1: "map_level p4 p4 (P4_ENTRY v) s = Some s1"
    and s2: "map_level p4 (pt_read s1 p4 (P4_ENTRY v) AND SIGN_MASK) (P3_ENTRY v) s1 = Some s2"
    and s3: "map_level p4 (pt_read s2 (pt_read s1 p4 (P4_ENTRY v) AND SIGN_MASK) (P3_ENTRY v) AND SIGN_MASK)
               (P2_ENTRY v) s2 = Some s3"
    and s': "s' = pt_write (pt_read s3 (pt_read s2 (pt_read s1 p4 (P4_ENTRY v) AND SIGN_MASK)
               (P3_ENTRY v) AND SIGN_MASK) (P2_ENTRY v) AND SIGN_MASK) (P1_ENTRY v) (ALIGN_ADDR physical OR flags) s3"
    by (subst (asm) map_addr_levels) (auto simp: Let_def v_def bind_eq_Some_conv)
  let ?p3 = "pt_read s1 p4 (P4_ENTRY v) AND SIGN_MASK"
  let ?p2 = "pt_read s2 ?p3 (P3_ENTRY v) AND SIGN_MASK"
  let ?p1 = "pt_read s3 ?p2 (P2_ENTRY v) AND SIGN_MASK"
  have wf1: "wf_pmm s1" "free_frames s1 \<subseteq> free_frames s" using shrinksD [OF shr s1] less.prems(1) by auto
  have wf2: "wf_pmm s2" "free_frames s2 \<subseteq> free_frames s1" using shrinksD [OF shr s2] wf1 by auto
  have wf3: "wf_pmm s3" "free_frames s3 \<subseteq> free_frames s2" using shrinksD [OF shr s3] wf2 by auto
  have ne: "free_frames s3 \<noteq> {}" "free_frames s2 \<noteq> {}" "free_frames s1 \<noteq> {}"
    using less.prems(4) s' wf2 wf3 by auto
  have g1: "grown p4 {} s s1 \<and> walk s1 p4 ([] @ [P4_ENTRY v]) = Some ?p3"
    by (rule map_level_grows [OF less.prems(1,2) _ _ s1 ne(3) rec]) auto
  have w1: "walk s1 p4 [P4_ENTRY v] = Some ?p3" using conjunct2 [OF g1] by simp
  have g2: "grown p4 {} s1 s2 \<and> walk s2 p4 ([P4_ENTRY v] @ [P3_ENTRY v]) = Some ?p2"
    using wf1 grown_sub [OF conjunct1 [OF g1]] by (intro map_level_grows [OF wf1(1) _ _ w1 s2 ne(2) rec]) auto
  have w2: "walk s2 p4 [P4_ENTRY v, P3_ENTRY v] = Some ?p2" using conjunct2 [OF g2] by simp
  have g3: "grown p4 {} s2 s3 \<and> walk s3 p4 ([P4_ENTRY v, P3_ENTRY v] @ [P2_ENTRY v]) = Some ?p1"
    using wf1 wf2 grown_sub [OF conjunct1 [OF g2]] by (intro map_level_grows [OF wf2(1) _ _ w2 s3 ne(1) rec]) auto
  have w3: "walk s3 p4 (fst (page v)) = Some ?p1" using conjunct2 [OF g3] by (simp add: page_def)
  have inv3: "pt_inv p4 s3" using g3 grown_sub by blast
  from pt_invE [OF inv3 _ w3] obtain g where g: "?p1 = frame_addr g" "g < 2 ^ 35" by auto
  have leaf: "grown p4 {page v} s3 s'" "pview s' p4 (page v) = (ALIGN_ADDR physical OR flags) AND SIGN_MASK"
    using leaf_write_grows [OF wf3(1) inv3 valid_page_page(1) w3 [unfolded g(1)] g(2),
        where v = "ALIGN_ADDR physical OR flags"] g(1) s' by (simp_all add: snd_page)
  have "grown p4 {page v} s s'"
    using grown_trans [OF less.prems(1) conjunct1 [OF g1] conjunct1 [OF g2]]
      grown_trans [OF less.prems(1) _ conjunct1 [OF g3]] grown_trans [OF less.prems(1) _ leaf(1)] by simp
  with leaf(2) show ?case
    by (simp add: maps_page_def v_def mask_or_flags [OF less.prems(7)])
qed

section \<open>Ranges of pages\<close>

lemma page_number: "page v = page w \<longleftrightarrow> (unat v div 4096) mod 2 ^ 36 = (unat w div 4096) mod 2 ^ 36"
proof -
  have bits: "take_bit 36 (drop_bit 12 (unat x)) = (unat x div 4096) mod 2 ^ 36" for x :: u64
    by (simp add: take_bit_eq_mod drop_bit_eq_div)
  have "take_bit 36 (drop_bit 12 (unat v)) = take_bit 36 (drop_bit 12 (unat w)) \<longleftrightarrow>
      (\<forall>n<36. bit v (12 + n) = bit w (12 + n))"
    by (auto simp: bit_eq_iff bit_take_bit_iff bit_drop_bit_eq bit_unsigned_iff)
  also have "\<dots> \<longleftrightarrow> page v = page w"
  proof -
    have *: "bit v n = bit w n" if "\<forall>n<36. bit v (12 + n) = bit w (12 + n)" "12 \<le> n \<and> n < 48" for n
    proof -
      have "n - 12 < 36" "12 + (n - 12) = n" using that(2) by auto
      with that(1) show ?thesis by metis
    qed
    show ?thesis unfolding page_eq_iff by (rule iffI) (use * in blast, simp)
  qed
  finally show ?thesis by (simp only: bits)
qed

lemma page_step:
  assumes "i < 2 ^ 36" "j < 2 ^ 36"
  shows "page (v + of_nat i * PAGE_SIZE) = page (v + of_nat j * PAGE_SIZE) \<longleftrightarrow> i = j"
proof -
  have step: "unat (v + of_nat k * PAGE_SIZE) div 4096 mod 2 ^ 36 = (unat v div 4096 + k) mod 2 ^ 36"
    if "k < 2 ^ 36" for k
  proof -
    have "unat (of_nat k * PAGE_SIZE :: u64) = k * 4096"
      using that by (subst unat_mult_nowrap) (auto simp: row_bits unat_of_nat64)
    then have "unat (v + of_nat k * PAGE_SIZE) = (unat v + k * 4096) mod (4096 * 2 ^ 52)"
      by (simp add: unat_word_ariths)
    then have "unat (v + of_nat k * PAGE_SIZE) div 4096 = (unat v + k * 4096) div 4096 mod 2 ^ 52"
      by (simp only: mod_mult2_eq)
    then have "unat (v + of_nat k * PAGE_SIZE) div 4096 = (unat v div 4096 + k) mod 2 ^ 52"
      by (simp add: add.commute)
    then show ?thesis by (simp add: mod_mod_cancel)
  qed
  have "i = j" if "(a + i) mod 2 ^ 36 = (a + j) mod 2 ^ 36" for a :: nat
  proof -
    from that obtain q r where "a + i + 2 ^ 36 * q = a + j + 2 ^ 36 * r" by (auto simp: nat_mod_eq_iff)
    then have "(i + 2 ^ 36 * q) mod 2 ^ 36 = (j + 2 ^ 36 * r) mod 2 ^ 36" by simp
    with assms show ?thesis by simp
  qed
  then show ?thesis unfolding page_number step [OF assms(1)] step [OF assms(2)] by blast
qed



lemma map_range_maps:
  fixes s s' :: "'a paging_scheme"
  assumes wf: "wf_pmm s" and inv: "pt_inv p4 s"
    and eq: "map_range physical virtual n flags p4 s = Some s'" and ne: "free_frames s' \<noteq> {}"
    and fl: "flags AND SIGN_MASK = 0" and n: "unat n \<le> 2 ^ 36"
    and nz: "\<And>i. i < unat n \<Longrightarrow> physical + of_nat i * PAGE_SIZE \<noteq> 0 \<and> virtual + of_nat i * PAGE_SIZE \<noteq> 0"
    and apart: "\<And>i f. i < unat n \<Longrightarrow> f \<in> free_frames s \<Longrightarrow> page (virtual + of_nat i * PAGE_SIZE) \<noteq> page (frame_addr f)"
  shows "wf_pmm s' \<and> pt_inv p4 s' \<and> (\<forall>i<unat n. pview s' p4 (page (virtual + of_nat i * PAGE_SIZE)) =
    ALIGN_ADDR (physical + of_nat i * PAGE_SIZE) AND SIGN_MASK)"
proof -
  let ?v = "\<lambda>i. virtual + of_nat i * PAGE_SIZE" and ?p = "\<lambda>i. physical + of_nat i * PAGE_SIZE"
  define Q where "Q k u \<longleftrightarrow> wf_pmm u \<and> free_frames u \<subseteq> free_frames s \<and>
    (free_frames u \<noteq> {} \<longrightarrow> pt_inv p4 u \<and>
      (\<forall>i<k. pview u p4 (page (?v i)) = ALIGN_ADDR (?p i) AND SIGN_MASK))" for k and u :: "'a paging_scheme"
  have "Q (unat n) s'"
  proof (rule for_opt_inv [where P = Q, OF eq [unfolded map_range_def]])
    show "Q 0 s" using wf inv by (simp add: Q_def)
  next
    fix k u w
    assume k: "k < unat n" and q: "Q k u" and call: "map_addr (?p k) (?v k) flags p4 u = Some w"
    have u: "wf_pmm u" "free_frames u \<subseteq> free_frames s" using q by (auto simp: Q_def)
    have w: "wf_pmm w" "free_frames w \<subseteq> free_frames u"
      using shrinksD [OF map_addr_shrinks [OF u(1)] call] by auto
    have "pt_inv p4 w \<and> (\<forall>i<Suc k. pview w p4 (page (?v i)) = ALIGN_ADDR (?p i) AND SIGN_MASK)"
      if "free_frames w \<noteq> {}"
    proof -
      have uv: "pt_inv p4 u" "\<And>i. i < k \<Longrightarrow> pview u p4 (page (?v i)) = ALIGN_ADDR (?p i) AND SIGN_MASK"
        using q that w by (auto simp: Q_def)
      have m: "maps_page p4 (page (?v k)) (ALIGN_ADDR (?p k) AND SIGN_MASK) u w"
        using nz [OF k] by (intro map_addr_maps [OF u(1) uv(1) call that _ _ fl]) auto
      have "pview w p4 (page (?v i)) = pview u p4 (page (?v i))" if "i < k" for i
      proof -
        have "page (?v i) \<noteq> page (?v k)" using that k n page_step [of i k virtual] by auto
        moreover have "page (?v i) \<notin> (\<lambda>f. page (frame_addr f)) ` (free_frames u - free_frames w)"
          using apart [of i] that k u(2) by auto
        ultimately show ?thesis using m valid_page_page(1) unfolding maps_page_def grown_def adds_ids_def by blast
      qed
      with m uv(2) show ?thesis by (auto simp: maps_page_def less_Suc_eq dest: grown_sub)
    qed
    with w u(2) show "Q (Suc k) w" by (auto simp: Q_def)
  qed
  with ne show ?thesis by (simp add: Q_def)
qed

section \<open>Freeing a page table\<close>

fun tree :: "'a paging_scheme \<Rightarrow> u64 \<Rightarrow> nat \<Rightarrow> u64 set" where
  "tree s t level = insert t (if level > 1
     then \<Union>i\<in>{i. i < 512 \<and> pt_read s t (of_nat i) AND 1 \<noteq> 0}. tree s (pt_read s t (of_nat i) AND SIGN_MASK) (level - 1)
     else {})"

declare tree.simps [simp del]

definition released :: "u64 set \<Rightarrow> nat set" where
  "released T = {f. \<exists>t\<in>T. PADDR t \<noteq> 0 \<and> f = unat (PADDR t div PAGE_SIZE)}"

lemma tree_cong: "pt_mem s' = pt_mem s \<Longrightarrow> tree s' t n = tree s t n"
proof (induction s t n rule: tree.induct)
  case (1 s t level)
  then show ?case by (subst (1 2) tree.simps) (auto simp: pt_read_def)
qed

lemma pt_clear_bit: "pt_mem (pmm_clear_bit a s) = pt_mem s"
  by (simp add: pmm_clear_bit_def Let_def)

lemma pt_only_clear_bit: "pt_only s (pmm_clear_bit a s)"
  unfolding pt_only_def by (rule exI [of _ "km_bitmap (pmm_clear_bit a s)"], rule exI [of _ "pt_mem s"])
    (simp add: pmm_clear_bit_def Let_def)

lemma free_page_table_effect:
  "pt_mem (free_page_table t n s) = pt_mem s \<and> pt_only s (free_page_table t n s) \<and>
   (\<forall>f. frame_used (free_page_table t n s) f \<longleftrightarrow> frame_used s f \<and> f \<notin> released (tree s t n))"
proof (induction n arbitrary: t s rule: less_induct)
  case (less level)
  let ?body = "\<lambda>i s. if pt_read s t (of_nat i) AND 1 \<noteq> 0
     then free_page_table (pt_read s t (of_nat i) AND SIGN_MASK) (level - 1) s else s"
  define sub where "sub k = (\<Union>i\<in>{i. i < k \<and> pt_read s t (of_nat i) AND 1 \<noteq> 0}.
      tree s (pt_read s t (of_nat i) AND SIGN_MASK) (level - 1))" for k :: nat
  have loop: "pt_mem (for_upto k ?body s) = pt_mem s \<and> pt_only s (for_upto k ?body s) \<and>
     (\<forall>f. frame_used (for_upto k ?body s) f \<longleftrightarrow> frame_used s f \<and> f \<notin> released (sub k))" if "level > 1" for k
  proof (induction k)
    case 0
    then show ?case by (simp add: sub_def released_def)
  next
    case (Suc k)
    let ?u = "for_upto k ?body s"
    have rd: "pt_read ?u = pt_read s" using Suc by (simp add: pt_read_def fun_eq_iff)
    show ?case
    proof (cases "pt_read s t (of_nat k) AND 1 = 0")
      case True
      then have "sub (Suc k) = sub k" by (auto simp: sub_def less_Suc_eq)
      with True Suc rd show ?thesis by simp
    next
      case False
      then have "sub (Suc k) = sub k \<union> tree s (pt_read s t (of_nat k) AND SIGN_MASK) (level - 1)"
        by (auto simp: sub_def less_Suc_eq)
      then have "released (sub (Suc k)) = released (sub k) \<union>
          released (tree ?u (pt_read s t (of_nat k) AND SIGN_MASK) (level - 1))"
        using Suc tree_cong [of ?u s] by (auto simp: released_def)
      with False Suc rd less.IH [of "level - 1" "pt_read s t (of_nat k) AND SIGN_MASK" ?u] that show ?thesis by (auto intro: pt_only_trans)
    qed
  qed
  define u where "u = (if level > 1 then for_upto 512 ?body s else s)"
  have u: "free_page_table t level s = pmm_clear_bit (PADDR t) u"
    by (subst free_page_table.simps) (simp add: u_def)
  have tr: "tree s t level = insert t (if level > 1 then sub 512 else {})"
    by (subst tree.simps) (simp add: sub_def)
  have "pt_mem u = pt_mem s \<and> pt_only s u \<and>
     (\<forall>f. frame_used u f \<longleftrightarrow> frame_used s f \<and> f \<notin> released (if level > 1 then sub 512 else {}))"
    using loop [of 512] by (simp add: u_def released_def)
  moreover have "released (tree s t level) = released (if level > 1 then sub 512 else {}) \<union>
      (if PADDR t \<noteq> 0 then {unat (PADDR t div PAGE_SIZE)} else {})"
    unfolding tr by (auto simp: released_def)
  ultimately show ?case unfolding u
    by (auto simp: frame_used_clear_bit pt_clear_bit intro: pt_only_trans pt_only_clear_bit)
qed

lemma ex_index: "(\<exists>i<512. R (of_nat i)) \<longleftrightarrow> (\<exists>i<512. R i)" for R :: "u64 \<Rightarrow> bool"
proof
  assume "\<exists>i<512. R (of_nat i)"
  then obtain i :: nat where "i < 512" "R (of_nat i)" by blast
  then show "\<exists>i<512. R i" by (intro exI [of _ "of_nat i"]) (simp add: word_less_nat_alt unat_of_nat64)
next
  assume "\<exists>i<512. R i"
  then obtain i where "i < 512" "R i" by blast
  then show "\<exists>i<512. R (of_nat i)" by (intro exI [of _ "unat i"]) (simp add: word_less_nat_alt)
qed

lemma tree_walk:
  "0 < n \<Longrightarrow> t \<in> tree s a n \<longleftrightarrow> (\<exists>q. length q < n \<and> (\<forall>i\<in>set q. i < 512) \<and> walk s a q = Some t)"
proof (induction n arbitrary: a)
  case (Suc n)
  show ?case
  proof (cases "n = 0")
    case True
    then show ?thesis by (subst tree.simps) auto
  next
    case False
    then have "t \<in> tree s a (Suc n) \<longleftrightarrow> t = a \<or> (\<exists>i<512. pt_read s a (of_nat i) AND 1 \<noteq> 0 \<and>
        t \<in> tree s (pt_read s a (of_nat i) AND SIGN_MASK) n)"
      by (subst tree.simps) auto
    also have "\<dots> \<longleftrightarrow> t = a \<or> (\<exists>i<512. pt_read s a i AND 1 \<noteq> 0 \<and>
        t \<in> tree s (pt_read s a i AND SIGN_MASK) n)"
      using ex_index [of "\<lambda>i. pt_read s a i AND 1 \<noteq> 0 \<and> t \<in> tree s (pt_read s a i AND SIGN_MASK) n"] by simp
    also have "\<dots> \<longleftrightarrow> (\<exists>q. length q < Suc n \<and> (\<forall>i\<in>set q. i < 512) \<and> walk s a q = Some t)" (is "_ \<longleftrightarrow> ?R")
    proof
      assume "t = a \<or> (\<exists>i<512. pt_read s a i AND 1 \<noteq> 0 \<and> t \<in> tree s (pt_read s a i AND SIGN_MASK) n)"
      then show ?R
      proof (elim disjE exE conjE)
        assume "t = a"
        then show ?R by (intro exI [of _ "[]"]) simp
      next
        fix i assume i: "i < 512" "pt_read s a i AND 1 \<noteq> 0" "t \<in> tree s (pt_read s a i AND SIGN_MASK) n"
        with Suc.IH False obtain q where "length q < n" "\<forall>i\<in>set q. i < 512"
          "walk s (pt_read s a i AND SIGN_MASK) q = Some t" by auto
        with i show ?R by (intro exI [of _ "i # q"]) simp
      qed
    next
      assume ?R
      then obtain q where q: "length q < Suc n" "\<forall>i\<in>set q. i < 512" "walk s a q = Some t" by blast
      then show "t = a \<or> (\<exists>i<512. pt_read s a i AND 1 \<noteq> 0 \<and> t \<in> tree s (pt_read s a i AND SIGN_MASK) n)"
        using Suc.IH False by (cases q) (auto split: if_splits)
    qed
    finally show ?thesis .
  qed
qed simp

lemma bit_HIGHER_HALF: "bit HIGHER_HALF_OFFSET n \<longleftrightarrow> 47 \<le> n \<and> n < 64"
proof -
  have "HIGHER_HALF_OFFSET = push_bit 47 (mask 17)" by (simp add: kconst mask_eq_exp_minus_1 push_bit_eq_mult)
  show ?thesis unfolding \<open>HIGHER_HALF_OFFSET = _\<close> by (auto simp: bit_simps)
qed

lemma PADDR_frame: "f < 2 ^ 35 \<Longrightarrow> PADDR (frame_addr f) = frame_addr f"
  using bit_of_nat_frame [of f]
  by (intro bit_word_eqI) (auto simp: PADDR_def bit_and_iff bit_not_iff bit_HIGHER_HALF bit_frame_addr intro: ccontr)

lemma free_page_table_frees:
  assumes inv: "pt_inv p4 s"
  shows "free_frames (free_page_table p4 4 s) =
    free_frames s \<union> {f \<in> tables p4 s. f < 64 * unat (km_bitmap_entries s)}"
proof -
  have "released (tree s p4 4) = tables p4 s"
  proof -
    have tr: "t \<in> tree s p4 4 \<longleftrightarrow> (\<exists>q. valid_path q \<and> walk s p4 q = Some t)" for t
      by (subst tree_walk) (auto simp: valid_path_def less_Suc_eq_le numeral_eq_Suc)
    have rel: "PADDR t \<noteq> 0 \<and> f = unat (PADDR t div PAGE_SIZE) \<longleftrightarrow> t = frame_addr f \<and> f < 2 ^ 35"
      if "valid_path q" "walk s p4 q = Some t" for q t f
    proof -
      from pt_invE [OF inv that] obtain g where g: "t = frame_addr g" "0 < g" "g < 2 ^ 35" .
      moreover from g have "frame_addr g \<noteq> 0" using unat_frame_addr [of g] by auto
      ultimately show ?thesis using PADDR_frame [of g] frame_addr_page [of g] frame_addr_inj [of g f] by auto
    qed
    show ?thesis
    proof (rule set_eqI)
      fix f
      have "f \<in> released (tree s p4 4) \<longleftrightarrow>
          (\<exists>q t. valid_path q \<and> walk s p4 q = Some t \<and> (PADDR t \<noteq> 0 \<and> f = unat (PADDR t div PAGE_SIZE)))"
        unfolding released_def using tr by blast
      also have "\<dots> \<longleftrightarrow> (\<exists>q t. valid_path q \<and> walk s p4 q = Some t \<and> (t = frame_addr f \<and> f < 2 ^ 35))"
        by (intro ex_cong1 conj_cong refl rel)
      also have "\<dots> \<longleftrightarrow> f \<in> tables p4 s" unfolding tables_def by blast
      finally show "f \<in> released (tree s p4 4) \<longleftrightarrow> f \<in> tables p4 s" .
    qed
  qed
  moreover have "km_bitmap_entries (free_page_table p4 4 s) = km_bitmap_entries s"
    using free_page_table_effect [of p4 4 s] by (auto simp: pt_only_def)
  ultimately show ?thesis
    using free_page_table_effect [of p4 4 s] by (auto simp: free_frames_def)
qed

section \<open>Unmapping\<close>

lemma pview_low_memory:
  assumes inv: "pt_inv p4 s" and low: "\<And>a. unat a < 2 ^ 47 \<Longrightarrow> pt_mem s' a = pt_mem s a"
  shows "valid_path q \<Longrightarrow> walk s' p4 q = walk s p4 q" and "valid_page pg \<Longrightarrow> pview s' p4 pg = pview s p4 pg"
proof -
  have rd: "pt_read s' (frame_addr f) i = pt_read s (frame_addr f) i" if "f < 2 ^ 35" "i < 512" for f i
    using unat_slot [OF that] that by (simp add: pt_read_def low word_less_nat_alt)
  show walk: "walk s' p4 q = walk s p4 q" if "valid_path q" for q
    using that
  proof (induction q rule: rev_induct)
    case (snoc i q)
    then have q: "valid_path q" "i < 512" by auto
    show ?case
    proof (cases "walk s p4 q")
      case (Some u)
      from pt_invE [OF inv q(1) Some] obtain f where "u = frame_addr f" "f < 2 ^ 35" .
      with rd q(2) snoc.IH [OF q(1)] Some show ?thesis by (simp add: walk_snoc)
    qed (use snoc.IH [OF q(1)] in \<open>simp add: walk_snoc\<close>)
  qed simp
  show "pview s' p4 pg = pview s p4 pg" if pg: "valid_page pg"
  proof (cases "walk s p4 (fst pg)")
    case (Some u)
    from pt_invE [OF inv _ Some] pg obtain f where "u = frame_addr f" "f < 2 ^ 35" by (auto simp: valid_page_def)
    with rd Some walk [of "fst pg"] pg show ?thesis by (simp add: pview_def valid_page_def)
  qed (use walk [of "fst pg"] pg in \<open>simp add: pview_def valid_page_def\<close>)
qed

lemma high_slot:
  assumes "i < 512"
  shows "2 ^ 63 \<le> unat (VADDR (e AND SIGN_MASK) + 8 * i)"
proof -
  let ?w = "VADDR (e AND SIGN_MASK)"
  have lo: "\<not> bit ?w n" if "n < 12" for n
    using that by (auto simp: VADDR_def bit_or_iff bit_and_iff bit_SIGN_MASK bit_HIGHER_HALF)
  have i8: "bit (8 * i) n \<Longrightarrow> n < 12" for n
  proof -
    assume b: "bit (8 * i) n"
    have i: "unat i < 2 ^ 9" using assms by (simp add: word_less_nat_alt)
    then have "unat (8 * i) < 2 ^ 12" by (subst unat_mult_nowrap) auto
    then have "8 * i = take_bit 12 (8 * i)"
      by (metis take_bit_nat_eq_self unsigned_take_bit_eq word_unat_eq_iff)
    with b show "n < 12" by (metis bit_take_bit_iff)
  qed
  have "?w AND 8 * i = 0" using lo i8 by (intro bit_word_eqI) (auto simp: bit_and_iff)
  then have "?w + 8 * i = ?w OR 8 * i" by (rule disjunctive_add_eq_or)
  then have "bit (?w + 8 * i) 63" by (simp add: bit_or_iff VADDR_def bit_HIGHER_HALF)
  then have "bit (unat (?w + 8 * i)) 63" by (simp add: bit_unsigned_iff)
  moreover have "\<not> bit m 63" if "m < 2 ^ 63" for m :: nat
    using that bit_take_bit_iff [of 63 m 63] by (simp add: take_bit_nat_eq_self)
  ultimately show ?thesis by (metis linorder_not_less)
qed

lemma unmap_addr_high:
  assumes "unat x < 2 ^ 47"
  shows "pt_mem (unmap_addr a p4 s) x = pt_mem s x"
proof -
  have "x \<noteq> VADDR (e AND SIGN_MASK) + 8 * P1_ENTRY a" for e
    using high_slot [of "P1_ENTRY a" e] assms by auto
  then show ?thesis by (simp add: unmap_addr_def Let_def pt_write_def)
qed

section \<open>Present tables, and no free frame\<close>

lemma map_level_present: "pt_read s tbl i AND 1 \<noteq> 0 \<Longrightarrow> map_level p4 tbl i s = Some s"
  by (simp add: map_level_def)

lemma map_addr_present:
  assumes "physical \<noteq> 0" "virtual \<noteq> 0" "walk s p4 (fst (page virtual)) = Some u"
  shows "map_addr physical virtual flags p4 s = Some (pt_write u (P1_ENTRY virtual) (ALIGN_ADDR physical OR flags) s)"
proof -
  have "page (ALIGN_ADDR virtual) = page virtual" by simp
  then have e: "P4_ENTRY (ALIGN_ADDR virtual) = P4_ENTRY virtual" "P3_ENTRY (ALIGN_ADDR virtual) = P3_ENTRY virtual"
    "P2_ENTRY (ALIGN_ADDR virtual) = P2_ENTRY virtual" "P1_ENTRY (ALIGN_ADDR virtual) = P1_ENTRY virtual"
    by (auto simp: page_def)
  show ?thesis
    using assms by (subst map_addr_levels) (auto simp: Let_def page_def e map_level_present split: if_splits)
qed

lemma map_level_exhausted:
  assumes "wf_pmm s" "free_frames s = {}" "pt_read s tbl i AND 1 = 0"
  shows "map_level p4 tbl i s = Some (clean_table NULL (pt_write tbl i USER_PT_ENTRY s))"
  using assms pmm.alloc_none [of s] by (simp add: map_level_def map_addr_levels)

lemma map_addr_exhausted:
  assumes wf: "wf_pmm s" and free: "free_frames s = {}" and g: "p4 = frame_addr g" "0 < g" "g < 2 ^ 35"
    and np: "pt_read s p4 (P4_ENTRY virtual) AND 1 = 0" and nz: "physical \<noteq> 0" "virtual \<noteq> 0"
  obtains s' where "map_addr physical virtual flags p4 s = Some s'"
    "pt_read s' p4 (P4_ENTRY virtual) = USER_PT_ENTRY"
    "pt_read s' NULL (P1_ENTRY virtual) = ALIGN_ADDR physical OR flags"
proof -
  have "page (ALIGN_ADDR virtual) = page virtual" by simp
  then have e: "P4_ENTRY (ALIGN_ADDR virtual) = P4_ENTRY virtual" "P3_ENTRY (ALIGN_ADDR virtual) = P3_ENTRY virtual"
    "P2_ENTRY (ALIGN_ADDR virtual) = P2_ENTRY virtual" "P1_ENTRY (ALIGN_ADDR virtual) = P1_ENTRY virtual"
    by (auto simp: page_def)
  have z: "frame_addr 0 = NULL" by (simp add: frame_addr_def)
  note rw = pt_read_write_frame [where f = 0, unfolded z] clean_table_read [where f = 0, unfolded z]
  have m: "USER_PT_ENTRY AND SIGN_MASK = 0" "USER_PT_ENTRY AND 1 \<noteq> 0" by (simp_all add: kconst)
  define s1 where "s1 = clean_table NULL (pt_write p4 (P4_ENTRY virtual) USER_PT_ENTRY s)"
  define s2 where "s2 = clean_table NULL (pt_write NULL (P3_ENTRY virtual) USER_PT_ENTRY s1)"
  define s3 where "s3 = clean_table NULL (pt_write NULL (P2_ENTRY virtual) USER_PT_ENTRY s2)"
  have p4_1: "pt_read s1 p4 (P4_ENTRY virtual) = USER_PT_ENTRY"
    using g by (simp add: s1_def rw(2) pt_read_write)
  have zero: "pt_read s1 NULL i = 0" "pt_read s2 NULL i = 0" "pt_read s3 NULL i = 0" if "i < 512" for i
    using clean_table_read [of 0 0 i, unfolded z, OF _ _ that] by (simp_all add: s1_def s2_def s3_def)
  have p4_3: "pt_read s3 p4 (P4_ENTRY virtual) = USER_PT_ENTRY"
    using g p4_1 by (simp add: s3_def s2_def rw(2) pt_read_write_frame [where f = 0, unfolded z])
  have l1: "map_level p4 p4 (P4_ENTRY virtual) s = Some s1"
    by (simp add: s1_def map_level_exhausted [OF wf free np])
  have st: "wf_pmm s1" "free_frames s1 = {}" "wf_pmm s2" "free_frames s2 = {}"
    using wf free by (simp_all add: s1_def s2_def)
  have l2: "map_level p4 NULL (P3_ENTRY virtual) s1 = Some s2"
    unfolding s2_def by (rule map_level_exhausted [OF st(1,2)]) (simp add: zero)
  have l3: "map_level p4 NULL (P2_ENTRY virtual) s2 = Some s3"
    unfolding s3_def by (rule map_level_exhausted [OF st(3,4)]) (simp add: zero)
  have call: "map_addr physical virtual flags p4 s =
      Some (pt_write NULL (P1_ENTRY virtual) (ALIGN_ADDR physical OR flags) s3)"
    using nz by (subst map_addr_levels) (simp add: Let_def e l1 l2 l3 p4_1 m zero)
  show thesis
  proof (rule that [OF call])
    show "pt_read (pt_write NULL (P1_ENTRY virtual) (ALIGN_ADDR physical OR flags) s3) p4 (P4_ENTRY virtual) = USER_PT_ENTRY"
      using g p4_3 rw(1) [of "P1_ENTRY virtual" g "P4_ENTRY virtual" "ALIGN_ADDR physical OR flags" s3] by simp
  qed (simp add: pt_read_write)
qed

end
