(* ===== verification/Address_Space.thy ===== *)
theory Address_Space
  imports Page_Tables
begin

text \<open>
  A concrete page table to evaluate on, the contract between the page tables and the virtual memory
  manager, and the properties of the page-table code.
\<close>

section \<open>A concrete page table\<close>

text \<open>
  The machine of \<open>demo_kmem\<close> with its root table in frame 2 and one table of each lower level in the
  frames 3, 4 and 5, linked through their first entries.
\<close>

definition demo_pt :: "u64 \<Rightarrow> u64" where
  "demo_pt = (\<lambda>_. 0)(frame_addr 2 := frame_addr 3 OR USER_PT_ENTRY,
     frame_addr 3 := frame_addr 4 OR USER_PT_ENTRY, frame_addr 4 := frame_addr 5 OR USER_PT_ENTRY)"

definition demo_paging :: paging where
  "demo_paging = kmem.extend (init_pmm demo_kmem) (paging.fields demo_pt)"

definition demo_p4 :: u64 where "demo_p4 = frame_addr 2"

lemma demo_paging_free: "free_frames demo_paging = {8, 9, 10, 11, 12, 13, 14, 15}"
proof -
  have "free_frames demo_paging = free_frames (init_pmm demo_kmem)"
    by (simp add: demo_paging_def free_frames_def frame_used_def kmem.defs)
  then show ?thesis by (simp only: demo_pmm_free)
qed

lemma demo_paging_wf: "wf_pmm demo_paging"
  using demo_pmm_wf
  by (simp add: demo_paging_def wf_pmm_def free_frames_def frame_used_def kmem.defs)

lemma demo_paging_read:
  assumes "f < 2 ^ 35" "i < 512"
  shows "pt_read demo_paging (frame_addr f) i =
    (if i = 0 \<and> 2 \<le> f \<and> f \<le> 4 then frame_addr (f + 1) OR USER_PT_ENTRY else 0)"
proof -
  have eq: "frame_addr f + 8 * i = frame_addr g \<longleftrightarrow> f = g \<and> i = 0" if "g < 2 ^ 35" for g
    using slot_inj [OF assms that, of 0] by simp
  have eq2: "frame_addr f + 8 * i = frame_addr 2 \<longleftrightarrow> f = 2 \<and> i = 0"
    and eq3: "frame_addr f + 8 * i = frame_addr 3 \<longleftrightarrow> f = 3 \<and> i = 0"
    and eq4: "frame_addr f + 8 * i = frame_addr 4 \<longleftrightarrow> f = 4 \<and> i = 0"
    by (rule eq, simp)+
  have "pt_read demo_paging (frame_addr f) i = demo_pt (frame_addr f + 8 * i)"
    by (simp add: demo_paging_def pt_read_def kmem.defs paging.defs)
  also have "\<dots> = (if f = 4 \<and> i = 0 then frame_addr 5 OR USER_PT_ENTRY
      else if f = 3 \<and> i = 0 then frame_addr 4 OR USER_PT_ENTRY
      else if f = 2 \<and> i = 0 then frame_addr 3 OR USER_PT_ENTRY else 0)"
    unfolding demo_pt_def fun_upd_apply eq2 eq3 eq4 by (rule refl)
  also have "\<dots> = (if i = 0 \<and> 2 \<le> f \<and> f \<le> 4 then frame_addr (f + 1) OR USER_PT_ENTRY else 0)"
  proof (cases "i = 0 \<and> 2 \<le> f \<and> f \<le> 4")
    case True
    then consider "f = 2" | "f = 3" | "f = 4" by linarith
    then show ?thesis using True by cases simp_all
  qed auto
  finally show ?thesis .
qed

lemma demo_paging_walk:
  "valid_path q \<Longrightarrow> walk demo_paging demo_p4 q =
    (if q = replicate (length q) 0 then Some (frame_addr (2 + length q)) else None)"
proof (induction q rule: rev_induct)
  case (snoc i q)
  then have q: "valid_path q" "i < 512" "length q \<le> 2" by auto
  have r: "q @ [i] = replicate (length (q @ [i])) 0 \<longleftrightarrow> q = replicate (length q) 0 \<and> i = 0"
    by (metis append1_eq_conv length_append_singleton replicate_Suc replicate_append_same)
  have rd: "pt_read demo_paging (frame_addr (2 + length q)) i =
      (if i = 0 then frame_addr (2 + length (q @ [i])) OR USER_PT_ENTRY else 0)"
    using demo_paging_read [OF _ q(2), of "2 + length q"] q(3) by simp
  have "2 + length (q @ [i]) < 2 ^ 35" using q(3) by simp
  note te = table_entry [OF this]
  have pr: "(frame_addr (2 + length (q @ [i])) OR USER_PT_ENTRY) AND 1 \<noteq> 0" by (rule te(2))
  show ?case
  proof (cases "q = replicate (length q) 0")
    case True
    then have "walk demo_paging demo_p4 q = Some (frame_addr (2 + length q))" using snoc.IH [OF q(1)] by (simp only: if_True simp_thms)
    then show ?thesis unfolding walk_snoc r using True rd te pr by (cases "i = 0") (simp_all only: option.case if_True if_False simp_thms, simp)
  next
    case False
    then have "walk demo_paging demo_p4 q = None" using snoc.IH [OF q(1)] by (simp only: if_False)
    then show ?thesis unfolding walk_snoc r using False by simp
  qed
qed (simp add: demo_p4_def)

lemma demo_walks:
  "walk demo_paging demo_p4 [0] = Some (frame_addr 3)" "walk demo_paging demo_p4 [0, 0] = Some (frame_addr 4)"
  "walk demo_paging demo_p4 [0, 0, 0] = Some (frame_addr 5)"
proof -
  show "walk demo_paging demo_p4 [0] = Some (frame_addr 3)"
    by (subst demo_paging_walk) (simp_all del: walk.simps)
  show "walk demo_paging demo_p4 [0, 0] = Some (frame_addr 4)"
    by (subst demo_paging_walk) (simp_all del: walk.simps)
  show "walk demo_paging demo_p4 [0, 0, 0] = Some (frame_addr 5)"
    by (subst demo_paging_walk) (simp_all del: walk.simps)
qed

lemma demo_paging_inv: "pt_inv demo_p4 demo_paging"
  unfolding pt_inv_def
proof (intro conjI allI impI)
  fix q t assume q: "valid_path q" "walk demo_paging demo_p4 q = Some t"
  then have "t = frame_addr (2 + length q)" "length q \<le> 3"
    using demo_paging_walk [OF q(1)] by (auto simp: valid_path_def split: if_splits)
  then show "\<exists>f. t = frame_addr f \<and> 0 < f \<and> f < 2 ^ 35 \<and> f \<notin> free_frames demo_paging"
    by (intro exI [of _ "2 + length q"]) (auto simp: demo_paging_free)
next
  fix q r t
  assume a: "valid_path q" "valid_path r" "walk demo_paging demo_p4 q = Some t"
    "walk demo_paging demo_p4 r = Some t"
  then have *: "q = replicate (length q) 0" "r = replicate (length r) 0"
    "frame_addr (2 + length q) = frame_addr (2 + length r)" "length q \<le> 3" "length r \<le> 3"
    using demo_paging_walk [OF a(1)] demo_paging_walk [OF a(2)] by (auto simp: valid_path_def split: if_splits)
  then have "length q = length r"
    using frame_addr_inj [of "2 + length q" "2 + length r"] by simp
  with * show "q = r" by metis
qed

lemma demo_low_page:
  assumes "v < 0x200000"
  shows "fst (page v) = [0, 0, 0]"
proof -
  have "unat v < 2 ^ 21" using assms by (simp add: word_less_nat_alt)
  then have "take_bit 21 v = v"
    by (metis take_bit_nat_eq_self unsigned_take_bit_eq word_unat_eq_iff)
  then have "\<not> bit v n" if "21 \<le> n" for n
    using that by (metis bit_take_bit_iff linorder_not_less)
  then show ?thesis by (auto simp: page_def bit_entry intro!: bit_word_eqI)
qed

lemma demo_map_present:
  assumes "p \<noteq> 0" "v \<noteq> 0" "v < 0x200000" "walk s demo_p4 [0, 0, 0] = Some u"
  shows "map_addr p v flags demo_p4 s = Some (pt_write u (P1_ENTRY v) (ALIGN_ADDR p OR flags) s)"
  using assms demo_low_page [OF assms(3)] by (intro map_addr_present) (simp_all del: walk.simps)

lemma demo_alloc_frame:
  "alloc_frame demo_paging = Some (frame_addr 8, pmm_set_bit (frame_addr 8) demo_paging)"
proof (rule alloc_frame_cases [OF demo_paging_wf])
  fix f assume f: "f \<in> free_frames demo_paging" "\<And>g. g \<in> free_frames demo_paging \<Longrightarrow> f \<le> g"
    "alloc_frame demo_paging = Some (frame_addr f, pmm_set_bit (frame_addr f) demo_paging)"
  have "f = 8" using f(1) f(2) [of 8] unfolding demo_paging_free by auto
  with f(3) show ?thesis by simp
qed (simp add: demo_paging_free)

lemma demo_map_new_table:
  "\<exists>s'. map_addr 0x123000 0x200000 USER_PT_ENTRY demo_p4 demo_paging = Some s' \<and>
     free_frames s' = {9, 10, 11, 12, 13, 14, 15}"
proof -
  have f4: "(4::nat) < 2 ^ 35" "(1::u64) < 512" by simp_all
  have np: "pt_read demo_paging (frame_addr 4) 1 AND 1 = 0" using demo_paging_read [OF f4] by simp
  define t where "t = add_table (frame_addr 4) 1 8 demo_paging"
  have v: "valid_path ([0, 0] @ [1])" by simp
  have "8 \<in> free_frames demo_paging" by (simp add: demo_paging_free)
  note grow = add_table_grows [OF demo_paging_wf demo_paging_inv v demo_walks(2) f4(1) np this, folded t_def]
  have t: "free_frames t = {9, 10, 11, 12, 13, 14, 15}" unfolding grow(2) demo_paging_free by auto
  have "valid_path [0, 0, 0]" by simp
  then have "walk t demo_p4 [0, 0, 0] = Some (frame_addr 5)"
    using grow(1) demo_walks(3) unfolding keeps_walks_def by blast
  moreover have "frame_addr 8 \<noteq> 0" "frame_addr 8 < 0x200000" by (simp_all add: frame_addr_def kconst)
  ultimately obtain u where rec: "map_addr (frame_addr 8) (frame_addr 8) KERNEL_PT_ENTRY demo_p4 t = Some u"
    "free_frames u = {9, 10, 11, 12, 13, 14, 15}"
    using demo_map_present [of "frame_addr 8" "frame_addr 8" t] t by simp
  have r: "pt_read demo_paging demo_p4 0 AND 1 \<noteq> 0" "pt_read demo_paging demo_p4 0 AND SIGN_MASK = frame_addr 3"
    "pt_read demo_paging (frame_addr 3) 0 AND 1 \<noteq> 0" "pt_read demo_paging (frame_addr 3) 0 AND SIGN_MASK = frame_addr 4"
    using demo_walks(1,2) by (auto split: if_splits)
  have l: "map_level demo_p4 (frame_addr 4) 1 demo_paging = Some u"
    using np demo_alloc_frame rec(1) by (simp add: map_level_def t_def add_table_def)
  have e: "P4_ENTRY 0x200000 = 0" "P3_ENTRY 0x200000 = 0" "P2_ENTRY 0x200000 = 1" "P1_ENTRY 0x200000 = 0"
    "ALIGN_ADDR 0x200000 = 0x200000"
    by (simp_all add: kmacro kconst)
  show ?thesis
    using rec(2) by (subst map_addr_levels) (simp add: Let_def e l r map_level_present)
qed

section \<open>Contract\<close>

text \<open>
  What the virtual memory manager relies on: a mapping call returns, keeps the invariants, makes
  its page translate to the aligned physical address, and leaves all other pages alone but the
  identity pages of the frames it took. The laws about translations need a frame left at the end: a
  call that finds none is the case of \<open>map_addr_out_of_frames\<close>.
\<close>

definition map_fresh :: "('s \<Rightarrow> (u64 \<times> 's) option) \<Rightarrow> (u64 \<Rightarrow> u64 \<Rightarrow> 's \<Rightarrow> 's option) \<Rightarrow> nat \<Rightarrow> u64 \<Rightarrow> 's \<Rightarrow> 's option" where
  "map_fresh alloc mp n v s = for_opt n (\<lambda>i s. Option.bind (alloc s) (\<lambda>(f, s). mp f (v + of_nat i * PAGE_SIZE) s)) s"

locale page_mapper = frame_allocator +
  fixes tinv :: "'a \<Rightarrow> bool" and view :: "'a \<Rightarrow> u64 list \<times> u64 \<Rightarrow> u64"
    and mp :: "u64 \<Rightarrow> u64 \<Rightarrow> 'a \<Rightarrow> 'a option"
  assumes tinv_alloc: "inv s \<Longrightarrow> tinv s \<Longrightarrow> alloc s = Some (a, s') \<Longrightarrow> tinv s' \<and> view s' = view s"
    and map_total: "inv s \<Longrightarrow> \<exists>s'. mp p v s = Some s' \<and> inv s' \<and> free s' \<subseteq> free s"
    and map_view: "inv s \<Longrightarrow> tinv s \<Longrightarrow> mp p v s = Some s' \<Longrightarrow> free s' \<noteq> {} \<Longrightarrow> p \<noteq> 0 \<Longrightarrow> v \<noteq> 0 \<Longrightarrow>
      tinv s' \<and> view s' (page v) = ALIGN_ADDR p AND SIGN_MASK \<and>
      (\<forall>w. page w \<noteq> page v \<longrightarrow> (\<forall>f\<in>free s - free s'. page w \<noteq> page (frame_addr f)) \<longrightarrow> view s' (page w) = view s (page w))"
begin

lemma map_fresh_total: "inv s \<Longrightarrow> \<exists>s'. map_fresh alloc mp n v s = Some s' \<and> inv s' \<and> free s' \<subseteq> free s"
  unfolding map_fresh_def
proof (rule for_opt_returns [where P = "\<lambda>_ t. inv t \<and> free t \<subseteq> free s"])
  fix i u assume "inv s" "inv u \<and> free u \<subseteq> free s"
  then obtain a t where "alloc u = Some (a, t)" "inv t" "free t \<subseteq> free s"
    using alloc_total by blast
  then show "\<exists>w. Option.bind (alloc u) (\<lambda>(f, s). mp f (v + of_nat i * PAGE_SIZE) s) = Some w \<and> inv w \<and> free w \<subseteq> free s"
    using map_total [of t a "v + of_nat i * PAGE_SIZE"] by fastforce
qed simp

lemma map_fresh_frames:
  assumes i: "inv s" "tinv s" and eq: "map_fresh alloc mp n v s = Some s'" and ne: "free s' \<noteq> {}"
    and n: "n \<le> 2 ^ 36" and nz: "\<And>i. i < n \<Longrightarrow> v + of_nat i * PAGE_SIZE \<noteq> 0"
    and apart: "\<And>i f. i < n \<Longrightarrow> f \<in> free s \<Longrightarrow> page (v + of_nat i * PAGE_SIZE) \<noteq> page (frame_addr f)"
  shows "tinv s' \<and> (\<exists>fs. length fs = n \<and> distinct fs \<and> set fs \<subseteq> free s - free s' \<and>
    (\<forall>i<n. view s' (page (v + of_nat i * PAGE_SIZE)) = frame_addr (fs ! i)))"
proof -
  let ?v = "\<lambda>i. v + of_nat i * PAGE_SIZE"
  define Q where "Q k u \<longleftrightarrow> inv u \<and> free u \<subseteq> free s \<and> (free u \<noteq> {} \<longrightarrow> tinv u \<and>
    (\<exists>fs. length fs = k \<and> distinct fs \<and> set fs \<subseteq> free s - free u \<and>
      (\<forall>i<k. view u (page (?v i)) = frame_addr (fs ! i))))" for k u
  have "Q n s'"
  proof (rule for_opt_inv [where P = Q, OF eq [unfolded map_fresh_def]])
    show "Q 0 s" using i by (simp add: Q_def)
  next
    fix k u w
    assume k: "k < n" and q: "Q k u" and call: "Option.bind (alloc u) (\<lambda>(f, s). mp f (?v k) s) = Some w"
    have u: "inv u" "free u \<subseteq> free s" using q by (auto simp: Q_def)
    from call obtain a t where a: "alloc u = Some (a, t)" "mp a (?v k) t = Some w"
      by (auto simp: bind_eq_Some_conv)
    have t: "inv t" "free t \<subseteq> free u" using alloc_total [OF u(1)] a(1) by auto
    have w: "inv w" "free w \<subseteq> free t" using map_total [OF t(1), of a "?v k"] a(2) by auto
    have "tinv w \<and> (\<exists>fs. length fs = Suc k \<and> distinct fs \<and> set fs \<subseteq> free s - free w \<and>
        (\<forall>i<Suc k. view w (page (?v i)) = frame_addr (fs ! i)))" if ne: "free w \<noteq> {}"
    proof -
      from ne w t have neu: "free u \<noteq> {}" by auto
      let ?f = "Min (free u)"
      have f: "?f \<in> free u" using neu finite_free by (rule Min_in [rotated])
      have at: "a = frame_addr ?f" "free t = free u - {?f}" using alloc_some [OF u(1) neu] a(1) by auto
      have b: "0 < ?f" "?f < 2 ^ 22" using free_bound [OF u(1) f] by auto
      then have a0: "a \<noteq> 0" using at(1) unat_frame_addr [of ?f] by auto
      from q neu obtain fs where fs: "tinv u" "length fs = k" "distinct fs" "set fs \<subseteq> free s - free u"
        "\<forall>i<k. view u (page (?v i)) = frame_addr (fs ! i)" by (auto simp: Q_def)
      have tt: "tinv t" "view t = view u" using tinv_alloc [OF u(1) fs(1) a(1)] by auto
      have m: "tinv w" "view w (page (?v k)) = ALIGN_ADDR a AND SIGN_MASK"
        "\<And>x. page x \<noteq> page (?v k) \<Longrightarrow> (\<forall>f\<in>free t - free w. page x \<noteq> page (frame_addr f)) \<Longrightarrow> view w (page x) = view t (page x)"
        using map_view [OF t(1) tt(1) a(2) ne a0 nz [OF k]] by auto
      have new: "view w (page (?v k)) = frame_addr ?f"
        using m(2) at(1) b frame_addr_SIGN_MASK [of ?f] by simp
      have old: "view w (page (?v i)) = frame_addr (fs ! i)" if "i < k" for i
        using m(3) [of "?v i"] that k n page_step [of i k v] apart [of i] tt(2) fs(5) at(2) u(2) by auto
      have "?f \<notin> free w" using w(2) at(2) by auto
      then show ?thesis
        using m(1) fs new old f u(2) w(2) t(2)
        by (intro conjI exI [of _ "fs @ [?f]"]) (auto simp: nth_append less_Suc_eq)
    qed
    with w t u show "Q (Suc k) w" by (auto simp: Q_def)
  qed
  with ne show ?thesis by (simp add: Q_def)
qed

end

lemma pt_inv_set_bit:
  assumes "pt_inv p4 s" "alloc_frame s = Some (a, s')" "wf_pmm s"
  shows "pt_inv p4 s' \<and> pview s' p4 = pview s p4"
proof -
  have rd: "pt_read s' = pt_read s" using alloc_frame_pt [OF assms(2)] by simp
  have w: "walk s' t q = walk s t q" for t q by (induction q arbitrary: t) (simp_all add: rd)
  have "free_frames s' \<subseteq> free_frames s" using pmm.alloc_total [OF assms(3)] assms(2) by auto
  then have "pt_inv p4 s'" using assms(1) unfolding pt_inv_def w by blast
  moreover have "pview s' p4 pg = pview s p4 pg" for pg unfolding pview_def w rd by (rule refl)
  ultimately show ?thesis by (simp add: fun_eq_iff)
qed

interpretation pager: page_mapper wf_pmm free_frames alloc_frame pmm_clear_bit "pt_inv p4"
    "\<lambda>s. pview s p4" "\<lambda>p v. map_addr p v (if user then USER_PT_ENTRY else KERNEL_PT_ENTRY) p4"
  for p4 :: u64 and user :: bool
proof
  fix s s' :: "'a paging_scheme" and p v a
  show "wf_pmm s \<Longrightarrow> pt_inv p4 s \<Longrightarrow> alloc_frame s = Some (a, s') \<Longrightarrow> pt_inv p4 s' \<and> pview s' p4 = pview s p4"
    using pt_inv_set_bit by blast
  show "wf_pmm s \<Longrightarrow> \<exists>s'. map_addr p v (if user then USER_PT_ENTRY else KERNEL_PT_ENTRY) p4 s = Some s' \<and> wf_pmm s' \<and> free_frames s' \<subseteq> free_frames s"
    using map_addr_shrinks [of s p v _ p4] unfolding shrinks_def by blast
  assume a: "wf_pmm s" "pt_inv p4 s" "map_addr p v (if user then USER_PT_ENTRY else KERNEL_PT_ENTRY) p4 s = Some s'"
    "free_frames s' \<noteq> {}" "p \<noteq> 0" "v \<noteq> 0"
  have "(if user then USER_PT_ENTRY else KERNEL_PT_ENTRY) AND SIGN_MASK = 0" by (simp add: kconst)
  from map_addr_maps [OF a this] show "pt_inv p4 s' \<and> pview s' p4 (page v) = ALIGN_ADDR p AND SIGN_MASK \<and>
      (\<forall>w. page w \<noteq> page v \<longrightarrow> (\<forall>f\<in>free_frames s - free_frames s'. page w \<noteq> page (frame_addr f)) \<longrightarrow>
        pview s' p4 (page w) = pview s p4 (page w))"
    using valid_page_page(1) unfolding maps_page_def grown_def adds_ids_def keeps_walks_def by blast
qed

lemma alloc_frame_pt_only: "alloc_frame s = Some (a, s') \<Longrightarrow> pt_only s s'"
  by (auto simp: alloc_frame_def bind_eq_Some_conv Let_def pt_only_set_bit split: if_splits)

lemma map_fresh_pt_only:
  fixes s s' :: "'a paging_scheme"
  assumes "wf_pmm s" "map_fresh alloc_frame (\<lambda>p v. map_addr p v flags p4) n v s = Some s'"
  shows "pt_only s s' \<and> wf_pmm s'"
proof (rule for_opt_inv [where P = "\<lambda>_ t. pt_only s t \<and> wf_pmm t", OF assms(2) [unfolded map_fresh_def]])
  fix i and u w :: "'a paging_scheme"
  assume u: "pt_only s u \<and> wf_pmm u"
    and "Option.bind (alloc_frame u) (\<lambda>(f, s). map_addr f (v + of_nat i * PAGE_SIZE) flags p4 s) = Some w"
  then obtain a t where a: "alloc_frame u = Some (a, t)" "map_addr a (v + of_nat i * PAGE_SIZE) flags p4 t = Some w"
    by (auto simp: bind_eq_Some_conv)
  have "wf_pmm t" using pmm.alloc_total [of u] u a(1) by auto
  with a(2) have "wf_pmm w" "pt_only t w"
    using map_addr_shrinks [of t a "v + of_nat i * PAGE_SIZE" flags p4] by (auto simp: shrinks_def)
  with u alloc_frame_pt_only [OF a(1)] show "pt_only s w \<and> wf_pmm w" by (blast intro: pt_only_trans)
qed (simp add: assms)

section \<open>Properties\<close>

text \<open>
  \<^verbatim>\<open>map_addr\<close> always returns, although it calls itself for every table it adds: each such call has
  one free frame less, and a call for the null frame returns at once. No frame becomes free.
\<close>

theorem map_addr_returns:
  assumes "wf_pmm s"
  shows "\<exists>s'. map_addr physical virtual flags p4 s = Some s' \<and> wf_pmm s' \<and> free_frames s' \<subseteq> free_frames s"
  using map_addr_shrinks [OF assms, of physical virtual flags p4] by (auto simp: shrinks_def)

theorem map_addr_returns_witness:
  "\<exists>s'. map_addr 0x123000 0x8000000000 7 0x2000 demo_paging = Some s' \<and> wf_pmm s' \<and>
     free_frames s' \<subseteq> free_frames demo_paging"
  by (rule map_addr_returns) (rule demo_paging_wf)

lemma pt_inv_root: "pt_inv p4 s \<Longrightarrow> p4 \<noteq> NULL"
proof
  assume inv: "pt_inv p4 s" and "p4 = NULL"
  moreover obtain f where "p4 = frame_addr f" "0 < f" "f < 2 ^ 35"
    by (rule pt_invE [OF inv, of "[]" p4]) simp_all
  ultimately show False using unat_frame_addr [of f] by simp
qed

text \<open>
  C8. After \<^verbatim>\<open>map_addr(physical, virtual, flags, p4)\<close> the virtual address translates to the page of the
  physical address, whatever tables had to be added, and the page tables are again a tree of
  distinct frames in use. The frames did not run out during the call.
\<close>

theorem map_addr_translates:
  assumes "wf_pmm s" "pt_inv p4 s" "map_addr physical virtual flags p4 s = Some s'" "free_frames s' \<noteq> {}"
    and "physical \<noteq> 0" "virtual \<noteq> 0" "flags AND SIGN_MASK = 0"
  shows "translate_addr virtual p4 s' = ALIGN_ADDR physical AND SIGN_MASK \<and> wf_pmm s' \<and> pt_inv p4 s'"
  using map_addr_maps [OF assms] pt_inv_root [OF assms(2)] grown_sub [of p4 _ s s']
  by (auto simp: maps_page_def translate_addr_pview)

theorem map_addr_translates_witness:
  "\<exists>s'. map_addr 0x123000 0x200000 USER_PT_ENTRY demo_p4 demo_paging = Some s' \<and>
     free_frames s' = {9, 10, 11, 12, 13, 14, 15} \<and> translate_addr 0x200000 demo_p4 s' = 0x123000"
proof -
  obtain s' where s': "map_addr 0x123000 0x200000 USER_PT_ENTRY demo_p4 demo_paging = Some s'"
    "free_frames s' = {9, 10, 11, 12, 13, 14, 15}" using demo_map_new_table by blast
  have "translate_addr 0x200000 demo_p4 s' = ALIGN_ADDR 0x123000 AND SIGN_MASK \<and> wf_pmm s' \<and> pt_inv demo_p4 s'"
    by (rule map_addr_translates [OF demo_paging_wf demo_paging_inv s'(1)]) (simp_all add: s'(2) kconst)
  with s' show ?thesis by (simp add: kmacro kconst)
qed

text \<open>
  C9. \<^verbatim>\<open>map_addr\<close> changes no other translation, with one exception: the frame of every table it adds
  is mapped to itself. It writes no memory outside the page tables and no other field of the state.
\<close>

theorem map_addr_frame:
  assumes "wf_pmm s" "pt_inv p4 s" "map_addr physical virtual flags p4 s = Some s'" "free_frames s' \<noteq> {}"
    and "physical \<noteq> 0" "virtual \<noteq> 0" "flags AND SIGN_MASK = 0"
  shows "(\<forall>f\<in>free_frames s - free_frames s'. page (frame_addr f) \<noteq> page virtual \<longrightarrow>
      translate_addr (frame_addr f) p4 s' = frame_addr f) \<and>
    (\<forall>v. page v \<noteq> page virtual \<longrightarrow> (\<forall>f\<in>free_frames s - free_frames s'. page v \<noteq> page (frame_addr f)) \<longrightarrow>
      translate_addr v p4 s' = translate_addr v p4 s) \<and>
    (\<forall>a. unat a div 4096 \<notin> tables p4 s' \<longrightarrow> pt_mem s' a = pt_mem s a) \<and>
    (\<exists>b m. s' = s\<lparr>km_bitmap := b, pt_mem := m\<rparr>)"
proof -
  have g: "grown p4 {page virtual} s s'" using map_addr_maps [OF assms] by (simp add: maps_page_def)
  then have k: "keeps_walks p4 s s'" and a: "adds_ids p4 {page virtual} s s'" by (auto simp: grown_def)
  have "pview s' p4 (page v) = pview s p4 (page v)"
    if "page v \<noteq> page virtual" "\<forall>f\<in>free_frames s - free_frames s'. page v \<noteq> page (frame_addr f)" for v
    using a that valid_page_page(1) [of v] unfolding adds_ids_def by blast
  with k a pt_inv_root [OF assms(2)] show ?thesis
    by (simp add: keeps_walks_def pt_only_def adds_ids_def translate_addr_pview)
qed

theorem map_addr_frame_witness:
  "\<exists>s'. map_addr 0x123000 0x200000 USER_PT_ENTRY demo_p4 demo_paging = Some s' \<and>
     free_frames s' = {9, 10, 11, 12, 13, 14, 15} \<and> translate_addr (frame_addr 8) demo_p4 s' = frame_addr 8 \<and>
     translate_addr 0x5000 demo_p4 s' = translate_addr 0x5000 demo_p4 demo_paging"
proof -
  obtain s' where s': "map_addr 0x123000 0x200000 USER_PT_ENTRY demo_p4 demo_paging = Some s'"
    "free_frames s' = {9, 10, 11, 12, 13, 14, 15}" using demo_map_new_table by blast
  have d: "free_frames demo_paging - free_frames s' = {8}" unfolding s'(2) demo_paging_free by auto
  have pg: "page (frame_addr 8) \<noteq> page 0x200000" "page 0x5000 \<noteq> page 0x200000" "page 0x5000 \<noteq> page (frame_addr 8)"
    by (simp_all add: page_number frame_addr_def kconst)
  have "(\<forall>f\<in>free_frames demo_paging - free_frames s'. page (frame_addr f) \<noteq> page 0x200000 \<longrightarrow>
      translate_addr (frame_addr f) demo_p4 s' = frame_addr f) \<and>
    (\<forall>v. page v \<noteq> page 0x200000 \<longrightarrow> (\<forall>f\<in>free_frames demo_paging - free_frames s'. page v \<noteq> page (frame_addr f)) \<longrightarrow>
      translate_addr v demo_p4 s' = translate_addr v demo_p4 demo_paging) \<and>
    (\<forall>a. unat a div 4096 \<notin> tables demo_p4 s' \<longrightarrow> pt_mem s' a = pt_mem demo_paging a) \<and>
    (\<exists>b m. s' = demo_paging\<lparr>km_bitmap := b, pt_mem := m\<rparr>)"
    by (rule map_addr_frame [OF demo_paging_wf demo_paging_inv s'(1)]) (simp_all add: s'(2) kconst)
  with pg s' show ?thesis unfolding d by blast
qed

text \<open>
  \<^verbatim>\<open>map_range\<close> makes every page of the range translate to the corresponding physical page, given
  that no page of the range is the identity page of a free frame (which a table may come to use).
\<close>

theorem map_range_translates:
  assumes "wf_pmm s" "pt_inv p4 s" "map_range physical virtual n flags p4 s = Some s'" "free_frames s' \<noteq> {}"
    and "flags AND SIGN_MASK = 0" "unat n \<le> 2 ^ 36"
    and "\<forall>i<unat n. physical + of_nat i * PAGE_SIZE \<noteq> 0 \<and> virtual + of_nat i * PAGE_SIZE \<noteq> 0"
    and "\<forall>i<unat n. \<forall>f\<in>free_frames s. page (virtual + of_nat i * PAGE_SIZE) \<noteq> page (frame_addr f)"
  shows "\<forall>i<unat n. translate_addr (virtual + of_nat i * PAGE_SIZE) p4 s' =
    ALIGN_ADDR (physical + of_nat i * PAGE_SIZE) AND SIGN_MASK"
  using map_range_maps [OF assms(1-6)] assms(7,8) pt_inv_root [OF assms(2)]
  by (simp add: translate_addr_pview)

theorem map_range_translates_witness:
  "\<exists>s'. map_range 0x123000 0x5000 2 USER_PT_ENTRY demo_p4 demo_paging = Some s' \<and>
     translate_addr 0x6000 demo_p4 s' = 0x124000"
proof -
  let ?s1 = "pt_write (frame_addr 5) (P1_ENTRY 0x5000) (ALIGN_ADDR 0x123000 OR USER_PT_ENTRY) demo_paging"
  have "map_addr 0x123000 0x5000 USER_PT_ENTRY demo_p4 demo_paging = Some ?s1"
    by (rule demo_map_present) (simp_all add: demo_walks del: walk.simps)
  moreover have "walk ?s1 demo_p4 [0, 0, 0] = Some (frame_addr 5)"
    using leaf_write_walk [OF demo_paging_inv _ _ demo_walks(3), of "P1_ENTRY 0x5000"] demo_walks(3)
    by (simp del: walk.simps)
  then have "map_addr 0x124000 0x6000 USER_PT_ENTRY demo_p4 ?s1 =
      Some (pt_write (frame_addr 5) (P1_ENTRY 0x6000) (ALIGN_ADDR 0x124000 OR USER_PT_ENTRY) ?s1)" (is "_ = Some ?s2")
    by (intro demo_map_present) simp_all
  ultimately have m: "map_range 0x123000 0x5000 2 USER_PT_ENTRY demo_p4 demo_paging = Some ?s2"
    by (simp add: map_range_def for_opt_numeral kconst)
  have fr: "free_frames ?s2 \<noteq> {}" by (simp add: demo_paging_free)
  have "page (0x5000 + of_nat i * PAGE_SIZE) \<noteq> page (frame_addr f)" if "i < 2" "f \<in> {8, 9, 10, 11, 12, 13, 14, 15}" for i f :: nat
  proof -
    have "i = 0 \<or> i = 1" using that(1) by auto
    with that(2) show ?thesis by (auto simp: page_number frame_addr_def kconst)
  qed
  moreover have "0x123000 + of_nat i * PAGE_SIZE \<noteq> 0 \<and> 0x5000 + of_nat i * PAGE_SIZE \<noteq> (0 :: u64)" if "i < 2" for i :: nat
  proof -
    have "i = 0 \<or> i = 1" using that by auto
    then show ?thesis by (auto simp: kconst)
  qed
  ultimately have "\<forall>i<unat (2 :: u64). translate_addr (0x5000 + of_nat i * PAGE_SIZE) demo_p4 ?s2 =
      ALIGN_ADDR (0x123000 + of_nat i * PAGE_SIZE) AND SIGN_MASK"
    by (intro map_range_translates [OF demo_paging_wf demo_paging_inv m fr])
      (simp_all add: demo_paging_free, simp_all add: kconst)
  from this [rule_format, of 1] m show ?thesis by (simp add: kconst kmacro)
qed

text \<open>
  The result of \<^verbatim>\<open>alloc_frame\<close> is not checked in \<^verbatim>\<open>map_addr\<close>: with no free frame and a missing table
  it links the null frame as a table and writes the final entry into memory at address 0.
\<close>

theorem map_addr_out_of_frames:
  assumes "wf_pmm s" "free_frames s = {}" "pt_inv p4 s" "pt_read s p4 (P4_ENTRY virtual) AND 1 = 0"
    and "physical \<noteq> 0" "virtual \<noteq> 0"
  shows "\<exists>s'. map_addr physical virtual flags p4 s = Some s' \<and>
    pt_read s' p4 (P4_ENTRY virtual) = USER_PT_ENTRY \<and>
    pt_mem s' (8 * P1_ENTRY virtual) = ALIGN_ADDR physical OR flags"
proof -
  obtain g where g: "p4 = frame_addr g" "0 < g" "g < 2 ^ 35"
    by (rule pt_invE [OF assms(3), of "[]" p4]) simp_all
  from map_addr_exhausted [OF assms(1,2) g assms(4-6)] show ?thesis
    by (metis add_0 pt_read_def)
qed

theorem map_addr_out_of_frames_witness:
  "\<exists>s'. map_addr 0x123000 0x8000000000 USER_PT_ENTRY demo_p4 (demo_paging\<lparr>km_bitmap := (\<lambda>_. BITMAP_ROW_FULL)\<rparr>) = Some s' \<and>
    pt_read s' demo_p4 (P4_ENTRY 0x8000000000) = USER_PT_ENTRY \<and>
    pt_mem s' (8 * P1_ENTRY 0x8000000000) = ALIGN_ADDR 0x123000 OR USER_PT_ENTRY"
proof (rule map_addr_out_of_frames)
  let ?s = "demo_paging\<lparr>km_bitmap := (\<lambda>_. BITMAP_ROW_FULL)\<rparr>"
  show free: "free_frames ?s = {}" by (simp add: free_frames_def frame_used_def row_bits)
  show "wf_pmm ?s" using demo_paging_wf free by (simp add: wf_pmm_def)
  have rd: "pt_read ?s = pt_read demo_paging" by (simp add: pt_read_def fun_eq_iff)
  have w: "walk ?s t q = walk demo_paging t q" for t q by (induction q arbitrary: t) (simp_all add: rd)
  show "pt_inv demo_p4 ?s" using demo_paging_inv unfolding pt_inv_def w free by blast
  have "P4_ENTRY 0x8000000000 = 1" by (simp add: kmacro)
  then show "pt_read ?s demo_p4 (P4_ENTRY 0x8000000000) AND 1 = 0"
    using demo_paging_read [of 2 1] by (simp add: rd demo_p4_def)
qed simp_all

text \<open>
  C34. \<^verbatim>\<open>free_page_table(p4, 4)\<close> releases exactly the frames of the tables of the tree, each table that is
  reached from the root and the root itself; the frames the leaves map stay in use.
\<close>

theorem free_page_table_releases_tree:
  assumes "pt_inv p4 s"
  shows "free_frames (free_page_table p4 4 s) =
    free_frames s \<union> {f \<in> tables p4 s. f < 64 * unat (km_bitmap_entries s)}"
  by (rule free_page_table_frees [OF assms])

theorem free_page_table_releases_tree_witness:
  "5 \<in> free_frames (free_page_table demo_p4 4 demo_paging)"
proof -
  have "5 \<in> tables demo_p4 demo_paging"
    unfolding tables_def using demo_walks(3) by (auto simp del: walk.simps intro!: exI [of _ "[0, 0, 0]"])
  moreover have "km_bitmap_entries demo_paging = 2"
    by (simp add: demo_paging_def kmem.defs) (simp add: demo_kmem_def)
  ultimately show ?thesis unfolding free_page_table_releases_tree [OF demo_paging_inv] by simp
qed

text \<open>
  \<^verbatim>\<open>unmap_addr\<close> follows the tables through their higher-half addresses, while \<^verbatim>\<open>map_addr\<close> and
  \<^verbatim>\<open>translate_addr\<close> use the frame addresses themselves: it never removes a translation from a tree
  of tables in low memory.
\<close>

theorem unmap_addr_keeps_translations:
  assumes "pt_inv p4 s"
  shows "translate_addr v p4 (unmap_addr a p4 s) = translate_addr v p4 s"
  using pview_low_memory(2) [OF assms unmap_addr_high, of "page v"] pt_inv_root [OF assms]
  by (simp add: translate_addr_pview)

theorem unmap_addr_keeps_translations_witness:
  "translate_addr 0x5000 demo_p4 (unmap_addr 0x5000 demo_p4 demo_paging) = translate_addr 0x5000 demo_p4 demo_paging"
  by (rule unmap_addr_keeps_translations) (rule demo_paging_inv)

end
