(* ===== verification/Vmm.thy ===== *)
theory Vmm
  imports Address_Space
begin

text \<open>
  The virtual memory manager, \<^verbatim>\<open>src/kernel/mem/vmm.c\<close>: a bitmap allocator whose blocks are pages,
  with a fresh frame mapped behind every page it hands out. The state is the page-table state and
  \<open>vm_bytes\<close>, the memory as seen through the addresses of the manager's own address space, in which
  the id table of the allocator lives. The manager is a record passed in and returned. Log calls are
  left out.
\<close>

section \<open>Definitions\<close>

record vmem = paging +
  vm_bytes :: bytes

datatype vmm_level_t = Supervisor | User

definition init_vmm :: "vmm_level_t \<Rightarrow> u64 \<Rightarrow> vmm_t \<Rightarrow> 'a vmem_scheme \<Rightarrow> (vmm_t \<times> 'a vmem_scheme) option" where
  "init_vmm level max_pages vi s =
     (let vi = vi\<lparr>vm_flags := (if level = Supervisor then KERNEL_PT_ENTRY else USER_PT_ENTRY)\<rparr>;
          vi = (if level = Supervisor
                then vi\<lparr>vm_bm := (vm_bm vi)\<lparr>bmp_bm := HIGHER_HALF_OFFSET\<rparr>\<rparr>
                else vi\<lparr>vm_bm := (vm_bm vi)\<lparr>bmp_bm := PAGE_SIZE\<rparr>\<rparr>)
      in Option.bind
        (map_fresh alloc_frame (\<lambda>p v. map_addr p v (vm_flags vi) (vm_p4_tbl vi))
          (unat (DIV_CEIL max_pages PAGE_SIZE)) (bmp_bm (vm_bm vi)) s)
        (\<lambda>s. let (bm, m) = init_bitmap (vm_bm vi) (max_pages * PAGE_SIZE) PAGE_SIZE (vm_bytes s)
             in Some (vi\<lparr>vm_bm := bm\<rparr>, s\<lparr>vm_bytes := m\<rparr>)))"

definition valloc :: "u64 \<Rightarrow> vmm_t \<Rightarrow> 'a vmem_scheme \<Rightarrow> (u64 \<times> vmm_t \<times> 'a vmem_scheme) option" where
  "valloc pages vi s =
     (if pages = 0 then Some (NULL, vi, s)
      else let (addr, bm, m) = bm_alloc (pages * PAGE_SIZE) (vm_bm vi) (vm_bytes s);
               vi = vi\<lparr>vm_bm := bm\<rparr>
           in Option.bind
             (map_fresh alloc_frame (\<lambda>p v. map_addr p v (vm_flags vi) (vm_p4_tbl vi))
               (unat pages) addr (s\<lparr>vm_bytes := m\<rparr>))
             (\<lambda>s. Some (addr, vi, s)))"

definition vfree :: "u64 \<Rightarrow> vmm_t \<Rightarrow> 'a vmem_scheme \<Rightarrow> vmm_t \<times> 'a vmem_scheme" where
  "vfree addr vi s =
     (let (freed, bm, m) = bm_free addr (vm_bm vi) (vm_bytes s);
          vi = vi\<lparr>vm_bm := bm\<rparr>;
          pages = freed div PAGE_SIZE
      in (vi, for_upto (unat pages)
                (\<lambda>i s. pmm_clear_bit (translate_addr (addr + of_nat i * PAGE_SIZE) (vm_p4_tbl vi) s) s)
                (s\<lparr>vm_bytes := m\<rparr>)))"

section \<open>Specification\<close>

definition vmm_ok :: "bytes \<Rightarrow> vmm_t \<Rightarrow> bool" where
  "vmm_ok m vi \<longleftrightarrow> wf_bitmap m (vm_bm vi) \<and> bmp_bsize (vm_bm vi) = PAGE_SIZE \<and>
     HIGHER_HALF_OFFSET \<le> bmp_bm (vm_bm vi) \<and> vm_flags vi \<in> {KERNEL_PT_ENTRY, USER_PT_ENTRY}"

lemma high_page_apart:
  assumes "HIGHER_HALF_OFFSET \<le> v" "f < 2 ^ 22"
  shows "page v \<noteq> page (frame_addr f)"
proof
  assume "page v = page (frame_addr f)"
  moreover have "unat (frame_addr f) div 4096 mod 2 ^ 36 = f" using assms(2) by (simp add: unat_frame_addr)
  ultimately have m: "(unat v div 4096) mod 2 ^ 36 = f" by (simp only: page_number)
  define k where "k = unat v div 4096"
  have "2 ^ 64 - 2 ^ 47 \<le> unat v" using assms(1) by (simp add: word_le_nat_alt kconst)
  then have k: "2 ^ 52 - 2 ^ 35 \<le> k" "k < 2 ^ 52"
    using unat_lt_exp64 [of v] by (auto simp: k_def)
  obtain q where q: "k = 2 ^ 36 * q + f" using m by (metis k_def mult_div_mod_eq)
  show False
  proof (cases "q \<le> 65535")
    case True
    with q k(1) assms(2) show False by simp
  next
    case False
    with q k(2) show False by simp
  qed
qed

lemma vm_bytes_frame [simp]:
  "free_frames (s\<lparr>vm_bytes := m\<rparr>) = free_frames s" "wf_pmm (s\<lparr>vm_bytes := m\<rparr>) = wf_pmm s"
  "pt_read (s\<lparr>vm_bytes := m\<rparr>) = pt_read s" "pt_mem (s\<lparr>vm_bytes := m\<rparr>) = pt_mem s"
  by (simp_all add: free_frames_def frame_used_def wf_pmm_def pt_read_def fun_eq_iff)

lemma walk_vm_bytes [simp]: "walk (s\<lparr>vm_bytes := m\<rparr>) t q = walk s t q"
  by (induction q arbitrary: t) simp_all

lemma pt_inv_vm_bytes [simp]:
  "pt_inv p4 (s\<lparr>vm_bytes := m\<rparr>) = pt_inv p4 s" "pview (s\<lparr>vm_bytes := m\<rparr>) p4 = pview s p4"
  by (simp_all add: pt_inv_def pview_def fun_eq_iff cong: option.case_cong)

lemma pt_only_bytes: "pt_only s s' \<Longrightarrow> vm_bytes s' = vm_bytes s"
  by (auto simp: pt_only_def)

lemma vmm_flags:
  assumes "vm_flags vi \<in> {KERNEL_PT_ENTRY, USER_PT_ENTRY}"
  obtains user where "vm_flags vi = (if user then USER_PT_ENTRY else KERNEL_PT_ENTRY)"
  using assms by (metis insertE singletonD)

lemma pages_blocks:
  assumes "bmp_bsize b = PAGE_SIZE" "unat pages * 4096 \<le> 2 ^ 63"
  shows "bm_nblocks (pages * PAGE_SIZE) b = unat pages"
proof -
  have p: "unat (pages * PAGE_SIZE) = unat pages * 4096"
    using assms(2) by (subst unat_mult_nowrap) (auto simp: kconst)
  have s: "unat PAGE_SIZE = 4096" "(0 :: u64) < PAGE_SIZE" by (simp_all add: kconst)
  have "unat (DIV_CEIL (pages * PAGE_SIZE) PAGE_SIZE) = (unat pages * 4096 + 4095) div 4096"
    using assms(2) by (subst unat_DIV_CEIL) (simp_all add: s p)
  then show ?thesis using assms(1) by (simp add: bm_nblocks_def)
qed

lemma vmm_region:
  assumes "vmm_ok m vi" "i \<le> bm_tblocks (vm_bm vi)"
  shows "HIGHER_HALF_OFFSET \<le> bm_addr (vm_bm vi) i" "bm_tblocks (vm_bm vi) < 2 ^ 35"
proof -
  let ?b = "vm_bm vi"
  have ok: "region_ok ?b" and bs: "unat (bmp_bsize ?b) = 4096" and hi: "HIGHER_HALF_OFFSET \<le> bmp_bm ?b"
    using assms(1) by (auto simp: vmm_ok_def wf_bitmap_def kconst)
  show "HIGHER_HALF_OFFSET \<le> bm_addr ?b i"
    using unat_bm_addr [OF ok assms(2)] hi by (simp add: word_le_nat_alt)
  have "2 ^ 64 - 2 ^ 47 \<le> unat (bmp_bm ?b)" using hi by (simp add: word_le_nat_alt kconst)
  then have "unat (bmp_size ?b) < 2 ^ 47" using ok by (auto simp: region_ok_def)
  then show "bm_tblocks ?b < 2 ^ 35" by (simp add: bm_tblocks_eq bs)
qed

lemma map_fresh_vmm:
  fixes s :: "'a vmem_scheme"
  assumes "wf_pmm s" "vm_flags vi \<in> {KERNEL_PT_ENTRY, USER_PT_ENTRY}"
  shows "\<exists>s'. map_fresh alloc_frame (\<lambda>p v. map_addr p v (vm_flags vi) p4) n v s = Some s' \<and>
    wf_pmm s' \<and> free_frames s' \<subseteq> free_frames s \<and> vm_bytes s' = vm_bytes s"
proof -
  obtain user where u: "vm_flags vi = (if user then USER_PT_ENTRY else KERNEL_PT_ENTRY)"
    using vmm_flags [OF assms(2)] .
  from pager.map_fresh_total [OF assms(1), of user p4 n v] obtain s' where
    "map_fresh alloc_frame (\<lambda>p v. map_addr p v (vm_flags vi) p4) n v s = Some s'" "wf_pmm s'" "free_frames s' \<subseteq> free_frames s"
    unfolding u by blast
  with map_fresh_pt_only [OF assms(1)] pt_only_bytes show ?thesis by blast
qed

lemma map_fresh_high:
  fixes s s' :: "'a vmem_scheme"
  assumes "wf_pmm s" "pt_inv p4 s" "vm_flags vi \<in> {KERNEL_PT_ENTRY, USER_PT_ENTRY}"
    "map_fresh alloc_frame (\<lambda>p v. map_addr p v (vm_flags vi) p4) n v s = Some s'" "free_frames s' \<noteq> {}"
    and n: "n \<le> 2 ^ 36" and hi: "\<And>i. i < n \<Longrightarrow> HIGHER_HALF_OFFSET \<le> v + of_nat i * PAGE_SIZE"
  shows "pt_inv p4 s' \<and> (\<exists>fs. length fs = n \<and> distinct fs \<and> set fs \<subseteq> free_frames s - free_frames s' \<and>
    (\<forall>i<n. translate_addr (v + of_nat i * PAGE_SIZE) p4 s' = frame_addr (fs ! i)))"
proof -
  obtain user where u: "vm_flags vi = (if user then USER_PT_ENTRY else KERNEL_PT_ENTRY)"
    using vmm_flags [OF assms(3)] .
  have "v + of_nat i * PAGE_SIZE \<noteq> 0" if "i < n" for i
  proof
    assume "v + of_nat i * PAGE_SIZE = 0"
    with hi [OF that] show False by (simp add: kconst word_le_nat_alt)
  qed
  moreover have "page (v + of_nat i * PAGE_SIZE) \<noteq> page (frame_addr f)" if "i < n" "f \<in> free_frames s" for i f
    using high_page_apart [OF hi [OF that(1)]] free_frame_bound(1) [OF assms(1) that(2)] by blast
  ultimately show ?thesis
    using pager.map_fresh_frames [OF assms(1,2) assms(4) [unfolded u] assms(5) n] pt_inv_root [OF assms(2)]
    by (simp add: translate_addr_pview)
qed

lemma bm_alloc_fields:
  "wf_bitmap m b \<Longrightarrow> bm_alloc sz b m = (p, b', m') \<Longrightarrow>
    bmp_size b' = bmp_size b \<and> bmp_bsize b' = bmp_bsize b \<and> bmp_bm b' = bmp_bm b"
  by (rule bm_alloc_cases [where sz = sz]) (auto simp: bm_taken_def)

lemma valloc_pages:
  fixes s s' :: "'a vmem_scheme"
  assumes wf: "wf_pmm s" and inv: "pt_inv (vm_p4_tbl vi) s" and ok: "vmm_ok (vm_bytes s) vi"
    and n: "pages \<noteq> 0" "unat pages * 4096 \<le> 2 ^ 63"
    and call: "valloc pages vi s = Some (addr, vi', s')" "addr \<noteq> NULL" and ne: "free_frames s' \<noteq> {}"
  shows "(\<exists>fs. length fs = unat pages \<and> distinct fs \<and> set fs \<subseteq> free_frames s - free_frames s' \<and>
      (\<forall>i<unat pages. translate_addr (addr + of_nat i * PAGE_SIZE) (vm_p4_tbl vi) s' = frame_addr (fs ! i))) \<and>
    wf_pmm s' \<and> pt_inv (vm_p4_tbl vi) s' \<and> vmm_ok (vm_bytes s') vi'"
proof -
  let ?b = "vm_bm vi"
  obtain b' m' where a: "bm_alloc (pages * PAGE_SIZE) ?b (vm_bytes s) = (addr, b', m')"
    and mf: "map_fresh alloc_frame (\<lambda>p v. map_addr p v (vm_flags vi) (vm_p4_tbl vi)) (unat pages) addr (s\<lparr>vm_bytes := m'\<rparr>) = Some s'"
    and vi': "vi' = vi\<lparr>vm_bm := b'\<rparr>"
    using call(1) n(1) by (auto simp: valloc_def Let_def bind_eq_Some_conv split: prod.splits)
  have bm: "wf_bitmap (vm_bytes s) ?b" "bmp_bsize ?b = PAGE_SIZE" and fl: "vm_flags vi \<in> {KERNEL_PT_ENTRY, USER_PT_ENTRY}"
    using ok by (auto simp: vmm_ok_def)
  from bm_alloc_grant [OF bm(1) a call(2)] obtain i where i: "addr = bm_addr ?b i" "i + unat pages \<le> bm_tblocks ?b"
    and wf': "wf_bitmap m' b'"
    using pages_blocks [OF bm(2) n(2)] by auto
  have step: "addr + of_nat j * PAGE_SIZE = bm_addr ?b (i + j)" for j
    using i(1) bm(2) by (simp add: bm_addr_def algebra_simps)
  have hi: "HIGHER_HALF_OFFSET \<le> addr + of_nat j * PAGE_SIZE" if "j < unat pages" for j
    unfolding step using vmm_region(1) [OF ok, of "i + j"] i(2) that by simp
  have small: "unat pages \<le> 2 ^ 36" using i(2) vmm_region(2) [OF ok, of 0] by simp
  have st: "wf_pmm (s\<lparr>vm_bytes := m'\<rparr>)" "pt_inv (vm_p4_tbl vi) (s\<lparr>vm_bytes := m'\<rparr>)" using wf inv by simp_all
  have "vm_bytes s' = m'" "wf_pmm s'"
    using map_fresh_pt_only [OF st(1) mf] pt_only_bytes [of _ s'] by fastforce+
  moreover have "vmm_ok m' vi'"
    using ok wf' bm_alloc_fields [OF bm(1) a] by (simp add: vmm_ok_def vi')
  ultimately show ?thesis
    using map_fresh_high [OF st fl mf ne small hi] by simp
qed

lemma vmm_total:
  fixes s :: "'a vmem_scheme"
  assumes "wf_pmm s" "vm_flags vi \<in> {KERNEL_PT_ENTRY, USER_PT_ENTRY}"
  shows "\<exists>addr vi' s'. valloc pages vi s = Some (addr, vi', s') \<and> wf_pmm s' \<and> free_frames s' \<subseteq> free_frames s"
proof -
  obtain a b m where a: "bm_alloc (pages * PAGE_SIZE) (vm_bm vi) (vm_bytes s) = (a, b, m)" by (metis prod_cases3)
  from map_fresh_vmm [of "s\<lparr>vm_bytes := m\<rparr>" vi "vm_p4_tbl vi" "unat pages" a] assms
  show ?thesis by (auto simp: valloc_def a Let_def)
qed

lemma init_vmm_total:
  fixes s :: "'a vmem_scheme"
  assumes "wf_pmm s"
  shows "\<exists>vi' s'. init_vmm level max_pages vi s = Some (vi', s') \<and> wf_pmm s' \<and> free_frames s' \<subseteq> free_frames s"
proof -
  have *: "\<exists>s'. map_fresh alloc_frame (\<lambda>p v. map_addr p v fl p4) n v s = Some s' \<and> wf_pmm s' \<and> free_frames s' \<subseteq> free_frames s"
    if "fl \<in> {KERNEL_PT_ENTRY, USER_PT_ENTRY}" for fl p4 n v
    using map_fresh_vmm [OF assms, of "vi\<lparr>vm_flags := fl\<rparr>" p4 n v] that by auto
  show ?thesis
    using * [of KERNEL_PT_ENTRY "vm_p4_tbl vi" "unat (DIV_CEIL max_pages PAGE_SIZE)" HIGHER_HALF_OFFSET]
      * [of USER_PT_ENTRY "vm_p4_tbl vi" "unat (DIV_CEIL max_pages PAGE_SIZE)" PAGE_SIZE]
    by (cases level) (auto simp: init_vmm_def Let_def split: prod.splits)
qed

lemma map_fresh_takes_first:
  fixes s s' :: "'a vmem_scheme"
  assumes wf: "wf_pmm s" and ne: "free_frames s \<noteq> {}" and n: "0 < n"
    and call: "map_fresh alloc_frame (\<lambda>p v. map_addr p v flags p4) n v s = Some s'"
  shows "free_frames s' \<subseteq> free_frames s - {Min (free_frames s)}"
proof -
  let ?P = "\<lambda>i t. if i = 0 then t = s else wf_pmm t \<and> free_frames t \<subseteq> free_frames s - {Min (free_frames s)}"
  have "?P n s'"
  proof (rule for_opt_inv [where P = ?P, OF call [unfolded map_fresh_def]])
    fix i and u w :: "'a vmem_scheme"
    assume p: "?P i u" and "Option.bind (alloc_frame u) (\<lambda>(f, s). map_addr f (v + of_nat i * PAGE_SIZE) flags p4 s) = Some w"
    then obtain a t where a: "alloc_frame u = Some (a, t)" "map_addr a (v + of_nat i * PAGE_SIZE) flags p4 t = Some w"
      by (auto simp: bind_eq_Some_conv)
    have u: "wf_pmm u" using p wf by (auto split: if_splits)
    have t: "wf_pmm t" "free_frames t \<subseteq> free_frames s - {Min (free_frames s)}"
      using pmm.alloc_total [OF u] pmm.alloc_some [OF wf ne] a(1) p by (auto split: if_splits)
    with a(2) show "?P (Suc i) w"
      using map_addr_shrinks [of t a "v + of_nat i * PAGE_SIZE" flags p4] by (auto simp: shrinks_def)
  qed simp
  with n show ?thesis by simp
qed

lemma vfree_used:
  assumes ok: "vmm_ok (vm_bytes s) vi" and p: "bm_in_payload (vm_bm vi) addr"
    "bm_block_of (vm_bm vi) addr \<in> bm_used_blocks (vm_bytes s) (vm_bm vi)"
  shows "snd (vfree addr vi s) = pmm_clear_bit (translate_addr addr (vm_p4_tbl vi) s) s"
proof -
  have b: "region_ok (vm_bm vi)" "bmp_bsize (vm_bm vi) = PAGE_SIZE" using ok by (auto simp: vmm_ok_def wf_bitmap_def)
  have "unat (PAGE_SIZE div PAGE_SIZE) = 1" by (simp add: kconst)
  moreover have "for_upto 1 f t = f 0 t" for f :: "nat \<Rightarrow> 'b \<Rightarrow> 'b" and t by simp
  ultimately show ?thesis
    using bm_free_used_block [OF b(1) p] b(2) by (simp add: vfree_def Let_def)
qed

lemma pt_inv_clear_bit: "pt_read (pmm_clear_bit a s) = pt_read s"
  by (simp add: pmm_clear_bit_def Let_def pt_read_def fun_eq_iff)

lemma translate_addr_cong:
  "pt_read s' = pt_read s \<Longrightarrow> km_pml4 s' = km_pml4 s \<Longrightarrow> translate_addr v p4 s' = translate_addr v p4 s"
  by (simp only: translate_addr_def)

lemma translate_clear_bit: "translate_addr v p4 (pmm_clear_bit a s) = translate_addr v p4 s"
  by (intro translate_addr_cong) (simp_all add: pt_inv_clear_bit)

lemma init_vmm_kernel:
  fixes s s' :: "'a vmem_scheme"
  assumes wf: "wf_pmm s" and inv: "pt_inv (vm_p4_tbl vi) s"
    and n: "0 < unat max_pages" "unat max_pages < 2 ^ 34"
    and zero: "\<And>i. i < unat max_pages \<Longrightarrow> get_bm (vm_bytes s) HIGHER_HALF_OFFSET i = 0"
    and call: "init_vmm Supervisor max_pages vi s = Some (vi', s')" and ne: "free_frames s' \<noteq> {}"
  shows "vmm_ok (vm_bytes s') vi' \<and> wf_pmm s' \<and> pt_inv (vm_p4_tbl vi') s' \<and>
    bm_tblocks (vm_bm vi') = unat max_pages \<and>
    bm_used_blocks (vm_bytes s') (vm_bm vi') = {..<bm_reserved (vm_bm vi')} \<and>
    (\<forall>i<bm_reserved (vm_bm vi'). translate_addr (HIGHER_HALF_OFFSET + of_nat i * PAGE_SIZE) (vm_p4_tbl vi') s' \<noteq> 0)"
proof -
  let ?n = "unat (DIV_CEIL max_pages PAGE_SIZE)"
  define vi0 where "vi0 = vi\<lparr>vm_flags := KERNEL_PT_ENTRY, vm_bm := (vm_bm vi)\<lparr>bmp_bm := HIGHER_HALF_OFFSET\<rparr>\<rparr>"
  obtain t where mf: "map_fresh alloc_frame (\<lambda>p v. map_addr p v (vm_flags vi0) (vm_p4_tbl vi)) ?n HIGHER_HALF_OFFSET s = Some t"
    and rest: "(case init_bitmap (vm_bm vi0) (max_pages * PAGE_SIZE) PAGE_SIZE (vm_bytes t) of
        (b, m) \<Rightarrow> Some (vi0\<lparr>vm_bm := b\<rparr>, t\<lparr>vm_bytes := m\<rparr>)) = Some (vi', s')"
    using call by (auto simp: init_vmm_def vi0_def Let_def bind_eq_Some_conv)
  obtain b m where ib: "init_bitmap (vm_bm vi0) (max_pages * PAGE_SIZE) PAGE_SIZE (vm_bytes t) = (b, m)"
    by (metis surj_pair)
  with rest have r: "vi' = vi0\<lparr>vm_bm := b\<rparr>" "s' = t\<lparr>vm_bytes := m\<rparr>" by auto
  have ps: "unat PAGE_SIZE = 4096" "(0 :: u64) < PAGE_SIZE" by (simp_all add: kconst)
  have sz: "unat (max_pages * PAGE_SIZE) = unat max_pages * 4096"
    using n by (subst unat_mult_nowrap) (auto simp: ps)
  have q: "unat (max_pages * PAGE_SIZE div PAGE_SIZE) = unat max_pages"
    by (simp only: unat_div sz ps)
  have t: "vm_bytes t = vm_bytes s" "wf_pmm t"
    using map_fresh_pt_only [OF wf mf] pt_only_bytes by auto
  have reg: "region_ok ((vm_bm vi0)\<lparr>bmp_bsize := PAGE_SIZE, bmp_size := max_pages * PAGE_SIZE\<rparr>)"
    using n unfolding region_ok_def by (simp add: sz ps vi0_def) (simp add: kconst)
  have wfb: "wf_bitmap m b \<and> bm_used_blocks m b = {..<bm_reserved b}"
    using zero t(1) by (intro init_bitmap_wf [OF reg _ ib]) (simp add: q vi0_def)
  have b: "bmp_bm b = HIGHER_HALF_OFFSET" "bmp_bsize b = PAGE_SIZE" "bmp_size b = max_pages * PAGE_SIZE"
    using ib by (auto simp: init_bitmap_eq Let_def vi0_def)
  have tb: "bm_tblocks b = unat max_pages" by (simp add: bm_tblocks_def b q)
  have ok: "vmm_ok m vi'" using wfb b by (simp add: vmm_ok_def r vi0_def)
  have nn: "?n = (unat max_pages + 4095) div 4096" using n by (subst unat_DIV_CEIL) (auto simp: ps)
  have res: "bm_reserved b \<le> ?n"
  proof -
    have "bm_reserved b = ((unat max_pages + 3) div 4 + 4095) div 4096"
      using bm_reserved_eq [of b] wfb by (simp add: wf_bitmap_def tb b(2) ps)
    moreover have "(unat max_pages + 3) div 4 \<le> unat max_pages" using n by linarith
    ultimately show ?thesis unfolding nn by (simp add: div_le_mono)
  qed
  have hi: "HIGHER_HALF_OFFSET \<le> HIGHER_HALF_OFFSET + of_nat i * PAGE_SIZE" if "i < ?n" for i
  proof -
    have "i \<le> bm_tblocks b" using that n unfolding nn tb by linarith
    from vmm_region(1) [OF ok] this show ?thesis by (simp add: r bm_addr_def b)
  qed
  have small: "?n \<le> 2 ^ 36" using n(2) unfolding nn by simp
  have ne': "free_frames t \<noteq> {}" using ne by (simp add: r)
  have fl: "vm_flags vi0 \<in> {KERNEL_PT_ENTRY, USER_PT_ENTRY}" by (simp add: vi0_def)
  from map_fresh_high [OF wf inv fl mf ne' small hi] obtain fs where fs: "pt_inv (vm_p4_tbl vi) t" "length fs = ?n"
    "set fs \<subseteq> free_frames s" "\<And>i. i < ?n \<Longrightarrow> translate_addr (HIGHER_HALF_OFFSET + of_nat i * PAGE_SIZE) (vm_p4_tbl vi) t = frame_addr (fs ! i)"
    by blast
  have nz: "frame_addr f \<noteq> 0" if "f \<in> free_frames s" for f
    using free_frame_bound [OF wf that] unat_frame_addr [of f] by auto
  have tr: "translate_addr v p4 (t\<lparr>vm_bytes := m\<rparr>) = translate_addr v p4 t" for v p4
    by (intro translate_addr_cong) simp_all
  have "translate_addr (HIGHER_HALF_OFFSET + of_nat i * PAGE_SIZE) (vm_p4_tbl vi) s' \<noteq> 0" if "i < bm_reserved b" for i
  proof -
    have "i < ?n" using that res by simp
    moreover from this have "fs ! i \<in> free_frames s" using subsetD [OF fs(3) nth_mem, of i] fs(2) by simp
    ultimately show ?thesis using fs(4) nz by (simp add: r tr)
  qed
  with ok wfb fs(1) t(2) tb show ?thesis by (simp add: r vi0_def)
qed

section \<open>A concrete manager\<close>

text \<open>
  The page table of \<open>demo_paging\<close> with the tables of the first higher-half page in the frames 8, 9 and
  10, and a kernel manager over sixteen pages there.
\<close>

definition demo_high :: paging where
  "demo_high = add_table (frame_addr 9) 0 10 (add_table (frame_addr 8) 0 9 (add_table demo_p4 256 8 demo_paging))"

definition demo_vm :: vmem where
  "demo_vm = paging.extend demo_high (vmem.fields ((\<lambda>_. 0)(HIGHER_HALF_OFFSET := 1)))"

definition demo_vmm :: vmm_t where
  "demo_vmm = \<lparr>vm_flags = KERNEL_PT_ENTRY, vm_p4_tbl = demo_p4,
     vm_bm = \<lparr>bmp_size = 0x10000, bmp_bsize = PAGE_SIZE, bmp_used = 1, bmp_ffa = 1, bmp_bm = HIGHER_HALF_OFFSET\<rparr>\<rparr>"

lemma demo_high_ok:
  "wf_pmm demo_high" "pt_inv demo_p4 demo_high" "free_frames demo_high = {11, 12, 13, 14, 15}"
  "walk demo_high demo_p4 [256, 0, 0] = Some (frame_addr 10)" "walk demo_high demo_p4 [0, 0, 0] = Some (frame_addr 5)"
proof -
  let ?a = "add_table demo_p4 256 8 demo_paging"
  let ?b = "add_table (frame_addr 8) 0 9 ?a"
  have b: "(2 :: nat) < 2 ^ 35" "(8 :: nat) < 2 ^ 35" "(9 :: nat) < 2 ^ 35" by simp_all
  have "pt_read demo_paging (frame_addr 2) 256 AND 1 = 0" using demo_paging_read [of 2 256] by simp
  then have A: "keeps_walks demo_p4 demo_paging ?a" "free_frames ?a = free_frames demo_paging - {8}"
    "walk ?a demo_p4 [256] = Some (frame_addr 8)"
    using add_table_grows [OF demo_paging_wf demo_paging_inv, of "[]" 256 2 8] b
    by (simp_all add: demo_p4_def demo_paging_free del: walk.simps) (simp_all add: demo_p4_def)
  have a: "wf_pmm ?a" "pt_inv demo_p4 ?a" using A(1) by (auto simp: keeps_walks_def)
  have fa: "free_frames ?a = {9, 10, 11, 12, 13, 14, 15}" unfolding A(2) demo_paging_free by auto
  have "pt_read ?a (frame_addr 8) 0 AND 1 = 0"
    using add_table_read [of 8 2 256 8 0 demo_paging] by (simp add: demo_p4_def)
  then have B: "keeps_walks demo_p4 ?a ?b" "free_frames ?b = free_frames ?a - {9}"
    "walk ?b demo_p4 [256, 0] = Some (frame_addr 9)"
    using add_table_grows [OF a, of "[256]" 0 8 9] A(3) b fa by (simp_all del: walk.simps)
  have bb: "wf_pmm ?b" "pt_inv demo_p4 ?b" using B(1) by (auto simp: keeps_walks_def)
  have fb: "free_frames ?b = {10, 11, 12, 13, 14, 15}" unfolding B(2) fa by auto
  have "pt_read ?b (frame_addr 9) 0 AND 1 = 0"
    using add_table_read [of 9 8 0 9 0 ?a] by simp
  then have C: "keeps_walks demo_p4 ?b demo_high" "free_frames demo_high = free_frames ?b - {10}"
    "walk demo_high demo_p4 [256, 0, 0] = Some (frame_addr 10)"
    using add_table_grows [OF bb, of "[256, 0]" 0 9 10] B(3) b fb by (simp_all add: demo_high_def del: walk.simps)
  then show "wf_pmm demo_high" "pt_inv demo_p4 demo_high" "free_frames demo_high = {11, 12, 13, 14, 15}"
    "walk demo_high demo_p4 [256, 0, 0] = Some (frame_addr 10)"
    using fb by (auto simp: keeps_walks_def)
  have "valid_path [0, 0, 0]" by simp
  then show "walk demo_high demo_p4 [0, 0, 0] = Some (frame_addr 5)"
    using A(1) B(1) C(1) demo_walks(3) unfolding keeps_walks_def by blast
qed

lemma demo_vm_frame:
  "free_frames demo_vm = free_frames demo_high" "wf_pmm demo_vm = wf_pmm demo_high"
  "walk demo_vm t q = walk demo_high t q" "vm_bytes demo_vm = (\<lambda>_. 0)(HIGHER_HALF_OFFSET := 1)"
proof -
  show "free_frames demo_vm = free_frames demo_high" "wf_pmm demo_vm = wf_pmm demo_high"
    "vm_bytes demo_vm = (\<lambda>_. 0)(HIGHER_HALF_OFFSET := 1)"
    by (simp_all add: demo_vm_def paging.defs vmem.defs free_frames_def wf_pmm_def frame_used_def)
  have "pt_read demo_vm t i = pt_read demo_high t i" for t i
    by (simp add: demo_vm_def paging.defs vmem.defs pt_read_def)
  then show "walk demo_vm t q = walk demo_high t q" by (induction q arbitrary: t) simp_all
qed

lemma demo_vm_ok:
  "wf_pmm demo_vm" "pt_inv demo_p4 demo_vm" "free_frames demo_vm = {11, 12, 13, 14, 15}"
  "walk demo_vm demo_p4 [256, 0, 0] = Some (frame_addr 10)"
proof -
  show "wf_pmm demo_vm" "free_frames demo_vm = {11, 12, 13, 14, 15}"
    "walk demo_vm demo_p4 [256, 0, 0] = Some (frame_addr 10)"
    unfolding demo_vm_frame by (rule demo_high_ok)+
  show "pt_inv demo_p4 demo_vm"
    using demo_high_ok(2) unfolding pt_inv_def demo_vm_frame .
qed

lemma demo_vmm_region: "region_ok (vm_bm demo_vmm)" "bm_tblocks (vm_bm demo_vmm) = 16" "bm_reserved (vm_bm demo_vmm) = 1"
  by (simp_all add: region_ok_def demo_vmm_def bm_tblocks_def bm_reserved_def BM_BLOCKS_def DIV_CEIL_def kconst)

lemma demo_vmm_ids:
  "i < 16 \<Longrightarrow> get_bm (vm_bytes demo_vm) HIGHER_HALF_OFFSET i = (if i = 0 then 1 else 0)"
proof -
  assume "i < 16"
  then have "i div 4 < 4" "i div 4 = 0 \<longleftrightarrow> i < 4" by auto
  then have "HIGHER_HALF_OFFSET + of_nat (i div 4) = HIGHER_HALF_OFFSET \<longleftrightarrow> i < 4"
    using of_nat_eq_iff64 [of "i div 4" 0] by simp
  moreover have "(1 :: u8) AND bm_id_mask i = (if i = 0 then 1 else 0)" if "i < 4"
  proof -
    have "i = 0 \<or> i = 1 \<or> i = 2 \<or> i = 3" using that by auto
    then show ?thesis by (auto simp: bm_id_mask_def)
  qed
  ultimately show ?thesis by (auto simp: get_bm_eq demo_vm_frame)
qed

lemma demo_vmm_used: "bm_used_blocks (vm_bytes demo_vm) (vm_bm demo_vmm) = {0}"
  unfolding bm_used_blocks_def demo_vmm_region(2)
  by (auto simp: demo_vmm_ids demo_vmm_def split: if_splits)

lemma demo_vmm_ok: "vmm_ok (vm_bytes demo_vm) demo_vmm"
  unfolding vmm_ok_def wf_bitmap_def demo_vmm_used demo_vmm_region
  by (simp add: demo_vmm_region) (auto simp: demo_vmm_def)

lemma demo_valloc_any:
  fixes s :: "'a vmem_scheme"
  assumes s: "wf_pmm s" "free_frames s = {11, 12, 13, 14, 15}" "walk s demo_p4 [256, 0, 0] = Some (frame_addr 10)"
    "vm_bytes s = vm_bytes demo_vm"
  shows "\<exists>vi' s'. valloc 1 demo_vmm s = Some (HIGHER_HALF_OFFSET + PAGE_SIZE, vi', s') \<and> free_frames s' = {12, 13, 14, 15}"
proof -
  have "bm_scan (vm_bytes demo_vm) HIGHER_HALF_OFFSET 16 1 1 = Some 1"
    by (subst bm_scan.simps) (simp add: bm_free_run.simps demo_vmm_ids Let_def)
  then obtain b m where a: "bm_alloc PAGE_SIZE (vm_bm demo_vmm) (vm_bytes s) = (HIGHER_HALF_OFFSET + PAGE_SIZE, b, m)"
    by (simp add: s(4) bm_alloc_def demo_vmm_def Let_def DIV_CEIL_def kconst)
  let ?s = "s\<lparr>vm_bytes := m\<rparr>"
  have wf: "wf_pmm ?s" and fr: "free_frames ?s = {11, 12, 13, 14, 15}" using s by simp_all
  have ne: "free_frames ?s \<noteq> {}" and mn: "Min (free_frames ?s) = 11" unfolding fr by simp_all
  obtain t where t: "alloc_frame ?s = Some (frame_addr 11, t)" "free_frames t = {12, 13, 14, 15}"
    using pmm.alloc_some [OF wf ne] unfolding mn fr by auto
  have w: "walk t demo_p4 [256, 0, 0] = Some (frame_addr 10)"
  proof -
    have "pt_read t = pt_read ?s" using alloc_frame_pt [OF t(1)] by simp
    then have "walk t u q = walk ?s u q" for u q by (induction q arbitrary: u) simp_all
    then show ?thesis using s(3) by (simp del: walk.simps)
  qed
  have e: "fst (page (HIGHER_HALF_OFFSET + PAGE_SIZE)) = [256, 0, 0]" by (simp add: page_def kmacro kconst)
  have "\<exists>u. map_addr (frame_addr 11) (HIGHER_HALF_OFFSET + PAGE_SIZE) KERNEL_PT_ENTRY demo_p4 t = Some u \<and> free_frames u = {12, 13, 14, 15}"
    by (subst map_addr_present [OF _ _ w [folded e]]) (simp_all add: t(2), simp_all add: frame_addr_def kconst)
  then show ?thesis using a t(1)
    by (simp add: valloc_def Let_def map_fresh_def) (auto simp: demo_vmm_def)
qed

lemma demo_valloc:
  "\<exists>vi' s'. valloc 1 demo_vmm demo_vm = Some (HIGHER_HALF_OFFSET + PAGE_SIZE, vi', s') \<and> free_frames s' = {12, 13, 14, 15}"
  by (rule demo_valloc_any) (rule demo_vm_ok refl)+

section \<open>Properties\<close>



text \<open>
  \<^verbatim>\<open>init_vmm\<close> and \<^verbatim>\<open>valloc\<close> return in every state with a well-formed frame bitmap, whether or not
  memory runs out, and free no frame.
\<close>

theorem vmm_returns:
  fixes s :: "'a vmem_scheme"
  assumes "wf_pmm s"
  shows "(\<exists>vi' s'. init_vmm level max_pages vi s = Some (vi', s') \<and> wf_pmm s' \<and> free_frames s' \<subseteq> free_frames s) \<and>
    (vm_flags vi \<in> {KERNEL_PT_ENTRY, USER_PT_ENTRY} \<longrightarrow>
      (\<exists>addr vi' s'. valloc pages vi s = Some (addr, vi', s') \<and> wf_pmm s' \<and> free_frames s' \<subseteq> free_frames s))"
  using vmm_total [OF assms, of vi pages] init_vmm_total [OF assms, of level max_pages vi] by blast

theorem vmm_returns_witness:
  "\<exists>addr vi' s'. valloc 100 demo_vmm demo_vm = Some (addr, vi', s') \<and> wf_pmm s' \<and>
     free_frames s' \<subseteq> free_frames demo_vm"
  using vmm_returns [OF demo_vm_ok(1), of User 32 demo_vmm 100] by (simp add: demo_vmm_def)

text \<open>
  \<^verbatim>\<open>init_vmm\<close> for the kernel, on id bytes that are zero, sets up a manager over \<^verbatim>\<open>max_pages\<close> pages of
  the higher half whose only blocks in use are those of its id table, and all of the id table is
  backed by frames.
\<close>

theorem init_vmm_kernel_ready:
  fixes s s' :: "'a vmem_scheme"
  assumes "wf_pmm s" "pt_inv (vm_p4_tbl vi) s" "0 < unat max_pages" "unat max_pages < 2 ^ 34"
    and "\<forall>i<unat max_pages. get_bm (vm_bytes s) HIGHER_HALF_OFFSET i = 0"
    and "init_vmm Supervisor max_pages vi s = Some (vi', s')" "free_frames s' \<noteq> {}"
  shows "vmm_ok (vm_bytes s') vi' \<and> wf_pmm s' \<and> pt_inv (vm_p4_tbl vi') s' \<and>
    bm_tblocks (vm_bm vi') = unat max_pages \<and>
    bm_used_blocks (vm_bytes s') (vm_bm vi') = {..<bm_reserved (vm_bm vi')} \<and>
    (\<forall>i<bm_reserved (vm_bm vi').
       translate_addr (HIGHER_HALF_OFFSET + of_nat i * PAGE_SIZE) (vm_p4_tbl vi') s' \<noteq> 0)"
  using assms(5) by (intro init_vmm_kernel [OF assms(1-4) _ assms(6,7)]) blast

theorem init_vmm_kernel_ready_witness:
  "\<exists>vi' s'. init_vmm Supervisor 16 demo_vmm (demo_vm\<lparr>vm_bytes := (\<lambda>_. 0)\<rparr>) = Some (vi', s') \<and>
     bm_tblocks (vm_bm vi') = 16"
proof -
  let ?s = "demo_vm\<lparr>vm_bytes := (\<lambda>_. 0)\<rparr>"
  have wf: "wf_pmm ?s" and fr: "free_frames ?s = {11, 12, 13, 14, 15}" using demo_vm_ok by simp_all
  have ne: "free_frames ?s \<noteq> {}" and mn: "Min (free_frames ?s) = 11" unfolding fr by simp_all
  obtain t where t: "alloc_frame ?s = Some (frame_addr 11, t)" "free_frames t = {12, 13, 14, 15}"
    using pmm.alloc_some [OF wf ne] unfolding mn fr by auto
  have "walk t demo_p4 [256, 0, 0] = Some (frame_addr 10)"
  proof -
    have "pt_read t = pt_read ?s" using alloc_frame_pt [OF t(1)] by simp
    then have "walk t u q = walk ?s u q" for u q by (induction q arbitrary: u) simp_all
    then show ?thesis using demo_vm_ok(4) by (simp del: walk.simps)
  qed
  moreover have "fst (page HIGHER_HALF_OFFSET) = [256, 0, 0]" by (simp add: page_def kmacro kconst)
  ultimately obtain u where u: "map_addr (frame_addr 11) HIGHER_HALF_OFFSET KERNEL_PT_ENTRY demo_p4 t = Some u" "free_frames u = {12, 13, 14, 15}"
    using map_addr_present [of "frame_addr 11" HIGHER_HALF_OFFSET t demo_p4 "frame_addr 10" KERNEL_PT_ENTRY] t(2)
    by (simp add: frame_addr_def kconst del: walk.simps)
  have "unat (DIV_CEIL 16 PAGE_SIZE) = 1" by (simp add: kmacro kconst)
  moreover obtain b m where "init_bitmap (vm_bm demo_vmm) (16 * PAGE_SIZE) PAGE_SIZE (vm_bytes u) = (b, m)"
    by (metis surj_pair)
  ultimately obtain vi' s' where i: "init_vmm Supervisor 16 demo_vmm ?s = Some (vi', s')" "free_frames s' = {12, 13, 14, 15}"
    using t(1) u by (simp add: init_vmm_def map_fresh_def demo_vmm_def Let_def)
  have p4: "vm_p4_tbl demo_vmm = demo_p4" by (simp add: demo_vmm_def)
  have "vmm_ok (vm_bytes s') vi' \<and> wf_pmm s' \<and> pt_inv (vm_p4_tbl vi') s' \<and>
    bm_tblocks (vm_bm vi') = unat (16 :: u64) \<and>
    bm_used_blocks (vm_bytes s') (vm_bm vi') = {..<bm_reserved (vm_bm vi')} \<and>
    (\<forall>i<bm_reserved (vm_bm vi').
       translate_addr (HIGHER_HALF_OFFSET + of_nat i * PAGE_SIZE) (vm_p4_tbl vi') s' \<noteq> 0)"
    by (rule init_vmm_kernel_ready [OF wf _ _ _ _ i(1)]) (simp_all add: p4 demo_vm_ok(2) i(2) get_bm_eq)
  with i show ?thesis by simp
qed

text \<open>
  \<^verbatim>\<open>valloc\<close> does not look at the result of \<^verbatim>\<open>bm_alloc\<close> before it takes frames: a request that does
  not fit returns \<^verbatim>\<open>NULL\<close> and loses at least the first free frame.
\<close>

theorem valloc_failure_leaks:
  fixes s s' :: "'a vmem_scheme"
  assumes "wf_pmm s" "free_frames s \<noteq> {}" "vmm_ok (vm_bytes s) vi" "pages \<noteq> 0"
    and "\<forall>i. \<not> bm_fits_in (vm_bytes s) (vm_bm vi) (bm_nblocks (pages * PAGE_SIZE) (vm_bm vi)) i"
  shows "\<exists>vi' s'. valloc pages vi s = Some (NULL, vi', s') \<and>
    free_frames s' \<subseteq> free_frames s - {Min (free_frames s)}"
proof -
  have bm: "wf_bitmap (vm_bytes s) (vm_bm vi)" and fl: "vm_flags vi \<in> {KERNEL_PT_ENTRY, USER_PT_ENTRY}"
    using assms(3) by (auto simp: vmm_ok_def)
  obtain a b m where a: "bm_alloc (pages * PAGE_SIZE) (vm_bm vi) (vm_bytes s) = (a, b, m)" by (metis prod_cases3)
  have a0: "a = NULL" using bm_alloc_result [OF bm a] assms(5) by blast
  have n: "0 < unat pages" using assms(4) by (simp add: unat_gt_0)
  obtain s' where s': "map_fresh alloc_frame (\<lambda>p v. map_addr p v (vm_flags vi) (vm_p4_tbl vi)) (unat pages) a (s\<lparr>vm_bytes := m\<rparr>) = Some s'"
    using map_fresh_vmm [of "s\<lparr>vm_bytes := m\<rparr>" vi "vm_p4_tbl vi" "unat pages" a] assms(1) fl by auto
  have "free_frames s' \<subseteq> free_frames s - {Min (free_frames s)}"
    using map_fresh_takes_first [OF _ _ n s'] assms(1,2) by simp
  then show ?thesis using a a0 s' assms(4) by (simp add: valloc_def Let_def)
qed

theorem valloc_failure_leaks_witness:
  "\<exists>vi' s'. valloc 16 demo_vmm demo_vm = Some (NULL, vi', s') \<and>
    free_frames s' \<subseteq> free_frames demo_vm - {Min (free_frames demo_vm)}"
proof (rule valloc_failure_leaks [OF demo_vm_ok(1) _ demo_vmm_ok])
  have n: "bm_nblocks (16 * PAGE_SIZE) (vm_bm demo_vmm) = 16"
    using pages_blocks [of "vm_bm demo_vmm" 16] by (simp add: demo_vmm_def)
  have g: "get_bm (vm_bytes demo_vm) (bmp_bm (vm_bm demo_vmm)) 0 \<noteq> 0"
    using demo_vmm_ids [of 0] by (simp add: demo_vmm_def)
  show "\<forall>i. \<not> bm_fits_in (vm_bytes demo_vm) (vm_bm demo_vmm) (bm_nblocks (16 * PAGE_SIZE) (vm_bm demo_vmm)) i"
  proof (intro allI notI)
    fix i assume "bm_fits_in (vm_bytes demo_vm) (vm_bm demo_vmm) (bm_nblocks (16 * PAGE_SIZE) (vm_bm demo_vmm)) i"
    then have f: "\<forall>k<16. i + k < 16 \<and> get_bm (vm_bytes demo_vm) (bmp_bm (vm_bm demo_vmm)) (i + k) = 0"
      unfolding bm_fits_def n demo_vmm_region(2) by blast
    from f [rule_format, of 15] have "i = 0" by simp
    with f [rule_format, of 0] g show False by simp
  qed
qed (simp_all add: demo_vm_ok(3))

text \<open>
  \<^verbatim>\<open>vfree\<close> of an allocation, however many pages it has, releases the frame of its first page only,
  and that page still translates to the released frame.
\<close>

theorem vfree_releases_one_frame:
  fixes s :: "'a vmem_scheme"
  assumes "vmm_ok (vm_bytes s) vi" "bm_in_payload (vm_bm vi) addr"
    and "bm_block_of (vm_bm vi) addr \<in> bm_used_blocks (vm_bytes s) (vm_bm vi)"
  shows "snd (vfree addr vi s) = pmm_clear_bit (translate_addr addr (vm_p4_tbl vi) s) s \<and>
    (\<forall>v. translate_addr v p4 (snd (vfree addr vi s)) = translate_addr v p4 s)"
  using vfree_used [OF assms] by (simp add: translate_clear_bit)

theorem vfree_releases_one_frame_witness:
  "\<exists>vi' s'. valloc 1 demo_vmm demo_vm = Some (HIGHER_HALF_OFFSET + PAGE_SIZE, vi', s') \<and>
     snd (vfree (HIGHER_HALF_OFFSET + PAGE_SIZE) vi' s') =
       pmm_clear_bit (translate_addr (HIGHER_HALF_OFFSET + PAGE_SIZE) (vm_p4_tbl vi') s') s'"
proof -
  obtain vi' s' where v: "valloc 1 demo_vmm demo_vm = Some (HIGHER_HALF_OFFSET + PAGE_SIZE, vi', s')"
    using demo_valloc by blast
  obtain b m where a: "bm_alloc PAGE_SIZE (vm_bm demo_vmm) (vm_bytes demo_vm) = (HIGHER_HALF_OFFSET + PAGE_SIZE, b, m)"
    and vi': "vi' = demo_vmm\<lparr>vm_bm := b\<rparr>" and bys: "vm_bytes s' = m"
  proof -
    obtain x b m where x: "bm_alloc PAGE_SIZE (vm_bm demo_vmm) (vm_bytes demo_vm) = (x, b, m)" by (metis prod_cases3)
    with v have "x = HIGHER_HALF_OFFSET + PAGE_SIZE" "vi' = demo_vmm\<lparr>vm_bm := b\<rparr>"
      and mf: "map_fresh alloc_frame (\<lambda>p v. map_addr p v (vm_flags demo_vmm) (vm_p4_tbl demo_vmm)) 1 x (demo_vm\<lparr>vm_bytes := m\<rparr>) = Some s'"
      by (auto simp: valloc_def Let_def bind_eq_Some_conv)
    moreover have "vm_bytes s' = m"
      using map_fresh_pt_only [OF _ mf] demo_vm_ok(1) pt_only_bytes [of _ s'] by fastforce
    ultimately show thesis using that x by blast
  qed
  have wfb: "wf_bitmap (vm_bytes demo_vm) (vm_bm demo_vmm)" using demo_vmm_ok by (simp add: vmm_ok_def)
  have nn: "(HIGHER_HALF_OFFSET + PAGE_SIZE :: u64) \<noteq> NULL" by (simp add: kconst)
  have one: "bm_nblocks PAGE_SIZE (vm_bm demo_vmm) = 1" by (simp add: bm_nblocks_def demo_vmm_def kmacro kconst)
  from bm_alloc_grant [OF wfb a nn] obtain i where i: "HIGHER_HALF_OFFSET + PAGE_SIZE = bm_addr (vm_bm demo_vmm) i"
    "bm_reserved (vm_bm demo_vmm) \<le> i" "i < bm_tblocks (vm_bm demo_vmm)" "i \<in> bm_used_blocks m b" and wf': "wf_bitmap m b"
    unfolding one by auto
  have same: "bmp_size b = bmp_size (vm_bm demo_vmm)" "bmp_bsize b = bmp_bsize (vm_bm demo_vmm)" "bmp_bm b = bmp_bm (vm_bm demo_vmm)"
    using bm_alloc_fields [OF wfb a] by simp_all
  then have addr: "bm_addr (vm_bm demo_vmm) i = bm_addr b i" "bm_tblocks (vm_bm demo_vmm) = bm_tblocks b"
    "bm_reserved (vm_bm demo_vmm) = bm_reserved b" by (simp_all add: bm_addr_def bm_tblocks_def bm_reserved_def)
  have reg: "region_ok b" using wf' by (simp add: wf_bitmap_def)
  have "vmm_ok (vm_bytes s') vi'" using demo_vmm_ok wf' same by (simp add: vmm_ok_def vi' bys)
  moreover have "bm_in_payload (vm_bm vi') (HIGHER_HALF_OFFSET + PAGE_SIZE)"
    using bm_addr_in_payload [OF reg] i addr by (simp add: vi')
  moreover have "bm_block_of (vm_bm vi') (HIGHER_HALF_OFFSET + PAGE_SIZE) \<in> bm_used_blocks (vm_bytes s') (vm_bm vi')"
    using bm_block_of_addr [OF reg] i addr by (simp add: vi' bys)
  ultimately show ?thesis using v vfree_releases_one_frame [of s' vi' "HIGHER_HALF_OFFSET + PAGE_SIZE"] by blast
qed

end
