(* ===== verification/Heap_Alloc.thy ===== *)
theory Heap_Alloc
  imports Vmm
begin

text \<open>
  The heap, \<^verbatim>\<open>src/kernel/mem/heap.c\<close>: a linked list of regions, each with a bitmap allocator. A region
  header (\<^verbatim>\<open>heap_t\<close>) lives at the start of the pages it got from the virtual memory manager; the
  headers are a store \<open>hp_heaps\<close> from addresses to headers, kept apart from the bytes of \<open>vm_bytes\<close>,
  where the id tables are. A loop over a list that is not null-terminated does not return: \<open>None\<close>. Log
  calls are left out.
\<close>

section \<open>Definitions\<close>

definition HEAP_DEFAULT_BS :: u64 where [kconst]: "HEAP_DEFAULT_BS = 16"
definition sizeof_heap_t :: u64 where [kconst]: "sizeof_heap_t = 48"

record heap_t =
  h_bm :: bitmap_t
  h_next :: u64

record kheap = vmem +
  hp_heaps :: "u64 \<Rightarrow> heap_t"

text \<open>\<open>region_op b f s\<close> runs an allocator operation on the bitmap of the header at \<open>b\<close>.\<close>

definition region_op :: "u64 \<Rightarrow> (bitmap_t \<Rightarrow> bytes \<Rightarrow> u64 \<times> bitmap_t \<times> bytes) \<Rightarrow> 'a kheap_scheme \<Rightarrow> u64 \<times> 'a kheap_scheme" where
  "region_op b f s =
     (let (r, bm, m) = f (h_bm (hp_heaps s b)) (vm_bytes s)
      in (r, s\<lparr>vm_bytes := m, hp_heaps := (hp_heaps s)(b := (hp_heaps s b)\<lparr>h_bm := bm\<rparr>)\<rparr>))"

definition heap_add :: "u64 \<Rightarrow> u64 \<Rightarrow> vmm_t \<Rightarrow> u64 \<Rightarrow> 'a kheap_scheme \<Rightarrow> (u64 \<times> vmm_t \<times> 'a kheap_scheme) option" where
  "heap_add pages bsize vi n s =
     Option.bind (valloc pages vi s) (\<lambda>(h, vi, s).
       let bm = (h_bm (hp_heaps s h))\<lparr>bmp_bm := h + sizeof_heap_t\<rparr>;
           (bm, m) = init_bitmap bm (pages * PAGE_SIZE - sizeof_heap_t) bsize (vm_bytes s)
       in Some (h, vi, s\<lparr>vm_bytes := m,
            hp_heaps := (hp_heaps s)(h := (hp_heaps s h)\<lparr>h_bm := bm, h_next := n\<rparr>)\<rparr>))"

partial_function (option) halloc :: "u64 \<Rightarrow> u64 \<Rightarrow> 'a kheap_scheme \<Rightarrow> (u64 \<times> 'a kheap_scheme) option" where
  [code]: "halloc sz b s =
     (if b \<noteq> NULL
      then let (addr, s) = region_op b (bm_alloc sz) s
           in if addr \<noteq> NULL then Some (addr, s) else halloc sz (h_next (hp_heaps s b)) s
      else Some (NULL, s))"

text \<open>\<open>hfree\<close> and \<open>hrealloc\<close> walk the list with \<open>b\<close> but pass the bitmap of the head \<open>heap\<close> each time.\<close>

partial_function (option) hfree_loop :: "u64 \<Rightarrow> u64 \<Rightarrow> u64 \<Rightarrow> 'a kheap_scheme \<Rightarrow> 'a kheap_scheme option" where
  [code]: "hfree_loop ptr heap b s =
     (if b \<noteq> NULL
      then let (r, s) = region_op heap (bm_free ptr) s
           in if r \<noteq> 0 then Some s else hfree_loop ptr heap (h_next (hp_heaps s b)) s
      else Some s)"

definition hfree :: "u64 \<Rightarrow> u64 \<Rightarrow> 'a kheap_scheme \<Rightarrow> 'a kheap_scheme option" where
  "hfree ptr heap s = hfree_loop ptr heap heap s"

partial_function (option) hrealloc_loop :: "u64 \<Rightarrow> u64 \<Rightarrow> u64 \<Rightarrow> u64 \<Rightarrow> 'a kheap_scheme \<Rightarrow> (u64 \<times> 'a kheap_scheme) option" where
  [code]: "hrealloc_loop old sz heap b s =
     (if b \<noteq> NULL
      then let (a, s) = region_op heap (bm_realloc old sz) s
           in if a \<noteq> NULL then Some (a, s) else hrealloc_loop old sz heap (h_next (hp_heaps s b)) s
      else Some (NULL, s))"

definition hrealloc :: "u64 \<Rightarrow> u64 \<Rightarrow> u64 \<Rightarrow> 'a kheap_scheme \<Rightarrow> (u64 \<times> 'a kheap_scheme) option" where
  "hrealloc old sz heap s = hrealloc_loop old sz heap heap s"

partial_function (option) map_heap :: "u64 \<Rightarrow> u64 \<Rightarrow> u64 \<Rightarrow> 'a kheap_scheme \<Rightarrow> 'a kheap_scheme option" where
  [code]: "map_heap b src_vmm dest s =
     (if b \<noteq> NULL
      then let bm = h_bm (hp_heaps s b);
               num_pages = DIV_CEIL (bmp_size bm + sizeof_heap_t) PAGE_SIZE;
               start = bmp_bm bm - sizeof_heap_t
           in Option.bind (for_opt (unat num_pages)
                (\<lambda>i s. map_addr (translate_addr (start + of_nat i * PAGE_SIZE) src_vmm s)
                          (start + of_nat i * PAGE_SIZE) KERNEL_PT_ENTRY dest s) s)
              (\<lambda>s. map_heap (h_next (hp_heaps s b)) src_vmm dest s)
      else Some s)"

partial_function (option) free_heap :: "vmm_t \<Rightarrow> u64 \<Rightarrow> 'a kheap_scheme \<Rightarrow> (vmm_t \<times> 'a kheap_scheme) option" where
  [code]: "free_heap vmm b s =
     (if b \<noteq> NULL
      then let (vmm, s) = vfree b vmm s in free_heap vmm (h_next (hp_heaps s b)) s
      else Some (vmm, s))"

section \<open>Specification\<close>

abbreviation h_bitmap :: "'a kheap_scheme \<Rightarrow> u64 \<Rightarrow> bitmap_t" where
  "h_bitmap s b \<equiv> h_bm (hp_heaps s b)"

text \<open>\<open>chain s b xs\<close>: following \<open>next\<close> from \<open>b\<close> visits the headers \<open>xs\<close> and ends at \<^verbatim>\<open>NULL\<close>.\<close>

primrec chain :: "'a kheap_scheme \<Rightarrow> u64 \<Rightarrow> u64 list \<Rightarrow> bool" where
  "chain s b [] \<longleftrightarrow> b = NULL"
| "chain s b (x # xs) \<longleftrightarrow> b = x \<and> x \<noteq> NULL \<and> chain s (h_next (hp_heaps s x)) xs"

definition heap_fits :: "'a kheap_scheme \<Rightarrow> u64 \<Rightarrow> u64 \<Rightarrow> bool" where
  "heap_fits s sz b \<longleftrightarrow> (\<exists>i. bm_fits_in (vm_bytes s) (h_bitmap s b) (bm_nblocks sz (h_bitmap s b)) i)"

definition region :: "bitmap_t \<Rightarrow> u64 set" where
  "region b = span (bmp_bm b) (unat (bmp_size b))"

definition heap_ok :: "'a kheap_scheme \<Rightarrow> u64 list \<Rightarrow> bool" where
  "heap_ok s xs \<longleftrightarrow> distinct xs \<and> (\<forall>b\<in>set xs. wf_bitmap (vm_bytes s) (h_bitmap s b)) \<and>
     (\<forall>b\<in>set xs. \<forall>c\<in>set xs. b \<noteq> c \<longrightarrow> region (h_bitmap s b) \<inter> region (h_bitmap s c) = {})"

section \<open>Allocation\<close>

lemma region_op_id: "f (h_bitmap s b) (vm_bytes s) = (r, h_bitmap s b, vm_bytes s) \<Longrightarrow> region_op b f s = (r, s)"
  by (simp add: region_op_def)

lemma region_op_next: "region_op b f s = (r, s') \<Longrightarrow> h_next (hp_heaps s' c) = h_next (hp_heaps s c)"
  by (auto simp: region_op_def Let_def split: prod.splits)

lemma halloc_chain:
  assumes "chain s b xs" "\<forall>x\<in>set xs. wf_bitmap (vm_bytes s) (h_bitmap s x)"
  shows "halloc sz b s = Some (case find (heap_fits s sz) xs of
     None \<Rightarrow> (NULL, s) | Some r \<Rightarrow> region_op r (bm_alloc sz) s)"
  using assms
proof (induction xs arbitrary: b)
  case Nil
  then show ?case by (subst halloc.simps) simp
next
  case (Cons x xs)
  then have b: "b = x" "x \<noteq> NULL" "chain s (h_next (hp_heaps s x)) xs" and wf: "wf_bitmap (vm_bytes s) (h_bitmap s x)" by auto
  obtain p bm m where a: "bm_alloc sz (h_bitmap s x) (vm_bytes s) = (p, bm, m)" by (metis prod_cases3)
  have p: "p = NULL \<longleftrightarrow> \<not> heap_fits s sz x"
    using bm_alloc_result [OF wf a] by (auto simp: heap_fits_def)
  show ?case
  proof (cases "heap_fits s sz x")
    case True
    with a b p show ?thesis by (subst halloc.simps) (simp add: region_op_def Let_def)
  next
    case False
    have "bm_alloc sz (h_bitmap s x) (vm_bytes s) = (NULL, h_bitmap s x, vm_bytes s)"
      using bm_alloc_cases [OF wf, of sz] False by (metis heap_fits_def)
    then have "region_op x (bm_alloc sz) s = (NULL, s)" by (rule region_op_id)
    with False b Cons.IH [OF b(3)] Cons.prems(2) show ?thesis by (subst halloc.simps) simp
  qed
qed

definition id_table :: "bitmap_t \<Rightarrow> u64 set" where
  "id_table b = span (bmp_bm b) (bm_reserved b * unat (bmp_bsize b))"

lemma wf_bitmap_cong:
  assumes same: "\<And>a. a \<in> id_table b \<Longrightarrow> m' a = m a" and ok: "region_ok b"
  shows "wf_bitmap m' b = wf_bitmap m b"
proof -
  have "get_bm m' (bmp_bm b) i = get_bm m (bmp_bm b) i" if "i < bm_tblocks b" for i
  proof -
    have "i div 4 < bm_reserved b * unat (bmp_bsize b)" "i div 4 < 2 ^ 64"
      using bm_table_fits [OF ok that] that bm_tblocks_less [of b] by (simp, linarith)
    then show ?thesis by (simp add: get_bm_eq same id_table_def)
  qed
  then have u: "bm_used_blocks m' b = bm_used_blocks m b" by (auto simp: bm_used_blocks_def)
  show "wf_bitmap m' b = wf_bitmap m b" by (simp add: wf_bitmap_def u)
qed

lemma id_table_region: "region_ok b \<Longrightarrow> id_table b \<subseteq> region b"
proof
  fix x assume ok: "region_ok b" and x: "x \<in> id_table b"
  have "bm_reserved b * unat (bmp_bsize b) \<le> bm_tblocks b * unat (bmp_bsize b)"
    using bm_reserved_le [OF ok] by (rule mult_le_mono1)
  also have "\<dots> \<le> unat (bmp_size b)" by (rule bm_blocks_in_region)
  finally show "x \<in> region b" using x by (simp add: id_table_def region_def span_iff)
qed

lemma region_op_alloc_ok:
  assumes ok: "heap_ok s xs" and x: "x \<in> set xs" and r: "region_op x (bm_alloc sz) s = (p, s')" and p: "p \<noteq> NULL"
  shows "heap_ok s' xs \<and>
    (\<exists>i. p = bm_addr (h_bitmap s x) i \<and> bm_reserved (h_bitmap s x) \<le> i \<and>
       i + bm_nblocks sz (h_bitmap s x) \<le> bm_tblocks (h_bitmap s x) \<and>
       {i..<i + bm_nblocks sz (h_bitmap s x)} \<inter> bm_used_blocks (vm_bytes s) (h_bitmap s x) = {} \<and>
       bm_used_blocks (vm_bytes s') (h_bitmap s' x) =
         bm_used_blocks (vm_bytes s) (h_bitmap s x) \<union> {i..<i + bm_nblocks sz (h_bitmap s x)}) \<and>
    (\<forall>c. c \<noteq> x \<longrightarrow> hp_heaps s' c = hp_heaps s c)"
proof -
  let ?b = "h_bitmap s x"
  obtain bm m where a: "bm_alloc sz ?b (vm_bytes s) = (p, bm, m)"
    and s': "s' = s\<lparr>vm_bytes := m, hp_heaps := (hp_heaps s)(x := (hp_heaps s x)\<lparr>h_bm := bm\<rparr>)\<rparr>"
    using r by (auto simp: region_op_def Let_def split: prod.splits)
  have wf: "wf_bitmap (vm_bytes s) ?b" using ok x by (simp add: heap_ok_def)
  note g = bm_alloc_grant [OF wf a p] and fl = bm_alloc_fields [OF wf a]
  have reg: "region bm = region ?b" using fl by (simp add: region_def)
  have rok: "region_ok ?b" using wf by (simp add: wf_bitmap_def)
  have "wf_bitmap m (h_bitmap s c)" if "c \<in> set xs" "c \<noteq> x" for c
  proof -
    have wfc: "wf_bitmap (vm_bytes s) (h_bitmap s c)" using ok that by (simp add: heap_ok_def)
    have "region ?b \<inter> region (h_bitmap s c) = {}" using ok x that by (auto simp: heap_ok_def)
    then have "m a = vm_bytes s a" if "a \<in> region (h_bitmap s c)" for a
      using g id_table_region [OF rok] that unfolding id_table_def by blast
    moreover have "region_ok (h_bitmap s c)" using wfc by (simp add: wf_bitmap_def)
    ultimately show ?thesis using wf_bitmap_cong [of "h_bitmap s c" m "vm_bytes s"] id_table_region wfc by blast
  qed
  moreover have "wf_bitmap m bm" using g by blast
  ultimately have "heap_ok s' xs" using ok reg x by (auto simp: heap_ok_def s')
  with g show ?thesis by (auto simp: s')
qed

lemma chain_cong: "(\<And>x. x \<in> set xs \<Longrightarrow> h_next (hp_heaps s' x) = h_next (hp_heaps s x)) \<Longrightarrow> chain s' b xs = chain s b xs"
  by (induction xs arbitrary: b) auto

section \<open>Release and reallocation\<close>

lemma bm_free_outside: "region_ok b \<Longrightarrow> \<not> bm_in_payload b ptr \<Longrightarrow> bm_free ptr b m = (0, b, m)"
  by (simp add: bm_free_eq)

lemma hfree_loop_head:
  assumes "chain s b xs" "region_ok (h_bitmap s h)" "\<not> bm_in_payload (h_bitmap s h) ptr"
  shows "hfree_loop ptr h b s = Some s"
  using assms(1)
proof (induction xs arbitrary: b)
  case Nil
  then show ?case by (subst hfree_loop.simps) simp
next
  case (Cons x xs)
  have "region_op h (bm_free ptr) s = (0, s)"
    using bm_free_outside [OF assms(2,3)] by (intro region_op_id)
  with Cons show ?case by (subst hfree_loop.simps) simp
qed

lemma hrealloc_loop_head:
  assumes "chain s b xs" "region_ok (h_bitmap s h)" "\<not> bm_in_payload (h_bitmap s h) ptr"
  shows "hrealloc_loop ptr sz h b s = Some (NULL, s)"
  using assms(1)
proof (induction xs arbitrary: b)
  case Nil
  then show ?case by (subst hrealloc_loop.simps) simp
next
  case (Cons x xs)
  have "region_op h (bm_realloc ptr sz) s = (NULL, s)"
    using bm_realloc_outside [OF assms(2,3)] by (intro region_op_id) simp
  with Cons show ?case by (subst hrealloc_loop.simps) simp
qed

section \<open>Adding a region\<close>

lemma valloc_grant:
  fixes s s' :: "'a vmem_scheme"
  assumes wf: "wf_pmm s" and ok: "vmm_ok (vm_bytes s) vi" and n: "pages \<noteq> 0" "unat pages * 4096 \<le> 2 ^ 63"
    and call: "valloc pages vi s = Some (h, vi', s')" "h \<noteq> NULL"
  shows "vmm_ok (vm_bytes s') vi' \<and> wf_pmm s' \<and> unat h + unat pages * 4096 < 2 ^ 64 \<and>
    span h (unat pages * 4096) \<inter> id_table (vm_bm vi') = {} \<and>
    (\<forall>a\<in>span h (unat pages * 4096). vm_bytes s' a = vm_bytes s a) \<and>
    (\<exists>b m v. s' = s\<lparr>km_bitmap := b, pt_mem := m, vm_bytes := v\<rparr>)"
proof -
  let ?b = "vm_bm vi"
  obtain b' m' where a: "bm_alloc (pages * PAGE_SIZE) ?b (vm_bytes s) = (h, b', m')"
    and mf: "map_fresh alloc_frame (\<lambda>p v. map_addr p v (vm_flags vi) (vm_p4_tbl vi)) (unat pages) h (s\<lparr>vm_bytes := m'\<rparr>) = Some s'"
    and vi': "vi' = vi\<lparr>vm_bm := b'\<rparr>"
    using call(1) n(1) by (auto simp: valloc_def Let_def bind_eq_Some_conv split: prod.splits)
  have bm: "wf_bitmap (vm_bytes s) ?b" "bmp_bsize ?b = PAGE_SIZE" "region_ok ?b" "unat (bmp_bsize ?b) = 4096"
    using ok by (auto simp: vmm_ok_def wf_bitmap_def kconst)
  note g = bm_alloc_grant [OF bm(1) a call(2)] and fl = bm_alloc_fields [OF bm(1) a]
  from g obtain i where i: "h = bm_addr ?b i" "bm_reserved ?b \<le> i" "i + unat pages \<le> bm_tblocks ?b"
    using pages_blocks [OF bm(2) n(2)] by auto
  have h: "unat h = unat (bmp_bm ?b) + i * 4096"
    using unat_bm_addr [OF bm(3), of i] i by (simp add: bm(4))
  have "(i + unat pages) * 4096 \<le> unat (bmp_size ?b)"
    using bm_blocks_in_region [of ?b] i(3) mult_le_mono1 [OF i(3), of 4096] by (simp add: bm(4))
  then have top: "unat h + unat pages * 4096 < 2 ^ 64" using bm(3) h by (simp add: region_ok_def)
  have apart: "span h (unat pages * 4096) \<inter> id_table ?b = {}"
  proof (rule equals0I)
    fix x assume x: "x \<in> span h (unat pages * 4096) \<inter> id_table ?b"
    have "unat (bmp_bm ?b) + bm_reserved ?b * 4096 \<le> unat h" using h i(2) by simp
    moreover have "unat h \<le> unat x" using x span_nowrap [of h "unat pages * 4096" x] top by auto
    moreover have "unat x < unat (bmp_bm ?b) + bm_reserved ?b * 4096"
      using x span_nowrap [of "bmp_bm ?b" "bm_reserved ?b * 4096" x] calculation(1) unat_lt_exp64 [of h]
      by (auto simp: id_table_def bm(4))
    ultimately show False by linarith
  qed
  have po: "pt_only (s\<lparr>vm_bytes := m'\<rparr>) s'" "wf_pmm s'" using map_fresh_pt_only [OF _ mf] wf by simp_all
  have bytes: "vm_bytes s' = m'" using pt_only_bytes [OF po(1)] by simp
  have ok': "vmm_ok m' vi'" using ok g fl by (simp add: vmm_ok_def vi')
  have table: "id_table b' = id_table ?b" using fl by (simp add: id_table_def bm_reserved_def)
  have st: "\<exists>b m v. s' = s\<lparr>km_bitmap := b, pt_mem := m, vm_bytes := v\<rparr>"
  proof -
    obtain b m where "s' = s\<lparr>vm_bytes := m'\<rparr>\<lparr>km_bitmap := b, pt_mem := m\<rparr>" using po(1) unfolding pt_only_def by blast
    then have "s' = s\<lparr>km_bitmap := b, pt_mem := m, vm_bytes := m'\<rparr>" by simp
    then show ?thesis by blast
  qed
  have "m' x = vm_bytes s x" if "x \<in> span h (unat pages * 4096)" for x
    using g apart that unfolding id_table_def by blast
  with po(2) top apart bytes ok' table st show ?thesis by (simp add: vi')
qed

lemma heap_add_region:
  fixes s s' :: "'a kheap_scheme"
  assumes wf: "wf_pmm s" and ok: "vmm_ok (vm_bytes s) vi" and n: "pages \<noteq> 0" "unat pages * 4096 \<le> 2 ^ 62"
    and bs: "0 < unat bsize" "unat bsize < 2 ^ 63"
    and zero: "\<And>a. a \<in> span h (unat pages * 4096) \<Longrightarrow> vm_bytes s a = 0"
    and call: "heap_add pages bsize vi nx s = Some (h, vi', s')" "h \<noteq> NULL"
  shows "wf_bitmap (vm_bytes s') (h_bitmap s' h) \<and>
    bm_used_blocks (vm_bytes s') (h_bitmap s' h) = {..<bm_reserved (h_bitmap s' h)} \<and>
    region (h_bitmap s' h) \<subseteq> span h (unat pages * 4096) \<and> vmm_ok (vm_bytes s') vi' \<and> wf_pmm s' \<and>
    hp_heaps s' = (hp_heaps s)(h := hp_heaps s' h) \<and> h_next (hp_heaps s' h) = nx"
proof -
  obtain h0 vi0 t where v: "valloc pages vi s = Some (h0, vi0, t)"
    using call(1) by (auto simp: heap_add_def bind_eq_Some_conv)
  obtain bm m where ib0: "init_bitmap ((h_bm (hp_heaps t h0))\<lparr>bmp_bm := h0 + sizeof_heap_t\<rparr>)
      (pages * PAGE_SIZE - sizeof_heap_t) bsize (vm_bytes t) = (bm, m)" by (metis surj_pair)
  have eq: "h0 = h" "vi0 = vi'"
    and s': "s' = t\<lparr>vm_bytes := m, hp_heaps := (hp_heaps t)(h := (hp_heaps t h)\<lparr>h_bm := bm, h_next := nx\<rparr>)\<rparr>"
    using call(1) v ib0 by (auto simp: heap_add_def Let_def)
  note t = v [unfolded eq] and ib = ib0 [unfolded eq]
  let ?b0 = "(h_bm (hp_heaps t h))\<lparr>bmp_bm := h + sizeof_heap_t\<rparr>" and ?sz = "pages * PAGE_SIZE - sizeof_heap_t"
  have n63: "unat pages * 4096 \<le> 2 ^ 63" using n(2) by simp
  note g = valloc_grant [OF wf ok n(1) n63 t call(2)]
  have p: "1 \<le> unat pages" using n(1) by (simp add: unat_gt_0 Suc_le_eq)
  have pp: "unat (pages * PAGE_SIZE) = unat pages * 4096"
    using n63 by (subst unat_mult_nowrap) (auto simp: kconst)
  have "sizeof_heap_t \<le> pages * PAGE_SIZE" using p by (simp add: word_le_nat_alt pp) (simp add: kconst)
  then have sz: "unat ?sz = unat pages * 4096 - 48" by (simp add: unat_sub_le pp) (simp add: kconst)
  have h48: "unat (h + sizeof_heap_t) = unat h + 48"
    using g p by (subst unat_add_nowrap) (auto simp: kconst)
  have bmf: "bmp_bm bm = h + sizeof_heap_t" "bmp_size bm = ?sz" "bmp_bsize bm = bsize"
    using ib by (auto simp: init_bitmap_eq Let_def)
  have reg: "region_ok (?b0\<lparr>bmp_bsize := bsize, bmp_size := ?sz\<rparr>)"
    using bs n(2) g p unfolding region_ok_def by (simp add: sz h48)
  have reg': "region_ok bm" using reg by (simp add: region_ok_def bmf)
  have inside: "x \<in> span h (unat pages * 4096)" if "x \<in> region bm" for x
    using that span_nowrap [of h "unat pages * 4096" x] span_nowrap [of "bmp_bm bm" "unat (bmp_size bm)" x] g p
    by (auto simp: region_def bmf h48 sz)
  have zt: "vm_bytes t x = 0" if "x \<in> region bm" for x
    using g inside [OF that] zero by auto
  have "get_bm (vm_bytes t) (bmp_bm ?b0) i = 0" if "i < unat (?sz div bsize)" for i
  proof -
    have "i < bm_tblocks bm" using that by (simp add: bm_tblocks_def bmf)
    then have "i div 4 < bm_reserved bm * unat (bmp_bsize bm)" "i div 4 < 2 ^ 64"
      using bm_table_fits [OF reg'] bm_tblocks_less [of bm] by (simp, linarith)
    then have "h + sizeof_heap_t + of_nat (i div 4) \<in> region bm"
      using id_table_region [OF reg'] by (auto simp: id_table_def bmf)
    then show ?thesis using zt by (simp add: get_bm_eq)
  qed
  then have new: "wf_bitmap m bm \<and> bm_used_blocks m bm = {..<bm_reserved bm}"
    by (rule init_bitmap_wf [OF reg _ ib])
  have m: "m = bm_mark (vm_bytes t) bm 0 (bm_reserved bm) 1"
    using ib by (auto simp: init_bitmap_eq Let_def)
  have "m x = vm_bytes t x" if "x \<in> id_table (vm_bm vi')" for x
  proof -
    have "x \<notin> id_table bm" using that g inside id_table_region [OF reg'] by blast
    then show ?thesis unfolding m id_table_def using bm_reserved_le [OF reg'] by (intro mark_payload [OF reg']) auto
  qed
  then have "vmm_ok m vi'"
    using g wf_bitmap_cong [of "vm_bm vi'" m "vm_bytes t"] by (simp add: vmm_ok_def wf_bitmap_def)
  moreover have "hp_heaps t = hp_heaps s" using g by auto
  moreover have "wf_pmm s'" using g by (simp add: s' wf_pmm_def free_frames_def frame_used_def)
  ultimately show ?thesis using new inside by (auto simp: s')
qed

section \<open>A concrete heap\<close>

text \<open>Two regions of sixteen blocks, with headers at 0x500 and 0x600.\<close>

definition demo_region2 :: bitmap_t where "demo_region2 = demo_region\<lparr>bmp_bm := 0x2000\<rparr>"

definition demo_heap :: kheap where
  "demo_heap = vmem.extend (demo_vm\<lparr>vm_bytes := demo_bytes(0x2000 := 1)\<rparr>)
     (kheap.fields (\<lambda>a. if a = 0x500 then \<lparr>h_bm = demo_region, h_next = 0x600\<rparr> else \<lparr>h_bm = demo_region2, h_next = NULL\<rparr>))"

lemma demo_heap_sel [simp]:
  "vm_bytes demo_heap = demo_bytes(0x2000 := 1)"
  "hp_heaps demo_heap a = (if a = 0x500 then \<lparr>h_bm = demo_region, h_next = 0x600\<rparr> else \<lparr>h_bm = demo_region2, h_next = NULL\<rparr>)"
  by (simp_all add: demo_heap_def vmem.defs kheap.defs)

lemma demo_heap_chain: "chain demo_heap 0x500 [0x500, 0x600]"
  by simp

lemma demo_regions:
  "region_ok demo_region" "region_ok demo_region2" "bm_reserved demo_region = 1" "bm_reserved demo_region2 = 1"
  "region demo_region = span 4096 64" "region demo_region2 = span 0x2000 64"
  by (simp_all add: demo_region2_def demo_region_def region_ok_def bm_reserved_def BM_BLOCKS_def DIV_CEIL_def
      blocks_per_int region_def)

lemma demo_regions_apart: "span 4096 64 \<inter> span 0x2000 64 = {}"
  using span_nowrap [of 4096 64] span_nowrap [of "0x2000" 64] by auto

lemma demo_heap_ok: "heap_ok demo_heap [0x500, 0x600]"
proof -
  have t: "id_table demo_region = span 4096 4" "id_table demo_region2 = span 0x2000 4"
    by (simp_all add: id_table_def demo_regions) (simp_all add: demo_region2_def demo_region_def)
  have "a \<noteq> 0x2000" if "a \<in> span 4096 4" for a using that span_nowrap [of 4096 4 a] by auto
  then have "wf_bitmap (demo_bytes(0x2000 := 1)) demo_region"
    using wf_bitmap_cong [of demo_region "demo_bytes(0x2000 := 1)" demo_bytes] demo_wf t(1) demo_regions(1) by simp
  moreover have "wf_bitmap (demo_bytes(0x2000 := 1)) demo_region2"
  proof -
    have "init_bitmap (demo_region2\<lparr>bmp_used := 0\<rparr>) 64 4 (\<lambda>_. 0) = (demo_region2, (\<lambda>_. 0)(0x2000 := 1))"
      by (simp add: demo_region2_def demo_region_def init_bitmap_eq BM_BLOCKS_def DIV_CEIL_def bm_mark_def
          bm_reserved_def blocks_per_int set_bm_eq bm_id_mask_def)
    then have "wf_bitmap ((\<lambda>_. 0)(0x2000 := 1)) demo_region2"
      by (rule conjunct1 [OF init_bitmap_wf [rotated 2]])
        (simp_all add: region_ok_def get_bm_eq demo_region2_def demo_region_def)
    moreover have "a \<noteq> 4096" if "a \<in> span 0x2000 4" for a using that span_nowrap [of "0x2000" 4 a] by auto
    ultimately show ?thesis
      using wf_bitmap_cong [of demo_region2 "demo_bytes(0x2000 := 1)" "(\<lambda>_. 0)(0x2000 := 1)"] t(2) demo_regions(2)
      by (simp add: demo_bytes_def)
  qed
  ultimately show ?thesis
    using demo_regions_apart demo_regions(5,6) by (auto simp: heap_ok_def)
qed

lemma demo_heap_alloc:
  "region_op 0x500 (bm_alloc 7) demo_heap = (4100, snd (region_op 0x500 (bm_alloc 7) demo_heap))"
  by (simp add: region_op_def bm_alloc_def bm_eval Let_def)

lemma demo_heap_fits: "heap_fits demo_heap 7 0x500"
proof -
  obtain p b m where a: "bm_alloc 7 demo_region (vm_bytes demo_heap) = (p, b, m)" by (metis prod_cases3)
  then have "p \<noteq> NULL" using demo_heap_alloc by (auto simp: region_op_def Let_def)
  moreover have "wf_bitmap (vm_bytes demo_heap) demo_region" using demo_heap_ok by (simp add: heap_ok_def)
  ultimately show ?thesis using bm_alloc_result [OF _ a] by (auto simp: heap_fits_def)
qed

text \<open>
  Allocation from a heap without overlaps: it returns, writes only inside the regions, and a request
  that fits gets memory inside one of them.
\<close>

definition heap_area :: "'a kheap_scheme \<Rightarrow> u64 list \<Rightarrow> u64 set" where
  "heap_area s xs = (\<Union>x\<in>set xs. region (h_bitmap s x))"

lemma region_op_alloc_area:
  fixes s :: "'a kheap_scheme"
  assumes ok: "heap_ok s xs" and x: "x \<in> set xs" and r: "region_op x (bm_alloc sz) s = (p, s')" "p \<noteq> NULL" and sz: "unat sz \<le> 2 ^ 63"
  shows "span p (unat sz) \<subseteq> heap_area s xs" "heap_area s' xs = heap_area s xs"
    "a \<notin> heap_area s xs \<Longrightarrow> vm_bytes s' a = vm_bytes s a" "\<exists>v h. s' = s\<lparr>vm_bytes := v, hp_heaps := h\<rparr>"
proof -
  let ?b = "h_bitmap s x"
  obtain bm m where a: "bm_alloc sz ?b (vm_bytes s) = (p, bm, m)"
    and s': "s' = s\<lparr>vm_bytes := m, hp_heaps := (hp_heaps s)(x := (hp_heaps s x)\<lparr>h_bm := bm\<rparr>)\<rparr>"
    using r(1) by (auto simp: region_op_def Let_def split: prod.splits)
  have wf: "wf_bitmap (vm_bytes s) ?b" and reg: "region_ok ?b" using ok x by (auto simp: heap_ok_def wf_bitmap_def)
  note g = bm_alloc_grant [OF wf a r(2)] and fl = bm_alloc_fields [OF wf a]
  obtain i where i: "p = bm_addr ?b i" "i + bm_nblocks sz ?b \<le> bm_tblocks ?b" using g by blast
  have up: "unat p = unat (bmp_bm ?b) + i * unat (bmp_bsize ?b)" using unat_bm_addr [OF reg, of i] i by simp
  have "(i + bm_nblocks sz ?b) * unat (bmp_bsize ?b) \<le> unat (bmp_size ?b)"
    using mult_le_mono1 [OF i(2), of "unat (bmp_bsize ?b)"] bm_blocks_in_region [of ?b] by linarith
  then have top: "unat p + unat sz \<le> unat (bmp_bm ?b) + unat (bmp_size ?b)"
    using bm_nblocks_covers [OF reg sz] up by (simp add: add_mult_distrib)
  have lim: "unat (bmp_bm ?b) + unat (bmp_size ?b) < 2 ^ 64" using reg unfolding region_ok_def by blast
  have "span p (unat sz) \<subseteq> region ?b"
  proof
    fix y assume "y \<in> span p (unat sz)"
    moreover have "unat p + unat sz \<le> 2 ^ 64" "unat (bmp_bm ?b) + unat (bmp_size ?b) \<le> 2 ^ 64" using top lim by linarith+
    ultimately have "unat p \<le> unat y" "unat y < unat p + unat sz" by (simp_all only: span_nowrap)
    then have "unat (bmp_bm ?b) \<le> unat y \<and> unat y < unat (bmp_bm ?b) + unat (bmp_size ?b)" using top up by linarith
    then show "y \<in> region ?b" unfolding region_def using span_nowrap [of "bmp_bm ?b" "unat (bmp_size ?b)" y] lim by simp
  qed
  then show "span p (unat sz) \<subseteq> heap_area s xs" using x by (auto simp: heap_area_def)
  have "region (h_bitmap s' y) = region (h_bitmap s y)" for y using fl by (simp add: s' region_def)
  then show "heap_area s' xs = heap_area s xs" by (simp add: heap_area_def)
  show "vm_bytes s' a = vm_bytes s a" if "a \<notin> heap_area s xs"
  proof -
    have "a \<notin> region ?b" using that x by (auto simp: heap_area_def)
    then have "a \<notin> span (bmp_bm ?b) (bm_reserved ?b * unat (bmp_bsize ?b))"
      using id_table_region [OF reg] unfolding id_table_def by blast
    with g show ?thesis by (simp add: s')
  qed
  show "\<exists>v h. s' = s\<lparr>vm_bytes := v, hp_heaps := h\<rparr>" using s' by blast
qed

lemma halloc_steps:
  fixes s :: "'a kheap_scheme"
  assumes ok: "heap_ok s xs" and ch: "chain s b xs" and sz: "unat sz \<le> 2 ^ 63"
  shows "\<exists>a s'. halloc sz b s = Some (a, s') \<and> heap_ok s' xs \<and> chain s' b xs \<and> heap_area s' xs = heap_area s xs \<and>
    (\<forall>c. c \<notin> heap_area s xs \<longrightarrow> vm_bytes s' c = vm_bytes s c) \<and> (\<exists>v h. s' = s\<lparr>vm_bytes := v, hp_heaps := h\<rparr>) \<and>
    ((\<exists>x\<in>set xs. heap_fits s sz x) \<longrightarrow> a \<noteq> NULL \<and> span a (unat sz) \<subseteq> heap_area s xs)"
proof -
  have wf: "\<forall>x\<in>set xs. wf_bitmap (vm_bytes s) (h_bitmap s x)" using ok by (simp add: heap_ok_def)
  note call = halloc_chain [OF ch wf, of sz]
  show ?thesis
  proof (cases "find (heap_fits s sz) xs")
    case None
    then have "\<not> (\<exists>x\<in>set xs. heap_fits s sz x)" by (auto simp: find_None_iff)
    moreover have "\<exists>v h. s = s\<lparr>vm_bytes := v, hp_heaps := h\<rparr>" by (rule exI [of _ "vm_bytes s"], rule exI [of _ "hp_heaps s"]) simp
    ultimately show ?thesis using call None ok ch by simp
  next
    case (Some x)
    then have x: "x \<in> set xs" "heap_fits s sz x" by (auto simp: find_Some_iff)
    obtain p s' where r: "region_op x (bm_alloc sz) s = (p, s')" by (metis surj_pair)
    obtain bm m where a: "bm_alloc sz (h_bitmap s x) (vm_bytes s) = (p, bm, m)"
      using r by (auto simp: region_op_def Let_def split: prod.splits)
    have p: "p \<noteq> NULL" using bm_alloc_result [OF _ a] wf x by (auto simp: heap_fits_def)
    note ar = region_op_alloc_area [OF ok x(1) r p sz]
    have "heap_ok s' xs" using region_op_alloc_ok [OF ok x(1) r p] by blast
    moreover have "chain s' b xs" using ch region_op_next [OF r] by (subst chain_cong [where s = s]) auto
    ultimately show ?thesis using call Some r p ar by auto
  qed
qed

section \<open>Properties\<close>

text \<open>
  \<^verbatim>\<open>halloc\<close> on a null-terminated list of well-formed regions returns, and serves the request from
  the first region of the list that has a long enough run of free blocks; when there is none it
  returns \<^verbatim>\<open>NULL\<close> and changes nothing.
\<close>

theorem halloc_first_region:
  assumes "chain s b xs" "\<forall>x\<in>set xs. wf_bitmap (vm_bytes s) (h_bitmap s x)"
  shows "halloc sz b s = Some (case find (heap_fits s sz) xs of
     None \<Rightarrow> (NULL, s) | Some r \<Rightarrow> region_op r (bm_alloc sz) s)"
  by (rule halloc_chain [OF assms])

theorem halloc_first_region_witness:
  "\<exists>s'. halloc 7 0x500 demo_heap = Some (4100, s')"
proof -
  have "halloc 7 0x500 demo_heap = Some (case find (heap_fits demo_heap 7) [0x500, 0x600] of
     None \<Rightarrow> (NULL, demo_heap) | Some r \<Rightarrow> region_op r (bm_alloc 7) demo_heap)"
    using demo_heap_ok by (intro halloc_first_region [OF demo_heap_chain]) (simp add: heap_ok_def)
  then show ?thesis using demo_heap_fits demo_heap_alloc by (metis find.simps(2) option.case(2))
qed

text \<open>
  C13. A successful \<^verbatim>\<open>halloc\<close> takes free blocks of one region above that region's id table, marks
  exactly these, and keeps every region of the list well-formed and the list itself intact.
\<close>

theorem halloc_safe:
  assumes "chain s b xs" "heap_ok s xs" "halloc sz b s = Some (p, s')" "p \<noteq> NULL"
  shows "chain s' b xs \<and> heap_ok s' xs \<and>
    (\<exists>x\<in>set xs. \<exists>i. p = bm_addr (h_bitmap s x) i \<and> bm_reserved (h_bitmap s x) \<le> i \<and>
       i + bm_nblocks sz (h_bitmap s x) \<le> bm_tblocks (h_bitmap s x) \<and>
       {i..<i + bm_nblocks sz (h_bitmap s x)} \<inter> bm_used_blocks (vm_bytes s) (h_bitmap s x) = {} \<and>
       bm_used_blocks (vm_bytes s') (h_bitmap s' x) =
         bm_used_blocks (vm_bytes s) (h_bitmap s x) \<union> {i..<i + bm_nblocks sz (h_bitmap s x)})"
proof -
  have "\<forall>x\<in>set xs. wf_bitmap (vm_bytes s) (h_bitmap s x)" using assms(2) by (simp add: heap_ok_def)
  from halloc_chain [OF assms(1) this, of sz] assms(3,4) obtain x where
    x: "find (heap_fits s sz) xs = Some x" and r: "region_op x (bm_alloc sz) s = (p, s')"
    by (auto split: option.splits)
  have mem: "x \<in> set xs" using x by (auto simp: find_Some_iff)
  have "chain s' b xs = chain s b xs" by (rule chain_cong) (rule region_op_next [OF r])
  with region_op_alloc_ok [OF assms(2) mem r assms(4)] assms(1) mem show ?thesis by blast
qed

theorem halloc_safe_witness:
  "\<exists>s'. halloc 7 0x500 demo_heap = Some (4100, s') \<and> heap_ok s' [0x500, 0x600]"
proof -
  have "halloc 7 0x500 demo_heap = Some (case find (heap_fits demo_heap 7) [0x500, 0x600] of
     None \<Rightarrow> (NULL, demo_heap) | Some r \<Rightarrow> region_op r (bm_alloc 7) demo_heap)"
    using demo_heap_ok by (intro halloc_chain [OF demo_heap_chain]) (simp add: heap_ok_def)
  then obtain s' where s': "halloc 7 0x500 demo_heap = Some (4100, s')"
    using demo_heap_fits demo_heap_alloc by (metis find.simps(2) option.case(2))
  with halloc_safe [OF demo_heap_chain demo_heap_ok s'] show ?thesis by simp
qed

text \<open>
  \<^verbatim>\<open>heap_add\<close> on pages that read as zero puts a well-formed region with only its id table in use at
  the front of the list, inside the pages it got, and keeps the page manager's own invariant: the
  id table of the region and that of the manager do not overlap.
\<close>

theorem heap_add_establishes:
  fixes s s' :: "'a kheap_scheme"
  assumes "wf_pmm s" "vmm_ok (vm_bytes s) vi" "pages \<noteq> 0" "unat pages * 4096 \<le> 2 ^ 62"
    and "0 < unat bsize" "unat bsize < 2 ^ 63" "\<forall>a\<in>span h (unat pages * 4096). vm_bytes s a = 0"
    and "heap_add pages bsize vi n s = Some (h, vi', s')" "h \<noteq> NULL" "chain s n xs" "h \<notin> set xs"
  shows "chain s' h (h # xs) \<and> wf_bitmap (vm_bytes s') (h_bitmap s' h) \<and>
    bm_used_blocks (vm_bytes s') (h_bitmap s' h) = {..<bm_reserved (h_bitmap s' h)} \<and>
    region (h_bitmap s' h) \<subseteq> span h (unat pages * 4096) \<and> vmm_ok (vm_bytes s') vi' \<and> wf_pmm s'"
proof -
  note r = heap_add_region [OF assms(1-6) _ assms(8,9)]
  have "hp_heaps s' x = hp_heaps s x" if "x \<in> set xs" for x
    using r assms(7,11) that by (metis fun_upd_other)
  then have "chain s' n xs" using assms(10) chain_cong [of xs s' s] by simp
  then show ?thesis using r assms(7,9) by simp
qed

theorem heap_add_establishes_witness:
  "\<exists>h vi' s'. heap_add 1 HEAP_DEFAULT_BS demo_vmm NULL (vmem.extend demo_vm (kheap.fields (\<lambda>_. \<lparr>h_bm = demo_region, h_next = NULL\<rparr>))) =
     Some (h, vi', s') \<and> chain s' h [h] \<and> wf_bitmap (vm_bytes s') (h_bitmap s' h)"
proof -
  let ?s = "vmem.extend demo_vm (kheap.fields (\<lambda>_. \<lparr>h_bm = demo_region, h_next = NULL\<rparr>)) :: kheap"
  let ?h = "HIGHER_HALF_OFFSET + PAGE_SIZE :: u64"
  have rd: "pt_read ?s t i = pt_read demo_vm t i" for t i by (simp add: vmem.defs pt_read_def)
  have w: "walk ?s t q = walk demo_vm t q" for t q by (induction q arbitrary: t) (simp_all add: rd)
  have b: "vm_bytes ?s = vm_bytes demo_vm" by (simp add: vmem.defs)
  have f: "free_frames ?s = free_frames demo_vm" by (simp add: vmem.defs free_frames_def frame_used_def)
  have wf: "wf_pmm ?s" using demo_vm_ok(1) f by (simp add: wf_pmm_def) (simp add: vmem.defs)
  have wk: "walk ?s demo_p4 [256, 0, 0] = Some (frame_addr 10)" unfolding w by (rule demo_vm_ok(4))
  obtain vi' t where t: "valloc 1 demo_vmm ?s = Some (?h, vi', t)"
    using demo_valloc_any [OF wf _ wk b] unfolding f using demo_vm_ok(3) by blast
  then obtain s' where a: "heap_add 1 HEAP_DEFAULT_BS demo_vmm NULL ?s = Some (?h, vi', s')"
    by (simp add: heap_add_def Let_def case_prod_beta)
  have z: "\<forall>a\<in>span ?h (unat (1 :: u64) * 4096). vm_bytes ?s a = 0"
  proof
    fix a assume "a \<in> span ?h (unat (1 :: u64) * 4096)"
    then have "a \<noteq> HIGHER_HALF_OFFSET" using span_nowrap [of ?h 4096 a] by (auto simp: kconst)
    then show "vm_bytes ?s a = 0" unfolding b by (simp add: demo_vm_frame)
  qed
  have "chain s' ?h (?h # []) \<and> wf_bitmap (vm_bytes s') (h_bitmap s' ?h) \<and>
    bm_used_blocks (vm_bytes s') (h_bitmap s' ?h) = {..<bm_reserved (h_bitmap s' ?h)} \<and>
    region (h_bitmap s' ?h) \<subseteq> span ?h (unat (1 :: u64) * 4096) \<and> vmm_ok (vm_bytes s') vi' \<and> wf_pmm s'"
    by (rule heap_add_establishes [OF wf _ _ _ _ _ z a]) (simp_all only: b demo_vmm_ok, simp_all add: kconst)
  with a show ?thesis by blast
qed

text \<open>
  \<^verbatim>\<open>hfree\<close> and \<^verbatim>\<open>hrealloc\<close> look at the head region only: for a pointer outside its payload, even one
  that \<^verbatim>\<open>halloc\<close> returned from a later region, \<^verbatim>\<open>hfree\<close> does nothing and \<^verbatim>\<open>hrealloc\<close> returns \<^verbatim>\<open>NULL\<close>.
\<close>

theorem hfree_only_head:
  assumes "chain s h xs" "region_ok (h_bitmap s h)" "\<not> bm_in_payload (h_bitmap s h) ptr"
  shows "hfree ptr h s = Some s \<and> hrealloc ptr sz h s = Some (NULL, s)"
  using hfree_loop_head [OF assms] hrealloc_loop_head [OF assms] by (simp add: hfree_def hrealloc_def)

theorem hfree_only_head_witness:
  "bm_in_payload demo_region2 0x2004 \<and> hfree 0x2004 0x500 demo_heap = Some demo_heap"
proof -
  have "\<not> bm_in_payload (h_bitmap demo_heap 0x500) 0x2004"
    by (simp add: bm_in_payload_def) (simp add: demo_region_def)
  then have "hfree 0x2004 0x500 demo_heap = Some demo_heap \<and> hrealloc 0x2004 9 0x500 demo_heap = Some (NULL, demo_heap)"
    by (intro hfree_only_head [OF demo_heap_chain]) (simp add: demo_regions)
  then show ?thesis by (simp add: bm_in_payload_def bm_addr_def demo_regions(4)) (simp add: demo_region2_def demo_region_def)
qed

end
