(* ===== verification/Kernel_State.thy ===== *)
theory Kernel_State
  imports Heap_Alloc
begin

text \<open>
  The rest of \<^verbatim>\<open>struct kernel_info\<close> (\<^verbatim>\<open>include/kernel.h\<close>), the thread and interrupt-frame structures
  (\<^verbatim>\<open>include/scheduler/thread.h\<close>, \<^verbatim>\<open>include/cpu/cpu.h\<close>) and the machine the drivers talk to.

  Structures reached through pointers are stores from addresses to records: \<open>k_threads\<close> for
  \<^verbatim>\<open>thread_t\<close>, \<open>k_efs\<close> for the saved register frames \<^verbatim>\<open>cpu_status_t\<close>. The \<open>name\<close> of a thread is the
  bytes of \<open>vm_bytes\<close> at the address of the thread. The arrays \<open>KCPUS\<close> and \<open>KIOAPIC.ovrds\<close> are
  functions of the index beside the value of their pointer, as are the descriptor tables \<open>k_gdt\<close> and
  \<open>k_idt\<close>. \<open>k_cr3\<close>, \<open>k_tr\<close> and \<open>k_gdtr_loaded\<close> (the limit last loaded) are processor registers; \<open>k_CPU\<close>
  is the register variable \<open>CPU\<close>. \<open>vm_bytes\<close> and \<open>hp_heaps\<close> are memory and region headers as the kernel's
  own address space shows them; \<open>k_spaces\<close> holds, for every other value of \<open>cr3\<close>, the bytes and headers in
  the part of that address space its thread has for itself, and \<open>space_op\<close> runs an operation on them. Task state segments are the store \<open>k_tss\<close>, without reserved fields.

  Devices are not part of the kernel: every port, MSR or memory-mapped access is appended to the
  history \<open>k_io\<close> (newest first), and what a read returns is given by a \<open>device\<close>, a parameter that
  answers the newest access from the whole history.
\<close>

section \<open>Structures\<close>

record cpu_status_t =
  cs_r15 :: u64
  cs_r14 :: u64
  cs_r13 :: u64
  cs_r12 :: u64
  cs_r11 :: u64
  cs_r10 :: u64
  cs_r9 :: u64
  cs_r8 :: u64
  cs_rdi :: u64
  cs_rsi :: u64
  cs_rbp :: u64
  cs_rdx :: u64
  cs_rcx :: u64
  cs_rbx :: u64
  cs_rax :: u64
  cs_int_no :: u64
  cs_err_code :: u64
  cs_rip :: u64
  cs_cs :: u64
  cs_rflags :: u64
  cs_rsp :: u64
  cs_ss :: u64

datatype thread_status_t = NEW | INIT | RUN | READY | SLEEP | WAIT | DEAD

record thread_t =
  t_stack :: u64
  t_status :: thread_status_t
  t_ticks :: u64
  t_ef :: u64
  t_wakeup_time :: u64
  t_vmm :: vmm_t
  t_heap :: u64
  t_next :: u64

definition THREAD_NAME_MAX_LEN :: u64 where [kconst]: "THREAD_NAME_MAX_LEN = 32"
definition THREAD_STACK_PAGES :: u64 where [kconst]: "THREAD_STACK_PAGES = 1"
definition sizeof_thread_t :: u64 where [kconst]: "sizeof_thread_t = 144"
definition sizeof_cpu_status_t :: u64 where [kconst]: "sizeof_cpu_status_t = 176"
definition sizeof_cpu_data_t :: u64 where [kconst]: "sizeof_cpu_data_t = 56"

record cpu_data_t =
  c_threads :: u64
  c_wakeups :: u64
  c_cur :: u64
  c_num_threads :: u64
  c_ticks :: u64
  c_trig :: bool
  c_stack :: u64

record ioapic_so_t =
  so_type :: u8
  so_length :: u8
  so_bus_source :: u8
  so_irq_source :: u8
  so_gsi_base :: u32
  so_flags :: u16

record idt_desc_t =
  id_offset0 :: u16
  id_segment_selector :: u16
  id_ist :: u8
  id_flags :: u8
  id_offset1 :: u16
  id_offset2 :: u32
  id_rsv :: u32

record tss_t =
  tss_rsp0 :: u64
  tss_rsp1 :: u64
  tss_rsp2 :: u64
  tss_ist1 :: u64
  tss_ist2 :: u64
  tss_ist3 :: u64
  tss_ist4 :: u64
  tss_ist5 :: u64
  tss_ist6 :: u64
  tss_ist7 :: u64
  tss_iopb :: u16

datatype io_op =
    Inb u16
  | Outb u16 u8
  | Rdmsr u32
  | Wrmsr u32 u64
  | MmioRead u64
  | MmioWrite u64 u32

type_synonym device = "io_op list \<Rightarrow> u64"

record kernel = kheap +
  k_heap :: u64
  fb_buffer :: u64
  fb_horizontal_res :: u32
  fb_vertical_res :: u32
  fb_pixels_per_scanline :: u32
  fb_bpp :: u8
  acpi_sdt_addr :: u64
  acpi_xsdt :: bool
  acpi_num_tables :: u64
  lapic_addr :: u64
  lapic_x2mode :: bool
  lapic_ms_interval :: u64
  lapic_pit_ticks :: u64
  ioapic_addr :: u64
  ioapic_gsi_base :: u32
  ioapic_num_ovrds :: u64
  ioapic_ovrds_ptr :: u64
  ioapic_ovrds :: "nat \<Rightarrow> ioapic_so_t"
  ipc_action :: u8
  ipc_addr :: u64
  smp_idle :: u64
  smp_num_cpus :: u64
  smp_cpus_ptr :: u64
  smp_cpus :: "nat \<Rightarrow> cpu_data_t"
  k_CPU :: u8
  k_cr3 :: u64
  k_gdt :: "nat \<Rightarrow> u64"
  k_gdt_entries :: u16
  k_gdtr_size :: u16
  k_gdtr_loaded :: u16
  k_tr :: u16
  k_idt :: "nat \<Rightarrow> idt_desc_t"
  k_idtr_size :: u16
  k_tss :: "u64 \<Rightarrow> tss_t"
  k_spaces :: "u64 \<Rightarrow> bytes \<times> (u64 \<Rightarrow> heap_t)"
  k_threads :: "u64 \<Rightarrow> thread_t"
  k_efs :: "u64 \<Rightarrow> cpu_status_t"
  k_io :: "io_op list"

text \<open>\<open>KCPUS[CPU]\<close>: the entry of the running processor, and an update of it.\<close>

definition this_cpu :: "'a kernel_scheme \<Rightarrow> cpu_data_t" where
  "this_cpu s = smp_cpus s (unat (k_CPU s))"

definition cpu_update :: "(cpu_data_t \<Rightarrow> cpu_data_t) \<Rightarrow> 'a kernel_scheme \<Rightarrow> 'a kernel_scheme" where
  "cpu_update f s = s\<lparr>smp_cpus := (smp_cpus s)(unat (k_CPU s) := f (this_cpu s))\<rparr>"

definition thread_update :: "u64 \<Rightarrow> (thread_t \<Rightarrow> thread_t) \<Rightarrow> 'a kernel_scheme \<Rightarrow> 'a kernel_scheme" where
  "thread_update p f s = s\<lparr>k_threads := (k_threads s)(p := f (k_threads s p))\<rparr>"

definition ef_update :: "u64 \<Rightarrow> (cpu_status_t \<Rightarrow> cpu_status_t) \<Rightarrow> 'a kernel_scheme \<Rightarrow> 'a kernel_scheme" where
  "ef_update p f s = s\<lparr>k_efs := (k_efs s)(p := f (k_efs s p))\<rparr>"

section \<open>Machine access\<close>

definition io_write :: "io_op \<Rightarrow> 'a kernel_scheme \<Rightarrow> 'a kernel_scheme" where
  "io_write op s = s\<lparr>k_io := op # k_io s\<rparr>"

definition io_read :: "device \<Rightarrow> io_op \<Rightarrow> 'a kernel_scheme \<Rightarrow> u64 \<times> 'a kernel_scheme" where
  "io_read dev op s = (dev (op # k_io s), io_write op s)"

definition inb :: "device \<Rightarrow> u16 \<Rightarrow> 'a kernel_scheme \<Rightarrow> u8 \<times> 'a kernel_scheme" where
  "inb dev port s = (let (v, s) = io_read dev (Inb port) s in (ucast v, s))"

definition outb :: "u16 \<Rightarrow> u8 \<Rightarrow> 'a kernel_scheme \<Rightarrow> 'a kernel_scheme" where
  "outb port data s = io_write (Outb port data) s"

definition rdmsr :: "device \<Rightarrow> u32 \<Rightarrow> 'a kernel_scheme \<Rightarrow> u64 \<times> 'a kernel_scheme" where
  "rdmsr dev address s = io_read dev (Rdmsr address) s"

definition wrmsr :: "u32 \<Rightarrow> u64 \<Rightarrow> 'a kernel_scheme \<Rightarrow> 'a kernel_scheme" where
  "wrmsr address val s = io_write (Wrmsr address val) s"

definition mmio_read :: "device \<Rightarrow> u64 \<Rightarrow> 'a kernel_scheme \<Rightarrow> u32 \<times> 'a kernel_scheme" where
  "mmio_read dev a s = (let (v, s) = io_read dev (MmioRead a) s in (ucast v, s))"

definition mmio_write :: "u64 \<Rightarrow> u32 \<Rightarrow> 'a kernel_scheme \<Rightarrow> 'a kernel_scheme" where
  "mmio_write a v s = io_write (MmioWrite a v) s"

definition load_cr3 :: "u64 \<Rightarrow> 'a kernel_scheme \<Rightarrow> 'a kernel_scheme" where
  "load_cr3 addr s = s\<lparr>k_cr3 := addr\<rparr>"

definition space_op :: "('a kernel_scheme \<Rightarrow> ('b \<times> 'a kernel_scheme) option) \<Rightarrow> 'a kernel_scheme \<Rightarrow> ('b \<times> 'a kernel_scheme) option" where
  "space_op f s =
     (if k_cr3 s = PADDR (km_pml4 s) then f s
      else map_option (\<lambda>(r, t). (r, t\<lparr>vm_bytes := vm_bytes s, hp_heaps := hp_heaps s,
               k_spaces := (k_spaces t)(k_cr3 s := (vm_bytes t, hp_heaps t))\<rparr>))
             (f (s\<lparr>vm_bytes := fst (k_spaces s (k_cr3 s)), hp_heaps := snd (k_spaces s (k_cr3 s))\<rparr>)))"

section \<open>Frame rules\<close>

lemmas state_ops = cpu_update_def thread_update_def ef_update_def this_cpu_def load_cr3_def
lemmas io_ops = io_write_def io_read_def inb_def outb_def rdmsr_def wrmsr_def mmio_read_def mmio_write_def

lemma io_write_keeps [simp]:
  "smp_cpus (io_write op s) = smp_cpus s" "k_threads (io_write op s) = k_threads s"
  "k_efs (io_write op s) = k_efs s" "k_CPU (io_write op s) = k_CPU s" "k_cr3 (io_write op s) = k_cr3 s"
  "lapic_x2mode (io_write op s) = lapic_x2mode s" "lapic_addr (io_write op s) = lapic_addr s"
  "ioapic_addr (io_write op s) = ioapic_addr s" "ioapic_ovrds (io_write op s) = ioapic_ovrds s"
  "ioapic_num_ovrds (io_write op s) = ioapic_num_ovrds s" "smp_idle (io_write op s) = smp_idle s"
  "this_cpu (io_write op s) = this_cpu s" "k_io (io_write op s) = op # k_io s"
  by (simp_all add: io_write_def this_cpu_def)

section \<open>A small machine\<close>

text \<open>Two processors, three threads at 0x100, 0x200 and 0x300, the idle thread at 0x900.\<close>

definition demo_thread :: "u64 \<Rightarrow> u64 \<Rightarrow> u64 \<Rightarrow> thread_t" where
  "demo_thread ef wakeup nx = \<lparr>t_stack = 0, t_status = NEW, t_ticks = 0, t_ef = ef, t_wakeup_time = wakeup,
     t_vmm = demo_vmm, t_heap = 0x500, t_next = nx\<rparr>"

definition demo_ef :: cpu_status_t where
  "demo_ef = \<lparr>cs_r15 = 0, cs_r14 = 0, cs_r13 = 0, cs_r12 = 0, cs_r11 = 0, cs_r10 = 0, cs_r9 = 0, cs_r8 = 0,
     cs_rdi = 25, cs_rsi = 0, cs_rbp = 0, cs_rdx = 0, cs_rcx = 0, cs_rbx = 0, cs_rax = 1, cs_int_no = 0x80,
     cs_err_code = 0, cs_rip = 0, cs_cs = 0, cs_rflags = 0, cs_rsp = 0, cs_ss = 0\<rparr>"

definition demo_cpu :: "u64 \<Rightarrow> u64 \<Rightarrow> u64 \<Rightarrow> cpu_data_t" where
  "demo_cpu threads wakeups n = \<lparr>c_threads = threads, c_wakeups = wakeups, c_cur = threads, c_num_threads = n,
     c_ticks = 5, c_trig = False, c_stack = 0x7000\<rparr>"

definition demo_kernel :: kernel where
  "demo_kernel = kheap.extend demo_heap (kernel.fields 0x500 0xA0000 640 480 640 4 0x70000 True 0 0xFEE00000 False 1000 0
     0xFEC00000 0 1 0x580 (\<lambda>_. \<lparr>so_type = 2, so_length = 10, so_bus_source = 0, so_irq_source = 0, so_gsi_base = 2, so_flags = 0xF\<rparr>)
     0 0 0x900 2 0x640 (\<lambda>i. if i = 0 then demo_cpu 0x100 0 2 else demo_cpu 0 0x300 1)
     0 0 (\<lambda>i. if i = 1 then 0x00209B000000FFFF else 0) 5 39 39 0
     (\<lambda>_. \<lparr>id_offset0 = 0, id_segment_selector = 0, id_ist = 0, id_flags = 0, id_offset1 = 0, id_offset2 = 0, id_rsv = 0\<rparr>) 0
     (\<lambda>_. \<lparr>tss_rsp0 = 0, tss_rsp1 = 0, tss_rsp2 = 0, tss_ist1 = 0, tss_ist2 = 0, tss_ist3 = 0, tss_ist4 = 0,
       tss_ist5 = 0, tss_ist6 = 0, tss_ist7 = 0, tss_iopb = 0\<rparr>)
     (\<lambda>_. (\<lambda>_. 0, hp_heaps demo_heap))
     (\<lambda>p. if p = 0x100 then demo_thread 0x1100 0 0x200 else if p = 0x200 then demo_thread 0x1200 30 0
           else if p = 0x300 then demo_thread 0x1300 20 0 else demo_thread 0x1900 0 0)
     (\<lambda>_. demo_ef) [])"

lemma demo_kernel_sel [simp]:
  "smp_num_cpus demo_kernel = 2" "smp_cpus demo_kernel i = (if i = 0 then demo_cpu 0x100 0 2 else demo_cpu 0 0x300 1)"
  "k_threads demo_kernel p = (if p = 0x100 then demo_thread 0x1100 0 0x200 else if p = 0x200 then demo_thread 0x1200 30 0
     else if p = 0x300 then demo_thread 0x1300 20 0 else demo_thread 0x1900 0 0)"
  "k_CPU demo_kernel = 0" "smp_idle demo_kernel = 0x900" "k_efs demo_kernel p = demo_ef" "k_io demo_kernel = []"
  "lapic_x2mode demo_kernel = False" "lapic_addr demo_kernel = 0xFEE00000" "ioapic_addr demo_kernel = 0xFEC00000"
  "ioapic_num_ovrds demo_kernel = 1" "k_gdt_entries demo_kernel = 5" "k_heap demo_kernel = 0x500"
  "vm_bytes demo_kernel = vm_bytes demo_heap" "hp_heaps demo_kernel = hp_heaps demo_heap"
  by (simp_all add: demo_kernel_def kheap.defs kernel.defs demo_heap_def vmem.defs)

lemma demo_cpu_sel [simp]:
  "c_threads (demo_cpu t w n) = t" "c_wakeups (demo_cpu t w n) = w" "c_num_threads (demo_cpu t w n) = n"
  "c_cur (demo_cpu t w n) = t" "c_ticks (demo_cpu t w n) = 5"
  by (simp_all add: demo_cpu_def)

lemma demo_thread_sel [simp]:
  "t_next (demo_thread e w n) = n" "t_wakeup_time (demo_thread e w n) = w" "t_ef (demo_thread e w n) = e"
  "t_status (demo_thread e w n) = NEW" "t_vmm (demo_thread e w n) = demo_vmm" "t_heap (demo_thread e w n) = 0x500"
  by (simp_all add: demo_thread_def)

end
