(* ===== verification/Lapic.thy ===== *)
theory Lapic
  imports Kernel_State
begin

text \<open>
  The register interface of the local interrupt controller, \<^verbatim>\<open>src/kernel/cpu/lapic.c\<close>: an MSR per
  register in x2APIC mode, a memory-mapped word otherwise, and the operations built on it that need
  no other driver. Its interrupt handlers are in \<open>Interrupts\<close>.
\<close>

section \<open>Definitions\<close>

definition IA32_APIC_BASE :: u32 where [kconst]: "IA32_APIC_BASE = 0x1B"
definition APIC_ID_OFF :: u32 where [kconst]: "APIC_ID_OFF = 0x20"
definition APIC_EOI_OFF :: u32 where [kconst]: "APIC_EOI_OFF = 0xB0"
definition APIC_SPURIOUS_VEC_OFF :: u32 where [kconst]: "APIC_SPURIOUS_VEC_OFF = 0xF0"
definition APIC_ICRLO_OFF :: u32 where [kconst]: "APIC_ICRLO_OFF = 0x300"
definition APIC_TIMER_LVT_OFFSET :: u32 where [kconst]: "APIC_TIMER_LVT_OFFSET = 0x320"
definition APIC_TIMER_INITIAL_COUNT_OFF :: u32 where [kconst]: "APIC_TIMER_INITIAL_COUNT_OFF = 0x380"
definition APIC_TIMER_CURRENT_COUNT_OFF :: u32 where [kconst]: "APIC_TIMER_CURRENT_COUNT_OFF = 0x390"
definition APIC_TIMER_CONFIG_OFF :: u32 where [kconst]: "APIC_TIMER_CONFIG_OFF = 0x3E0"
definition APIC_SOFTWARE_ENABLE :: u64 where [kconst]: "APIC_SOFTWARE_ENABLE = 0x100"
definition APIC_TIMER_DIVIDER :: u64 where [kconst]: "APIC_TIMER_DIVIDER = 1"

definition read_apic_register :: "device \<Rightarrow> u32 \<Rightarrow> 'a kernel_scheme \<Rightarrow> u64 \<times> 'a kernel_scheme" where
  "read_apic_register dev reg_off s =
     (if lapic_x2mode s then rdmsr dev (drop_bit 4 reg_off + 0x800) s
      else let (v, s) = mmio_read dev (lapic_addr s + ucast reg_off) s in (ucast v, s))"

definition write_apic_register :: "u32 \<Rightarrow> u64 \<Rightarrow> 'a kernel_scheme \<Rightarrow> 'a kernel_scheme" where
  "write_apic_register reg_off val s =
     (if lapic_x2mode s then wrmsr (drop_bit 4 reg_off + 0x800) val s
      else mmio_write (lapic_addr s + ucast reg_off) (ucast val) s)"

definition APIC_EOI :: "'a kernel_scheme \<Rightarrow> 'a kernel_scheme" where
  "APIC_EOI s = write_apic_register APIC_EOI_OFF 0 s"

definition get_apic_id :: "device \<Rightarrow> 'a kernel_scheme \<Rightarrow> u32 \<times> 'a kernel_scheme" where
  "get_apic_id dev s =
     (if lapic_x2mode s then let (v, s) = read_apic_register dev APIC_ID_OFF s in (ucast v, s)
      else let (v, s) = read_apic_register dev APIC_ID_OFF s in (ucast (drop_bit 24 v), s))"

definition disable_pic :: "'a kernel_scheme \<Rightarrow> 'a kernel_scheme" where
  "disable_pic s = outb 0xA1 0xFF (outb 0x21 0xFF s)"

text \<open>The processor's interrupt flag (\<^verbatim>\<open>sti\<close>) is not part of the state.\<close>

definition start_apic_timer :: "u32 \<Rightarrow> u64 \<Rightarrow> u8 \<Rightarrow> 'a kernel_scheme \<Rightarrow> 'a kernel_scheme" where
  "start_apic_timer timer_mode initial_count idt_entry s =
     (let s = write_apic_register APIC_TIMER_LVT_OFFSET (ucast (ucast idt_entry OR timer_mode)) s;
          s = write_apic_register APIC_TIMER_INITIAL_COUNT_OFF initial_count s
      in write_apic_register APIC_TIMER_CONFIG_OFF APIC_TIMER_DIVIDER s)"

definition map_lapic :: "u64 \<Rightarrow> 'a kernel_scheme \<Rightarrow> 'a kernel_scheme option" where
  "map_lapic pml4 s =
     (if \<not> lapic_x2mode s
      then map_addr (lapic_addr s) (lapic_addr s) (KERNEL_PT_ENTRY OR push_bit 4 1) pml4 s
      else Some s)"

section \<open>Register accesses\<close>

text \<open>Where a register access goes: the same register in either mode.\<close>

lemma write_apic_register_io:
  "write_apic_register off v s =
    io_write (if lapic_x2mode s then Wrmsr (drop_bit 4 off + 0x800) v else MmioWrite (lapic_addr s + ucast off) (ucast v)) s"
  by (simp add: write_apic_register_def wrmsr_def mmio_write_def)

lemma read_apic_register_io:
  "snd (read_apic_register dev off s) =
    io_write (if lapic_x2mode s then Rdmsr (drop_bit 4 off + 0x800) else MmioRead (lapic_addr s + ucast off)) s"
  by (simp add: read_apic_register_def rdmsr_def mmio_read_def io_read_def)

end
