(* ===== verification/Scheduler.thy ===== *)
theory Scheduler
  imports Linked_List Lapic "HOL-Library.Multiset"
begin

text \<open>
  The thread scheduler, \<^verbatim>\<open>src/kernel/scheduler/scheduler.c\<close>: per processor a list of runnable threads
  (\<open>c_threads\<close>) and a list of sleeping ones (\<open>c_wakeups\<close>), linked through \<open>t_next\<close>. Walks of these lists
  end only when the list does: \<open>None\<close> is "does not return". Log calls are left out, but for the device
  register \<open>schedule\<close> reads to print it.
\<close>

section \<open>Definitions\<close>

definition SCHEDULER_THREAD_TICKS :: u64 where [kconst]: "SCHEDULER_THREAD_TICKS = 0x100"

definition ready_thread :: "u64 \<Rightarrow> bool \<Rightarrow> 'a kernel_scheme \<Rightarrow> u64 \<times> 'a kernel_scheme" where
  "ready_thread thread safety s =
     (let s = (if safety then cpu_update (\<lambda>c. c\<lparr>c_cur := thread\<rparr>) s else s);
          s = thread_update thread (\<lambda>t. t\<lparr>t_status := READY, t_ticks := 0\<rparr>) s;
          s = load_cr3 (PADDR (vm_p4_tbl (t_vmm (k_threads s thread)))) s
      in (t_ef (k_threads s thread), s))"

definition scheduler_next_thread :: "u64 \<Rightarrow> 'a kernel_scheme \<Rightarrow> u64" where
  "scheduler_next_thread thread s =
     (if c_threads (this_cpu s) = NULL then NULL
      else if thread = NULL then c_threads (this_cpu s)
      else if t_next (k_threads s thread) = NULL then c_threads (this_cpu s)
      else t_next (k_threads s thread))"

text \<open>The least loaded processor: the loop of \<open>scheduler_add_thread\<close> over \<open>KCPUS[1..]\<close>.\<close>

definition least_loaded :: "'a kernel_scheme \<Rightarrow> nat" where
  "least_loaded s = fst (for_upto (unat (smp_num_cpus s) - 1)
     (\<lambda>i (cpu, threads). if c_num_threads (smp_cpus s (Suc i)) < threads
        then (Suc i, c_num_threads (smp_cpus s (Suc i))) else (cpu, threads))
     (0, c_num_threads (smp_cpus s 0)))"

definition scheduler_add_thread :: "u64 \<Rightarrow> 'a kernel_scheme \<Rightarrow> 'a kernel_scheme" where
  "scheduler_add_thread thread s =
     (let cpu = least_loaded s;
          s = s\<lparr>smp_cpus := (smp_cpus s)(cpu := (smp_cpus s cpu)\<lparr>c_num_threads := c_num_threads (smp_cpus s cpu) + 1\<rparr>)\<rparr>;
          s = thread_update thread (\<lambda>t. t\<lparr>t_next := c_threads (smp_cpus s cpu)\<rparr>) s
      in s\<lparr>smp_cpus := (smp_cpus s)(cpu := (smp_cpus s cpu)\<lparr>c_threads := thread\<rparr>)\<rparr>)"

text \<open>
  \<open>scheduler_remove_thread\<close> is only ever given \<open>&KCPUS[cpu].threads\<close> as its list; the processor stands
  for that pointer.
\<close>

partial_function (option) find_thread :: "u64 \<Rightarrow> u64 \<Rightarrow> u64 \<Rightarrow> 'a kernel_scheme \<Rightarrow> (u64 \<times> u64) option" where
  [code]: "find_thread thread item prev_item s =
     (if item \<noteq> NULL \<and> item \<noteq> thread then find_thread thread (t_next (k_threads s item)) item s
      else Some (item, prev_item))"

definition scheduler_remove_thread :: "nat \<Rightarrow> u64 \<Rightarrow> 'a kernel_scheme \<Rightarrow> 'a kernel_scheme option" where
  "scheduler_remove_thread cpu thread s =
     Option.bind (find_thread thread (c_threads (smp_cpus s cpu)) NULL s) (\<lambda>(item, prev_item).
       if item = NULL then Some s
       else if item = c_threads (smp_cpus s cpu)
       then Some (s\<lparr>smp_cpus := (smp_cpus s)(cpu := (smp_cpus s cpu)\<lparr>c_threads := t_next (k_threads s item)\<rparr>)\<rparr>)
       else Some (thread_update prev_item (\<lambda>t. t\<lparr>t_next := t_next (k_threads s item)\<rparr>) s))"

text \<open>
  \<open>schedule\<close> returns at its second statement. The statements behind that return, which the compiler
  drops, are \<open>schedule_rest\<close>: the policy the scheduler was written for.
\<close>

definition schedule :: "device \<Rightarrow> u64 \<Rightarrow> 'a kernel_scheme \<Rightarrow> u64 \<times> 'a kernel_scheme" where
  "schedule dev cur_status s =
     (let (_, s) = read_apic_register dev APIC_TIMER_LVT_OFFSET s
      in ready_thread (smp_idle s) False s)"

partial_function (option) find_wakeup :: "u64 \<Rightarrow> u64 \<Rightarrow> u64 \<Rightarrow> 'a kernel_scheme \<Rightarrow> (u64 \<times> u64) option" where
  [code]: "find_wakeup time prev item s =
     (if item \<noteq> NULL \<and> t_wakeup_time (k_threads s item) < time
      then find_wakeup time item (t_next (k_threads s item)) s
      else Some (prev, item))"

definition add_wakeup :: "u64 \<Rightarrow> 'a kernel_scheme \<Rightarrow> 'a kernel_scheme option" where
  "add_wakeup thread s =
     Option.bind (find_wakeup (t_wakeup_time (k_threads s thread)) NULL (c_wakeups (this_cpu s)) s)
       (\<lambda>(prev, item).
         let s = (if prev \<noteq> NULL then thread_update prev (\<lambda>t. t\<lparr>t_next := thread\<rparr>) s
                  else cpu_update (\<lambda>c. c\<lparr>c_wakeups := thread\<rparr>) s)
         in Some (thread_update thread (\<lambda>t. t\<lparr>t_next := item\<rparr>) s))"

definition schedule_out :: "u64 \<Rightarrow> 'a kernel_scheme \<Rightarrow> 'a kernel_scheme option" where
  "schedule_out cur_status s =
     (let cur = c_cur (this_cpu s);
          s = (if t_status (k_threads s cur) \<noteq> DEAD \<and> t_status (k_threads s cur) \<noteq> SLEEP
               then thread_update cur (\<lambda>t. t\<lparr>t_status := READY\<rparr>) s else s);
          s = ef_update (t_ef (k_threads s cur)) (\<lambda>_. k_efs s cur_status) s
      in if t_status (k_threads s cur) = DEAD
         then Option.bind (scheduler_remove_thread (unat (k_CPU s)) cur s)
                (\<lambda>s. Some (cpu_update (\<lambda>c. c\<lparr>c_cur := NULL\<rparr>) s))
         else if t_status (k_threads s cur) = SLEEP
         then Option.bind (scheduler_remove_thread (unat (k_CPU s)) cur (cpu_update (\<lambda>c. c\<lparr>c_cur := NULL\<rparr>) s))
                (add_wakeup cur)
         else Some s)"

definition schedule_pick :: "'a kernel_scheme \<Rightarrow> u64 \<times> 'a kernel_scheme" where
  "schedule_pick s =
     (let w = c_wakeups (this_cpu s) in
      if w \<noteq> NULL \<and> t_wakeup_time (k_threads s w) \<le> c_ticks (this_cpu s)
      then let next_wakeup = t_next (k_threads s w);
               s = scheduler_add_thread w s;
               s = cpu_update (\<lambda>c. c\<lparr>c_wakeups := next_wakeup\<rparr>) s
           in ready_thread w True s
      else let thread = scheduler_next_thread (c_cur (this_cpu s)) s in
        if thread \<noteq> NULL then ready_thread thread True s
        else ready_thread (smp_idle s) False s)"

definition schedule_rest :: "u64 \<Rightarrow> 'a kernel_scheme \<Rightarrow> (u64 \<times> 'a kernel_scheme) option" where
  "schedule_rest cur_status s =
     (if c_threads (this_cpu s) = NULL \<and> c_wakeups (this_cpu s) = NULL
      then Some (ready_thread (smp_idle s) False s)
      else if c_cur (this_cpu s) \<noteq> NULL
      then let cur = c_cur (this_cpu s); w = c_wakeups (this_cpu s) in
        if w \<noteq> NULL \<and> t_wakeup_time (k_threads s w) > c_ticks (this_cpu s)
        then let ticks = t_ticks (k_threads s cur);
                 s = thread_update cur (\<lambda>t. t\<lparr>t_ticks := ticks + 1\<rparr>) s
             in if ticks < SCHEDULER_THREAD_TICKS \<and> t_status (k_threads s cur) \<noteq> DEAD \<and>
                   t_status (k_threads s cur) \<noteq> SLEEP
                then Some (cur_status, s)
                else map_option schedule_pick (schedule_out cur_status s)
        else map_option schedule_pick (schedule_out cur_status s)
      else Some (schedule_pick s))"

section \<open>Specification\<close>

text \<open>
  The run queues as lists: \<open>run_queues s qs\<close> says that \<open>qs ! i\<close> is the list of threads of processor
  \<open>i\<close>, that every processor has one, and that no thread is in two places.
\<close>

abbreviation thread_next :: "'a kernel_scheme \<Rightarrow> u64 \<Rightarrow> u64" where
  "thread_next s \<equiv> (\<lambda>p. t_next (k_threads s p))"

definition run_queues :: "'a kernel_scheme \<Rightarrow> u64 list list \<Rightarrow> bool" where
  "run_queues s qs \<longleftrightarrow> length qs = unat (smp_num_cpus s) \<and>
     (\<forall>i<length qs. \<forall>j<length qs. i \<noteq> j \<longrightarrow> set (qs ! i) \<inter> set (qs ! j) = {}) \<and>
     (\<forall>i<length qs. linked (thread_next s) (c_threads (smp_cpus s i)) (qs ! i))"

text \<open>The load the scheduler balances: the counters differ by at most one between processors.\<close>

definition balanced :: "'a kernel_scheme \<Rightarrow> bool" where
  "balanced s \<longleftrightarrow> list_all (\<lambda>i. list_all (\<lambda>j. unat (c_num_threads (smp_cpus s i)) \<le> unat (c_num_threads (smp_cpus s j)) + 1)
     [0..<unat (smp_num_cpus s)]) [0..<unat (smp_num_cpus s)]"

section \<open>Choice of a processor\<close>

text \<open>The minimum search keeps the index of a least element of what it has seen.\<close>

lemma argmin_step:
  fixes n :: "nat \<Rightarrow> u64"
  assumes "c \<le> k" "\<And>j. j \<le> k \<Longrightarrow> n c \<le> n j"
  shows "(if n (Suc k) < n c then Suc k else c) \<le> Suc k"
    "j \<le> Suc k \<Longrightarrow> n (if n (Suc k) < n c then Suc k else c) \<le> n j"
proof -
  show "(if n (Suc k) < n c then Suc k else c) \<le> Suc k" using assms(1) by simp
  assume "j \<le> Suc k"
  then have "j \<le> k \<or> j = Suc k" by (simp add: le_Suc_eq)
  with assms(2) [of j] show "n (if n (Suc k) < n c then Suc k else c) \<le> n j"
    by (cases "n (Suc k) < n c") auto
qed

lemma argmin_loop:
  fixes n :: "nat \<Rightarrow> u64"
  defines "f \<equiv> \<lambda>i (c, t). if n (Suc i) < t then (Suc i, n (Suc i)) else (c, t)"
  shows "\<exists>c\<le>k. for_upto k f (0, n 0) = (c, n c) \<and> (\<forall>j\<le>k. n c \<le> n j)"
proof (induction k)
  case (Suc k)
  then obtain c where c: "c \<le> k" "for_upto k f (0, n 0) = (c, n c)" "\<forall>j\<le>k. n c \<le> n j" by blast
  let ?c = "if n (Suc k) < n c then Suc k else c"
  have "for_upto (Suc k) f (0, n 0) = f k (c, n c)" by (simp only: for_upto.simps c(2))
  also have "\<dots> = (?c, n ?c)" by (simp add: f_def)
  finally have "for_upto (Suc k) f (0, n 0) = (?c, n ?c)" .
  moreover have "?c \<le> Suc k" "\<And>j. j \<le> Suc k \<Longrightarrow> n ?c \<le> n j"
    using argmin_step [of c k n] c(1,3) by blast+
  ultimately show ?case by blast
qed simp

lemma least_loaded_least:
  fixes s :: "'a kernel_scheme"
  assumes "0 < unat (smp_num_cpus s)"
  shows "least_loaded s < unat (smp_num_cpus s)"
    and "j < unat (smp_num_cpus s) \<Longrightarrow>
      c_num_threads (smp_cpus s (least_loaded s)) \<le> c_num_threads (smp_cpus s j)"
proof -
  obtain c where c: "c \<le> unat (smp_num_cpus s) - 1" "least_loaded s = c"
    "\<forall>j\<le>unat (smp_num_cpus s) - 1. c_num_threads (smp_cpus s c) \<le> c_num_threads (smp_cpus s j)"
    using argmin_loop [of "unat (smp_num_cpus s) - 1" "\<lambda>i. c_num_threads (smp_cpus s i)"]
    by (auto simp: least_loaded_def)
  show "least_loaded s < unat (smp_num_cpus s)" using c(1,2) assms by linarith
  show "c_num_threads (smp_cpus s (least_loaded s)) \<le> c_num_threads (smp_cpus s j)" if "j < unat (smp_num_cpus s)"
  proof -
    have "j \<le> unat (smp_num_cpus s) - 1" using that by linarith
    with c(2,3) show ?thesis by blast
  qed
qed

lemma add_thread_fields:
  "k_threads (scheduler_add_thread t s) =
     (k_threads s)(t := (k_threads s t)\<lparr>t_next := c_threads (smp_cpus s (least_loaded s))\<rparr>)"
  "smp_cpus (scheduler_add_thread t s) = (smp_cpus s)(least_loaded s := (smp_cpus s (least_loaded s))
     \<lparr>c_num_threads := c_num_threads (smp_cpus s (least_loaded s)) + 1, c_threads := t\<rparr>)"
  "smp_num_cpus (scheduler_add_thread t s) = smp_num_cpus s"
  by (simp_all add: scheduler_add_thread_def Let_def thread_update_def)


section \<open>Run queues\<close>

lemma run_queues_disj:
  "run_queues s qs \<Longrightarrow> i < length qs \<Longrightarrow> j < length qs \<Longrightarrow> i \<noteq> j \<Longrightarrow> x \<in> set (qs ! i) \<Longrightarrow> x \<notin> set (qs ! j)"
  unfolding run_queues_def by blast

lemma run_queues_linked:
  "run_queues s qs \<Longrightarrow> i < length qs \<Longrightarrow> linked (thread_next s) (c_threads (smp_cpus s i)) (qs ! i)"
  by (simp add: run_queues_def)

lemma run_queuesI:
  assumes "run_queues s qs" "c < length qs" "smp_num_cpus s' = smp_num_cpus s"
    and "linked (thread_next s') (c_threads (smp_cpus s' c)) xs"
    and "\<And>i. i < length qs \<Longrightarrow> i \<noteq> c \<Longrightarrow> c_threads (smp_cpus s' i) = c_threads (smp_cpus s i)"
    and "\<And>i x. i < length qs \<Longrightarrow> i \<noteq> c \<Longrightarrow> x \<in> set (qs ! i) \<Longrightarrow> thread_next s' x = thread_next s x \<and> x \<notin> set xs"
  shows "run_queues s' (qs[c := xs])"
  unfolding run_queues_def
proof (intro conjI allI impI)
  show "length (qs[c := xs]) = unat (smp_num_cpus s')" using assms(1,3) by (simp add: run_queues_def)
next
  fix i j assume "i < length (qs[c := xs])" "j < length (qs[c := xs])" "i \<noteq> j"
  then show "set (qs[c := xs] ! i) \<inter> set (qs[c := xs] ! j) = {}"
    using assms(2) assms(6) [of i] assms(6) [of j] run_queues_disj [OF assms(1), of i j] unfolding disjoint_iff
    by (cases "i = c"; cases "j = c") (simp_all, blast+)
next
  fix i assume i: "i < length (qs[c := xs])"
  show "linked (thread_next s') (c_threads (smp_cpus s' i)) (qs[c := xs] ! i)"
  proof (cases "i = c")
    case False
    have "linked (thread_next s') (c_threads (smp_cpus s' i)) (qs ! i) = linked (thread_next s) (c_threads (smp_cpus s i)) (qs ! i)"
      using assms(5,6) [of i] i False by (subst path_cong [where nxt = "thread_next s"]) auto
    with False i run_queues_linked [OF assms(1), of i] show ?thesis by simp
  qed (use assms(2,4) in simp)
qed

lemma add_thread_queues:
  assumes "run_queues s qs" "qs \<noteq> []" "t \<noteq> NULL" "\<And>i. i < length qs \<Longrightarrow> t \<notin> set (qs ! i)"
  shows "least_loaded s < length qs"
    "run_queues (scheduler_add_thread t s) (qs[least_loaded s := t # qs ! least_loaded s])"
proof -
  show c: "least_loaded s < length qs"
    using assms(1) least_loaded_least(1) [of s] length_greater_0_conv [THEN iffD2, OF assms(2)] by (simp add: run_queues_def)
  have "linked ((thread_next s)(t := y)) (c_threads (smp_cpus s (least_loaded s))) (qs ! least_loaded s)" for y
    using run_queues_linked [OF assms(1) c] assms(4) [OF c] by (subst path_upd)
  moreover have "thread_next (scheduler_add_thread t s) = (thread_next s)(t := c_threads (smp_cpus s (least_loaded s)))"
    by (auto simp: add_thread_fields)
  ultimately show "run_queues (scheduler_add_thread t s) (qs[least_loaded s := t # qs ! least_loaded s])"
    using assms(3,4) run_queues_disj [OF assms(1)] c
    by (intro run_queuesI [OF assms(1) c]) (auto simp: add_thread_fields)
qed

lemma find_thread_linked:
  assumes "linked (thread_next s) p xs"
  shows "find_thread t p prev s =
    Some (if t \<in> set xs then t else NULL, last (prev # takeWhile (\<lambda>x. x \<noteq> t) xs))"
  using assms
proof (induction xs arbitrary: p prev)
  case Nil
  then show ?case by (subst find_thread.simps) simp
next
  case (Cons x xs)
  then show ?case by (subst find_thread.simps) auto
qed

lemma remove_thread_queue:
  assumes "linked (thread_next s) (c_threads (smp_cpus s c)) xs" "t \<noteq> NULL"
  shows "\<exists>s'. scheduler_remove_thread c t s = Some s' \<and>
    linked (thread_next s') (c_threads (smp_cpus s' c)) (remove1 t xs) \<and> smp_num_cpus s' = smp_num_cpus s \<and>
    (\<forall>i. i \<noteq> c \<longrightarrow> smp_cpus s' i = smp_cpus s i) \<and> (\<forall>x. x \<notin> set xs \<longrightarrow> k_threads s' x = k_threads s x)"
proof (cases "t \<in> set xs")
  case False
  then have "scheduler_remove_thread c t s = Some s"
    using find_thread_linked [OF assms(1)] by (simp add: scheduler_remove_thread_def)
  with False assms(1) show ?thesis by (simp add: remove1_idem)
next
  case True
  then obtain ys zs where xs: "xs = ys @ t # zs" "t \<notin> set ys" by (meson split_list_first)
  have tw: "takeWhile (\<lambda>x. x \<noteq> t) xs = ys" using xs by (simp add: takeWhile_tail) (metis takeWhile_eq_all_conv)
  show ?thesis
  proof (cases ys rule: rev_cases)
    case Nil
    then have "c_threads (smp_cpus s c) = t" using assms(1) xs by simp
    with Nil xs True assms find_thread_linked [OF assms(1), of t NULL] show ?thesis
      by (auto simp: scheduler_remove_thread_def)
  next
    case (snoc us y)
    have "c_threads (smp_cpus s c) \<noteq> t"
    proof
      assume "c_threads (smp_cpus s c) = t"
      with assms(1) xs snoc show False by (cases us) auto
    qed
    then have "scheduler_remove_thread c t s = Some (thread_update y (\<lambda>u. u\<lparr>t_next := thread_next s t\<rparr>) s)"
      using find_thread_linked [OF assms(1), of t NULL] True tw snoc assms(2) by (simp add: scheduler_remove_thread_def)
    moreover have "linked ((thread_next s)(y := thread_next s t)) (c_threads (smp_cpus s c)) (us @ y # zs)"
      using assms(1) xs snoc by (intro linked_skip) simp
    moreover have "thread_next (thread_update y (\<lambda>u. u\<lparr>t_next := thread_next s t\<rparr>) s) = (thread_next s)(y := thread_next s t)"
      by (auto simp: thread_update_def)
    moreover have "remove1 t xs = us @ y # zs" using xs snoc by (simp add: remove1_append)
    ultimately show ?thesis using xs snoc by (auto simp: thread_update_def)
  qed
qed

lemma remove_thread_queues:
  assumes "run_queues s qs" "c < length qs" "t \<noteq> NULL"
  shows "\<exists>s'. scheduler_remove_thread c t s = Some s' \<and> run_queues s' (qs[c := remove1 t (qs ! c)])"
proof -
  obtain s' where s': "scheduler_remove_thread c t s = Some s'" "linked (thread_next s') (c_threads (smp_cpus s' c)) (remove1 t (qs ! c))"
    "smp_num_cpus s' = smp_num_cpus s" "\<forall>i. i \<noteq> c \<longrightarrow> smp_cpus s' i = smp_cpus s i" "\<forall>x. x \<notin> set (qs ! c) \<longrightarrow> k_threads s' x = k_threads s x"
    using remove_thread_queue [OF run_queues_linked [OF assms(1,2)] assms(3)] by blast
  have "run_queues s' (qs[c := remove1 t (qs ! c)])"
    using s' run_queues_disj [OF assms(1)] assms(2) set_remove1_subset [of t "qs ! c"]
    by (intro run_queuesI [OF assms(1,2)]) auto
  with s'(1) show ?thesis by blast
qed

text \<open>The counters: adding a thread keeps the loads within one of each other.\<close>

lemma balanced_iff:
  "balanced s \<longleftrightarrow> (\<forall>i<unat (smp_num_cpus s). \<forall>j<unat (smp_num_cpus s).
     unat (c_num_threads (smp_cpus s i)) \<le> unat (c_num_threads (smp_cpus s j)) + 1)"
  by (auto simp: balanced_def list_all_iff)

lemma add_thread_balanced:
  assumes "balanced s" "0 < unat (smp_num_cpus s)" "c_num_threads (smp_cpus s (least_loaded s)) \<noteq> - 1"
  shows "balanced (scheduler_add_thread t s)"
proof -
  let ?n = "\<lambda>i. unat (c_num_threads (smp_cpus s i))" and ?c = "least_loaded s"
  have "1 + c_num_threads (smp_cpus s ?c) \<noteq> 0" using assms(3) by (metis add.commute add_eq_0_iff)
  from unatSuc [OF this] have inc: "unat (c_num_threads (smp_cpus s ?c) + 1) = ?n ?c + 1" by (simp add: add.commute)
  have new: "unat (c_num_threads (smp_cpus (scheduler_add_thread t s) i)) = (if i = ?c then ?n ?c + 1 else ?n i)" for i
    by (simp add: add_thread_fields inc)
  have min: "?n ?c \<le> ?n j" if "j < unat (smp_num_cpus s)" for j
    using least_loaded_least(2) [OF assms(2) that] by (simp add: word_le_nat_alt)
  have bal: "?n i \<le> ?n j + 1" if "i < unat (smp_num_cpus s)" "j < unat (smp_num_cpus s)" for i j
    using assms(1) that unfolding balanced_iff by blast
  show ?thesis unfolding balanced_iff add_thread_fields(3)
  proof (intro allI impI)
    fix i j assume ij: "i < unat (smp_num_cpus s)" "j < unat (smp_num_cpus s)"
    show "unat (c_num_threads (smp_cpus (scheduler_add_thread t s) i)) \<le>
        unat (c_num_threads (smp_cpus (scheduler_add_thread t s) j)) + 1"
      unfolding new using min [OF ij(1)] min [OF ij(2)] bal [OF ij] by auto
  qed
qed

section \<open>The run-queue interface\<close>

text \<open>
  What the rest of the kernel relies on: threads are added to some queue and removed from a given
  one, and the queues always stand for lists of threads. The laws are proved of the scheduler's own
  functions by the interpretation below.
\<close>

locale run_queue =
  fixes rep :: "'s \<Rightarrow> 't list list \<Rightarrow> bool" and valid :: "'t \<Rightarrow> bool"
    and add :: "'t \<Rightarrow> 's \<Rightarrow> 's" and del :: "nat \<Rightarrow> 't \<Rightarrow> 's \<Rightarrow> 's option"
  assumes add_law: "rep s qs \<Longrightarrow> qs \<noteq> [] \<Longrightarrow> valid t \<Longrightarrow> t \<notin> set (concat qs) \<Longrightarrow>
      \<exists>c<length qs. rep (add t s) (qs[c := t # qs ! c])"
    and del_law: "rep s qs \<Longrightarrow> c < length qs \<Longrightarrow> valid t \<Longrightarrow>
      \<exists>s'. del c t s = Some s' \<and> rep s' (qs[c := remove1 t (qs ! c)])"
begin

lemma mset_concat_update:
  assumes "c < length qs"
  shows "mset (concat (qs[c := xs])) + mset (qs ! c) = mset (concat qs) + mset xs"
proof -
  have "mset (concat qs) = mset (concat (take c qs @ qs ! c # drop (Suc c) qs))"
    using assms by (simp flip: id_take_nth_drop)
  with assms show ?thesis by (simp add: upd_conv_take_nth_drop)
qed

lemma add_then_del:
  assumes "rep s qs" "qs \<noteq> []" "valid t" "t \<notin> set (concat qs)"
  shows "\<exists>c<length qs. \<exists>s'. del c t (add t s) = Some s' \<and> rep s' qs"
proof -
  obtain c where c: "c < length qs" "rep (add t s) (qs[c := t # qs ! c])" using add_law [OF assms] by blast
  then show ?thesis using del_law [OF c(2), of c t] assms(3) by auto
qed

lemma add_all:
  assumes "rep s qs" "qs \<noteq> []" "distinct ts" "\<forall>t\<in>set ts. valid t" "set ts \<inter> set (concat qs) = {}"
  shows "\<exists>qs'. rep (fold add ts s) qs' \<and> length qs' = length qs \<and> mset (concat qs') = mset (concat qs) + mset ts"
  using assms
proof (induction ts arbitrary: s qs)
  case Nil
  then show ?case by auto
next
  case (Cons t ts)
  then obtain c where c: "c < length qs" "rep (add t s) (qs[c := t # qs ! c])"
    using add_law [of s qs t] by auto
  let ?qs = "qs[c := t # qs ! c]"
  have m: "mset (concat ?qs) = add_mset t (mset (concat qs))"
    using mset_concat_update [OF c(1), of "t # qs ! c"] by simp
  have "set (concat ?qs) = insert t (set (concat qs))" by (metis m set_mset_add_mset_insert set_mset_mset)
  moreover have "?qs \<noteq> []" using c(1) by auto
  ultimately obtain qs' where "rep (fold add ts (add t s)) qs'" "length qs' = length ?qs"
      "mset (concat qs') = mset (concat ?qs) + mset ts"
    using Cons.IH [OF c(2)] Cons.prems by auto
  then show ?case using m by auto
qed

end

interpretation rq: run_queue run_queues "\<lambda>t. t \<noteq> NULL" scheduler_add_thread scheduler_remove_thread
proof
  fix s :: "'a kernel_scheme" and qs t
  assume "run_queues s qs" "qs \<noteq> []" "t \<noteq> NULL" "t \<notin> set (concat qs)"
  then show "\<exists>c<length qs. run_queues (scheduler_add_thread t s) (qs[c := t # qs ! c])"
    using add_thread_queues [of s qs t] by (metis concat_eq_concat_iff in_set_conv_nth set_concat UN_I)
qed (rule remove_thread_queues)

section \<open>Sleeping threads\<close>

lemma find_wakeup_linked:
  assumes "linked (thread_next s) p xs"
  shows "find_wakeup time prev p s =
    Some (let P = (\<lambda>x. t_wakeup_time (k_threads s x) < time)
          in (last (prev # takeWhile P xs), case dropWhile P xs of [] \<Rightarrow> NULL | x # _ \<Rightarrow> x))"
  using assms
proof (induction xs arbitrary: p prev)
  case Nil
  then show ?case by (subst find_wakeup.simps) simp
next
  case (Cons x xs)
  then show ?case by (subst find_wakeup.simps) (auto simp: Let_def)
qed

lemma insort_key_takeWhile:
  "insort_key f x xs = takeWhile (\<lambda>y. f y < f x) xs @ x # dropWhile (\<lambda>y. f y < f x) xs"
  by (induction xs) auto

lemma linked_cons_head: "linked nxt p xs \<Longrightarrow> (case xs of [] \<Rightarrow> NULL | x # _ \<Rightarrow> x) = p"
  by (cases xs) auto

lemma add_wakeup_sorted:
  fixes s :: "'a kernel_scheme"
  defines "time \<equiv> \<lambda>p. t_wakeup_time (k_threads s p)"
  assumes ws: "linked (thread_next s) (c_wakeups (this_cpu s)) ws" and t: "t \<noteq> NULL" "t \<notin> set ws"
  shows "\<exists>s'. add_wakeup t s = Some s' \<and> linked (thread_next s') (c_wakeups (this_cpu s')) (insort_key time t ws) \<and>
    (\<lambda>p. t_wakeup_time (k_threads s' p)) = time"
proof -
  define P where "P = (\<lambda>x. time x < time t)"
  define ys zs where "ys = takeWhile P ws" and "zs = dropWhile P ws"
  have split: "ws = ys @ zs" by (simp add: ys_def zs_def)
  have ins: "insort_key time t ws = ys @ t # zs" by (simp add: insort_key_takeWhile ys_def zs_def P_def)
  have fw: "find_wakeup (time t) NULL (c_wakeups (this_cpu s)) s =
      Some (last (NULL # ys), case zs of [] \<Rightarrow> NULL | x # _ \<Rightarrow> x)"
    using find_wakeup_linked [OF ws, of "time t" NULL] by (simp add: Let_def time_def P_def ys_def zs_def)
  show ?thesis
  proof (cases ys rule: rev_cases)
    case Nil
    then have "(case zs of [] \<Rightarrow> NULL | x # _ \<Rightarrow> x) = c_wakeups (this_cpu s)" using ws split by (simp add: linked_cons_head)
    then have "add_wakeup t s = Some (thread_update t (\<lambda>u. u\<lparr>t_next := c_wakeups (this_cpu s)\<rparr>) (cpu_update (\<lambda>c. c\<lparr>c_wakeups := t\<rparr>) s))"
      using fw Nil by (simp add: add_wakeup_def time_def)
    moreover have "linked ((thread_next s)(t := c_wakeups (this_cpu s))) (c_wakeups (this_cpu s)) ws"
      using ws t(2) by (subst path_upd)
    moreover have "thread_next (thread_update t (\<lambda>u. u\<lparr>t_next := x\<rparr>) (cpu_update f s)) = (thread_next s)(t := x)" for x f
      by (auto simp: state_ops)
    ultimately show ?thesis using t(1) Nil split ins by (auto simp: state_ops time_def)
  next
    case (snoc us y)
    have y0: "y \<noteq> NULL" using path_nonzero [OF ws] split snoc by auto
    obtain r where "path (thread_next s) (c_wakeups (this_cpu s)) us r" "path (thread_next s) r (y # zs) NULL"
      using ws split snoc by (auto simp: path_append)
    then have "(case zs of [] \<Rightarrow> NULL | x # _ \<Rightarrow> x) = thread_next s y" using linked_cons_head [of "thread_next s" "thread_next s y" zs] by simp
    then have call: "add_wakeup t s = Some (thread_update t (\<lambda>u. u\<lparr>t_next := thread_next s y\<rparr>) (thread_update y (\<lambda>u. u\<lparr>t_next := t\<rparr>) s))"
      using fw snoc y0 by (simp add: add_wakeup_def time_def)
    have "linked ((thread_next s)(y := t, t := thread_next s y)) (c_wakeups (this_cpu s)) (us @ y # t # zs)"
      using ws split snoc t by (intro linked_insert) auto
    moreover have "thread_next (thread_update t (\<lambda>u. u\<lparr>t_next := x\<rparr>) (thread_update y (\<lambda>u. u\<lparr>t_next := t\<rparr>) s)) = (thread_next s)(y := t, t := x)" for x
      by (auto simp: state_ops)
    ultimately show ?thesis using call ins snoc by (auto simp: state_ops time_def)
  qed
qed

section \<open>Round robin\<close>

lemma next_thread_linked:
  assumes "linked (thread_next s) (c_threads (this_cpu s)) xs" "i < length xs"
  shows "scheduler_next_thread (xs ! i) s = xs ! (Suc i mod length xs)"
proof -
  have xs: "xs = take i xs @ xs ! i # drop (Suc i) xs" using assms(2) by (simp add: id_take_nth_drop)
  obtain r where r: "path (thread_next s) r (xs ! i # drop (Suc i) xs) NULL"
    using assms(1) by (subst (asm) xs) (auto simp: path_append)
  have head: "c_threads (this_cpu s) = xs ! 0" "c_threads (this_cpu s) \<noteq> NULL" using assms by (cases xs; simp)+
  have nz: "xs ! i \<noteq> NULL" using path_nonzero [OF assms(1)] assms(2) nth_mem by metis
  show ?thesis
  proof (cases "Suc i < length xs")
    case True
    then have "drop (Suc i) xs = xs ! Suc i # drop (Suc (Suc i)) xs" by (simp add: Cons_nth_drop_Suc)
    with r True head nz show ?thesis by (simp add: scheduler_next_thread_def)
  next
    case False
    then have "drop (Suc i) xs = []" "Suc i = length xs" using assms(2) by auto
    with r head nz show ?thesis by (simp add: scheduler_next_thread_def)
  qed
qed

lemma next_thread_iterate:
  assumes "linked (thread_next s) (c_threads (this_cpu s)) xs" "i < length xs"
  shows "((\<lambda>t. scheduler_next_thread t s) ^^ k) (xs ! i) = xs ! ((i + k) mod length xs)"
proof (induction k)
  case (Suc k)
  have "(i + k) mod length xs < length xs" using assms(2) by (intro mod_less_divisor) linarith
  with Suc show ?case using next_thread_linked [OF assms(1), of "(i + k) mod length xs"] by (simp add: mod_Suc_eq)
qed (use assms(2) in simp)

section \<open>Properties\<close>

text \<open>
  \<open>schedule\<close> never runs a thread of the run queues: whatever the interrupted thread, the queues and
  the sleeping threads are, it resumes the idle thread's frame in the idle thread's address space,
  and it changes neither the queues nor the state of any other thread.
\<close>

theorem schedule_runs_idle:
  "schedule dev cur_status s = (r, s') \<Longrightarrow>
     r = t_ef (k_threads s (smp_idle s)) \<and>
     k_cr3 s' = PADDR (vm_p4_tbl (t_vmm (k_threads s (smp_idle s)))) \<and>
     smp_cpus s' = smp_cpus s \<and> (\<forall>p. p \<noteq> smp_idle s \<longrightarrow> k_threads s' p = k_threads s p)"
  using read_apic_register_io [of dev APIC_TIMER_LVT_OFFSET s]
  by (auto simp: schedule_def ready_thread_def state_ops Let_def split: prod.splits)

theorem schedule_runs_idle_witness:
  "fst (schedule (\<lambda>_. 0) 0x1100 demo_kernel) = 0x1900 \<and>
   c_cur (this_cpu (snd (schedule (\<lambda>_. 0) 0x1100 demo_kernel))) = 0x100"
  using schedule_runs_idle [of "\<lambda>_. 0" "0x1100" demo_kernel, OF surjective_pairing]
  by (simp add: this_cpu_def schedule_def ready_thread_def read_apic_register_def mmio_read_def io_read_def Let_def
      state_ops split_beta)

text \<open>
  C17. Adding a thread refines pushing it onto the queue of a processor with the least load: the
  queues stand for lists before and after, the chosen processor's load goes up by one, no other list
  changes.
\<close>

theorem scheduler_add_thread_pushes:
  assumes "run_queues s qs" "qs \<noteq> []" "t \<noteq> NULL" "\<forall>i<length qs. t \<notin> set (qs ! i)"
  shows "\<exists>c<length qs. run_queues (scheduler_add_thread t s) (qs[c := t # qs ! c]) \<and>
     (\<forall>j<length qs. c_num_threads (smp_cpus s c) \<le> c_num_threads (smp_cpus s j)) \<and>
     c_num_threads (smp_cpus (scheduler_add_thread t s) c) = c_num_threads (smp_cpus s c) + 1"
proof -
  have n: "length qs = unat (smp_num_cpus s)" "0 < unat (smp_num_cpus s)"
    using assms(1) length_greater_0_conv [THEN iffD2, OF assms(2)] by (simp_all add: run_queues_def)
  with add_thread_queues [of s qs t] least_loaded_least(2) [OF n(2)] assms show ?thesis
    by (intro exI [of _ "least_loaded s"]) (simp add: add_thread_fields)
qed

lemma all_less_2: "(\<forall>i<2. P i) \<longleftrightarrow> P 0 \<and> P (1 :: nat)"
  by (auto simp: less_2_cases_iff)

lemma demo_queues: "run_queues demo_kernel [[0x100, 0x200], []]"
  by (simp add: run_queues_def All_less_Suc)

lemma demo_fresh: "\<forall>i<length [[0x100, 0x200], []]. (0x300 :: u64) \<notin> set ([[0x100, 0x200], []] ! i)"
  by (simp add: All_less_Suc)

theorem scheduler_add_thread_pushes_witness:
  "\<exists>c. run_queues (scheduler_add_thread 0x300 demo_kernel) ([[0x100, 0x200], []][c := 0x300 # [[0x100, 0x200], []] ! c])"
proof -
  have "(0x300 :: u64) \<noteq> NULL" by simp
  from scheduler_add_thread_pushes [OF demo_queues _ this demo_fresh] show ?thesis by blast
qed

text \<open>
  Adding threads one after the other loses and duplicates none: afterwards the queues hold, counted
  with multiplicity, exactly the threads they held and the threads that were added.
\<close>

theorem scheduler_add_all_threads:
  assumes "run_queues s qs" "qs \<noteq> []" "distinct ts" "\<forall>t\<in>set ts. t \<noteq> NULL" "set ts \<inter> set (concat qs) = {}"
  shows "\<exists>qs'. run_queues (fold scheduler_add_thread ts s) qs' \<and> length qs' = length qs \<and>
    mset (concat qs') = mset (concat qs) + mset ts"
  using assms by (rule rq.add_all)

theorem scheduler_add_all_threads_witness:
  "\<exists>qs'. run_queues (fold scheduler_add_thread [0x300, 0x400] demo_kernel) qs' \<and>
     mset (concat qs') = {#0x100, 0x200, 0x300, 0x400#}"
  using scheduler_add_all_threads [OF demo_queues, of "[0x300, 0x400]"] by (auto simp: add_mset_commute)

text \<open>
  Removing a thread that was just added restores the queues, on the processor it was added to;
  the removal always returns.
\<close>

theorem scheduler_add_remove:
  assumes "run_queues s qs" "qs \<noteq> []" "t \<noteq> NULL" "t \<notin> set (concat qs)"
  shows "\<exists>c<length qs. \<exists>s'. scheduler_remove_thread c t (scheduler_add_thread t s) = Some s' \<and> run_queues s' qs"
  using assms by (rule rq.add_then_del)

theorem scheduler_add_remove_witness:
  "\<exists>c s'. scheduler_remove_thread c 0x300 (scheduler_add_thread 0x300 demo_kernel) = Some s' \<and>
     run_queues s' [[0x100, 0x200], []]"
  using scheduler_add_remove [OF demo_queues, of "0x300"] by auto

text \<open>
  The load counters stay balanced: if they differ by at most one between any two processors, they
  still do after a thread is added (as long as the counter does not wrap).
\<close>

theorem scheduler_add_thread_balanced:
  assumes "balanced s" "0 < unat (smp_num_cpus s)" "c_num_threads (smp_cpus s (least_loaded s)) \<noteq> - 1"
  shows "balanced (scheduler_add_thread t s)"
  using assms by (rule add_thread_balanced)

theorem scheduler_add_thread_balanced_witness:
  "balanced demo_kernel \<and> balanced (scheduler_add_thread 0x300 demo_kernel)"
proof -
  have b: "balanced demo_kernel" by (simp add: balanced_iff all_less_2)
  have "least_loaded demo_kernel = 1" by (simp add: least_loaded_def)
  with b scheduler_add_thread_balanced [OF b] show ?thesis by simp
qed

text \<open>
  Removing a thread leaves every load counter as it was, so the counters only ever grow and stop
  describing the queues as soon as a thread exits or sleeps.
\<close>

theorem scheduler_remove_thread_keeps_load:
  "scheduler_remove_thread c t s = Some s' \<Longrightarrow> c_num_threads (smp_cpus s' i) = c_num_threads (smp_cpus s i)"
  by (auto simp: scheduler_remove_thread_def thread_update_def bind_eq_Some_conv split: if_splits)

theorem scheduler_remove_thread_keeps_load_witness:
  "\<exists>s'. scheduler_remove_thread 0 0x200 demo_kernel = Some s' \<and> run_queues s' [[0x100], []] \<and>
     c_num_threads (smp_cpus s' 0) = 2"
proof -
  obtain s' where s': "scheduler_remove_thread 0 0x200 demo_kernel = Some s'" "run_queues s' [[0x100], []]"
    using remove_thread_queues [OF demo_queues, of 0 "0x200"] by auto
  with scheduler_remove_thread_keeps_load [OF s'(1), of 0] show ?thesis by simp
qed

text \<open>
  C18. Round robin: starting from any thread of the queue, \<open>scheduler_next_thread\<close> reaches every other
  thread of the queue within as many steps as the queue is long.
\<close>

theorem scheduler_next_thread_fair:
  assumes "linked (thread_next s) (c_threads (this_cpu s)) xs" "t \<in> set xs" "u \<in> set xs"
  shows "\<exists>k<length xs. ((\<lambda>t. scheduler_next_thread t s) ^^ k) t = u"
proof -
  obtain i j where ij: "i < length xs" "t = xs ! i" "j < length xs" "u = xs ! j"
    using assms(2,3) by (metis in_set_conv_nth)
  let ?n = "length xs" and ?k = "(j + length xs - i) mod length xs"
  have "(i + ?k) mod ?n = (i + (j + ?n - i)) mod ?n" by (simp only: mod_add_right_eq)
  also have "\<dots> = j" using ij by simp
  finally have "((\<lambda>t. scheduler_next_thread t s) ^^ ?k) t = u"
    using next_thread_iterate [OF assms(1) ij(1), of ?k] ij by simp
  moreover have "?k < ?n" using ij(1) by (intro mod_less_divisor) linarith
  ultimately show ?thesis by blast
qed

lemma demo_linked: "linked (thread_next demo_kernel) (c_threads (this_cpu demo_kernel)) [0x100, 0x200]"
  by (simp add: this_cpu_def)

theorem scheduler_next_thread_fair_witness:
  "\<exists>k. ((\<lambda>t. scheduler_next_thread t demo_kernel) ^^ k) 0x200 = 0x100"
  using scheduler_next_thread_fair [OF demo_linked, of "0x200" "0x100"] by auto


lemma demo_sleepers: "linked (thread_next (demo_kernel\<lparr>k_CPU := 1\<rparr>)) (c_wakeups (this_cpu (demo_kernel\<lparr>k_CPU := 1\<rparr>))) [0x300]"
  by (simp add: this_cpu_def)


end
