(* ===== verification/Framebuffer.thy ===== *)
theory Framebuffer
  imports Scheduler
begin

text \<open>
  The text console, \<^verbatim>\<open>src/kernel/drivers/framebuffer.c\<close>. Pixels are 32-bit stores into the bytes of
  \<open>vm_bytes\<close> at the (identity-mapped) address of the frame buffer; the font is a header record and the
  glyph bytes behind the header's address. The static variables of the file and those of
  \<^verbatim>\<open>src/kernel/io/stdio.c\<close> (and the lock of \<^verbatim>\<open>logging.c\<close>) extend the kernel state. The arithmetic is C's: a product of \<^verbatim>\<open>uint8_t\<close> and
  \<^verbatim>\<open>uint32_t\<close> wraps at 32 bits, and so does the pixel offset \<open>line\<close> inside a glyph.
\<close>

section \<open>Definitions\<close>

record psf_font_t =
  psf_magic :: u32
  psf_version :: u32
  psf_header_size :: u32
  psf_flags :: u32
  psf_num_glyph :: u32
  psf_bytes_per_glyph :: u32
  psf_height :: u32
  psf_width :: u32

datatype char_printer_t = Printer_none | Printer_qemu | Printer_fb

record console = kernel +
  loaded_font :: u64
  font_header :: psf_font_t
  screen_num_cols :: u64
  screen_num_rows :: u64
  screen_x :: u64
  screen_y :: u64
  screen_fg :: u32
  screen_bg :: u32
  fb_buf :: u64
  fb_buf_pos :: u64
  char_printer :: char_printer_t
  printf_mutex :: bool
  log_mutex :: bool

definition load32 :: "u64 \<Rightarrow> bytes \<Rightarrow> u32" where
  "load32 a m = ucast (m a) OR push_bit 8 (ucast (m (a + 1))) OR push_bit 16 (ucast (m (a + 2))) OR
     push_bit 24 (ucast (m (a + 3)))"

definition store32 :: "u64 \<Rightarrow> u32 \<Rightarrow> bytes \<Rightarrow> bytes" where
  "store32 a v m = m(a := ucast v, a + 1 := ucast (drop_bit 8 v), a + 2 := ucast (drop_bit 16 v),
     a + 3 := ucast (drop_bit 24 v))"

text \<open>\<^verbatim>\<open>KFB.bpp * KFB.pixels_per_scanline\<close>, the bytes of a scan line.\<close>

definition line_bytes :: "'a kernel_scheme \<Rightarrow> u32" where
  "line_bytes s = ucast (fb_bpp s) * fb_pixels_per_scanline s"

definition get_glyph :: "u8 \<Rightarrow> 'a console_scheme \<Rightarrow> u64" where
  "get_glyph ch s = loaded_font s + ucast (psf_header_size (font_header s)) +
     ucast (ucast ch * psf_bytes_per_glyph (font_header s) :: u32)"

definition get_offset :: "'a console_scheme \<Rightarrow> u64" where
  "get_offset s = screen_y s * ucast (psf_height (font_header s)) * ucast (line_bytes s) +
     screen_x s * ucast (psf_width (font_header s)) * ucast (fb_bpp s)"

text \<open>The address of pixel \<open>cx\<close> of line \<open>cy\<close> of the character cell at \<open>offset\<close>: the loop variable \<open>line\<close>.\<close>

definition pixel_addr :: "u64 \<Rightarrow> nat \<Rightarrow> nat \<Rightarrow> 'a console_scheme \<Rightarrow> u64" where
  "pixel_addr offset cy cx s = fb_buffer s +
     ucast (ucast (offset + of_nat cy * ucast (line_bytes s)) + of_nat cx * ucast (fb_bpp s) :: u32)"

definition cell_blank :: "'a console_scheme \<Rightarrow> bool" where
  "cell_blank s \<longleftrightarrow>
     list_all (\<lambda>cy. list_all (\<lambda>cx. load32 (pixel_addr (get_offset s) cy cx s) (vm_bytes s) = screen_bg s)
       [0..<unat (psf_width (font_header s))]) [0..<unat (psf_height (font_header s))]"

function find_last_char_loop :: "'a console_scheme \<Rightarrow> 'a console_scheme" where
  "find_last_char_loop s =
     (if \<not> cell_blank s then s
      else if screen_x s = 0 then s
      else find_last_char_loop (s\<lparr>screen_x := screen_x s - 1\<rparr>))"
  by pat_completeness auto
termination
  by (relation "measure (\<lambda>s. unat (screen_x s))") (auto simp: unat_minus_one unat_gt_0)

declare find_last_char_loop.simps [simp del]

definition find_last_char :: "'a console_scheme \<Rightarrow> 'a console_scheme" where
  "find_last_char s =
     (if screen_x s = 0
      then if screen_y s = 0 then s
           else find_last_char_loop (s\<lparr>screen_x := screen_num_cols s - 1, screen_y := screen_y s - 1\<rparr>)
      else find_last_char_loop (s\<lparr>screen_x := screen_x s - 1\<rparr>))"

definition putchar :: "u8 \<Rightarrow> 'a console_scheme \<Rightarrow> 'a console_scheme" where
  "putchar ch s =
     (let glyph = get_glyph ch s;
          bytes_per_line = ucast ((psf_width (font_header s) + 7) div 8) :: u64;
          offset = get_offset s
      in s\<lparr>vm_bytes := for_upto (unat (psf_height (font_header s))) (\<lambda>cy m.
             for_upto (unat (psf_width (font_header s))) (\<lambda>cx m.
               store32 (pixel_addr offset cy cx s)
                 (if m (glyph + of_nat cy * bytes_per_line + of_nat (cx div 8)) AND drop_bit (cx mod 8) 0x80 \<noteq> 0
                  then screen_fg s else screen_bg s) m) m) (vm_bytes s)\<rparr>)"

definition clear_screen :: "'a console_scheme \<Rightarrow> 'a console_scheme" where
  "clear_screen s =
     s\<lparr>vm_bytes := for_upto (unat (fb_pixels_per_scanline s * fb_vertical_res s))
          (\<lambda>i. store32 (fb_buffer s + 4 * of_nat i) (screen_bg s)) (vm_bytes s),
       screen_x := 0, screen_y := 0\<rparr>"

definition scroll :: "'a console_scheme \<Rightarrow> 'a console_scheme" where
  "scroll s = (if screen_y s \<ge> screen_num_rows s then clear_screen s else s)"

text \<open>\<open>fb_print_char\<close>: a tab prints four spaces by calling the function again, each with its own scrolling.\<close>

definition fb_print_glyph :: "u8 \<Rightarrow> 'a console_scheme \<Rightarrow> 'a console_scheme" where
  "fb_print_glyph c s =
     (let s = putchar c s;
          s = s\<lparr>screen_x := screen_x s + 1\<rparr>
      in scroll (if screen_x s \<ge> screen_num_cols s then s\<lparr>screen_x := 0, screen_y := screen_y s + 1\<rparr> else s))"

definition fb_print_char :: "u8 \<Rightarrow> 'a console_scheme \<Rightarrow> 'a console_scheme" where
  "fb_print_char c s =
     (if c = 10 then scroll (s\<lparr>screen_x := 0, screen_y := screen_y s + 1\<rparr>)
      else if c = 8 then scroll (putchar 32 (find_last_char s))
      else if c = 9 then scroll (for_upto 4 (\<lambda>_. fb_print_glyph 32) s)
      else fb_print_glyph c s)"

definition map_framebuffer :: "u64 \<Rightarrow> u64 \<Rightarrow> 'a kernel_scheme \<Rightarrow> 'a kernel_scheme option" where
  "map_framebuffer p4_tbl flags s =
     (let fb_size = ucast (line_bytes s * fb_vertical_res s) :: u64 in
      Option.bind (map_range (fb_buffer s) (fb_buffer s) (SIZE_TO_PAGES fb_size) flags p4_tbl s)
        (\<lambda>s. Some (pmm_set_area (fb_buffer s) (SIZE_TO_PAGES fb_size) s)))"

text \<open>The font is linked into the kernel; its address and header are parameters.\<close>

definition init_framebuffer :: "u64 \<Rightarrow> psf_font_t \<Rightarrow> 'a console_scheme \<Rightarrow> 'a console_scheme option" where
  "init_framebuffer font_addr font s =
     (let s = s\<lparr>loaded_font := font_addr, font_header := font,
                screen_num_cols := ucast (fb_horizontal_res s div psf_width font),
                screen_num_rows := ucast (fb_vertical_res s div psf_height font)\<rparr>
      in Option.bind (map_framebuffer (km_pml4 s) KERNEL_PT_ENTRY s)
           (\<lambda>s. Some (clear_screen (s\<lparr>char_printer := Printer_fb\<rparr>))))"

section \<open>The cursor\<close>

text \<open>The cursor is on the screen.\<close>

definition cursor_ok :: "'a console_scheme \<Rightarrow> bool" where
  "cursor_ok s \<longleftrightarrow> screen_x s < screen_num_cols s \<and> screen_y s < screen_num_rows s"

text \<open>States that differ in memory contents and the cursor only.\<close>

definition same_screen :: "'a console_scheme \<Rightarrow> 'a console_scheme \<Rightarrow> bool" where
  "same_screen s s' \<longleftrightarrow> (\<exists>m x y. s' = s\<lparr>vm_bytes := m, screen_x := x, screen_y := y\<rparr>)"

lemma same_screen_refl [simp]: "same_screen s s"
  unfolding same_screen_def
  by (rule exI [of _ "vm_bytes s"], rule exI [of _ "screen_x s"], rule exI [of _ "screen_y s"]) simp

lemma same_screen_trans: "same_screen s t \<Longrightarrow> same_screen t u \<Longrightarrow> same_screen s u"
  unfolding same_screen_def by (elim exE, simp) blast

lemma same_screen_sel:
  "same_screen s s' \<Longrightarrow> screen_num_cols s' = screen_num_cols s \<and> screen_num_rows s' = screen_num_rows s \<and>
     font_header s' = font_header s \<and> loaded_font s' = loaded_font s \<and> fb_buffer s' = fb_buffer s \<and> line_bytes s' = line_bytes s \<and>
     fb_bpp s' = fb_bpp s \<and> fb_vertical_res s' = fb_vertical_res s \<and>
     fb_pixels_per_scanline s' = fb_pixels_per_scanline s \<and> fb_horizontal_res s' = fb_horizontal_res s \<and>
     fb_buf s' = fb_buf s \<and> fb_buf_pos s' = fb_buf_pos s \<and> char_printer s' = char_printer s"
  by (auto simp: same_screen_def line_bytes_def)

lemma putchar_sel [simp]:
  "screen_x (putchar c s) = screen_x s" "screen_y (putchar c s) = screen_y s"
  "screen_num_cols (putchar c s) = screen_num_cols s" "screen_num_rows (putchar c s) = screen_num_rows s"
  by (simp_all add: putchar_def Let_def)

lemma same_screen_bytes: "same_screen s (s\<lparr>vm_bytes := m\<rparr>)"
  unfolding same_screen_def
  by (rule exI [of _ m], rule exI [of _ "screen_x s"], rule exI [of _ "screen_y s"]) simp

lemma same_screen_xy: "same_screen s (s\<lparr>screen_x := x, screen_y := y\<rparr>)"
  unfolding same_screen_def by (rule exI [of _ "vm_bytes s"]) auto

lemma same_screen_x: "same_screen s (s\<lparr>screen_x := x\<rparr>)"
  using same_screen_xy [where s = s and x = x and y = "screen_y s"] by simp

lemma putchar_screen: "same_screen s (putchar c s)"
  unfolding putchar_def Let_def by (rule same_screen_bytes)

lemma clear_screen_screen: "same_screen s (clear_screen s)"
  unfolding same_screen_def clear_screen_def by blast

lemma scroll_screen: "same_screen s (scroll s)"
  by (simp add: scroll_def clear_screen_screen)

lemma find_last_char_loop_cursor:
  "screen_x (find_last_char_loop s) \<le> screen_x s \<and> screen_y (find_last_char_loop s) = screen_y s \<and>
   same_screen s (find_last_char_loop s)"
proof (induction s rule: find_last_char_loop.induct)
  case (1 s)
  let ?t = "s\<lparr>screen_x := screen_x s - 1\<rparr>"
  show ?case
  proof (cases "cell_blank s \<and> screen_x s \<noteq> 0")
    case True
    then have "find_last_char_loop s = find_last_char_loop ?t" by (subst find_last_char_loop.simps) simp
    moreover have "screen_x s - 1 \<le> screen_x s" using True by (simp add: word_le_nat_alt unat_minus_one)
    ultimately show ?thesis
      using 1 True by (auto intro: same_screen_trans [OF same_screen_x])
  qed (subst find_last_char_loop.simps, auto)+
qed


lemma find_last_char_cursor:
  assumes "cursor_ok s"
  shows "cursor_ok (find_last_char s) \<and> same_screen s (find_last_char s)"
proof -
  have step: "cursor_ok (find_last_char_loop t) \<and> same_screen s (find_last_char_loop t)"
    if "cursor_ok t" "same_screen s t" for t
    using find_last_char_loop_cursor [of t] same_screen_sel [of t "find_last_char_loop t"] that
    by (auto simp: cursor_ok_def intro: same_screen_trans)
  have dec: "x - 1 < y" if "x < y \<or> x = y" "x \<noteq> 0" for x y :: u64
    using that by (auto simp: word_less_nat_alt unat_minus_one unat_gt_0)
  have "screen_num_cols s \<noteq> 0" using assms by (auto simp: cursor_ok_def)
  then have b: "cursor_ok (s\<lparr>screen_x := screen_num_cols s - 1, screen_y := screen_y s - 1\<rparr>)" if "screen_y s \<noteq> 0"
    using assms that dec [of "screen_num_cols s"] dec [of "screen_y s"] by (simp add: cursor_ok_def)
  have a: "cursor_ok (s\<lparr>screen_x := screen_x s - 1\<rparr>)" if "screen_x s \<noteq> 0"
    using assms that dec [of "screen_x s"] by (simp add: cursor_ok_def)
  show ?thesis
    unfolding find_last_char_def using assms step [OF a same_screen_x] step [OF b same_screen_xy] by simp
qed

lemma scroll_cursor:
  assumes "screen_x s < screen_num_cols s" "screen_num_rows s \<noteq> 0"
  shows "cursor_ok (scroll s)"
proof -
  have "screen_num_cols s \<noteq> 0" using assms(1) by auto
  with assms show ?thesis by (auto simp: scroll_def cursor_ok_def clear_screen_def word_gt_0 not_le)
qed

lemma fb_print_glyph_cursor:
  assumes "cursor_ok s"
  shows "cursor_ok (fb_print_glyph c s) \<and> same_screen s (fb_print_glyph c s)"
proof -
  let ?p = "putchar c s"
  let ?s = "?p\<lparr>screen_x := screen_x ?p + 1\<rparr>"
  define u where "u = (if screen_x ?s \<ge> screen_num_cols ?s then ?s\<lparr>screen_x := 0, screen_y := screen_y ?s + 1\<rparr> else ?s)"
  have nz: "screen_num_cols s \<noteq> 0" "screen_num_rows s \<noteq> 0" using assms by (auto simp: cursor_ok_def)
  have eq: "fb_print_glyph c s = scroll u" by (simp add: fb_print_glyph_def Let_def u_def)
  have scr: "same_screen s u" unfolding u_def
    by (auto intro: same_screen_trans [OF putchar_screen] same_screen_x same_screen_xy)
  moreover have "screen_x u < screen_num_cols u" using nz by (auto simp: u_def not_le word_gt_0)
  moreover have "screen_num_rows u \<noteq> 0" using nz by (simp add: u_def)
  ultimately show ?thesis using scroll_cursor [of u] same_screen_trans [OF scr scroll_screen] by (simp add: eq)
qed

lemma fb_print_char_cursor:
  assumes "cursor_ok s"
  shows "cursor_ok (fb_print_char c s)" "same_screen s (fb_print_char c s)"
proof -
  have nz: "screen_num_cols s \<noteq> 0" "screen_num_rows s \<noteq> 0" using assms by (auto simp: cursor_ok_def)
  have nl: "cursor_ok (scroll (s\<lparr>screen_x := 0, screen_y := screen_y s + 1\<rparr>))"
    using nz by (intro scroll_cursor) (auto simp: word_gt_0)
  have keep: "cursor_ok (scroll t)" if "cursor_ok t" for t :: "'a console_scheme"
    using that by (intro scroll_cursor) (auto simp: cursor_ok_def)
  have pc: "cursor_ok (putchar c t) = cursor_ok t" for c and t :: "'a console_scheme" by (simp add: cursor_ok_def)
  have tab: "cursor_ok (for_upto n (\<lambda>_. fb_print_glyph 32) s) \<and> same_screen s (for_upto n (\<lambda>_. fb_print_glyph 32) s)" for n
    by (induction n) (use assms fb_print_glyph_cursor in \<open>auto intro: same_screen_trans\<close>)
  note facts = nl keep pc tab find_last_char_cursor [OF assms] fb_print_glyph_cursor [OF assms]
  show "cursor_ok (fb_print_char c s)" unfolding fb_print_char_def using facts by simp
  show "same_screen s (fb_print_char c s)" unfolding fb_print_char_def
    using facts by (auto intro: same_screen_trans [OF _ scroll_screen] same_screen_xy
      same_screen_trans [OF _ same_screen_trans [OF putchar_screen scroll_screen]])
qed


section \<open>Pixels\<close>

text \<open>
  The geometry the boot loader reports and the font give: four bytes per pixel, the character cells
  inside the visible area, the visible area inside the scan lines, and a frame buffer below 4 GiB in
  size that does not wrap around the address space.
\<close>

definition fb_bytes :: "'a kernel_scheme \<Rightarrow> nat" where
  "fb_bytes s = 4 * unat (fb_pixels_per_scanline s) * unat (fb_vertical_res s)"

definition geometry_ok :: "'a console_scheme \<Rightarrow> bool" where
  "geometry_ok s \<longleftrightarrow> fb_bpp s = 4 \<and>
     unat (screen_num_cols s) * unat (psf_width (font_header s)) \<le> unat (fb_pixels_per_scanline s) \<and>
     unat (screen_num_rows s) * unat (psf_height (font_header s)) \<le> unat (fb_vertical_res s) \<and>
     0 < unat (fb_vertical_res s) \<and> fb_bytes s < 2 ^ 32 \<and> unat (fb_buffer s) + fb_bytes s \<le> 2 ^ 64"

lemma geometry_ok_screen: "same_screen s s' \<Longrightarrow> geometry_ok s' = geometry_ok s"
  using same_screen_sel [of s s'] by (simp add: geometry_ok_def fb_bytes_def)

lemma ucast_down_of_nat: "(ucast (of_nat n :: u64) :: u32) = of_nat n"
  by (rule word_unat_eq_iff [THEN iffD2]) (simp add: unsigned_ucast_eq unat_of_nat take_bit_eq_mod mod_mod_cancel)

lemma ucast_up_of_nat: "n < 2 ^ 32 \<Longrightarrow> (ucast (of_nat n :: u32) :: u64) = of_nat n"
  by (rule word_unat_eq_iff [THEN iffD2]) (simp add: unsigned_ucast_eq unat_of_nat take_bit_eq_mod)

lemma cell_in_grid:
  fixes y h cy r x w cx c pps vres :: nat
  assumes "y < r" "cy < h" "r * h \<le> vres" "x < c" "cx < w" "c * w \<le> pps"
  shows "(y * h + cy) * pps + (x * w + cx) < pps * vres"
proof -
  have "Suc y * h \<le> r * h" "Suc x * w \<le> c * w" using assms(1,4) by (simp_all only: Suc_leI mult_le_mono1)
  then have a: "Suc (y * h + cy) \<le> vres" and b: "x * w + cx < pps" using assms by simp_all
  have "(y * h + cy) * pps + (x * w + cx) < Suc (y * h + cy) * pps" using b by simp
  also have "\<dots> \<le> pps * vres" using mult_le_mono1 [OF a, of pps] by (simp add: mult.commute)
  finally show ?thesis .
qed

text \<open>The address of a pixel of the cell at the cursor, with nothing wrapped around.\<close>

lemma pixel_addr_exact:
  assumes g: "geometry_ok s" and c: "cursor_ok s"
    and cy: "cy < unat (psf_height (font_header s))" and cx: "cx < unat (psf_width (font_header s))"
  shows "\<exists>k. 4 * k + 4 \<le> fb_bytes s \<and> pixel_addr (get_offset s) cy cx s = fb_buffer s + of_nat (4 * k)"
proof -
  let ?pps = "unat (fb_pixels_per_scanline s)" and ?h = "unat (psf_height (font_header s))" and ?w = "unat (psf_width (font_header s))"
  let ?x = "unat (screen_x s)" and ?y = "unat (screen_y s)"
  define k where "k = (?y * ?h + cy) * ?pps + (?x * ?w + cx)"
  have "k < ?pps * unat (fb_vertical_res s)"
    unfolding k_def using g c cy cx by (intro cell_in_grid) (auto simp: geometry_ok_def cursor_ok_def word_less_nat_alt)
  then have k: "4 * k + 4 \<le> fb_bytes s" by (simp add: fb_bytes_def)
  have "4 * ?pps < 2 ^ 32"
  proof -
    have "4 * ?pps * 1 \<le> 4 * ?pps * unat (fb_vertical_res s)" using g by (intro mult_le_mono2) (simp add: geometry_ok_def)
    then have "4 * ?pps \<le> fb_bytes s" by (simp add: fb_bytes_def)
    then show ?thesis by (rule le_less_trans) (use g in \<open>simp only: geometry_ok_def\<close>)
  qed
  then have lb: "unat (line_bytes s) = 4 * ?pps"
    using g by (simp add: line_bytes_def geometry_ok_def unat_mult_nowrap)
  have uc: "(ucast v :: u64) = of_nat (unat v)" for v :: u32 by simp
  have ll: "(ucast (line_bytes s) :: u64) = of_nat (4 * ?pps)" by (simp only: uc lb)
  have bpp: "(ucast (fb_bpp s) :: u64) = of_nat 4" using g by (simp add: geometry_ok_def)
  have "get_offset s = of_nat (?y * ?h * (4 * ?pps) + ?x * ?w * 4)"
    unfolding get_offset_def ll bpp of_nat_add of_nat_mult by simp
  then have off: "get_offset s + of_nat cy * ucast (line_bytes s) = of_nat (?y * ?h * (4 * ?pps) + ?x * ?w * 4 + cy * (4 * ?pps))"
    by (simp only: ll of_nat_add of_nat_mult)
  have "(ucast (get_offset s + of_nat cy * ucast (line_bytes s)) :: u32) + of_nat cx * ucast (fb_bpp s) = of_nat (4 * k)"
  proof -
    have "(ucast (fb_bpp s) :: u32) = of_nat 4" using g by (simp add: geometry_ok_def)
    moreover have "4 * k = ?y * ?h * (4 * ?pps) + ?x * ?w * 4 + cy * (4 * ?pps) + cx * 4"
      by (simp add: k_def algebra_simps)
    ultimately show ?thesis unfolding off ucast_down_of_nat by (simp only: of_nat_add of_nat_mult)
  qed
  moreover have "4 * k < 2 ^ 32" using k g by (simp add: geometry_ok_def)
  ultimately have "pixel_addr (get_offset s) cy cx s = fb_buffer s + of_nat (4 * k)"
    unfolding pixel_addr_def by (simp only: ucast_up_of_nat)
  with k show ?thesis by blast
qed


lemma store32_outside:
  assumes "4 * k + 4 \<le> n" "unat b + n \<le> 2 ^ 64" "a \<notin> span b n"
  shows "store32 (b + of_nat (4 * k)) v m a = m a"
proof -
  have "b + of_nat (4 * k + i) \<in> span b n" if "i < 4" for i
    using assms(1,2) that by (intro span_offset [THEN iffD2]) linarith+
  from this [of 0] this [of 1] this [of 2] this [of 3] assms(3) show ?thesis
    by (auto simp: store32_def ac_simps)
qed

lemma putchar_outside:
  assumes g: "geometry_ok s" and c: "cursor_ok s" and a: "a \<notin> span (fb_buffer s) (fb_bytes s)"
  shows "vm_bytes (putchar ch s) a = vm_bytes s a"
proof -
  have b: "unat (fb_buffer s) + fb_bytes s \<le> 2 ^ 64" using g by (simp only: geometry_ok_def)
  have st: "store32 (pixel_addr (get_offset s) cy cx s) v m a = m a"
    if "cy < unat (psf_height (font_header s))" "cx < unat (psf_width (font_header s))" for cy cx v m
    using pixel_addr_exact [OF g c that] store32_outside [OF _ b a] by auto
  show ?thesis unfolding putchar_def Let_def
    by simp (rule for_upto_inv [where P = "\<lambda>_ m. m a = vm_bytes s a"], simp,
      rule for_upto_inv [where P = "\<lambda>_ m. m a = vm_bytes s a"], simp_all add: st)
qed

lemma clear_screen_outside:
  assumes g: "geometry_ok s" and a: "a \<notin> span (fb_buffer s) (fb_bytes s)"
  shows "vm_bytes (clear_screen s) a = vm_bytes s a"
proof -
  have b: "unat (fb_buffer s) + fb_bytes s \<le> 2 ^ 64" using g by (simp only: geometry_ok_def)
  have n: "unat (fb_pixels_per_scanline s * fb_vertical_res s) * 4 \<le> fb_bytes s"
    by (simp add: fb_bytes_def unat_word_ariths)
  have "store32 (fb_buffer s + 4 * of_nat i) v m a = m a" if "i < unat (fb_pixels_per_scanline s * fb_vertical_res s)" for i v m
    using store32_outside [of i, OF _ b a] n that by simp
  then show ?thesis unfolding clear_screen_def
    by simp (rule for_upto_inv [where P = "\<lambda>_ m. m a = vm_bytes s a"], simp_all)
qed

text \<open>\<open>draws s s'\<close>: from \<open>s\<close> to \<open>s'\<close> only the cursor moved and only bytes of the frame buffer changed.\<close>

definition draws :: "'a console_scheme \<Rightarrow> 'a console_scheme \<Rightarrow> bool" where
  "draws s s' \<longleftrightarrow> same_screen s s' \<and> (\<forall>a. a \<notin> span (fb_buffer s) (fb_bytes s) \<longrightarrow> vm_bytes s' a = vm_bytes s a)"

lemma draws_trans: "draws s t \<Longrightarrow> draws t u \<Longrightarrow> draws s u"
  using same_screen_sel [of s t] by (auto simp: draws_def fb_bytes_def intro: same_screen_trans)

lemma draws_cursor:
  "same_screen s s' \<Longrightarrow> vm_bytes s' = vm_bytes s \<Longrightarrow> draws s s'"
  by (simp add: draws_def)

lemma draws_putchar: "geometry_ok s \<Longrightarrow> cursor_ok s \<Longrightarrow> draws s (putchar c s)"
  by (simp add: draws_def putchar_screen putchar_outside)

lemma draws_scroll: "geometry_ok s \<Longrightarrow> draws s (scroll s)"
  by (simp add: draws_def scroll_def clear_screen_screen clear_screen_outside)

lemma draws_geometry: "draws s s' \<Longrightarrow> geometry_ok s' = geometry_ok s"
  by (simp add: draws_def geometry_ok_screen)

lemma find_last_char_loop_bytes: "vm_bytes (find_last_char_loop s) = vm_bytes s"
  by (induction s rule: find_last_char_loop.induct) (subst find_last_char_loop.simps, simp)

lemma find_last_char_bytes: "vm_bytes (find_last_char s) = vm_bytes s"
  by (simp add: find_last_char_def find_last_char_loop_bytes)

lemma draws_glyph:
  assumes "geometry_ok s" "cursor_ok s"
  shows "draws s (fb_print_glyph c s)"
proof -
  let ?p = "putchar c s"
  have p: "draws s ?p" using assms by (rule draws_putchar)
  have x: "draws s (?p\<lparr>screen_x := x\<rparr>)" "draws s (?p\<lparr>screen_x := x, screen_y := y\<rparr>)" for x y
    by (auto intro!: draws_trans [OF p] draws_cursor same_screen_x same_screen_xy)
  have "draws s (scroll t)" if "draws s t" for t
    using that draws_scroll [of t] assms(1) by (auto intro: draws_trans simp: draws_geometry)
  then show ?thesis unfolding fb_print_glyph_def Let_def using x by simp
qed

lemma fb_print_char_draws:
  assumes g: "geometry_ok s" and c: "cursor_ok s"
  shows "draws s (fb_print_char ch s)"
proof -
  have sc: "draws s (scroll t)" if "draws s t" for t
    using that draws_scroll [of t] g by (auto intro: draws_trans simp: draws_geometry)
  have tab: "draws s (for_upto n (\<lambda>_. fb_print_glyph 32) s) \<and> cursor_ok (for_upto n (\<lambda>_. fb_print_glyph 32) s)" for n
  proof (induction n)
    case 0
    show ?case using c draws_cursor [of s s] by simp
  next
    case (Suc n)
    let ?t = "for_upto n (\<lambda>_. fb_print_glyph 32) s"
    have "draws ?t (fb_print_glyph 32 ?t)" using Suc draws_geometry g by (intro draws_glyph) auto
    with Suc fb_print_glyph_cursor [of ?t] show ?case by (auto intro: draws_trans)
  qed
  have f: "draws s (find_last_char s)"
    using find_last_char_cursor [OF c] find_last_char_bytes by (auto intro: draws_cursor)
  then have "draws s (putchar 32 (find_last_char s))"
    using find_last_char_cursor [OF c] draws_geometry [OF f] g by (auto intro!: draws_trans [OF f] draws_putchar)
  moreover have "draws s (s\<lparr>screen_x := 0, screen_y := screen_y s + 1\<rparr>)"
    by (rule draws_cursor) (simp_all add: same_screen_xy)
  ultimately show ?thesis
    unfolding fb_print_char_def using sc tab draws_glyph [OF g c] by simp
qed


lemma fb_print_all_draws:
  assumes "geometry_ok s" "cursor_ok s"
  shows "cursor_ok (fold fb_print_char cs s) \<and> draws s (fold fb_print_char cs s)"
  using assms
proof (induction cs arbitrary: s)
  case Nil
  then show ?case by (simp add: draws_cursor)
next
  case (Cons c cs)
  have "draws s (fb_print_char c s)" "cursor_ok (fb_print_char c s)"
    using Cons.prems by (simp_all add: fb_print_char_draws fb_print_char_cursor(1))
  with Cons.IH [of "fb_print_char c s"] Cons.prems show ?case
    by (auto simp: draws_geometry intro: draws_trans)
qed

section \<open>Properties\<close>

text \<open>
  C16. Printing any sequence of characters (line feeds, tabs, backspaces and scrolling included) keeps
  the cursor on the screen and writes no byte outside the frame buffer; it changes nothing else of
  the kernel's state.
\<close>

theorem fb_print_stays_in_buffer:
  assumes "geometry_ok s" "cursor_ok s" "fold fb_print_char cs s = s'"
  shows "cursor_ok s' \<and> geometry_ok s' \<and> same_screen s s' \<and>
    (\<forall>a. a \<notin> span (fb_buffer s) (fb_bytes s) \<longrightarrow> vm_bytes s' a = vm_bytes s a)"
  using fb_print_all_draws [OF assms(1,2), of cs] assms(1,3) draws_geometry by (auto simp: draws_def geometry_ok_screen)

text \<open>A 640 by 480 screen with an 8 by 16 font and a 128-byte output buffer at 0x4000.\<close>

definition demo_font :: psf_font_t where
  "demo_font = \<lparr>psf_magic = 0x864AB572, psf_version = 0, psf_header_size = 32, psf_flags = 0, psf_num_glyph = 256,
     psf_bytes_per_glyph = 16, psf_height = 16, psf_width = 8\<rparr>"

definition demo_console :: console where
  "demo_console = kernel.extend demo_kernel
     (console.fields 0x9000 demo_font 80 30 3 0 0xFFFFFFFF 0 0x4000 0 Printer_fb False False)"

lemma demo_console_sel [simp]:
  "font_header demo_console = demo_font" "screen_num_cols demo_console = 80" "screen_num_rows demo_console = 30"
  "screen_x demo_console = 3" "screen_y demo_console = 0" "fb_bpp demo_console = 4" "fb_buffer demo_console = 0xA0000"
  "fb_pixels_per_scanline demo_console = 640" "fb_vertical_res demo_console = 480" "fb_buf demo_console = 0x4000"
  "fb_buf_pos demo_console = 0" "char_printer demo_console = Printer_fb" "printf_mutex demo_console = False"
  by (simp_all add: demo_console_def kernel.defs console.defs demo_kernel_def kheap.defs demo_heap_def vmem.defs)

lemma demo_geometry: "geometry_ok demo_console" "cursor_ok demo_console"
  by (simp_all add: geometry_ok_def fb_bytes_def cursor_ok_def demo_font_def)

theorem fb_print_stays_in_buffer_witness:
  "cursor_ok (fold fb_print_char [72, 105, 10, 8, 9] demo_console) \<and>
   vm_bytes (fold fb_print_char [72, 105, 10, 8, 9] demo_console) 0x4000 = vm_bytes demo_console 0x4000"
proof -
  have "0x4000 \<notin> span (fb_buffer demo_console) (fb_bytes demo_console)"
    by (simp add: span_iff fb_bytes_def)
  with fb_print_stays_in_buffer [OF demo_geometry refl, of "[72, 105, 10, 8, 9]"] show ?thesis by blast
qed

end
