(* ===== verification/Stdio.thy ===== *)
theory Stdio
  imports Framebuffer
begin

text \<open>
  Formatted output: \<^verbatim>\<open>src/kernel/io/stdio.c\<close>, the logger on top of it (\<^verbatim>\<open>src/kernel/kernel/logging.c\<close>), the
  progress bar (\<^verbatim>\<open>src/kernel/kernel/progress.c\<close>) and the serial port the first messages go to
  (\<^verbatim>\<open>src/kernel/drivers/qemu.c\<close>). Characters are collected in the array \<open>fb_buf\<close> of 128 bytes and handed to
  \<open>char_printer\<close> at every line feed; nothing checks the position against the size of the array. A format
  is the bytes of a string literal without its terminator; a \<^verbatim>\<open>char*\<close> argument is the text of a literal or a
  pointer. \<open>None\<close> is "does not return" or a step C leaves undefined (reading past the format or the
  arguments, calling a null printer).
\<close>

section \<open>Definitions\<close>

datatype va_arg = Num u64 | Lit "u8 list" | Ptr u64

definition str_bytes :: "string \<Rightarrow> u8 list" where
  "str_bytes = map of_char"

subsection \<open>qemu.c\<close>

partial_function (option) qemu_wait :: "device \<Rightarrow> 'a kernel_scheme \<Rightarrow> 'a kernel_scheme option" where
  [code]: "qemu_wait dev s =
     (let (v, s) = inb dev (0x3f8 + 5) s in if v AND 0x20 = 0 then qemu_wait dev s else Some s)"

definition qemu_write_char :: "device \<Rightarrow> u8 \<Rightarrow> 'a kernel_scheme \<Rightarrow> 'a kernel_scheme option" where
  "qemu_write_char dev ch s = map_option (outb 0x3f8 ch) (qemu_wait dev s)"

definition init_qemu :: "'a console_scheme \<Rightarrow> 'a console_scheme" where
  "init_qemu s =
     (let s = outb (0x3f8 + 1) 0x00 s;
          s = outb (0x3f8 + 3) 0x80 s;
          s = outb (0x3f8 + 0) 0x03 s;
          s = outb (0x3f8 + 1) 0x00 s;
          s = outb (0x3f8 + 3) 0x03 s;
          s = outb (0x3f8 + 2) 0xC7 s;
          s = outb (0x3f8 + 4) 0x0B s
      in s\<lparr>char_printer := Printer_qemu\<rparr>)"

subsection \<open>stdio.c\<close>

definition print_char :: "device \<Rightarrow> u8 \<Rightarrow> 'a console_scheme \<Rightarrow> 'a console_scheme option" where
  "print_char dev ch s =
     (case char_printer s of
        Printer_fb \<Rightarrow> Some (fb_print_char ch s)
      | Printer_qemu \<Rightarrow> qemu_write_char dev ch s
      | Printer_none \<Rightarrow> None)"

partial_function (option) flush_loop :: "device \<Rightarrow> u16 \<Rightarrow> 'a console_scheme \<Rightarrow> 'a console_scheme option" where
  [code]: "flush_loop dev i s =
     (if (ucast i :: u64) < fb_buf_pos s
      then Option.bind (print_char dev (vm_bytes s (fb_buf s + ucast i)) s) (flush_loop dev (i + 1))
      else Some s)"

definition flush_screen :: "device \<Rightarrow> 'a console_scheme \<Rightarrow> 'a console_scheme option" where
  "flush_screen dev s = map_option (\<lambda>s. s\<lparr>fb_buf_pos := 0\<rparr>) (flush_loop dev 0 s)"

definition put_buf :: "u8 \<Rightarrow> 'a console_scheme \<Rightarrow> 'a console_scheme" where
  "put_buf ch s = s\<lparr>vm_bytes := (vm_bytes s)(fb_buf s + fb_buf_pos s := ch), fb_buf_pos := fb_buf_pos s + 1\<rparr>"

partial_function (option) add_string_ptr :: "u64 \<Rightarrow> 'a console_scheme \<Rightarrow> 'a console_scheme option" where
  [code]: "add_string_ptr str s =
     (if vm_bytes s str \<noteq> 0 then add_string_ptr (str + 1) (put_buf (vm_bytes s str) s) else Some s)"

definition add_string :: "va_arg \<Rightarrow> 'a console_scheme \<Rightarrow> 'a console_scheme option" where
  "add_string arg s =
     (case arg of Lit bs \<Rightarrow> Some (fold put_buf (takeWhile (\<lambda>b. b \<noteq> 0) bs) s) | Ptr p \<Rightarrow> add_string_ptr p s | Num _ \<Rightarrow> None)"

definition add_unsigned :: "u64 \<Rightarrow> u64 \<Rightarrow> 'a console_scheme \<Rightarrow> 'a console_scheme option" where
  "add_unsigned radix v s =
     map_option (\<lambda>(n, m). s\<lparr>vm_bytes := m, fb_buf_pos := fb_buf_pos s + of_nat n\<rparr>)
       (ultoa v (fb_buf s + fb_buf_pos s) radix (vm_bytes s))"

definition add_signed :: "u64 \<Rightarrow> 'a console_scheme \<Rightarrow> 'a console_scheme" where
  "add_signed v s =
     (let (n, m) = itoa (sint v) (fb_buf s + fb_buf_pos s) 21 10 (vm_bytes s)
      in s\<lparr>vm_bytes := m, fb_buf_pos := fb_buf_pos s + word_of_int n\<rparr>)"

text \<open>One conversion: the \<^verbatim>\<open>switch\<close> on the character behind \<open>%\<close>, and the arguments left.\<close>

definition conversion :: "device \<Rightarrow> u8 \<Rightarrow> va_arg list \<Rightarrow> 'a console_scheme \<Rightarrow> (va_arg list \<times> 'a console_scheme) option" where
  "conversion dev c args s =
     (if c = 115 then (case args of a # args \<Rightarrow> map_option (Pair args) (add_string a s) | [] \<Rightarrow> None)
      else if c = 99 then (case args of Num v # args \<Rightarrow>
          let ch = ucast v; s = put_buf ch s in map_option (Pair args) (if ch = 10 then flush_screen dev s else Some s) | _ \<Rightarrow> None)
      else if c = 100 then (case args of Num v # args \<Rightarrow> Some (args, add_signed v s) | _ \<Rightarrow> None)
      else if c = 117 then (case args of Num v # args \<Rightarrow> map_option (Pair args) (add_unsigned 10 v s) | _ \<Rightarrow> None)
      else if c = 120 then (case args of Num v # args \<Rightarrow>
          map_option (Pair args) (Option.bind (add_string (Lit [48, 120]) s) (add_unsigned 16 v)) | _ \<Rightarrow> None)
      else if c = 98 then (case args of Num v # args \<Rightarrow>
          map_option (Pair args) (Option.bind (add_string (Lit [48, 98]) s) (add_unsigned 2 v)) | _ \<Rightarrow> None)
      else Some (args, s))"

fun vprintf :: "device \<Rightarrow> u8 list \<Rightarrow> va_arg list \<Rightarrow> 'a console_scheme \<Rightarrow> 'a console_scheme option" where
  "vprintf dev [] args s = Some s"
| "vprintf dev (c # cs) args s =
     (if c \<noteq> 37
      then Option.bind (if c = 10 then flush_screen dev (put_buf c s) else Some (put_buf c s)) (vprintf dev cs args)
      else case cs of
        [] \<Rightarrow> None
      | d # ds \<Rightarrow> Option.bind (conversion dev d args s) (\<lambda>(args, s).
          Option.bind (if d = 10 then flush_screen dev s else Some s) (vprintf dev ds args)))"

text \<open>\<open>printf\<close> spins while the lock is taken: with no other processor to release it, it does not return.\<close>

definition printf :: "device \<Rightarrow> u8 list \<Rightarrow> va_arg list \<Rightarrow> 'a console_scheme \<Rightarrow> 'a console_scheme option" where
  "printf dev format args s =
     (if printf_mutex s then None
      else map_option (\<lambda>s. s\<lparr>printf_mutex := False\<rparr>) (vprintf dev format args (s\<lparr>printf_mutex := True\<rparr>)))"

definition printf_at :: "device \<Rightarrow> u64 \<Rightarrow> u64 \<Rightarrow> u8 list \<Rightarrow> va_arg list \<Rightarrow> 'a console_scheme \<Rightarrow> 'a console_scheme option" where
  "printf_at dev x y format args s =
     (if printf_mutex s then None
      else let old_x = screen_x s; old_y = screen_y s in
        Option.bind (vprintf dev format args (s\<lparr>printf_mutex := True, screen_x := x, screen_y := y\<rparr>)) (\<lambda>s.
        Option.bind (flush_screen dev s) (\<lambda>s.
          Some (s\<lparr>screen_x := old_x, screen_y := old_y, printf_mutex := False\<rparr>))))"

subsection \<open>logging.c\<close>

datatype log_level_t = Error | Warning | Info | Verbose | Debug | Trace

primrec log_level_num :: "log_level_t \<Rightarrow> nat" where
  "log_level_num Error = 0"
| "log_level_num Warning = 1"
| "log_level_num Info = 2"
| "log_level_num Verbose = 3"
| "log_level_num Debug = 4"
| "log_level_num Trace = 5"

definition MIN_LOG_LEVEL :: log_level_t where "MIN_LOG_LEVEL = Verbose"

primrec log_levels :: "log_level_t \<Rightarrow> string" where
  "log_levels Error = ''ERROR''"
| "log_levels Warning = ''WARNING''"
| "log_levels Info = ''INFO''"
| "log_levels Verbose = ''VERBOSE''"
| "log_levels Debug = ''DEBUG''"
| "log_levels Trace = ''TRACE''"

definition log_msg :: "device \<Rightarrow> log_level_t \<Rightarrow> u8 list \<Rightarrow> u8 list \<Rightarrow> va_arg list \<Rightarrow> 'a console_scheme \<Rightarrow> 'a console_scheme option" where
  "log_msg dev log_level target format args s =
     (if log_level_num log_level > log_level_num MIN_LOG_LEVEL then Some s
      else if log_mutex s then None
      else Option.bind (printf dev (str_bytes ''[%u][%s] %s: '')
             [Num (ucast (k_CPU s)), Lit (str_bytes (log_levels log_level)), Lit target] (s\<lparr>log_mutex := True\<rparr>)) (\<lambda>s.
           Option.bind (vprintf dev format args s) (\<lambda>s.
           Option.bind (printf dev [10] [] s) (\<lambda>s. Some (s\<lparr>log_mutex := False\<rparr>)))))"

subsection \<open>progress.c\<close>

record progress = console +
  pg_length :: u64
  pg_bar_length :: u64
  pg_clength :: u64

definition repeat_printf :: "device \<Rightarrow> nat \<Rightarrow> u8 list \<Rightarrow> 'a console_scheme \<Rightarrow> 'a console_scheme option" where
  "repeat_printf dev n format s = for_opt n (\<lambda>_. printf dev format []) s"

definition update_progress :: "device \<Rightarrow> u64 \<Rightarrow> 'a progress_scheme \<Rightarrow> 'a progress_scheme option" where
  "update_progress dev completed s =
     (let bar_completed = completed * pg_bar_length s div pg_length s in
      if bar_completed = pg_clength s then Some s
      else let s = s\<lparr>pg_clength := bar_completed, screen_y := screen_y s - 1, screen_x := 0\<rparr> in
        Option.bind (printf dev (str_bytes ''['') [] s) (\<lambda>s.
        Option.bind (repeat_printf dev (unat (pg_clength s)) (str_bytes ''-'') s) (\<lambda>s.
        Option.bind (repeat_printf dev (unat (100 - pg_clength s)) (str_bytes '' '') s) (\<lambda>s.
        Option.bind (printf dev (str_bytes '']'') [] s) (\<lambda>s. flush_screen dev s)))))"

definition create_progress :: "device \<Rightarrow> u64 \<Rightarrow> 'a progress_scheme \<Rightarrow> 'a progress_scheme option" where
  "create_progress dev plength s =
     update_progress dev 0 (s\<lparr>pg_length := plength, pg_bar_length := screen_num_cols s - 2, pg_clength := 0,
       screen_y := screen_y s + 1\<rparr>)"

section \<open>Specification\<close>

text \<open>
  What a format and its arguments stand for: the characters, in order. String arguments are literals
  without line feeds (these are buffered but not flushed); \<open>%d\<close> is left out.
\<close>

definition number_chars :: "nat \<Rightarrow> u64 \<Rightarrow> u8 list" where
  "number_chars r v = map (\<lambda>d. ultoa_char (of_nat d)) (digits r (unat v))"

definition render_conv :: "u8 \<Rightarrow> va_arg list \<Rightarrow> (u8 list \<times> va_arg list) option" where
  "render_conv c args =
     (case args of
        Lit bs # args \<Rightarrow> if c = 115 \<and> 10 \<notin> set bs then Some (takeWhile (\<lambda>b. b \<noteq> 0) bs, args) else None
      | Num v # args \<Rightarrow>
          if c = 99 then Some ([ucast v], args)
          else if c = 117 then Some (number_chars 10 v, args)
          else if c = 120 then Some ([48, 120] @ number_chars 16 v, args)
          else if c = 98 then Some ([48, 98] @ number_chars 2 v, args)
          else None
      | _ \<Rightarrow> None)"

fun render :: "u8 list \<Rightarrow> va_arg list \<Rightarrow> u8 list option" where
  "render [] args = Some []"
| "render (c # cs) args =
     (if c \<noteq> 37 then map_option ((#) c) (render cs args)
      else case cs of
        [] \<Rightarrow> None
      | d # ds \<Rightarrow> (case render_conv d args of None \<Rightarrow> None | Some (out, args) \<Rightarrow> map_option ((@) out) (render ds args)))"

text \<open>Emitting a character: into the buffer, and a line feed flushes the buffer.\<close>

definition emit :: "device \<Rightarrow> u8 \<Rightarrow> 'a console_scheme \<Rightarrow> 'a console_scheme option" where
  "emit dev c s = (if c = 10 then flush_screen dev (put_buf c s) else Some (put_buf c s))"

primrec emits :: "device \<Rightarrow> u8 list \<Rightarrow> 'a console_scheme \<Rightarrow> 'a console_scheme option" where
  "emits dev [] s = Some s"
| "emits dev (c # cs) s = Option.bind (emit dev c s) (emits dev cs)"

section \<open>The buffer\<close>

lemma put_buf_sel [simp]:
  "fb_buf (put_buf c s) = fb_buf s" "fb_buf_pos (put_buf c s) = fb_buf_pos s + 1"
  by (simp_all add: put_buf_def)

lemma fold_put_buf:
  assumes "length cs < 2 ^ 64"
  shows "fold put_buf cs s = s\<lparr>vm_bytes := (\<lambda>a. if a \<in> span (fb_buf s + fb_buf_pos s) (length cs)
      then cs ! unat (a - (fb_buf s + fb_buf_pos s)) else vm_bytes s a),
    fb_buf_pos := fb_buf_pos s + of_nat (length cs)\<rparr>"
  using assms
proof (induction cs rule: rev_induct)
  case Nil
  then show ?case by (simp add: span_iff)
next
  case (snoc c cs)
  let ?p = "fb_buf s + fb_buf_pos s" and ?n = "length cs"
  have n: "?n < 2 ^ 64" using snoc.prems by simp
  have "((\<lambda>a. if a \<in> span ?p ?n then cs ! unat (a - ?p) else vm_bytes s a)(?p + of_nat ?n := c)) =
      (\<lambda>a. if a \<in> span ?p (Suc ?n) then (cs @ [c]) ! unat (a - ?p) else vm_bytes s a)"
  proof
    fix a
    have "a = ?p + of_nat ?n \<longleftrightarrow> unat (a - ?p) = ?n" using n by (rule offset_eq_iff)
    then show "((\<lambda>a. if a \<in> span ?p ?n then cs ! unat (a - ?p) else vm_bytes s a)(?p + of_nat ?n := c)) a =
        (if a \<in> span ?p (Suc ?n) then (cs @ [c]) ! unat (a - ?p) else vm_bytes s a)"
      by (auto simp: span_iff nth_append less_Suc_eq)
  qed
  with snoc.IH n show ?case by (simp add: put_buf_def add.assoc)
qed

lemma add_unsigned_fold:
  assumes "2 \<le> unat radix"
  shows "add_unsigned radix v s = Some (fold put_buf (number_chars (unat radix) v) s)"
proof -
  let ?cs = "number_chars (unat radix) v"
  have "length ?cs \<le> 64"
    using digits_length64 [OF assms unat_lt_exp64 [of v]] by (simp add: number_chars_def)
  then have "length ?cs < 2 ^ 64" by simp
  moreover have "ultoa v str radix m = Some (length ?cs, \<lambda>a. if a \<in> span str (length ?cs) then ?cs ! unat (a - str) else m a)" for str m
    unfolding number_chars_def by (rule ultoa_eq [OF assms])
  ultimately show ?thesis by (simp add: add_unsigned_def fold_put_buf)
qed

lemma number_chars_no_lf:
  assumes "2 \<le> r" "r \<le> 36"
  shows "10 \<notin> set (number_chars r v)"
proof
  assume "10 \<in> set (number_chars r v)"
  then obtain d where d: "d \<in> set (digits r (unat v))" "ultoa_char (of_nat d) = 10"
    by (auto simp: number_chars_def)
  then have "d < 36" using digits_props(3) [OF assms(1) d(1)] assms(2) by simp
  from unat_ultoa_char [OF this] d(2) show False by (simp split: if_splits)
qed

section \<open>Formats\<close>

lemma emits_append: "emits dev (xs @ ys) s = Option.bind (emits dev xs s) (emits dev ys)"
proof (induction xs arbitrary: s)
  case (Cons c xs)
  then show ?case by (cases "emit dev c s") simp_all
qed simp

lemma emits_no_lf: "10 \<notin> set xs \<Longrightarrow> emits dev xs s = Some (fold put_buf xs s)"
  by (induction xs arbitrary: s) (auto simp: emit_def)

lemma render_conv_cases:
  assumes "render_conv c args = Some (out, args')"
  obtains (lit) bs where "c = 115" "args = Lit bs # args'" "out = takeWhile (\<lambda>b. b \<noteq> 0) bs" "10 \<notin> set bs"
  | (chr) v where "c = 99" "args = Num v # args'" "out = [ucast v]"
  | (dec) v where "c = 117" "args = Num v # args'" "out = number_chars 10 v"
  | (hex) v where "c = 120" "args = Num v # args'" "out = [48, 120] @ number_chars 16 v"
  | (bin) v where "c = 98" "args = Num v # args'" "out = [48, 98] @ number_chars 2 v"
  using assms by (auto simp: render_conv_def split: list.splits va_arg.splits if_splits)

lemma conversion_emits:
  assumes "render_conv c args = Some (out, args')"
  shows "conversion dev c args s = map_option (Pair args') (emits dev out s)" "c \<noteq> 10"
proof -
  show "conversion dev c args s = map_option (Pair args') (emits dev out s)"
    using assms
  proof (cases rule: render_conv_cases)
    case (lit bs)
    have "10 \<notin> set (takeWhile (\<lambda>b. b \<noteq> 0) bs)" using lit(4) by (auto dest: set_takeWhileD)
    with lit show ?thesis by (simp add: conversion_def add_string_def emits_no_lf)
  next
    case (chr v)
    then show ?thesis by (cases "flush_screen dev (put_buf 10 s)") (simp_all add: conversion_def emit_def Let_def)
  next
    case (dec v)
    then show ?thesis using add_unsigned_fold [of 10 v s] number_chars_no_lf [of 10 v]
      by (simp add: conversion_def emits_no_lf)
  next
    case (hex v)
    then show ?thesis using add_unsigned_fold [of 16 v] number_chars_no_lf [of 16 v]
      by (simp add: conversion_def emits_no_lf add_string_def emit_def)
  next
    case (bin v)
    then show ?thesis using add_unsigned_fold [of 2 v] number_chars_no_lf [of 2 v]
      by (simp add: conversion_def emits_no_lf add_string_def emit_def)
  qed
  show "c \<noteq> 10" using assms by (cases rule: render_conv_cases) auto
qed

lemma vprintf_emits: "render fmt args = Some out \<Longrightarrow> vprintf dev fmt args s = emits dev out s" for s :: "'a console_scheme"
proof (induction fmt args arbitrary: out s rule: render.induct)
  case (1 args)
  then show ?case by simp
next
  case (2 c cs args)
  show ?case
  proof (cases "c = 37")
    case False
    with 2(3) obtain o' where o': "render cs args = Some o'" "out = c # o'" by auto
    with 2(1) [OF False] False show ?thesis
      by (cases "flush_screen dev (put_buf 10 s)") (simp_all add: emit_def)
  next
    case True
    with 2(3) obtain d ds o1 args' o2 where d: "cs = d # ds" "render_conv d args = Some (o1, args')"
        "render ds args' = Some o2" "out = o1 @ o2"
      by (auto split: list.splits option.splits)
    have ih: "vprintf dev ds args' t = emits dev o2 t" for t :: "'a console_scheme"
      using True by (intro 2(2) [OF _ d(1) d(2) refl d(3)]) simp
    show ?thesis using True d
      by (cases "emits dev o1 s") (simp_all add: emits_append conversion_emits [OF d(2)] ih)
  qed
qed

section \<open>Flushing\<close>

text \<open>The output buffer and the frame buffer are apart.\<close>

definition buffers_apart :: "'a console_scheme \<Rightarrow> bool" where
  "buffers_apart s \<longleftrightarrow> span (fb_buf s) 128 \<inter> span (fb_buffer s) (fb_bytes s) = {}"

definition buffered :: "'a console_scheme \<Rightarrow> u8 list" where
  "buffered s = map (\<lambda>i. vm_bytes s (fb_buf s + of_nat i)) [0..<unat (fb_buf_pos s)]"

lemma ucast_index: "n < 2 ^ 16 \<Longrightarrow> (ucast (of_nat n :: u16) :: u64) = of_nat n"
  by (rule word_unat_eq_iff [THEN iffD2]) (simp add: unsigned_ucast_eq unat_of_nat take_bit_eq_mod)

lemma flush_loop_fold:
  assumes "i \<le> unat (fb_buf_pos s)" "unat (fb_buf_pos s) \<le> 128" "char_printer s = Printer_fb"
    "geometry_ok s" "cursor_ok s" "buffers_apart s"
  shows "flush_loop dev (of_nat i) s = Some (fold fb_print_char (drop i (buffered s)) s)"
  using assms
proof (induction "unat (fb_buf_pos s) - i" arbitrary: i s)
  case 0
  then have i: "i = unat (fb_buf_pos s)" "i < 2 ^ 16" by simp_all
  then have "(ucast (of_nat i :: u16) :: u64) = fb_buf_pos s"
    by (subst ucast_index) simp_all
  then show ?case using i by (subst flush_loop.simps) (simp add: buffered_def)
next
  case (Suc k)
  let ?c = "vm_bytes s (fb_buf s + of_nat i)" and ?t = "fb_print_char (vm_bytes s (fb_buf s + of_nat i)) s"
  have i: "i < unat (fb_buf_pos s)" "i < 2 ^ 16" using Suc.hyps(2) Suc.prems(2) by simp_all
  have u: "(ucast (of_nat i :: u16) :: u64) = of_nat i"
    using i(2) by (rule ucast_index)
  have lt: "(of_nat i :: u64) < fb_buf_pos s" using i by (simp add: word_less_nat_alt unat_of_nat64)
  have d: "draws s ?t" "cursor_ok ?t" using Suc.prems by (simp_all add: fb_print_char_draws fb_print_char_cursor(1))
  have sel: "fb_buf ?t = fb_buf s" "fb_buf_pos ?t = fb_buf_pos s" "char_printer ?t = char_printer s" "fb_buffer ?t = fb_buffer s"
    "fb_bytes ?t = fb_bytes s"
    using same_screen_sel [of s ?t] d(1) by (simp_all add: draws_def fb_bytes_def)
  have keep: "vm_bytes ?t (fb_buf s + of_nat j) = vm_bytes s (fb_buf s + of_nat j)" if "j < unat (fb_buf_pos s)" for j
  proof -
    have "fb_buf s + of_nat j \<in> span (fb_buf s) 128"
      using that Suc.prems(2) by (intro span_offset [THEN iffD2]) simp_all
    then have "fb_buf s + of_nat j \<notin> span (fb_buffer s) (fb_bytes s)"
      using Suc.prems(6) unfolding buffers_apart_def by blast
    then show ?thesis using d(1) by (simp add: draws_def)
  qed
  have bt: "buffered ?t = buffered s" using keep by (simp add: buffered_def sel)
  have "flush_loop dev (of_nat (Suc i)) ?t = Some (fold fb_print_char (drop (Suc i) (buffered ?t)) ?t)"
    using Suc.hyps(2) Suc.prems i draws_geometry [OF d(1)] d(2)
    by (intro Suc.hyps(1)) (simp_all add: sel buffers_apart_def)
  moreover have "drop i (buffered s) = ?c # drop (Suc i) (buffered s)"
    by (simp add: buffered_def drop_map upt_conv_Cons [OF i(1)])
  ultimately show ?case using lt Suc.prems(3)
    by (subst flush_loop.simps) (simp add: u print_char_def bt add.commute)
qed

lemma flush_screen_fold:
  assumes "unat (fb_buf_pos s) \<le> 128" "char_printer s = Printer_fb" "geometry_ok s" "cursor_ok s" "buffers_apart s"
  shows "flush_screen dev s = Some ((fold fb_print_char (buffered s) s)\<lparr>fb_buf_pos := 0\<rparr>)"
  using flush_loop_fold [of 0 s dev] assms by (simp add: flush_screen_def)


section \<open>Properties\<close>



text \<open>
  Flushing prints the buffered characters on the screen in the order they were buffered, each once,
  and empties the buffer, although every character drawn changes memory; it returns.
\<close>

theorem flush_screen_prints_buffer:
  assumes "unat (fb_buf_pos s) \<le> 128" "char_printer s = Printer_fb" "geometry_ok s" "cursor_ok s" "buffers_apart s"
  shows "flush_screen dev s = Some ((fold fb_print_char (buffered s) s)\<lparr>fb_buf_pos := 0\<rparr>)"
  using assms by (rule flush_screen_fold)

lemma demo_buffers_apart: "buffers_apart (put_buf 65 demo_console)"
proof -
  have "fb_bytes (put_buf 65 demo_console) = 1228800" "fb_buffer (put_buf 65 demo_console) = 0xA0000"
    by (simp_all add: fb_bytes_def put_buf_def)
  then show ?thesis unfolding buffers_apart_def
    using span_nowrap [of "0x4000" 128] span_nowrap [of "0xA0000" 1228800] by auto
qed

theorem flush_screen_prints_buffer_witness:
  "flush_screen (\<lambda>_. 0) (put_buf 65 demo_console) = Some ((fb_print_char 65 (put_buf 65 demo_console))\<lparr>fb_buf_pos := 0\<rparr>)"
proof -
  let ?s = "put_buf 65 demo_console"
  have "geometry_ok ?s" "cursor_ok ?s" using demo_geometry by (simp_all add: put_buf_def geometry_ok_def fb_bytes_def cursor_ok_def)
  moreover have "char_printer ?s = Printer_fb" "fb_buf_pos ?s = 1" "buffered ?s = [65]"
    by (simp_all add: put_buf_def buffered_def)
  ultimately show ?thesis using flush_screen_prints_buffer [OF _ _ _ _ demo_buffers_apart] by simp
qed

text \<open>
  The output buffer has no bound: a rendering without a line feed that does not fit into what is
  left of the 128 bytes still returns, and overwrites the byte behind the array.
\<close>

theorem vprintf_overflows_buffer:
  assumes "render fmt args = Some out" "10 \<notin> set out" "unat (fb_buf_pos s) \<le> 128" "128 < unat (fb_buf_pos s) + length out"
    "length out < 2 ^ 63"
  shows "\<exists>s'. vprintf dev fmt args s = Some s' \<and> fb_buf_pos s' > 128 \<and>
     vm_bytes s' (fb_buf s + 128) = out ! (128 - unat (fb_buf_pos s))"
proof -
  let ?p = "fb_buf_pos s" and ?k = "128 - unat (fb_buf_pos s)"
  have call: "vprintf dev fmt args s = Some (fold put_buf out s)"
    by (simp add: vprintf_emits [OF assms(1)] emits_no_lf [OF assms(2)])
  have len: "length out < 2 ^ 64" using assms(5) by simp
  have "128 = ?p + of_nat ?k"
    using assms(3) by simp
  then have a: "fb_buf s + 128 - (fb_buf s + ?p) = of_nat ?k" using assms(3) by simp
  moreover have "unat (of_nat ?k :: u64) = ?k" by (simp add: unat_of_nat64)
  moreover have "?k < length out" using assms(3,4) by linarith
  ultimately have "vm_bytes (fold put_buf out s) (fb_buf s + 128) = out ! ?k"
    by (simp add: fold_put_buf [OF len] span_iff a)
  moreover have "unat (?p + of_nat (length out)) = unat ?p + length out"
    using assms(3,5) by (subst unat_add_nowrap) (simp_all add: unat_of_nat64)
  then have "fb_buf_pos (fold put_buf out s) > 128"
    using assms(4) by (simp add: fold_put_buf [OF len] word_less_nat_alt)
  ultimately show ?thesis using call by blast
qed

theorem vprintf_overflows_buffer_witness:
  "\<exists>s'. vprintf (\<lambda>_. 0) (str_bytes ''%s'') [Lit (replicate 200 65)] demo_console = Some s' \<and> vm_bytes s' 0x4080 = 65"
proof -
  have "takeWhile (\<lambda>b. b \<noteq> 0) (replicate 200 65) = (replicate 200 65 :: u8 list)"
    by (rule takeWhile_eq_all_conv [THEN iffD2]) simp
  then have "render (str_bytes ''%s'') [Lit (replicate 200 65)] = Some (replicate 200 65)"
    by (simp add: str_bytes_def of_char_def render_conv_def)
  from vprintf_overflows_buffer [OF this, of demo_console "\<lambda>_. 0"] show ?thesis by auto
qed

end
