(* ===== verification/Threads.thy ===== *)
theory Threads
  imports Stdio
begin

text \<open>
  Threads, \<^verbatim>\<open>src/kernel/scheduler/thread.c\<close>: creation with an address space, a heap and a stack of their own,
  release, the allocation calls of the running thread and the two system calls (\<^verbatim>\<open>isr.c\<close>, \<^verbatim>\<open>cpu.c\<close>). The
  thread structure and its register frame are in the kernel's heap, which every address space maps;
  what is done while \<open>cr3\<close> holds the thread's table goes through \<open>space_op\<close>. The address of the C function
  \<open>thread_wrapper\<close> is a parameter.
\<close>

section \<open>Definitions\<close>

text \<open>An operation on the virtual memory manager inside the structure of thread \<open>p\<close>.\<close>

definition on_vmm :: "u64 \<Rightarrow> (vmm_t \<Rightarrow> 'a kernel_scheme \<Rightarrow> ('b \<times> vmm_t \<times> 'a kernel_scheme) option) \<Rightarrow>
    'a kernel_scheme \<Rightarrow> ('b \<times> 'a kernel_scheme) option" where
  "on_vmm p f s = Option.bind
     (space_op (\<lambda>s. map_option (\<lambda>(r, vi, s). ((r, vi), s)) (f (t_vmm (k_threads s p)) s)) s)
     (\<lambda>((r, vi), s). Some (r, thread_update p (\<lambda>t. t\<lparr>t_vmm := vi\<rparr>) s))"

definition init_thread_vmm :: "u64 \<Rightarrow> 'a kernel_scheme \<Rightarrow> 'a kernel_scheme option" where
  "init_thread_vmm thread s =
     Option.bind (alloc_frame s) (\<lambda>(p4_tbl, s).
       let s = thread_update thread (\<lambda>t. t\<lparr>t_vmm := (t_vmm t)\<lparr>vm_p4_tbl := p4_tbl\<rparr>\<rparr>) s;
           s = clean_table p4_tbl s
       in Option.bind (map_addr p4_tbl p4_tbl KERNEL_PT_ENTRY p4_tbl s) (\<lambda>s.
          Option.bind (map_addr (c_stack (this_cpu s)) (VADDR (c_stack (this_cpu s))) KERNEL_PT_ENTRY p4_tbl s) (\<lambda>s.
          Option.bind (map_kernel_entries p4_tbl s) (\<lambda>s.
          Option.bind (map_framebuffer p4_tbl USER_PT_ENTRY s) (\<lambda>s.
          Option.bind (map_lapic p4_tbl s) (\<lambda>s.
          Option.bind (map_heap (k_heap s) (km_pml4 s) p4_tbl s) (\<lambda>s.
          Option.bind (map_pmm p4_tbl s) (\<lambda>s.
          let s = load_cr3 p4_tbl s in
          Option.bind (on_vmm thread (\<lambda>vi s. map_option (Pair ()) (init_vmm User 32 vi s)) s) (\<lambda>(_, s).
          Option.bind (on_vmm thread (\<lambda>vi s. heap_add 1 HEAP_DEFAULT_BS vi NULL s) s) (\<lambda>(heap, s).
          let s = thread_update thread (\<lambda>t. t\<lparr>t_heap := heap\<rparr>) s in
          Option.bind (on_vmm thread (valloc THREAD_STACK_PAGES) s) (\<lambda>(stack, s).
          let s = thread_update thread (\<lambda>t. t\<lparr>t_stack := stack\<rparr>) s in
          Some (load_cr3 (PADDR (km_pml4 s)) s))))))))))))"

text \<open>\<open>thread_frame\<close> is the register frame a new thread starts from.\<close>

definition thread_frame :: "u64 \<Rightarrow> u64 \<Rightarrow> bool \<Rightarrow> u64 \<Rightarrow> cpu_status_t \<Rightarrow> cpu_status_t" where
  "thread_frame wrapper entry_point safety stack ef =
     (let ef = ef\<lparr>cs_int_no := 0x101, cs_err_code := 0\<rparr>;
          ef = (if safety then ef\<lparr>cs_rip := wrapper, cs_rdi := entry_point\<rparr> else ef\<lparr>cs_rip := entry_point\<rparr>)
      in ef\<lparr>cs_rflags := 0x202, cs_ss := (4 * 8) OR 3, cs_cs := (3 * 8) OR 3,
            cs_rsp := stack + THREAD_STACK_PAGES * PAGE_SIZE, cs_rbp := 0\<rparr>)"

definition create_thread :: "u64 \<Rightarrow> u64 \<Rightarrow> u64 \<Rightarrow> bool \<Rightarrow> 'a kernel_scheme \<Rightarrow> (u64 \<times> 'a kernel_scheme) option" where
  "create_thread wrapper name entry_point safety s =
     Option.bind (halloc sizeof_thread_t (k_heap s) s) (\<lambda>(thread, s).
     Option.bind (halloc sizeof_cpu_status_t (k_heap s) s) (\<lambda>(ef, s).
     let s = thread_update thread (\<lambda>t. t\<lparr>t_ef := ef\<rparr>) s in
     Option.bind (init_thread_vmm thread s) (\<lambda>s.
     let s = thread_update thread (\<lambda>t. t\<lparr>t_status := NEW, t_wakeup_time := 0\<rparr>) s in
     Option.bind (strcpy thread name (vm_bytes s)) (\<lambda>m.
     let s = s\<lparr>vm_bytes := m\<rparr>;
         s = thread_update thread (\<lambda>t. t\<lparr>t_next := NULL, t_ticks := 0\<rparr>) s;
         s = ef_update (t_ef (k_threads s thread))
               (thread_frame wrapper entry_point safety (t_stack (k_threads s thread))) s
     in Some (thread, s)))))"

definition free_thread :: "u64 \<Rightarrow> 'a kernel_scheme \<Rightarrow> 'a kernel_scheme option" where
  "free_thread thread s =
     Option.bind (on_vmm thread (\<lambda>vi s. Some ((), vfree (t_stack (k_threads s thread)) vi s)) s) (\<lambda>(_, s).
     let s = load_cr3 (PADDR (km_pml4 s)) s;
         s = free_page_table (vm_p4_tbl (t_vmm (k_threads s thread))) 4 s
     in Option.bind (on_vmm thread (\<lambda>vi s. map_option (Pair ()) (free_heap vi (t_heap (k_threads s thread)) s)) s)
          (\<lambda>(_, s). Some s))"

subsection \<open>The running thread\<close>

definition cur_heap :: "'a kernel_scheme \<Rightarrow> u64" where
  "cur_heap s = t_heap (k_threads s (c_cur (this_cpu s)))"

definition malloc :: "u64 \<Rightarrow> 'a kernel_scheme \<Rightarrow> (u64 \<times> 'a kernel_scheme) option" where
  "malloc sz s = space_op (halloc sz (cur_heap s)) s"

definition free :: "u64 \<Rightarrow> 'a kernel_scheme \<Rightarrow> (unit \<times> 'a kernel_scheme) option" where
  "free ptr s = space_op (\<lambda>t. map_option (Pair ()) (hfree ptr (cur_heap s) t)) s"

definition realloc :: "u64 \<Rightarrow> u64 \<Rightarrow> 'a kernel_scheme \<Rightarrow> (u64 \<times> 'a kernel_scheme) option" where
  "realloc ptr sz s = space_op (hrealloc ptr sz (cur_heap s)) s"

subsection \<open>System calls\<close>

definition thread_sleep_syscall :: "u64 \<Rightarrow> 'a kernel_scheme \<Rightarrow> 'a kernel_scheme" where
  "thread_sleep_syscall status s =
     thread_update (c_cur (this_cpu s))
       (\<lambda>t. t\<lparr>t_status := SLEEP, t_wakeup_time := c_ticks (this_cpu s) + cs_rdi (k_efs s status)\<rparr>) s"

definition thread_dead_syscall :: "'a kernel_scheme \<Rightarrow> 'a kernel_scheme" where
  "thread_dead_syscall s = thread_update (c_cur (this_cpu s)) (\<lambda>t. t\<lparr>t_status := DEAD\<rparr>) s"

definition syscall_handler :: "u64 \<Rightarrow> 'a kernel_scheme \<Rightarrow> u64 \<times> 'a kernel_scheme" where
  "syscall_handler status s =
     (let sid = cs_rax (k_efs s status) in
      (status, if sid = 1 then thread_sleep_syscall status s else if sid = 2 then thread_dead_syscall s else s))"

text \<open>\<open>syscall\<close> puts the number and up to six arguments into registers; a seventh is written past the array.\<close>

definition syscall_regs :: "u64 \<Rightarrow> u64 list \<Rightarrow> cpu_status_t \<Rightarrow> cpu_status_t option" where
  "syscall_regs sid args r =
     (if length args \<le> 6
      then let regs = args @ replicate (6 - length args) 0
           in Some (r\<lparr>cs_rax := sid, cs_rdi := regs ! 0, cs_rsi := regs ! 1, cs_rdx := regs ! 2, cs_r10 := regs ! 3,
                cs_r8 := regs ! 4, cs_r9 := regs ! 5\<rparr>)
      else None)"

section \<open>Steps that return\<close>

text \<open>Sequences of mapping operations return and change the tables and the frame bitmap only.\<close>

lemma shrinks_bind:
  assumes "shrinks f s" "\<And>t. wf_pmm t \<Longrightarrow> pt_only s t \<Longrightarrow> shrinks g t"
  shows "shrinks (\<lambda>s. Option.bind (f s) g) s"
proof -
  obtain t where t: "f s = Some t" "wf_pmm t" "free_frames t \<subseteq> free_frames s" "pt_only s t"
    using assms(1) unfolding shrinks_def by blast
  with assms(2) [of t] show ?thesis unfolding shrinks_def by (auto intro: pt_only_trans)
qed

lemma shrinks_for_opt:
  fixes s :: "'a paging_scheme"
  assumes "wf_pmm s" "\<And>i (t :: 'a paging_scheme). wf_pmm t \<Longrightarrow> shrinks (f i) t"
  shows "shrinks (for_opt n f) s"
proof -
  have "\<exists>t. for_opt n f s = Some t \<and> (wf_pmm t \<and> free_frames t \<subseteq> free_frames s \<and> pt_only s t)"
  proof (rule for_opt_returns)
    fix i and u :: "'a paging_scheme"
    assume u: "wf_pmm u \<and> free_frames u \<subseteq> free_frames s \<and> pt_only s u"
    with assms(2) [of u i] obtain v where "f i u = Some v" "wf_pmm v" "free_frames v \<subseteq> free_frames u" "pt_only u v"
      unfolding shrinks_def by blast
    with u show "\<exists>v. f i u = Some v \<and> wf_pmm v \<and> free_frames v \<subseteq> free_frames s \<and> pt_only s v"
      using pt_only_trans by blast
  qed (use assms(1) in simp)
  then show ?thesis unfolding shrinks_def by blast
qed

lemma map_range_shrinks: "wf_pmm s \<Longrightarrow> shrinks (map_range p v n fl p4) s"
  unfolding map_range_def [abs_def] by (rule shrinks_for_opt) (auto intro: map_addr_shrinks)

lemma shrinks_cong: "f s = g s \<Longrightarrow> shrinks f s = shrinks g s"
  by (simp add: shrinks_def)

lemma map_kernel_entries_shrinks:
  assumes "wf_pmm s"
  shows "shrinks (map_kernel_entries p4) s"
proof -
  have "shrinks (for_opt n (\<lambda>i s. map_range (ke_paddr (km_ke s i)) (ke_vaddr (km_ke s i)) (ke_num_pages (km_ke s i)) USER_PT_ENTRY p4 s)) s" for n
  proof (rule shrinks_for_opt [OF assms])
    fix i and t :: "'a paging_scheme" assume "wf_pmm t"
    from map_range_shrinks [OF this] show "shrinks (\<lambda>s. map_range (ke_paddr (km_ke s i)) (ke_vaddr (km_ke s i)) (ke_num_pages (km_ke s i)) USER_PT_ENTRY p4 s) t"
      by (simp add: shrinks_def)
  qed
  then show ?thesis by (simp add: shrinks_def map_kernel_entries_def)
qed

lemma map_pmm_shrinks:
  assumes "wf_pmm s"
  shows "shrinks (map_pmm p4) s"
proof -
  have "shrinks (for_opt n (\<lambda>i s. map_addr (km_bitmap_addr s + of_nat i * PAGE_SIZE) (km_bitmap_addr s + of_nat i * PAGE_SIZE) KERNEL_PT_ENTRY p4 s)) s" for n
  proof (rule shrinks_for_opt [OF assms])
    fix i and t :: "'a paging_scheme" assume "wf_pmm t"
    from map_addr_shrinks [OF this] show "shrinks (\<lambda>s. map_addr (km_bitmap_addr s + of_nat i * PAGE_SIZE) (km_bitmap_addr s + of_nat i * PAGE_SIZE) KERNEL_PT_ENTRY p4 s) t"
      by (simp add: shrinks_def)
  qed
  then show ?thesis by (simp add: shrinks_def map_pmm_def Let_def)
qed

lemma pmm_set_area_shrinks:
  fixes s :: "'a paging_scheme"
  assumes "wf_pmm s"
  shows "shrinks (\<lambda>s. Some (pmm_set_area a n s)) s"
proof -
  have "pt_only s (pmm_set_area a n s) \<and> wf_pmm (pmm_set_area a n s) \<and> free_frames (pmm_set_area a n s) \<subseteq> free_frames s"
    unfolding pmm_set_area_def
  proof (rule for_upto_inv [where P = "\<lambda>_ t. pt_only s t \<and> wf_pmm t \<and> free_frames t \<subseteq> free_frames s"])
    fix i and t :: "'a paging_scheme"
    assume t: "pt_only s t \<and> wf_pmm t \<and> free_frames t \<subseteq> free_frames s"
    let ?u = "pmm_set_bit (a + PAGE_SIZE * of_nat i) t"
    have e: "km_bitmap_entries ?u = km_bitmap_entries t" "km_mem_pages ?u = km_mem_pages t"
      by (simp_all add: pmm_set_bit_def Let_def)
    then have f: "free_frames ?u \<subseteq> free_frames t" by (auto simp: free_frames_def frame_used_set_bit)
    then have "wf_pmm ?u" using t e unfolding wf_pmm_def by auto
    with f t show "pt_only s ?u \<and> wf_pmm ?u \<and> free_frames ?u \<subseteq> free_frames s"
      using pt_only_trans pt_only_set_bit by blast
  qed (use assms in simp)
  then show ?thesis by (simp add: shrinks_def)
qed

lemma map_framebuffer_shrinks:
  fixes s :: "'a kernel_scheme"
  assumes "wf_pmm s"
  shows "shrinks (map_framebuffer p4 fl) s"
proof -
  define n where "n = SIZE_TO_PAGES (ucast (line_bytes s * fb_vertical_res s))"
  have "shrinks (\<lambda>s. Option.bind (map_range a a n fl p4 s) (\<lambda>t. Some (pmm_set_area (fb_buffer t) n t))) s" for a
  proof (rule shrinks_bind [OF map_range_shrinks [OF assms]])
    fix t :: "'a kernel_scheme" assume "wf_pmm t"
    from pmm_set_area_shrinks [OF this] show "shrinks (\<lambda>t. Some (pmm_set_area (fb_buffer t) n t)) t"
      by (simp add: shrinks_def)
  qed
  then show ?thesis by (simp add: shrinks_def map_framebuffer_def Let_def n_def)
qed

lemma map_lapic_shrinks: "wf_pmm s \<Longrightarrow> shrinks (map_lapic p4) s"
  using map_addr_shrinks [of s "lapic_addr s" "lapic_addr s" "KERNEL_PT_ENTRY OR push_bit 4 1" p4]
  by (simp add: shrinks_def map_lapic_def)

lemma pt_only_heaps: "pt_only s t \<Longrightarrow> hp_heaps t = hp_heaps s \<and> vm_bytes t = vm_bytes s"
  by (auto simp: pt_only_def)

lemma map_heap_shrinks:
  fixes s :: "'a kheap_scheme"
  assumes "wf_pmm s" "chain s b xs"
  shows "shrinks (map_heap b src dest) s"
  using assms
proof (induction xs arbitrary: b s)
  case Nil
  then have "map_heap b src dest s = Some s" by (subst map_heap.simps) simp
  with Nil show ?case by (simp add: shrinks_def)
next
  case (Cons x xs)
  define n where "n = unat (DIV_CEIL (bmp_size (h_bm (hp_heaps s b)) + sizeof_heap_t) PAGE_SIZE)"
  define start where "start = bmp_bm (h_bm (hp_heaps s b)) - sizeof_heap_t"
  let ?f = "\<lambda>i s. map_addr (translate_addr (start + of_nat i * PAGE_SIZE) src s) (start + of_nat i * PAGE_SIZE) KERNEL_PT_ENTRY dest s"
  have "shrinks (for_opt n ?f) s"
  proof (rule shrinks_for_opt [OF Cons.prems(1)])
    fix i and t :: "'a kheap_scheme" assume "wf_pmm t"
    from map_addr_shrinks [OF this] show "shrinks (?f i) t" by (simp add: shrinks_def)
  qed
  then obtain t where t: "for_opt n ?f s = Some t" "wf_pmm t" "free_frames t \<subseteq> free_frames s" "pt_only s t"
    unfolding shrinks_def by blast
  have hp: "hp_heaps t = hp_heaps s" using pt_only_heaps [OF t(4)] by simp
  then have "chain t (h_next (hp_heaps t b)) xs" using Cons.prems(2) by (subst chain_cong [where s = s]) auto
  from Cons.IH [OF t(2) this] obtain u where u: "map_heap (h_next (hp_heaps t b)) src dest t = Some u" "wf_pmm u"
      "free_frames u \<subseteq> free_frames t" "pt_only t u"
    unfolding shrinks_def by blast
  have "map_heap b src dest s = Some u"
    using Cons.prems(2) t(1) u(1) by (subst map_heap.simps) (simp add: n_def start_def Let_def)
  with u t show ?case unfolding shrinks_def using pt_only_trans by blast
qed

text \<open>Operations of the page manager: they change tables, the frame bitmap, bytes and region headers.\<close>

definition space_only :: "'a kheap_scheme \<Rightarrow> 'a kheap_scheme \<Rightarrow> bool" where
  "space_only s s' \<longleftrightarrow> (\<exists>b m v h. s' = s\<lparr>km_bitmap := b, pt_mem := m, vm_bytes := v, hp_heaps := h\<rparr>)"

abbreviation flags_ok :: "vmm_t \<Rightarrow> bool" where
  "flags_ok vi \<equiv> vm_flags vi \<in> {KERNEL_PT_ENTRY, USER_PT_ENTRY}"

lemma space_only_pt: "pt_only (s\<lparr>vm_bytes := v\<rparr>) s' \<Longrightarrow> space_only s (s'\<lparr>vm_bytes := w, hp_heaps := h\<rparr>)"
  unfolding pt_only_def space_only_def by (elim exE, simp) blast

lemma map_fresh_steps:
  fixes s :: "'a kheap_scheme"
  assumes "wf_pmm s" "fl \<in> {KERNEL_PT_ENTRY, USER_PT_ENTRY}"
  shows "\<exists>s'. map_fresh alloc_frame (\<lambda>p v. map_addr p v fl p4) n v s = Some s' \<and> wf_pmm s' \<and> pt_only s s'"
proof -
  let ?vi = "(k_vmm s)\<lparr>vm_flags := fl\<rparr>"
  have "vm_flags ?vi \<in> {KERNEL_PT_ENTRY, USER_PT_ENTRY}" using assms(2) by simp
  from map_fresh_vmm [OF assms(1) this, of p4 n v] obtain s' where
    "map_fresh alloc_frame (\<lambda>p v. map_addr p v fl p4) n v s = Some s'" by auto
  with map_fresh_pt_only [OF assms(1) this] show ?thesis by blast
qed

lemma init_vmm_steps:
  fixes s :: "'a kheap_scheme"
  assumes "wf_pmm s"
  shows "\<exists>vi' s'. init_vmm level n vi s = Some (vi', s') \<and> wf_pmm s' \<and> space_only s s' \<and> flags_ok vi' \<and> vm_p4_tbl vi' = vm_p4_tbl vi"
proof -
  define fl where "fl = (if level = Supervisor then KERNEL_PT_ENTRY else USER_PT_ENTRY)"
  have flok: "fl \<in> {KERNEL_PT_ENTRY, USER_PT_ENTRY}" by (simp add: fl_def)
  define a where "a = (if level = Supervisor then HIGHER_HALF_OFFSET else PAGE_SIZE)"
  let ?vi = "vi\<lparr>vm_flags := fl, vm_bm := (vm_bm vi)\<lparr>bmp_bm := a\<rparr>\<rparr>"
  obtain t where t: "map_fresh alloc_frame (\<lambda>p v. map_addr p v fl (vm_p4_tbl vi)) (unat (DIV_CEIL n PAGE_SIZE)) a s = Some t"
      "wf_pmm t" "pt_only s t"
    using map_fresh_steps [OF assms flok] by blast
  obtain bm m where ib: "init_bitmap ((vm_bm vi)\<lparr>bmp_bm := a\<rparr>) (n * PAGE_SIZE) PAGE_SIZE (vm_bytes t) = (bm, m)" by (metis surj_pair)
  have "init_vmm level n vi s = Some (?vi\<lparr>vm_bm := bm\<rparr>, t\<lparr>vm_bytes := m\<rparr>)"
    using t(1) ib by (simp add: init_vmm_def Let_def fl_def a_def split: if_splits)
  moreover have "space_only s (t\<lparr>vm_bytes := m\<rparr>)"
    using t(3) space_only_pt [where s = s and v = "vm_bytes s" and s' = t and w = m and h = "hp_heaps t"] by simp
  ultimately show ?thesis using t(2) by (auto simp: fl_def)
qed

lemma valloc_steps:
  fixes s :: "'a kheap_scheme"
  assumes "wf_pmm s" "flags_ok vi"
  shows "\<exists>a vi' s'. valloc pages vi s = Some (a, vi', s') \<and> wf_pmm s' \<and> space_only s s' \<and> flags_ok vi' \<and> vm_p4_tbl vi' = vm_p4_tbl vi"
proof (cases "pages = 0")
  case True
  have "space_only s s" using space_only_pt [where s = s and v = "vm_bytes s" and s' = s and w = "vm_bytes s" and h = "hp_heaps s"] by simp
  with True assms show ?thesis by (simp add: valloc_def)
next
  case False
  obtain a bm m where b: "bm_alloc (pages * PAGE_SIZE) (vm_bm vi) (vm_bytes s) = (a, bm, m)" by (metis prod_cases3)
  have "wf_pmm (s\<lparr>vm_bytes := m\<rparr>)" using assms(1) by simp
  from map_fresh_steps [OF this assms(2), of "vm_p4_tbl vi" "unat pages" a] obtain t where
    t: "map_fresh alloc_frame (\<lambda>p v. map_addr p v (vm_flags vi) (vm_p4_tbl vi)) (unat pages) a (s\<lparr>vm_bytes := m\<rparr>) = Some t"
      "wf_pmm t" "pt_only (s\<lparr>vm_bytes := m\<rparr>) t" by blast
  then have "space_only s t" using space_only_pt [where s = s and v = m and s' = t and w = "vm_bytes t" and h = "hp_heaps t"] by simp
  with False t b assms(2) show ?thesis by (simp add: valloc_def Let_def)
qed

lemma heap_add_steps:
  fixes s :: "'a kheap_scheme"
  assumes "wf_pmm s" "flags_ok vi"
  shows "\<exists>h vi' s'. heap_add pages bs vi nx s = Some (h, vi', s') \<and> wf_pmm s' \<and> space_only s s' \<and> flags_ok vi' \<and> vm_p4_tbl vi' = vm_p4_tbl vi"
proof -
  obtain h vi' t where v: "valloc pages vi s = Some (h, vi', t)" "wf_pmm t" "space_only s t" "flags_ok vi'" "vm_p4_tbl vi' = vm_p4_tbl vi"
    using valloc_steps [OF assms] by blast
  obtain bm m where ib: "init_bitmap ((h_bm (hp_heaps t h))\<lparr>bmp_bm := h + sizeof_heap_t\<rparr>) (pages * PAGE_SIZE - sizeof_heap_t) bs (vm_bytes t) = (bm, m)"
    by (metis surj_pair)
  let ?u = "t\<lparr>vm_bytes := m, hp_heaps := (hp_heaps t)(h := (hp_heaps t h)\<lparr>h_bm := bm, h_next := nx\<rparr>)\<rparr>"
  have "heap_add pages bs vi nx s = Some (h, vi', ?u)" using v(1) ib by (simp add: heap_add_def Let_def)
  moreover have "space_only s ?u" using v(3) unfolding space_only_def by (elim exE, simp) blast
  moreover have "wf_pmm ?u" using v(2) by (simp add: wf_pmm_def free_frames_def frame_used_def)
  ultimately show ?thesis using v by blast
qed

text \<open>What thread creation changes besides the kernel's heap: tables, frames, the thread and its space.\<close>

definition thread_only :: "u64 \<Rightarrow> 'a kernel_scheme \<Rightarrow> 'a kernel_scheme \<Rightarrow> bool" where
  "thread_only p s s' \<longleftrightarrow> (\<exists>b m sp c t. s' = s\<lparr>km_bitmap := b, pt_mem := m, k_spaces := sp, k_cr3 := c,
     k_threads := (k_threads s)(p := t)\<rparr>)"

lemma thread_only_trans: "thread_only p s t \<Longrightarrow> thread_only p t u \<Longrightarrow> thread_only p s u"
  unfolding thread_only_def by (elim exE, simp) blast

lemma thread_only_pt:
  assumes "pt_only s t"
  shows "thread_only p s t"
proof -
  obtain b m where "t = s\<lparr>km_bitmap := b, pt_mem := m\<rparr>" using assms unfolding pt_only_def by blast
  then have "t = s\<lparr>km_bitmap := b, pt_mem := m, k_spaces := k_spaces s, k_cr3 := k_cr3 s,
      k_threads := (k_threads s)(p := k_threads s p)\<rparr>" by simp
  then show ?thesis unfolding thread_only_def by blast
qed

lemma thread_only_thread: "thread_only p s (thread_update p f s)"
proof -
  have "thread_update p f s = s\<lparr>km_bitmap := km_bitmap s, pt_mem := pt_mem s, k_spaces := k_spaces s, k_cr3 := k_cr3 s,
      k_threads := (k_threads s)(p := f (k_threads s p))\<rparr>" by (simp add: thread_update_def)
  then show ?thesis unfolding thread_only_def by blast
qed

lemma thread_only_cr3: "thread_only p s (load_cr3 c s)"
proof -
  have "load_cr3 c s = s\<lparr>km_bitmap := km_bitmap s, pt_mem := pt_mem s, k_spaces := k_spaces s, k_cr3 := c,
      k_threads := (k_threads s)(p := k_threads s p)\<rparr>" by (simp add: load_cr3_def)
  then show ?thesis unfolding thread_only_def by blast
qed

lemma thread_only_sel:
  "thread_only p s t \<Longrightarrow> vm_bytes t = vm_bytes s \<and> hp_heaps t = hp_heaps s \<and> k_heap t = k_heap s \<and> km_pml4 t = km_pml4 s \<and>
     smp_cpus t = smp_cpus s \<and> k_CPU t = k_CPU s \<and> k_efs t = k_efs s \<and> (\<forall>q. q \<noteq> p \<longrightarrow> k_threads t q = k_threads s q)"
  by (auto simp: thread_only_def)

lemma wf_pmm_kernel [simp]:
  "wf_pmm (thread_update p f s) = wf_pmm s" "wf_pmm (load_cr3 c s) = wf_pmm s" "wf_pmm (ef_update p g s) = wf_pmm s"
  "free_frames (thread_update p f s) = free_frames s" "km_pml4 (thread_update p f s) = km_pml4 s"
  by (simp_all add: state_ops wf_pmm_def free_frames_def frame_used_def)

lemma on_vmm_steps:
  fixes s :: "'a kernel_scheme"
  assumes wf: "wf_pmm s" and cr3: "k_cr3 s \<noteq> PADDR (km_pml4 s)"
    and f: "\<And>t :: 'a kernel_scheme. wf_pmm t \<Longrightarrow> \<exists>r vi' t'. f (t_vmm (k_threads s p)) t = Some (r, vi', t') \<and> wf_pmm t' \<and> space_only t t' \<and> flags_ok vi' \<and>
      vm_p4_tbl vi' = vm_p4_tbl (t_vmm (k_threads s p))"
  shows "\<exists>r s'. on_vmm p f s = Some (r, s') \<and> wf_pmm s' \<and> thread_only p s s' \<and> flags_ok (t_vmm (k_threads s' p)) \<and> k_cr3 s' = k_cr3 s \<and>
    k_threads s' p = (k_threads s p)\<lparr>t_vmm := t_vmm (k_threads s' p)\<rparr> \<and> vm_p4_tbl (t_vmm (k_threads s' p)) = vm_p4_tbl (t_vmm (k_threads s p))"
proof -
  let ?vi = "t_vmm (k_threads s p)"
  let ?t = "s\<lparr>vm_bytes := fst (k_spaces s (k_cr3 s)), hp_heaps := snd (k_spaces s (k_cr3 s))\<rparr>"
  have "wf_pmm ?t" using wf by (simp add: wf_pmm_def free_frames_def frame_used_def)
  from f [OF this] obtain r vi' t' where t': "f ?vi ?t = Some (r, vi', t')" "wf_pmm t'" "space_only ?t t'" "flags_ok vi'" "vm_p4_tbl vi' = vm_p4_tbl ?vi"
    by auto
  then obtain b m v h where eq: "t' = ?t\<lparr>km_bitmap := b, pt_mem := m, vm_bytes := v, hp_heaps := h\<rparr>"
    unfolding space_only_def by blast
  let ?s' = "s\<lparr>km_bitmap := b, pt_mem := m, k_spaces := (k_spaces s)(k_cr3 s := (v, h)), k_cr3 := k_cr3 s,
    k_threads := (k_threads s)(p := (k_threads s p)\<lparr>t_vmm := vi'\<rparr>)\<rparr>"
  have "on_vmm p f s = Some (r, ?s')" using t'(1) cr3 by (simp add: on_vmm_def space_op_def eq thread_update_def)
  moreover have "wf_pmm ?s'" using t'(2) by (simp add: eq wf_pmm_def free_frames_def frame_used_def)
  moreover have "thread_only p s ?s'" unfolding thread_only_def by blast
  ultimately show ?thesis using t'(4,5) by (intro exI [of _ r] exI [of _ ?s']) simp
qed

definition advances :: "u64 \<Rightarrow> ('a kernel_scheme \<Rightarrow> 'a kernel_scheme option) \<Rightarrow> 'a kernel_scheme \<Rightarrow> bool" where
  "advances p f s \<longleftrightarrow> (\<exists>s'. f s = Some s' \<and> wf_pmm s' \<and> thread_only p s s')"

lemma advances_shrinks: "shrinks f s \<Longrightarrow> advances p f s"
  unfolding shrinks_def advances_def using thread_only_pt by blast

lemma advances_seq:
  assumes "thread_only p s t" "shrinks f t" "\<And>u. wf_pmm u \<Longrightarrow> thread_only p s u \<Longrightarrow> advances p g u"
  shows "advances p (\<lambda>s. Option.bind (f s) g) t"
proof -
  obtain u where u: "f t = Some u" "wf_pmm u" "thread_only p t u"
    using assms(2) thread_only_pt unfolding shrinks_def by blast
  then have "advances p g u" using assms(1,3) thread_only_trans by blast
  with u show ?thesis unfolding advances_def using thread_only_trans by auto
qed

text \<open>The part of \<open>init_thread_vmm\<close> under the thread's own table.\<close>

lemma thread_space_steps:
  fixes s :: "'a kernel_scheme"
  assumes wf: "wf_pmm s" and cr3: "k_cr3 s \<noteq> PADDR (km_pml4 s)"
  shows "advances p (\<lambda>s. Option.bind (on_vmm p (\<lambda>vi s. map_option (Pair ()) (init_vmm User 32 vi s)) s) (\<lambda>(_, s).
     Option.bind (on_vmm p (\<lambda>vi s. heap_add 1 HEAP_DEFAULT_BS vi NULL s) s) (\<lambda>(heap, s).
     let s = thread_update p (\<lambda>t. t\<lparr>t_heap := heap\<rparr>) s in
     Option.bind (on_vmm p (valloc THREAD_STACK_PAGES) s) (\<lambda>(stack, s).
     let s = thread_update p (\<lambda>t. t\<lparr>t_stack := stack\<rparr>) s in
     Some (load_cr3 (PADDR (km_pml4 s)) s))))) s"
proof -
  obtain s1 where s1: "on_vmm p (\<lambda>vi s. map_option (Pair ()) (init_vmm User 32 vi s)) s = Some ((), s1)" "wf_pmm s1"
    "thread_only p s s1" "flags_ok (t_vmm (k_threads s1 p))" "k_cr3 s1 = k_cr3 s"
  proof -
    have "\<exists>r vi' t'. map_option (Pair ()) (init_vmm User 32 (t_vmm (k_threads s p)) t) = Some (r, vi', t') \<and> wf_pmm t' \<and>
        space_only t t' \<and> flags_ok vi' \<and> vm_p4_tbl vi' = vm_p4_tbl (t_vmm (k_threads s p))" if "wf_pmm t" for t :: "'a kernel_scheme"
      using init_vmm_steps [OF that, of User 32 "t_vmm (k_threads s p)"] by auto
    from on_vmm_steps [where p = p and f = "\<lambda>vi s. map_option (Pair ()) (init_vmm User 32 vi s)", OF wf cr3 this] show ?thesis using that by auto
  qed
  have cr31: "k_cr3 s1 \<noteq> PADDR (km_pml4 s1)" using s1(5) cr3 thread_only_sel [OF s1(3)] by simp
  obtain heap s2 where s2: "on_vmm p (\<lambda>vi s. heap_add 1 HEAP_DEFAULT_BS vi NULL s) s1 = Some (heap, s2)" "wf_pmm s2"
    "thread_only p s1 s2" "flags_ok (t_vmm (k_threads s2 p))" "k_cr3 s2 = k_cr3 s1"
    using on_vmm_steps [where p = p and f = "\<lambda>vi s. heap_add 1 HEAP_DEFAULT_BS vi NULL s", OF s1(2) cr31 heap_add_steps [OF _ s1(4)]] by auto
  let ?s2 = "thread_update p (\<lambda>t. t\<lparr>t_heap := heap\<rparr>) s2"
  have wf2: "wf_pmm ?s2" using s2(2) by simp
  have fl2: "flags_ok (t_vmm (k_threads ?s2 p))" using s2(4) by (simp add: thread_update_def)
  have cr32: "k_cr3 ?s2 \<noteq> PADDR (km_pml4 ?s2)"
    using s2(5) cr31 thread_only_sel [OF s2(3)] by (simp add: thread_update_def)
  obtain stack s3 where s3: "on_vmm p (valloc THREAD_STACK_PAGES) ?s2 = Some (stack, s3)" "wf_pmm s3" "thread_only p ?s2 s3"
    using on_vmm_steps [where p = p and f = "valloc THREAD_STACK_PAGES", OF wf2 cr32 valloc_steps [OF _ fl2]] by auto
  have "thread_only p s s3" by (rule thread_only_trans [OF thread_only_trans [OF thread_only_trans [OF s1(3) s2(3)] thread_only_thread] s3(3)])
  then have "thread_only p s (load_cr3 (PADDR (km_pml4 s3)) (thread_update p (\<lambda>t. t\<lparr>t_stack := stack\<rparr>) s3))"
    by (blast intro: thread_only_trans thread_only_thread thread_only_cr3)
  with s1(1) s2(1) s3(1,2) show ?thesis by (simp add: advances_def Let_def)
qed


lemma pt_only_set: "alloc_frame s = Some (a, t) \<Longrightarrow> pt_only s t"
  using pt_only_set_bit [of s] by (auto simp: alloc_frame_def bind_eq_Some_conv Let_def split: if_splits)

text \<open>The kernel's own top table is not a free frame, so a new thread's table is another one.\<close>

definition kernel_root_used :: "'a kernel_scheme \<Rightarrow> bool" where
  "kernel_root_used s \<longleftrightarrow> PADDR (km_pml4 s) \<noteq> NULL \<and> (\<forall>f\<in>free_frames s. frame_addr f \<noteq> PADDR (km_pml4 s))"

lemma init_thread_vmm_steps:
  fixes s :: "'a kernel_scheme"
  assumes wf: "wf_pmm s" and root: "kernel_root_used s" and ch: "chain s (k_heap s) xs"
  shows "\<exists>s'. init_thread_vmm p s = Some s' \<and> wf_pmm s' \<and> thread_only p s s' \<and> k_cr3 s' = PADDR (km_pml4 s)"
proof -
  obtain a t0 where a: "alloc_frame s = Some (a, t0)" "wf_pmm t0" "a \<noteq> PADDR (km_pml4 s)"
  proof (rule alloc_frame_cases [OF wf])
    assume "alloc_frame s = Some (NULL, s)"
    then show ?thesis using that [of NULL s] wf root by (simp add: kernel_root_used_def)
  next
    fix f assume "f \<in> free_frames s" "alloc_frame s = Some (frame_addr f, pmm_set_bit (frame_addr f) s)" "wf_pmm (pmm_set_bit (frame_addr f) s)"
    then show ?thesis using that root by (auto simp: kernel_root_used_def)
  qed
  define t1 where "t1 = clean_table a (thread_update p (\<lambda>t. t\<lparr>t_vmm := (t_vmm t)\<lparr>vm_p4_tbl := a\<rparr>\<rparr>) t0)"
  have t1: "wf_pmm t1" "thread_only p s t1"
    using a(2) thread_only_pt [OF pt_only_set [OF a(1)], of p] unfolding t1_def
    by (simp, blast intro: thread_only_trans thread_only_thread thread_only_pt pt_only_clean)
  have chain_t: "chain t (k_heap t) xs" if "thread_only p s t" for t
    using thread_only_sel [OF that] ch by (subst chain_cong [where s = s]) auto
  let ?g6 = "\<lambda>s. map_pmm a s"
  let ?g5 = "\<lambda>s. Option.bind (map_heap (k_heap s) (km_pml4 s) a s) ?g6"
  let ?g4 = "\<lambda>s. Option.bind (map_lapic a s) ?g5"
  let ?g3 = "\<lambda>s. Option.bind (map_framebuffer a USER_PT_ENTRY s) ?g4"
  let ?g2 = "\<lambda>s. Option.bind (map_kernel_entries a s) ?g3"
  let ?g1 = "\<lambda>s. Option.bind (map_addr (c_stack (this_cpu s)) (VADDR (c_stack (this_cpu s))) KERNEL_PT_ENTRY a s) ?g2"
  let ?g0 = "\<lambda>s. Option.bind (map_addr a a KERNEL_PT_ENTRY a s) ?g1"
  have g6: "advances p ?g6 u" if "wf_pmm u" for u :: "'a kernel_scheme"
    using map_pmm_shrinks [OF that] by (rule advances_shrinks)
  have g5: "advances p ?g5 u" if u: "wf_pmm u" "thread_only p s u" for u
  proof (rule advances_seq [OF u(2) _ g6])
    show "shrinks (\<lambda>s. map_heap (k_heap s) (km_pml4 s) a s) u"
      using map_heap_shrinks [OF u(1) chain_t [OF u(2)], of "km_pml4 u" a] by (simp add: shrinks_def)
  qed
  have g4: "advances p ?g4 u" if "wf_pmm u" "thread_only p s u" for u
    by (rule advances_seq [OF that(2) map_lapic_shrinks [OF that(1)] g5])
  have g3: "advances p ?g3 u" if "wf_pmm u" "thread_only p s u" for u
    by (rule advances_seq [OF that(2) map_framebuffer_shrinks [OF that(1)] g4])
  have g2: "advances p ?g2 u" if "wf_pmm u" "thread_only p s u" for u
    by (rule advances_seq [OF that(2) map_kernel_entries_shrinks [OF that(1)] g3])
  have g1: "advances p ?g1 u" if u: "wf_pmm u" "thread_only p s u" for u
  proof (rule advances_seq [OF u(2) _ g2])
    show "shrinks (\<lambda>s. map_addr (c_stack (this_cpu s)) (VADDR (c_stack (this_cpu s))) KERNEL_PT_ENTRY a s) u"
      using map_addr_shrinks [OF u(1)] by (simp add: shrinks_def)
  qed
  have "advances p ?g0 t1" by (rule advances_seq [OF t1(2) map_addr_shrinks [OF t1(1)] g1])
  then obtain t2 where t2: "?g0 t1 = Some t2" "wf_pmm t2" "thread_only p t1 t2"
    unfolding advances_def by blast
  let ?t3 = "load_cr3 a t2"
  have t3: "wf_pmm ?t3" "thread_only p s ?t3"
    using t2 t1 by (simp, blast intro: thread_only_trans thread_only_cr3)
  have "k_cr3 ?t3 \<noteq> PADDR (km_pml4 ?t3)" using thread_only_sel [OF t3(2)] a(3) by (simp add: load_cr3_def)
  from thread_space_steps [OF t3(1) this, of p] obtain s' where s': "Option.bind (on_vmm p (\<lambda>vi s. map_option (Pair ()) (init_vmm User 32 vi s)) ?t3) (\<lambda>(_, s).
     Option.bind (on_vmm p (\<lambda>vi s. heap_add 1 HEAP_DEFAULT_BS vi NULL s) s) (\<lambda>(heap, s).
     let s = thread_update p (\<lambda>t. t\<lparr>t_heap := heap\<rparr>) s in
     Option.bind (on_vmm p (valloc THREAD_STACK_PAGES) s) (\<lambda>(stack, s).
     let s = thread_update p (\<lambda>t. t\<lparr>t_stack := stack\<rparr>) s in
     Some (load_cr3 (PADDR (km_pml4 s)) s)))) = Some s'" "wf_pmm s'" "thread_only p ?t3 s'"
    unfolding advances_def by blast
  have "init_thread_vmm p s = Some s'"
    unfolding init_thread_vmm_def a(1) using t2(1) s'(1) by (simp add: t1_def [symmetric] bind_eq_Some_conv) blast
  moreover have "k_cr3 s' = PADDR (km_pml4 s)"
    using s'(1) thread_only_sel [OF t3(2)] thread_only_sel [OF s'(3)]
    by (auto simp: bind_eq_Some_conv Let_def load_cr3_def)
  ultimately show ?thesis using s' t3 thread_only_trans by blast
qed

lemma heap_only_frame:
  assumes "s' = s\<lparr>vm_bytes := v, hp_heaps := h\<rparr>"
  shows "wf_pmm s' = wf_pmm s" "free_frames s' = free_frames s" "km_pml4 s' = km_pml4 s" "k_heap s' = k_heap s"
    "k_threads s' = k_threads s" "smp_cpus s' = smp_cpus s" "k_CPU s' = k_CPU s" "k_efs s' = k_efs s"
  using assms by (simp_all add: wf_pmm_def free_frames_def frame_used_def)

lemma thread_frame_sel:
  "cs_rip (thread_frame w e safety st ef) = (if safety then w else e)"
  "safety \<Longrightarrow> cs_rdi (thread_frame w e safety st ef) = e"
  "cs_rflags (thread_frame w e safety st ef) = 0x202" "cs_cs (thread_frame w e safety st ef) = 0x1B"
  "cs_ss (thread_frame w e safety st ef) = 0x23" "cs_rsp (thread_frame w e safety st ef) = st + 4096"
  by (simp_all add: thread_frame_def Let_def kconst)

lemma span_subset: "n \<le> m \<Longrightarrow> span p n \<subseteq> span p m"
  by (auto simp: span_iff)

text \<open>The two allocations at the start of \<open>create_thread\<close>.\<close>

lemma thread_allocs:
  fixes s :: "'a kernel_scheme"
  assumes wf: "wf_pmm s" and root: "kernel_root_used s" and ok: "heap_ok s xs" and ch: "chain s (k_heap s) xs"
    and room: "\<exists>x\<in>set xs. heap_fits s sizeof_thread_t x"
  obtains t s1 e s2 where "halloc sizeof_thread_t (k_heap s) s = Some (t, s1)"
    "halloc sizeof_cpu_status_t (k_heap s1) s1 = Some (e, s2)" "t \<noteq> NULL" "span t 144 \<subseteq> heap_area s xs"
    "\<forall>c. c \<notin> heap_area s xs \<longrightarrow> vm_bytes s2 c = vm_bytes s c" "chain s2 (k_heap s2) xs"
    "wf_pmm s2" "kernel_root_used s2" "k_threads s2 = k_threads s" "smp_cpus s2 = smp_cpus s" "km_pml4 s2 = km_pml4 s"
proof -
  have szs: "unat sizeof_thread_t = 144" "unat sizeof_cpu_status_t = 176" by (simp_all add: kconst)
  obtain t s1 where s1: "halloc sizeof_thread_t (k_heap s) s = Some (t, s1)" "heap_ok s1 xs" "chain s1 (k_heap s) xs"
      "heap_area s1 xs = heap_area s xs" "\<forall>c. c \<notin> heap_area s xs \<longrightarrow> vm_bytes s1 c = vm_bytes s c"
      "\<exists>v h. s1 = s\<lparr>vm_bytes := v, hp_heaps := h\<rparr>" "t \<noteq> NULL" "span t 144 \<subseteq> heap_area s xs"
    using halloc_steps [OF ok ch, of sizeof_thread_t] room szs by auto
  obtain v1 h1 where e1: "s1 = s\<lparr>vm_bytes := v1, hp_heaps := h1\<rparr>" using s1(6) by blast
  note f1 = heap_only_frame [OF e1]
  have "chain s1 (k_heap s1) xs" using s1(3) f1 by simp
  then obtain e s2 where s2: "halloc sizeof_cpu_status_t (k_heap s1) s1 = Some (e, s2)" "chain s2 (k_heap s1) xs"
      "\<forall>c. c \<notin> heap_area s1 xs \<longrightarrow> vm_bytes s2 c = vm_bytes s1 c" "\<exists>v h. s2 = s1\<lparr>vm_bytes := v, hp_heaps := h\<rparr>"
    using halloc_steps [OF s1(2), of "k_heap s1" sizeof_cpu_status_t] szs by auto
  obtain v2 h2 where e2: "s2 = s1\<lparr>vm_bytes := v2, hp_heaps := h2\<rparr>" using s2(4) by blast
  note f2 = heap_only_frame [OF e2]
  have "wf_pmm s2" "kernel_root_used s2" using wf root f1 f2 by (simp_all add: kernel_root_used_def)
  with that [OF s1(1) s2(1) s1(7,8)] s1(4,5) s2(2,3) f1 f2 show ?thesis by auto
qed

section \<open>Properties\<close>



text \<open>A kernel with one heap region of eight blocks of 64 bytes and the name of a thread at 0x20000.\<close>

definition boot_region :: bitmap_t where
  "boot_region = \<lparr>bmp_size = 512, bmp_bsize = 64, bmp_used = 1, bmp_ffa = 1, bmp_bm = 0x10000\<rparr>"

definition demo_boot :: kernel where
  "demo_boot = demo_kernel\<lparr>km_pml4 := 0x1000, k_heap := 0x700, vm_bytes := (\<lambda>_. 0)(0x10000 := 1, 0x20000 := 105),
     hp_heaps := (\<lambda>_. \<lparr>h_bm = boot_region, h_next = NULL\<rparr>)\<rparr>"

lemma demo_boot_frames: "wf_pmm demo_boot" "free_frames demo_boot = {11, 12, 13, 14, 15}" "kernel_root_used demo_boot"
proof -
  have f: "free_frames demo_boot = free_frames demo_vm"
    by (simp add: demo_boot_def demo_kernel_def demo_heap_def kheap.defs vmem.defs kernel.defs free_frames_def frame_used_def)
  have "km_bitmap_entries demo_boot = km_bitmap_entries demo_vm" "km_mem_pages demo_boot = km_mem_pages demo_vm"
    by (simp_all add: demo_boot_def demo_kernel_def demo_heap_def kheap.defs vmem.defs kernel.defs)
  with f demo_vm_ok(1) show "wf_pmm demo_boot" by (simp add: wf_pmm_def)
  show fr: "free_frames demo_boot = {11, 12, 13, 14, 15}" using f demo_vm_ok(3) by simp
  have "PADDR (km_pml4 demo_boot) = 0x1000" by (simp add: demo_boot_def PADDR_def kconst)
  then show "kernel_root_used demo_boot" by (simp add: kernel_root_used_def fr frame_addr_def kconst)
qed

lemma demo_boot_heap:
  "heap_ok demo_boot [0x700]" "chain demo_boot (k_heap demo_boot) [0x700]" "heap_fits demo_boot sizeof_thread_t 0x700"
  "heap_area demo_boot [0x700] = span 0x10000 512"
proof -
  have reg: "region_ok boot_region" "bm_tblocks boot_region = 8" "bm_reserved boot_region = 1"
    by (simp_all add: boot_region_def region_ok_def bm_tblocks_def bm_reserved_def BM_BLOCKS_def DIV_CEIL_def blocks_per_int)
  have ids: "get_bm (vm_bytes demo_boot) (bmp_bm boot_region) i = (if i = 0 then 1 else 0)" if "i < 8" for i
  proof -
    from that have "i = 0 \<or> i = 1 \<or> i = 2 \<or> i = 3 \<or> i = 4 \<or> i = 5 \<or> i = 6 \<or> i = 7" by linarith
    then show ?thesis by (elim disjE) (simp_all add: demo_boot_def boot_region_def get_bm_eq bm_id_mask_def)
  qed
  have "bm_used_blocks (vm_bytes demo_boot) boot_region = {..<1}"
    using ids by (auto simp: bm_used_blocks_def reg split: if_splits)
  then have "wf_bitmap (vm_bytes demo_boot) boot_region"
    using reg by (simp add: wf_bitmap_def) (simp add: boot_region_def)
  then show "heap_ok demo_boot [0x700]" by (simp add: heap_ok_def) (simp add: demo_boot_def)
  show "chain demo_boot (k_heap demo_boot) [0x700]" by (simp add: demo_boot_def)
  have "bm_nblocks sizeof_thread_t boot_region = 3" by (simp add: bm_nblocks_def DIV_CEIL_def boot_region_def kconst)
  then have "bm_fits_in (vm_bytes demo_boot) boot_region (bm_nblocks sizeof_thread_t boot_region) 1"
    using ids by (simp add: bm_fits_def reg)
  then show "heap_fits demo_boot sizeof_thread_t 0x700" unfolding heap_fits_def
    by (intro exI [of _ 1]) (simp add: demo_boot_def)
  show "heap_area demo_boot [0x700] = span 0x10000 512" by (simp add: heap_area_def region_def demo_boot_def boot_region_def)
qed


text \<open>
  The system calls: number 1 puts the calling thread to sleep until the processor's tick count plus
  the argument (wrapping around), number 2 marks it dead, every other number does nothing; no other
  thread and no queue changes, and the frame to return to is the caller's.
\<close>

theorem syscall_effects:
  assumes "syscall_regs n args r = Some regs" "k_efs s status = regs" "syscall_handler status s = (status', s')"
  shows "status' = status \<and> smp_cpus s' = smp_cpus s \<and>
    (\<forall>p. p \<noteq> c_cur (this_cpu s) \<longrightarrow> k_threads s' p = k_threads s p) \<and>
    k_threads s' (c_cur (this_cpu s)) =
      (let t = k_threads s (c_cur (this_cpu s)) in
       if n = 1 then t\<lparr>t_status := SLEEP, t_wakeup_time := c_ticks (this_cpu s) + (args @ [0]) ! 0\<rparr>
       else if n = 2 then t\<lparr>t_status := DEAD\<rparr> else t)"
  using assms
  by (cases args) (auto simp: syscall_regs_def syscall_handler_def thread_sleep_syscall_def thread_dead_syscall_def state_ops
      Let_def split: if_splits)

theorem syscall_effects_witness:
  "t_wakeup_time (k_threads (snd (syscall_handler 0x1100 demo_kernel)) 0x100) = 30"
proof -
  have "syscall_regs 1 [25] demo_ef = Some demo_ef" by (simp add: syscall_regs_def demo_ef_def numeral_eq_Suc)
  from syscall_effects [OF this, of demo_kernel "0x1100", OF _ prod.collapse [symmetric]] show ?thesis
    by (simp add: this_cpu_def)
qed

end
