(* ===== verification/Acpi.thy ===== *)
theory Acpi
  imports Threads
begin

text \<open>
  The ACPI tables: \<^verbatim>\<open>src/kernel/acpi/acpi.c\<close> and \<^verbatim>\<open>madt.c\<close>. A table is the bytes of \<open>vm_bytes\<close> at its address;
  a field is read at its offset in the packed structures of \<^verbatim>\<open>include/acpi/acpi.h\<close> and \<^verbatim>\<open>madt.h\<close>, low byte first.
  \<open>None\<close> is "does not return": the two loops of \<^verbatim>\<open>madt.c\<close> need not end.
\<close>

section \<open>Definitions\<close>

definition MADT_LAPIC :: u8 where [kconst]: "MADT_LAPIC = 0"
definition MADT_IOAPIC :: u8 where [kconst]: "MADT_IOAPIC = 1"
definition MADT_INT_SO_OVRD :: u8 where [kconst]: "MADT_INT_SO_OVRD = 2"

definition load16 :: "u64 \<Rightarrow> bytes \<Rightarrow> u16" where
  "load16 a m = ucast (m a) OR push_bit 8 (ucast (m (a + 1)))"

definition load64 :: "u64 \<Rightarrow> bytes \<Rightarrow> u64" where
  "load64 a m = ucast (load32 a m) OR push_bit 32 (ucast (load32 (a + 4) m))"

subsection \<open>Structures\<close>

definition sizeof_sdt_header_t :: u64 where [kconst]: "sizeof_sdt_header_t = 36"
definition sizeof_madt_t :: u64 where [kconst]: "sizeof_madt_t = 44"
definition sizeof_ioapic_so_t :: u64 where [kconst]: "sizeof_ioapic_so_t = 10"

definition sdt_signature :: "u64 \<Rightarrow> bytes \<Rightarrow> u8 list" where
  "sdt_signature header m = [m header, m (header + 1), m (header + 2), m (header + 3)]"

definition sdt_length :: "u64 \<Rightarrow> bytes \<Rightarrow> u32" where
  "sdt_length header m = load32 (header + 4) m"

definition madt_lapic_base :: "u64 \<Rightarrow> bytes \<Rightarrow> u32" where
  "madt_lapic_base madt m = load32 (madt + 36) m"

definition item_type :: "u64 \<Rightarrow> bytes \<Rightarrow> u8" where
  "item_type item m = m item"

definition item_length :: "u64 \<Rightarrow> bytes \<Rightarrow> u8" where
  "item_length item m = m (item + 1)"

definition ioapic_so :: "u64 \<Rightarrow> bytes \<Rightarrow> ioapic_so_t" where
  "ioapic_so item m = \<lparr>so_type = item_type item m, so_length = item_length item m, so_bus_source = m (item + 2),
     so_irq_source = m (item + 3), so_gsi_base = load32 (item + 4) m, so_flags = load16 (item + 8) m\<rparr>"

subsection \<open>madt.c\<close>

partial_function (option) madt_loop :: "bytes \<Rightarrow> u64 \<Rightarrow> u8 \<Rightarrow> u8 \<Rightarrow> u8 \<Rightarrow> u64 \<Rightarrow> u64 option" where
  [code]: "madt_loop m table_end search_item cnt counter item =
     (if item < table_end
      then if item_type item m = search_item \<and> cnt = counter then Some item
           else madt_loop m table_end search_item cnt
                  (if item_type item m = search_item then counter + 1 else counter)
                  (item + ucast (item_length item m))
      else Some NULL)"

definition get_madt_item :: "bytes \<Rightarrow> u64 \<Rightarrow> u8 \<Rightarrow> u8 \<Rightarrow> u64 option" where
  "get_madt_item m table search_item cnt =
     madt_loop m (table + ucast (sdt_length table m)) search_item cnt 0 (table + sizeof_madt_t)"

partial_function (option) madt_count_loop :: "bytes \<Rightarrow> u64 \<Rightarrow> u8 \<Rightarrow> u64 \<Rightarrow> u64 option" where
  [code]: "madt_count_loop m table search_item cnt =
     Option.bind (get_madt_item m table search_item (ucast cnt)) (\<lambda>item.
       if item = NULL then Some cnt else madt_count_loop m table search_item (cnt + 1))"

definition get_madt_count :: "bytes \<Rightarrow> u64 \<Rightarrow> u8 \<Rightarrow> u64 option" where
  "get_madt_count m table search_item = madt_count_loop m table search_item 0"

definition zero_cpu :: cpu_data_t where
  "zero_cpu = \<lparr>c_threads = 0, c_wakeups = 0, c_cur = 0, c_num_threads = 0, c_ticks = 0, c_trig = False, c_stack = 0\<rparr>"

definition clear_cpus :: "nat \<Rightarrow> (nat \<Rightarrow> cpu_data_t) \<Rightarrow> nat \<Rightarrow> cpu_data_t" where
  "clear_cpus n f i = (if i < n then zero_cpu else f i)"

definition copy_ovrd :: "u64 \<Rightarrow> nat \<Rightarrow> 'a kernel_scheme \<Rightarrow> 'a kernel_scheme option" where
  "copy_ovrd madt i s =
     map_option (\<lambda>item. s\<lparr>ioapic_ovrds := (ioapic_ovrds s)(i := ioapic_so item (vm_bytes s))\<rparr>)
       (get_madt_item (vm_bytes s) madt MADT_INT_SO_OVRD (of_nat i))"

definition parse_madt :: "u64 \<Rightarrow> 'a kernel_scheme \<Rightarrow> 'a kernel_scheme option" where
  "parse_madt madt s =
     (let s = s\<lparr>lapic_addr := ucast (madt_lapic_base madt (vm_bytes s))\<rparr> in
      Option.bind (get_madt_item (vm_bytes s) madt MADT_IOAPIC 0) (\<lambda>ioapic.
      let s = s\<lparr>ioapic_addr := ucast (load32 (ioapic + 4) (vm_bytes s)),
                ioapic_gsi_base := load32 (ioapic + 8) (vm_bytes s)\<rparr> in
      Option.bind (get_madt_count (vm_bytes s) madt MADT_INT_SO_OVRD) (\<lambda>n.
      let s = s\<lparr>ioapic_num_ovrds := n\<rparr> in
      Option.bind (halloc (sizeof_ioapic_so_t * n) (k_heap s) s) (\<lambda>(p, s).
      Option.bind (for_opt (unat n) (copy_ovrd madt) (s\<lparr>ioapic_ovrds_ptr := p\<rparr>)) (\<lambda>s.
      Option.bind (get_madt_count (vm_bytes s) madt MADT_LAPIC) (\<lambda>c.
      let s = s\<lparr>smp_num_cpus := c\<rparr> in
      Option.bind (halloc (sizeof_cpu_data_t * c) (k_heap s) s) (\<lambda>(p, s).
      Some (s\<lparr>smp_cpus_ptr := p, smp_cpus := clear_cpus (unat c) (smp_cpus s)\<rparr>))))))))"

subsection \<open>acpi.c\<close>

definition validate_checksum :: "u64 \<Rightarrow> u64 \<Rightarrow> bytes \<Rightarrow> bool" where
  "validate_checksum start len m = (for_upto (unat len) (\<lambda>i acc. acc + m (start + of_nat i)) (0 :: u8) = 0)"

definition parse_table :: "u64 \<Rightarrow> 'a kernel_scheme \<Rightarrow> 'a kernel_scheme option" where
  "parse_table header s =
     (if sdt_signature header (vm_bytes s) = str_bytes ''APIC'' then parse_madt header s else Some s)"

text \<open>The loop over the tables; \<open>False\<close> is the early return.\<close>

definition table_addr :: "nat \<Rightarrow> 'a kernel_scheme \<Rightarrow> u64" where
  "table_addr i s =
     (if acpi_xsdt s then load64 (acpi_sdt_addr s + 36 + 8 * of_nat i) (vm_bytes s)
      else ucast (load32 (acpi_sdt_addr s + 36 + 4 * of_nat i) (vm_bytes s)))"

primrec acpi_tables :: "device \<Rightarrow> nat list \<Rightarrow> 'a console_scheme \<Rightarrow> (bool \<times> 'a console_scheme) option" where
  "acpi_tables dev [] s = Some (True, s)"
| "acpi_tables dev (i # is) s =
     (let header = table_addr i s in
      if \<not> validate_checksum header (ucast (sdt_length header (vm_bytes s))) (vm_bytes s)
      then map_option (Pair False) (log_msg dev Error (str_bytes ''ACPI'') (str_bytes ''Detected invalid table'') [] s)
      else Option.bind (parse_table header s) (\<lambda>s.
           Option.bind (log_msg dev Verbose (str_bytes ''ACPI'') (str_bytes ''[%u] %s'')
             [Num (of_nat i), Lit (sdt_signature header (vm_bytes s))] s) (\<lambda>s.
           acpi_tables dev is s)))"

text \<open>The ACPI entry of the memory map; where there is none, the loop leaves \<^verbatim>\<open>desc\<close> behind the last one.\<close>

definition acpi_desc :: "'a kernel_scheme \<Rightarrow> mmap_desc_t" where
  "acpi_desc s =
     (let n = unat (km_mmap_size s div km_mmap_desc_size s)
      in case List.find (\<lambda>i. md_type (km_mmap s i) = 9) [0..<n] of Some i \<Rightarrow> km_mmap s i | None \<Rightarrow> km_mmap s n)"

definition init_acpi :: "device \<Rightarrow> 'a console_scheme \<Rightarrow> 'a console_scheme option" where
  "init_acpi dev s =
     (let sdt = acpi_sdt_addr s; kind = (if acpi_xsdt s then 88 else 82);
          header_length = sdt_length sdt (vm_bytes s) in
      if \<not> validate_checksum sdt (ucast header_length) (vm_bytes s)
      then log_msg dev Error (str_bytes ''ACPI'') (str_bytes ''Found invalid %cSDT table'') [Num kind] s
      else Option.bind (log_msg dev Verbose (str_bytes ''ACPI'') (str_bytes ''Found valid %cSDT table'') [Num kind] s) (\<lambda>s.
        let s = s\<lparr>acpi_num_tables := (ucast (sdt_length sdt (vm_bytes s)) - sizeof_sdt_header_t) div (if acpi_xsdt s then 8 else 4)\<rparr> in
        Option.bind (acpi_tables dev [0..<unat (acpi_num_tables s)] s) (\<lambda>(go_on, s).
          if \<not> go_on then Some s
          else Option.bind (log_msg dev Info (str_bytes ''ACPI'') (str_bytes ''Parsed ACPI tables'') [] s) (\<lambda>s.
            if md_type (acpi_desc s) = 9
            then Some (pmm_clear_area (md_physical_start (acpi_desc s)) (md_count (acpi_desc s)) s)
            else log_msg dev Warning (str_bytes ''ACPI'') (str_bytes ''Couldn't find a MMAP region for the ACPI tables'') [] s))))"

subsection \<open>The items of a table\<close>

text \<open>\<open>madt_items m e p ps\<close>: walking the items from \<open>p\<close> by their lengths visits \<open>ps\<close> and ends at or behind \<open>e\<close>.\<close>

inductive madt_items :: "bytes \<Rightarrow> u64 \<Rightarrow> u64 \<Rightarrow> u64 list \<Rightarrow> bool" for m e where
  items_end: "\<not> p < e \<Longrightarrow> madt_items m e p []"
| items_step: "p < e \<Longrightarrow> madt_items m e (p + ucast (item_length p m)) ps \<Longrightarrow> madt_items m e p (p # ps)"

inductive_cases madt_items_NilE: "madt_items m e p []"
inductive_cases madt_items_ConsE: "madt_items m e p (q # ps)"
inductive_simps madt_items_Nil [simp]: "madt_items m e p []"
inductive_simps madt_items_Cons [simp]: "madt_items m e p (q # ps)"

definition items_of :: "bytes \<Rightarrow> u8 \<Rightarrow> u64 list \<Rightarrow> u64 list" where
  "items_of m ty ps = filter (\<lambda>p. item_type p m = ty) ps"

definition madt_table :: "bytes \<Rightarrow> u64 \<Rightarrow> u64 list \<Rightarrow> bool" where
  "madt_table m table ps \<longleftrightarrow>
     madt_items m (table + ucast (sdt_length table m)) (table + sizeof_madt_t) ps \<and> NULL \<notin> set ps"

section \<open>Lemmas\<close>

lemma madt_loop_items:
  assumes "madt_items m e p ps" "unat k \<le> unat cnt"
  shows "madt_loop m e ty cnt k p =
    Some (let qs = items_of m ty ps; j = unat cnt - unat k in if j < length qs then qs ! j else NULL)"
  using assms
proof (induction arbitrary: k rule: madt_items.induct)
  case (items_end p)
  then show ?case by (subst madt_loop.simps) (simp add: items_of_def)
next
  case (items_step p ps)
  show ?case
  proof (cases "item_type p m = ty")
    case match: True
    show ?thesis
    proof (cases "cnt = k")
      case True
      then show ?thesis using items_step.hyps match by (subst madt_loop.simps) (simp add: items_of_def)
    next
      case False
      then have less: "unat k < unat cnt" using items_step.prems by (simp add: word_unat_eq_iff)
      have "unat cnt < 2 ^ LENGTH(8)" by (rule unsigned_less)
      then have k: "unat (k + 1) = Suc (unat k)" using less by (simp add: unat_word_ariths)
      then have "unat cnt - unat k = Suc (unat cnt - unat (k + 1))" using less by simp
      then show ?thesis
        using items_step.hyps match False items_step.IH[of "k + 1"] k less
        by (subst madt_loop.simps) (simp add: items_of_def Let_def)
    qed
  next
    case False
    then show ?thesis
      using items_step.hyps items_step.IH[OF items_step.prems] by (subst madt_loop.simps) (simp add: items_of_def)
  qed
qed

lemma get_madt_item_nth:
  assumes "madt_table m table ps"
  shows "get_madt_item m table ty cnt =
    Some (let qs = items_of m ty ps in if unat cnt < length qs then qs ! unat cnt else NULL)"
proof -
  have "madt_items m (table + ucast (sdt_length table m)) (table + sizeof_madt_t) ps"
    using assms by (simp add: madt_table_def)
  from madt_loop_items[OF this, of 0 cnt ty] show ?thesis by (simp add: get_madt_item_def Let_def)
qed

lemma items_of_not_null: "madt_table m table ps \<Longrightarrow> j < length (items_of m ty ps) \<Longrightarrow> items_of m ty ps ! j \<noteq> NULL"
  using nth_mem[of j "items_of m ty ps"] by (auto simp: madt_table_def items_of_def)

lemma madt_count_loop_counts:
  assumes t: "madt_table m table ps" and n: "length (items_of m ty ps) < 256" and k: "k \<le> length (items_of m ty ps)"
  shows "madt_count_loop m table ty (of_nat k) = Some (of_nat (length (items_of m ty ps)))"
  using k
proof (induction rule: inc_induct)
  case base
  have "unat (ucast (of_nat (length (items_of m ty ps)) :: u64) :: u8) = length (items_of m ty ps)"
    using n by (simp add: unsigned_ucast_eq unat_of_nat take_bit_eq_mod)
  then show ?case by (subst madt_count_loop.simps) (simp add: get_madt_item_nth[OF t])
next
  case (step k)
  have "unat (ucast (of_nat k :: u64) :: u8) = k"
    using n step.hyps by (simp add: unsigned_ucast_eq unat_of_nat take_bit_eq_mod)
  then show ?case
    using step items_of_not_null[OF t]
    by (subst madt_count_loop.simps) (simp add: get_madt_item_nth[OF t] add.commute)
qed

lemma madt_count_loop_diverges:
  assumes t: "madt_table m table ps" and n: "256 \<le> length (items_of m ty ps)"
  shows "madt_count_loop m table ty k = None"
proof -
  have item: "get_madt_item m table ty c = Some p \<Longrightarrow> p \<noteq> NULL" for c p
  proof -
    have "unat c < 2 ^ LENGTH(8)" by (rule unsigned_less)
    then have "unat c < length (items_of m ty ps)" using n by simp
    then show "get_madt_item m table ty c = Some p \<Longrightarrow> p \<noteq> NULL"
      using items_of_not_null[OF t] by (auto simp: get_madt_item_nth[OF t])
  qed
  have "\<not> (m = m' \<and> table = table' \<and> ty = ty')" if "madt_count_loop m' table' ty' k = Some y" for m' table' ty' y
    using that
  proof (rule madt_count_loop.raw_induct [rotated])
    fix loop m' table' ty' k' y
    assume ih: "\<And>m' table' ty' k' y. loop m' table' ty' k' = Some y \<Longrightarrow> \<not> (m = m' \<and> table = table' \<and> ty = ty')"
      and b: "Option.bind (get_madt_item m' table' ty' (ucast (k' :: u64))) (\<lambda>item.
        if item = NULL then Some k' else loop m' table' ty' (k' + 1)) = Some y"
    show "\<not> (m = m' \<and> table = table' \<and> ty = ty')"
    proof (rule notI, elim conjE)
      assume eq: "m = m'" "table = table'" "ty = ty'"
      obtain p where p: "get_madt_item m table ty (ucast k') = Some p" using b eq by (auto simp: bind_eq_Some_conv)
      with item have "p \<noteq> NULL" by blast
      with b p eq have "loop m table ty (k' + 1) = Some y" by simp
      from ih[OF this] show False by simp
    qed
  qed
  then show ?thesis by (cases "madt_count_loop m table ty k") auto
qed

text \<open>The bytes of a table that \<open>parse_madt\<close> reads, and that it finds the same in a memory that agrees on them.\<close>

definition madt_bytes :: "u64 \<Rightarrow> u64 list \<Rightarrow> u64 set" where
  "madt_bytes table ps = span table 44 \<union> (\<Union>p\<in>set ps. span p 12)"

lemma madt_bytes_mem:
  "k < 44 \<Longrightarrow> table + of_nat k \<in> madt_bytes table ps"
  "p \<in> set ps \<Longrightarrow> k < 12 \<Longrightarrow> p + of_nat k \<in> madt_bytes table ps"
proof -
  show "k < 44 \<Longrightarrow> table + of_nat k \<in> madt_bytes table ps"
    unfolding madt_bytes_def by (rule UnI1) simp
  assume "p \<in> set ps" "k < 12"
  moreover have "p + of_nat k \<in> span p 12" using \<open>k < 12\<close> by simp
  ultimately show "p + of_nat k \<in> madt_bytes table ps" unfolding madt_bytes_def by blast
qed

lemma load32_cong: "(\<And>k. k < 4 \<Longrightarrow> m' (a + of_nat k) = m (a + of_nat k)) \<Longrightarrow> load32 a m' = load32 a m"
proof -
  assume eq: "\<And>k. k < 4 \<Longrightarrow> m' (a + of_nat k) = m (a + of_nat k)"
  show "load32 a m' = load32 a m"
    using eq[of 0] eq[of 1] eq[of 2] eq[of 3] by (simp add: load32_def)
qed

lemma load32_add_cong:
  assumes "\<And>k. k < n \<Longrightarrow> m' (a + of_nat k) = m (a + of_nat k)" "j + 4 \<le> n"
  shows "load32 (a + of_nat j) m' = load32 (a + of_nat j) m"
proof (rule load32_cong)
  fix k :: nat assume "k < 4"
  with assms show "m' (a + of_nat j + of_nat k) = m (a + of_nat j + of_nat k)"
    using assms(1)[of "j + k"] by (simp add: add.assoc)
qed

lemma madt_items_cong:
  "madt_items m e p ps \<Longrightarrow> (\<And>q. q \<in> set ps \<Longrightarrow> m' (q + 1) = m (q + 1)) \<Longrightarrow> madt_items m' e p ps"
  by (induction rule: madt_items.induct) (auto simp: item_length_def)

lemma madt_cong:
  assumes "\<forall>a\<in>madt_bytes table ps. m' a = m a"
  shows "madt_table m table ps \<Longrightarrow> madt_table m' table ps"
    and "items_of m' ty ps = items_of m ty ps"
    and "p \<in> set ps \<Longrightarrow> ioapic_so p m' = ioapic_so p m"
    and "p \<in> set ps \<Longrightarrow> j + 4 \<le> 12 \<Longrightarrow> load32 (p + of_nat j) m' = load32 (p + of_nat j) m"
proof -
  have h: "m' (table + of_nat k) = m (table + of_nat k)" if "k < 44" for k
    using that assms madt_bytes_mem(1) by blast
  have i: "m' (p + of_nat k) = m (p + of_nat k)" if "p \<in> set ps" "k < 12" for p k
    using that assms madt_bytes_mem(2) by blast
  have l: "sdt_length table m' = sdt_length table m"
    using load32_add_cong[of 44 m' table m 4] h by (simp add: sdt_length_def)
  have "m' (q + 1) = m (q + 1)" if "q \<in> set ps" for q using i[OF that, of 1] by simp
  then show "madt_table m table ps \<Longrightarrow> madt_table m' table ps"
    using madt_items_cong unfolding madt_table_def l by blast
  have "item_type q m' = item_type q m" if "q \<in> set ps" for q using i[OF that, of 0] by (simp add: item_type_def)
  then show "items_of m' ty ps = items_of m ty ps"
    unfolding items_of_def by (intro filter_cong) auto
  assume p: "p \<in> set ps"
  show w: "load32 (p + of_nat j) m' = load32 (p + of_nat j) m" if "j + 4 \<le> 12" for j
    using that load32_add_cong[of 12 m' p m j] i[OF p] by simp
  have "m' (p + 8 + 1) = m (p + 8 + 1)" using i[OF p, of 9] by (simp add: add.assoc)
  then show "ioapic_so p m' = ioapic_so p m"
    using i[OF p, of 0] i[OF p, of 1] i[OF p, of 2] i[OF p, of 3] i[OF p, of 8] w[of 4]
    by (simp add: ioapic_so_def item_type_def item_length_def load16_def)
qed

lemma heap_frame:
  fixes s t :: "'a kheap_scheme"
  assumes "vm_bytes t = vm_bytes s" "hp_heaps t = hp_heaps s"
  shows "heap_ok t xs = heap_ok s xs" "chain t b xs = chain s b xs" "heap_area t xs = heap_area s xs"
  using assms by (auto simp: heap_ok_def heap_area_def intro!: chain_cong)

lemma copy_ovrds:
  fixes s :: "'a kernel_scheme"
  assumes t: "madt_table (vm_bytes s) madt ps" and n: "length (items_of (vm_bytes s) MADT_INT_SO_OVRD ps) < 256"
    and k: "k \<le> length (items_of (vm_bytes s) MADT_INT_SO_OVRD ps)"
  shows "\<exists>f. for_opt k (copy_ovrd madt) s = Some (s\<lparr>ioapic_ovrds := f\<rparr>) \<and>
    (\<forall>i<k. f i = ioapic_so (items_of (vm_bytes s) MADT_INT_SO_OVRD ps ! i) (vm_bytes s))"
  using k
proof (induction k)
  case 0
  show ?case by (rule exI[of _ "ioapic_ovrds s"]) simp
next
  case (Suc k)
  then obtain f where f: "for_opt k (copy_ovrd madt) s = Some (s\<lparr>ioapic_ovrds := f\<rparr>)"
    "\<forall>i<k. f i = ioapic_so (items_of (vm_bytes s) MADT_INT_SO_OVRD ps ! i) (vm_bytes s)" by auto
  let ?so = "ioapic_so (items_of (vm_bytes s) MADT_INT_SO_OVRD ps ! k) (vm_bytes s)"
  have "unat (of_nat k :: u8) = k" using Suc.prems n by (simp add: unat_of_nat)
  then have "copy_ovrd madt k (s\<lparr>ioapic_ovrds := f\<rparr>) = Some (s\<lparr>ioapic_ovrds := f(k := ?so)\<rparr>)"
    using Suc.prems by (simp add: copy_ovrd_def get_madt_item_nth[OF t])
  with f(1) have "for_opt (Suc k) (copy_ovrd madt) s = Some (s\<lparr>ioapic_ovrds := f(k := ?so)\<rparr>)" by simp
  moreover have "\<forall>i<Suc k. (f(k := ?so)) i = ioapic_so (items_of (vm_bytes s) MADT_INT_SO_OVRD ps ! i) (vm_bytes s)"
    using f(2) by (simp add: less_Suc_eq)
  ultimately show ?case by blast
qed

lemma get_madt_count_length:
  assumes "madt_table m table ps" "length (items_of m ty ps) < 256"
  shows "get_madt_count m table ty = Some (of_nat (length (items_of m ty ps)))"
  using madt_count_loop_counts[OF assms, of 0] by (simp add: get_madt_count_def)

lemma heap_small: "n < 256 \<Longrightarrow> unat (k * of_nat n :: u64) \<le> 2 ^ 63" if "unat k \<le> 56" for k :: u64
proof -
  assume "n < 256"
  then have "unat (of_nat n :: u64) = n" by (simp add: unat_of_nat)
  moreover have "unat k * n \<le> 56 * 255" using that \<open>n < 256\<close> by (intro mult_le_mono) simp_all
  ultimately show ?thesis by (subst unat_mult_nowrap) simp_all
qed

text \<open>One allocation of \<open>parse_madt\<close>: it returns and leaves the table as it was.\<close>

lemma parse_alloc:
  fixes s :: "'a kernel_scheme"
  assumes "heap_ok s xs" "chain s (k_heap s) xs" "madt_table (vm_bytes s) madt ps"
    "madt_bytes madt ps \<inter> heap_area s xs = {}" "unat k \<le> 56" "n < 256"
  obtains a v h where "halloc (k * of_nat n) (k_heap s) s = Some (a, s\<lparr>vm_bytes := v, hp_heaps := h\<rparr>)"
    "heap_ok (s\<lparr>vm_bytes := v, hp_heaps := h\<rparr>) xs" "chain (s\<lparr>vm_bytes := v, hp_heaps := h\<rparr>) (k_heap s) xs"
    "heap_area (s\<lparr>vm_bytes := v, hp_heaps := h\<rparr>) xs = heap_area s xs"
    "\<forall>b. b \<in> madt_bytes madt ps \<longrightarrow> v b = vm_bytes s b"
proof -
  obtain a s' where r: "halloc (k * of_nat n) (k_heap s) s = Some (a, s')" "heap_ok s' xs" "chain s' (k_heap s) xs"
      "heap_area s' xs = heap_area s xs" "\<forall>c. c \<notin> heap_area s xs \<longrightarrow> vm_bytes s' c = vm_bytes s c"
      "\<exists>v h. s' = s\<lparr>vm_bytes := v, hp_heaps := h\<rparr>"
    using halloc_steps[OF assms(1,2) heap_small[OF assms(5,6)]] by blast
  from r(6) obtain v h where e: "s' = s\<lparr>vm_bytes := v, hp_heaps := h\<rparr>" by blast
  have "\<forall>b. b \<in> madt_bytes madt ps \<longrightarrow> v b = vm_bytes s b" using r(5) assms(4) by (auto simp: e)
  with that r(1-4) show ?thesis by (simp add: e)
qed


section \<open>Properties\<close>

text \<open>
  C38. Counting the items of a kind in the interrupt controller table: \<open>get_madt_count\<close> returns their number as long
  as there are fewer than 256 of them; from 256 on the index wraps in its 8 bits and the loop never ends. Item
  number \<open>k\<close> is the one found for every index, and there is none past the last.
\<close>
theorem get_madt_count_counts:
  assumes "madt_table m table ps"
  shows "get_madt_count m table ty =
      (if length (items_of m ty ps) < 256 then Some (of_nat (length (items_of m ty ps))) else None) \<and>
    get_madt_item m table ty k =
      Some (if unat k < length (items_of m ty ps) then items_of m ty ps ! unat k else NULL)"
  using get_madt_count_length[OF assms] madt_count_loop_diverges[OF assms] get_madt_item_nth[OF assms]
  by (simp add: get_madt_count_def Let_def)


subsection \<open>A concrete table\<close>

text \<open>A table at 0x20000 with two processors, one I/O APIC and one override, beside the heap of \<open>demo_boot\<close>.\<close>

definition demo_madt :: bytes where
  "demo_madt = (\<lambda>_. 0)(0x10000 := 1, 0x20004 := 82, 0x20026 := 0xE0, 0x20027 := 0xFE, 0x2002D := 8,
     0x20034 := 1, 0x20035 := 12, 0x2003A := 0xC0, 0x2003B := 0xFE, 0x20040 := 2, 0x20041 := 10, 0x20044 := 2, 0x2004B := 8)"

definition demo_acpi :: kernel where
  "demo_acpi = demo_boot\<lparr>vm_bytes := demo_madt\<rparr>"

abbreviation demo_items :: "u64 list" where
  "demo_items \<equiv> [0x2002C, 0x20034, 0x20040, 0x2004A]"

lemma demo_madt_table: "madt_table demo_madt 0x20000 demo_items"
  by (simp add: madt_table_def demo_madt_def sdt_length_def load32_def item_length_def kconst)

lemma demo_madt_items:
  "items_of demo_madt MADT_LAPIC demo_items = [0x2002C, 0x2004A]" "items_of demo_madt MADT_IOAPIC demo_items = [0x20034]"
  "items_of demo_madt MADT_INT_SO_OVRD demo_items = [0x20040]"
  by (simp_all add: items_of_def item_type_def demo_madt_def kconst)

theorem get_madt_count_counts_witness:
  "get_madt_count demo_madt 0x20000 MADT_LAPIC = Some 2 \<and> get_madt_item demo_madt 0x20000 MADT_LAPIC 1 = Some 0x2004A"
  using get_madt_count_counts[OF demo_madt_table, of MADT_LAPIC 1] by (simp add: demo_madt_items)

lemma demo_acpi_heap:
  "heap_ok demo_acpi [0x700]" "chain demo_acpi (k_heap demo_acpi) [0x700]" "heap_area demo_acpi [0x700] = span 0x10000 512"
proof -
  have r: "region boot_region = span 0x10000 512" by (simp add: region_def boot_region_def)
  have eq: "vm_bytes demo_boot a = demo_madt a" if "a \<in> span 0x10000 512" for a
  proof -
    have "unat a < 0x10200" using that span_nowrap[of "0x10000" 512 a] by simp
    then have "a \<notin> {0x20000, 0x20004, 0x20026, 0x20027, 0x2002D, 0x20034, 0x20035, 0x2003A, 0x2003B, 0x20040, 0x20041, 0x20044, 0x2004B}"
      by auto
    then show ?thesis by (simp add: demo_boot_def demo_madt_def)
  qed
  have wf: "wf_bitmap (vm_bytes demo_boot) boot_region" using demo_boot_heap(1) by (simp add: heap_ok_def demo_boot_def)
  then have ok: "region_ok boot_region" by (simp add: wf_bitmap_def)
  have "wf_bitmap demo_madt boot_region = wf_bitmap (vm_bytes demo_boot) boot_region"
    using id_table_region[OF ok] eq r by (intro wf_bitmap_cong[OF _ ok]) (metis subsetD)
  with wf have "wf_bitmap demo_madt boot_region" by simp
  then show "heap_ok demo_acpi [0x700]" by (simp add: heap_ok_def demo_acpi_def) (simp add: demo_boot_def)
  show "chain demo_acpi (k_heap demo_acpi) [0x700]" by (simp add: demo_acpi_def demo_boot_def)
  show "heap_area demo_acpi [0x700] = span 0x10000 512"
    using demo_boot_heap(4) by (simp add: heap_area_def demo_acpi_def)
qed



subsection \<open>Checksums\<close>

lemma checksum_sum: "for_upto n (\<lambda>i acc. acc + m (p + of_nat i)) (0 :: u8) = (\<Sum>i<n. m (p + of_nat i))"
  by (induction n) simp_all

text \<open>
  The checksum catches every table with a single damaged byte: if a table is valid and exactly one byte of
  it changes, it is not valid any more.
\<close>
theorem validate_checksum_detects:
  assumes "validate_checksum start len m" "k < unat len" "v \<noteq> m (start + of_nat k)"
  shows "\<not> validate_checksum start len (m(start + of_nat k := v))"
proof -
  let ?m = "m(start + of_nat k := v)"
  have lt: "unat len < 2 ^ LENGTH(64)" by (rule unsigned_less)
  have other: "?m (start + of_nat i) = m (start + of_nat i)" if "i < unat len" "i \<noteq> k" for i
  proof -
    have "unat (of_nat i :: u64) = i" "unat (of_nat k :: u64) = k" using that assms(2) lt by (simp_all add: unat_of_nat)
    with that(2) have "of_nat i \<noteq> (of_nat k :: u64)" by metis
    then show ?thesis by simp
  qed
  have split: "(\<Sum>i<unat len. f i) = f k + (\<Sum>i\<in>{..<unat len} - {k}. f i)" for f :: "nat \<Rightarrow> u8"
    using assms(2) by (simp add: sum.remove)
  have "(\<Sum>i\<in>{..<unat len} - {k}. ?m (start + of_nat i)) = (\<Sum>i\<in>{..<unat len} - {k}. m (start + of_nat i))"
    using other by (intro sum.cong) auto
  then have "(\<Sum>i<unat len. ?m (start + of_nat i)) - (\<Sum>i<unat len. m (start + of_nat i)) = v - m (start + of_nat k)"
    unfolding split by simp
  then show ?thesis using assms(1,3) unfolding validate_checksum_def checksum_sum by (simp del: fun_upd_apply)
qed

theorem validate_checksum_detects_witness:
  "\<not> validate_checksum 0x20000 82 ((\<lambda>_. 0)(0x20000 + of_nat 5 := 7))"
  by (rule validate_checksum_detects) (simp_all add: validate_checksum_def for_upto_id)

end
