(* ===== verification/Boot_Services.thy ===== *)
theory Boot_Services
  imports Acpi
begin

text \<open>
  What the UEFI loader (\<^verbatim>\<open>src/boot\<close>) works on: memory, the fields of \<^verbatim>\<open>kernel_info_t\<close> it fills in, and the
  services of the firmware.

  The firmware is not part of the repository. It is a parameter \<open>uefi\<close>: a function that answers the newest call
  from the whole history of calls (\<open>b_efi\<close>, newest first) with a status, the values of the output parameters
  (\<open>None\<close>: not written) and the bytes the service stores into memory, and the structures the loader reads from the
  system table. \<open>conforming\<close> states what the UEFI specification promises of the services that allocate and fill
  memory; it is a hypothesis of the theorems that need it.

  Memory is one array of bytes: page tables, buffers and segments are all parts of it, and a page-table entry is the
  64-bit word at its address, low byte first. An early \<^verbatim>\<open>return status\<close> is \<open>Inl status\<close>, the end of a function
  \<open>Inr\<close> of its output value; \<open>None\<close> is "does not return". \<^verbatim>\<open>Print\<close> writes to the firmware's console only
  and is left out.
\<close>

section \<open>Status codes\<close>

text \<open>The values and the macros of the UEFI specification.\<close>

definition EFI_ERROR :: "u64 \<Rightarrow> bool" where "EFI_ERROR status \<longleftrightarrow> bit status 63"
definition EFI_SUCCESS :: u64 where [kconst]: "EFI_SUCCESS = 0"
definition EFI_LOAD_ERROR :: u64 where [kconst]: "EFI_LOAD_ERROR = 0x8000000000000001"
definition EFI_INVALID_PARAMETER :: u64 where [kconst]: "EFI_INVALID_PARAMETER = 0x8000000000000002"
definition EFI_UNSUPPORTED :: u64 where [kconst]: "EFI_UNSUPPORTED = 0x8000000000000003"
definition EFI_BUFFER_TOO_SMALL :: u64 where [kconst]: "EFI_BUFFER_TOO_SMALL = 0x8000000000000005"
definition EFI_OUT_OF_RESOURCES :: u64 where [kconst]: "EFI_OUT_OF_RESOURCES = 0x8000000000000009"
definition EFI_NOT_FOUND :: u64 where [kconst]: "EFI_NOT_FOUND = 0x800000000000000E"

definition EfiLoaderCode :: u32 where [kconst]: "EfiLoaderCode = 1"
definition EfiLoaderData :: u32 where [kconst]: "EfiLoaderData = 2"
definition EFI_PAGE_SIZE :: u64 where [kconst]: "EFI_PAGE_SIZE = 4096"

definition EFI_SIZE_TO_PAGES :: "u64 \<Rightarrow> u64" where
  [kmacro]: "EFI_SIZE_TO_PAGES a = drop_bit 12 a + (if a AND 0xFFF \<noteq> 0 then 1 else 0)"

section \<open>Services\<close>

datatype protocol = SimpleFileSystem | GraphicsOutput

type_synonym guid = "128 word"

datatype efi_call =
    SetWatchdogTimer
  | ConInReset
  | ClearScreen
  | AllocatePages u32 u64
  | SetMem u64 u64 u8
  | AllocatePool u32 u64
  | FreePool u64
  | GetMemoryMap u64 u64
  | LocateProtocol protocol
  | QueryMode u64 u64
  | SetMode u64 u64
  | OpenVolume u64
  | FileOpen u64 string
  | SetPosition u64 u64
  | FileRead u64 u64 u64
  | FileClose u64
  | ExitBootServices u64 u64

record gop_info =
  gi_HorizontalResolution :: u32
  gi_VerticalResolution :: u32
  gi_PixelFormat :: u32
  gi_PixelsPerScanLine :: u32

record gop_mode =
  gm_MaxMode :: u32
  gm_Info :: gop_info
  gm_FrameBufferBase :: u64

record efi_reply =
  er_status :: u64
  er_out :: "u64 option"
  er_key :: "u64 option"
  er_desc_size :: "u64 option"
  er_info :: gop_info
  er_stores :: "u64 \<Rightarrow> u8 option"

text \<open>
  \<open>ef_mode\<close> is \<^verbatim>\<open>*gop->Mode\<close> as it stands after the calls so far, \<open>ef_tables\<close> the array
  \<^verbatim>\<open>gST->ConfigurationTable\<close>; \<open>ef_CompareGuid\<close> and the two GUIDs come from the firmware library.
\<close>

record uefi =
  ef_call :: "efi_call list \<Rightarrow> efi_reply"
  ef_mode :: "efi_call list \<Rightarrow> gop_mode"
  ef_tables :: "(guid \<times> u64) list"
  ef_CompareGuid :: "guid \<Rightarrow> guid \<Rightarrow> int"
  ACPI_20_TABLE_GUID :: guid
  ACPI_TABLE_GUID :: guid

section \<open>State\<close>

record boot =
  b_mem :: bytes
  b_efi :: "efi_call list"
  b_mmap :: u64
  b_mmap_size :: u64
  b_mmap_desc_size :: u64
  b_num_ke :: u64
  b_ke :: u64
  b_pml4 :: u64
  b_bitmap :: u64
  b_bitmap_entries :: u64
  b_bitmap_size :: u64
  b_mem_pages :: u64
  b_fb_buffer :: u64
  b_fb_horizontal_res :: u32
  b_fb_vertical_res :: u32
  b_fb_pixels_per_scanline :: u32
  b_fb_bpp :: u8
  b_acpi_sdt_addr :: u64
  b_acpi_xsdt :: bool

type_synonym 'a efi_result = "((u64 + 'a) \<times> boot) option"

definition store64 :: "u64 \<Rightarrow> u64 \<Rightarrow> bytes \<Rightarrow> bytes" where
  "store64 a v m = store32 (a + 4) (ucast (drop_bit 32 v)) (store32 a (ucast v) m)"

definition efi :: "uefi \<Rightarrow> efi_call \<Rightarrow> boot \<Rightarrow> efi_reply \<times> boot" where
  "efi fw c s =
     (let r = ef_call fw (c # b_efi s)
      in (r, s\<lparr>b_mem := (\<lambda>a. case er_stores r a of Some b \<Rightarrow> b | None \<Rightarrow> b_mem s a), b_efi := c # b_efi s\<rparr>))"

text \<open>The value of a variable that was \<open>d\<close> before its address was passed to a service.\<close>

definition out_or :: "u64 \<Rightarrow> u64 option \<Rightarrow> u64" where
  "out_or d v = (case v of Some x \<Rightarrow> x | None \<Rightarrow> d)"

definition efi_seq :: "'a efi_result \<Rightarrow> ('a \<Rightarrow> boot \<Rightarrow> 'b efi_result) \<Rightarrow> 'b efi_result" where
  "efi_seq m f = Option.bind m (\<lambda>(r, s). case r of Inl status \<Rightarrow> Some (Inl status, s) | Inr x \<Rightarrow> f x s)"

text \<open>\<^verbatim>\<open>status = uefi_call_wrapper(c); if (EFI_ERROR(status)) return status;\<close>\<close>

definition efi_try :: "uefi \<Rightarrow> efi_call \<Rightarrow> boot \<Rightarrow> efi_reply efi_result" where
  "efi_try fw c s =
     (let (r, s) = efi fw c s in Some (if EFI_ERROR (er_status r) then Inl (er_status r) else Inr r, s))"

text \<open>A counting loop whose body may leave the function with a status.\<close>

primrec efi_for :: "nat \<Rightarrow> (nat \<Rightarrow> boot \<Rightarrow> unit efi_result) \<Rightarrow> boot \<Rightarrow> unit efi_result" where
  "efi_for 0 f s = Some (Inr (), s)"
| "efi_for (Suc n) f s = efi_seq (efi_for n f s) (\<lambda>_. f n)"

lemma efi_seq_simps [simp]:
  "efi_seq None f = None" "efi_seq (Some (Inl e, s)) f = Some (Inl e, s)" "efi_seq (Some (Inr x, s)) f = f x s"
  by (simp_all add: efi_seq_def)

lemma efi_seq_Some:
  "efi_seq m f = Some (r, t) \<longleftrightarrow>
    (\<exists>e. m = Some (Inl e, t) \<and> r = Inl e) \<or> (\<exists>x s. m = Some (Inr x, s) \<and> f x s = Some (r, t))"
proof (cases m)
  case (Some p)
  then show ?thesis by (cases p; cases "fst p") auto
qed simp

lemma efi_seq_assoc: "efi_seq (efi_seq m f) g = efi_seq m (\<lambda>x s. efi_seq (f x s) g)"
proof (cases m)
  case (Some p)
  then show ?thesis by (cases p; cases "fst p") auto
qed simp

lemma efi_seq_mono [partial_function_mono]:
  assumes "mono_option B" "\<And>x s. mono_option (C x s)"
  shows "mono_option (\<lambda>f. efi_seq (B f) (\<lambda>x s. C x s f))"
proof -
  have "mono_option (\<lambda>f. case r of Inl status \<Rightarrow> Some (Inl status, s) | Inr x \<Rightarrow> C x s f)" for r s
    using assms(2) option.const_mono by (cases r) simp_all
  then have "mono_option (\<lambda>f. (\<lambda>(r, s). case r of Inl status \<Rightarrow> Some (Inl status, s) | Inr x \<Rightarrow> C x s f) p)" for p
    by (cases p) simp
  then show ?thesis unfolding efi_seq_def by (intro bind_mono assms(1))
qed

lemma efi_for_returns:
  assumes "P 0 s" and "\<And>i u. i < n \<Longrightarrow> P i u \<Longrightarrow>
    \<exists>r v. f i u = Some (r, v) \<and> (case r of Inr _ \<Rightarrow> P (Suc i) v | Inl e \<Rightarrow> Q e v)"
  shows "\<exists>r t. efi_for n f s = Some (r, t) \<and> (case r of Inr _ \<Rightarrow> P n t | Inl e \<Rightarrow> Q e t)"
  using assms
proof (induction n)
  case (Suc n)
  then obtain r u where u: "efi_for n f s = Some (r, u)" "case r of Inr _ \<Rightarrow> P n u | Inl e \<Rightarrow> Q e u"
    by (metis less_SucI)
  show ?case
  proof (cases r)
    case (Inl e)
    with u show ?thesis by simp
  next
    case (Inr x)
    with u Suc.prems(2) [of n u] show ?thesis by simp
  qed
qed simp

lemma EFI_ERROR_simps [simp]:
  "\<not> EFI_ERROR 0" "EFI_ERROR EFI_OUT_OF_RESOURCES" "EFI_ERROR EFI_NOT_FOUND" "EFI_ERROR EFI_BUFFER_TOO_SMALL"
  "EFI_ERROR EFI_INVALID_PARAMETER" "EFI_ERROR EFI_UNSUPPORTED" "EFI_ERROR EFI_LOAD_ERROR"
  by (simp_all add: EFI_ERROR_def kconst bit_numeral_word_iff)

lemma not_Inr_unit: "r \<noteq> Inr () \<longleftrightarrow> (\<exists>e. r = Inl e)"
  by (cases r) auto

end
