(* ===== verification/Boot_Paging.thy ===== *)
theory Boot_Paging
  imports Boot_Services
begin

text \<open>
  \<^verbatim>\<open>src/boot/mem.c\<close>, first half: \<open>MapAddr\<close>, \<open>MapRange\<close> and \<open>ConfigurePaging\<close>, which build the page tables the kernel
  starts with.

  The loader writes its tables with the same shifts and masks as the kernel, but it takes pages from the firmware and
  enters every table it adds into the tables themselves, by calling itself. \<open>view\<close> shows memory and the firmware's
  free pages as the state of the kernel's page-table code, so that the lemmas of \<open>Page_Tables\<close> on trees of
  frames apply. \<open>boot_inv\<close>: the tables reachable from the root form such a tree and lie in pages
  the firmware has handed out. Shown: mapping returns, maps what was asked for and keeps the rest, or reports an
  error when no page is left.
\<close>

section \<open>Definitions\<close>

definition MAX_MAPPED_ADDR :: u64 where [kconst]: "MAX_MAPPED_ADDR = 0x40000000"

definition tbl_read :: "u64 \<Rightarrow> u64 \<Rightarrow> boot \<Rightarrow> u64" where
  "tbl_read tbl i s = load64 (tbl + 8 * i) (b_mem s)"

definition tbl_write :: "u64 \<Rightarrow> u64 \<Rightarrow> u64 \<Rightarrow> boot \<Rightarrow> boot" where
  "tbl_write tbl i v s = s\<lparr>b_mem := store64 (tbl + 8 * i) v (b_mem s)\<rparr>"

definition AllocTable :: "uefi \<Rightarrow> boot \<Rightarrow> u64 efi_result" where
  "AllocTable fw s =
     efi_seq (efi_try fw (AllocatePages EfiLoaderData 1) s) (\<lambda>r s.
       let table = out_or MAX_MAPPED_ADDR (er_out r) in
       efi_seq (efi_try fw (SetMem table EFI_PAGE_SIZE 0) s) (\<lambda>_ s. Some (Inr table, s)))"

partial_function (option) MapAddr :: "uefi \<Rightarrow> u64 \<Rightarrow> u64 \<Rightarrow> u64 \<Rightarrow> boot \<Rightarrow> unit efi_result" where
  [code]: "MapAddr fw phys_addr virt_addr p4_tbl s =
    (let p4_idx = P4_ENTRY virt_addr; p3_idx = P3_ENTRY virt_addr;
         p2_idx = P2_ENTRY virt_addr; p1_idx = P1_ENTRY virt_addr
     in efi_seq
       (if tbl_read p4_tbl p4_idx s AND 1 = 0
        then efi_seq (AllocTable fw s) (\<lambda>table s.
               MapAddr fw table table p4_tbl (tbl_write p4_tbl p4_idx (table OR KERNEL_PT_ENTRY) s))
        else Some (Inr (), s))
       (\<lambda>_ s. let p3_tbl = tbl_read p4_tbl p4_idx s AND SIGN_MASK in efi_seq
       (if tbl_read p3_tbl p3_idx s AND 1 = 0
        then efi_seq (AllocTable fw s) (\<lambda>table s.
               MapAddr fw table table p4_tbl (tbl_write p3_tbl p3_idx (table OR KERNEL_PT_ENTRY) s))
        else Some (Inr (), s))
       (\<lambda>_ s. let p2_tbl = tbl_read p3_tbl p3_idx s AND SIGN_MASK in efi_seq
       (if tbl_read p2_tbl p2_idx s AND 1 = 0
        then efi_seq (AllocTable fw s) (\<lambda>table s.
               MapAddr fw table table p4_tbl (tbl_write p2_tbl p2_idx (table OR KERNEL_PT_ENTRY) s))
        else Some (Inr (), s))
       (\<lambda>_ s. let p1_tbl = tbl_read p2_tbl p2_idx s AND SIGN_MASK in
          Some (Inr (), tbl_write p1_tbl p1_idx (phys_addr OR KERNEL_PT_ENTRY) s)))))"

definition MapRange :: "uefi \<Rightarrow> u64 \<Rightarrow> u64 \<Rightarrow> u64 \<Rightarrow> u64 \<Rightarrow> boot \<Rightarrow> unit efi_result" where
  "MapRange fw phys virt pages p4_tbl s =
     efi_for (unat pages)
       (\<lambda>i. MapAddr fw (phys + of_nat i * PAGE_SIZE) (virt + of_nat i * PAGE_SIZE) p4_tbl) s"

text \<open>\<open>ConfigurePaging\<close> looks at neither of the first two results.\<close>

definition ConfigurePaging :: "uefi \<Rightarrow> boot \<Rightarrow> unit efi_result" where
  "ConfigurePaging fw s =
     (let (r, s) = efi fw (AllocatePages EfiLoaderData 1) s;
          p4_tbl = out_or NULL (er_out r);
          (_, s) = efi fw (SetMem p4_tbl EFI_PAGE_SIZE 0) s;
          s = s\<lparr>b_pml4 := p4_tbl\<rparr>
      in efi_seq (MapAddr fw (b_pml4 s) (b_pml4 s) (b_pml4 s) s) (\<lambda>_ s. Some (Inr (), s)))"

section \<open>Memory of the firmware\<close>

text \<open>
  \<open>held\<close> is the memory the firmware has handed out, as pages or from its pool, and not got back (the loader gives back
  pool memory only); a frame of \<open>A\<close> is free while none of its
  bytes is held.
\<close>

fun pool_size :: "uefi \<Rightarrow> u64 \<Rightarrow> efi_call list \<Rightarrow> nat" where
  "pool_size fw p [] = 0"
| "pool_size fw p (c # h) =
     (case c of AllocatePool t n \<Rightarrow> if er_out (ef_call fw (c # h)) = Some p then unat n else pool_size fw p h
      | _ \<Rightarrow> pool_size fw p h)"

fun page_held :: "uefi \<Rightarrow> efi_call list \<Rightarrow> u64 set" where
  "page_held fw [] = {}"
| "page_held fw (c # h) =
     (let r = ef_call fw (c # h)
      in if EFI_ERROR (er_status r) then page_held fw h
         else case c of
             AllocatePages t n \<Rightarrow> span (out_or NULL (er_out r)) (unat n * 4096) \<union> page_held fw h
           | _ \<Rightarrow> page_held fw h)"

fun pool_held :: "uefi \<Rightarrow> efi_call list \<Rightarrow> u64 set" where
  "pool_held fw [] = {}"
| "pool_held fw (c # h) =
     (let r = ef_call fw (c # h)
      in if EFI_ERROR (er_status r) then pool_held fw h
         else case c of
             AllocatePool t n \<Rightarrow> span (out_or NULL (er_out r)) (unat n) \<union> pool_held fw h
           | FreePool p \<Rightarrow> pool_held fw h - span p (pool_size fw p h)
           | _ \<Rightarrow> pool_held fw h)"

definition held :: "uefi \<Rightarrow> efi_call list \<Rightarrow> u64 set" where
  "held fw h = page_held fw h \<union> pool_held fw h"

definition page_bytes :: "nat \<Rightarrow> u64 set" where
  "page_bytes f = span (frame_addr f) 4096"

definition free_pages :: "uefi \<Rightarrow> nat set \<Rightarrow> efi_call list \<Rightarrow> nat set" where
  "free_pages fw A h = {f \<in> A. page_bytes f \<inter> held fw h = {}}"

fun buffer_of :: "efi_call \<Rightarrow> u64 set" where
  "buffer_of (SetMem p n v) = span p (unat n)"
| "buffer_of (FileRead fh n p) = span p (unat n)"
| "buffer_of (GetMemoryMap n p) = span p (unat n)"
| "buffer_of _ = {}"

text \<open>
  What the UEFI specification says of memory services, for a machine whose firmware allocates pages from the frames
  \<open>A\<close> below 16 GiB and its pool from elsewhere: pages and pool memory handed out were free, and a single page is refused only
  when there is none;
  a service stores into memory handed out before only where it was given a buffer; \<^verbatim>\<open>SetMem\<close> fills its buffer.
  \<^verbatim>\<open>SetMem\<close> has no status; the loader looks at one, and this one is taken not to be an error.
\<close>

definition conforming :: "uefi \<Rightarrow> nat set \<Rightarrow> bool" where
  "conforming fw A \<longleftrightarrow> A \<subseteq> {1..<64 * 65535} \<and>
     (\<forall>h t n. let r = ef_call fw (AllocatePages t n # h) in
        if EFI_ERROR (er_status r) then n = 1 \<longrightarrow> free_pages fw A h = {}
        else \<exists>f. er_out r = Some (frame_addr f) \<and> {f..<f + unat n} \<subseteq> free_pages fw A h) \<and>
     (\<forall>h t n. let r = ef_call fw (AllocatePool t n # h) in
        \<not> EFI_ERROR (er_status r) \<longrightarrow>
          (\<exists>p. er_out r = Some p \<and> unat p + unat n \<le> 2 ^ 46 \<and> span p (unat n) \<inter> (held fw h \<union> (\<Union>f\<in>A. page_bytes f)) = {})) \<and>
     (\<forall>h c a. a \<in> held fw h - buffer_of c \<longrightarrow> er_stores (ef_call fw (c # h)) a = None) \<and>
     (\<forall>h p n v. let r = ef_call fw (SetMem p n v # h) in
        \<not> EFI_ERROR (er_status r) \<and> (\<forall>a\<in>span p (unat n). er_stores r a = Some v))"

section \<open>Words in memory\<close>

lemma load64_shift: "(\<And>i. i < 8 \<Longrightarrow> m (a + of_nat i) = m' (b + of_nat i)) \<Longrightarrow> load64 a m = load64 b m'"
proof -
  assume eq: "\<And>i. i < 8 \<Longrightarrow> m (a + of_nat i) = m' (b + of_nat i)"
  show ?thesis
    using eq [of 0] eq [of 1] eq [of 2] eq [of 3] eq [of 4] eq [of 5] eq [of 6] eq [of 7]
    by (simp add: load64_def load32_def add.assoc)
qed

lemmas load64_cong = load64_shift [of m a m' a for m a m']

lemma load64_zero: "(\<And>i. i < 8 \<Longrightarrow> m (a + of_nat i) = 0) \<Longrightarrow> load64 a m = 0"
  by (subst load64_cong [of m a "\<lambda>_. 0"]) (simp_all add: load64_def load32_def)

lemma load32_store32 [simp]: "load32 a (store32 a v m) = v"
proof (rule bit_word_eqI)
  fix n assume "n < LENGTH(32)"
  then consider "n < 8" | "8 \<le> n" "n < 16" | "16 \<le> n" "n < 24" | "24 \<le> n" "n < 32" by fastforce
  then show "bit (load32 a (store32 a v m)) n = bit v n"
    by cases (auto simp: load32_def store32_def bit_or_iff bit_push_bit_iff bit_ucast_iff bit_drop_bit_eq)
qed

lemma load32_store32_next [simp]: "load32 a (store32 (a + 4) v m) = load32 a m"
  by (simp add: load32_def store32_def add.assoc)

lemma load64_store64 [simp]: "load64 a (store64 a v m) = v"
proof (rule bit_word_eqI)
  fix n assume "n < LENGTH(64)"
  then consider "n < 32" | "32 \<le> n" "n < 64" by fastforce
  then show "bit (load64 a (store64 a v m)) n = bit v n"
    by cases (auto simp: load64_def store64_def bit_or_iff bit_push_bit_iff bit_ucast_iff bit_drop_bit_eq)
qed

lemma store64_other: "b \<notin> span a 8 \<Longrightarrow> store64 a v m b = m b"
proof -
  assume "b \<notin> span a 8"
  then have "b \<noteq> a + of_nat i" if "i < 8" for i using that by (auto simp: unat_of_nat64)
  from this [of 0] this [of 1] this [of 2] this [of 3] this [of 4] this [of 5] this [of 6] this [of 7]
  show ?thesis by (simp add: store64_def store32_def add.assoc)
qed

section \<open>The page tables in memory\<close>

text \<open>
  The words of memory as the page-table memory of \<open>Paging\<close>: \<open>pt_of\<close> shows all of it. \<open>view\<close> shows the pages that
  are held, and has a frame bitmap in which exactly the frames the firmware can still hand out are free, so that
  the lemmas on trees of page tables apply.
\<close>

definition no_kmem :: paging where
  "no_kmem = \<lparr>km_mmap = \<lambda>_. \<lparr>md_type = 0, md_physical_start = 0, md_virtual_start = 0, md_count = 0, md_attributes = 0\<rparr>,
     km_mmap_size = 0, km_mmap_desc_size = 0, km_num_ke = 0,
     km_ke = \<lambda>_. \<lparr>ke_vaddr = 0, ke_paddr = 0, ke_num_pages = 0\<rparr>, km_pml4 = 0, km_bitmap = \<lambda>_. 0, km_bitmap_addr = 0,
     km_bitmap_entries = 65535, km_bitmap_size = 0, km_mem_pages = 0x400000,
     k_vmm = \<lparr>vm_flags = 0, vm_p4_tbl = 0, vm_bm = demo_region\<rparr>, pt_mem = \<lambda>_. 0\<rparr>"

definition pt_of :: "boot \<Rightarrow> paging" where
  "pt_of s = no_kmem\<lparr>pt_mem := (\<lambda>a. load64 a (b_mem s))\<rparr>"

definition bitmap_row :: "nat set \<Rightarrow> nat \<Rightarrow> u64" where
  "bitmap_row F r = horner_sum of_bool 2 (map (\<lambda>c. 64 * r + c \<notin> F) [0..<64])"

definition view :: "uefi \<Rightarrow> nat set \<Rightarrow> boot \<Rightarrow> paging" where
  "view fw A s = no_kmem\<lparr>km_bitmap := bitmap_row (free_pages fw A (b_efi s)),
     pt_mem := (\<lambda>a. if 8 dvd unat a \<and> page_bytes (unat a div 4096) \<subseteq> page_held fw (b_efi s) then load64 a (b_mem s) else 0)\<rparr>"

lemma bit_bitmap_row: "bit (bitmap_row F r) c \<longleftrightarrow> c < 64 \<and> 64 * r + c \<notin> F"
  by (auto simp: bitmap_row_def bit_horner_sum_bit_word_iff)

lemma view_cong: "b_mem s = b_mem t \<Longrightarrow> b_efi s = b_efi t \<Longrightarrow> view fw A s = view fw A t"
  by (simp only: view_def)

lemma view_free: "A \<subseteq> {1..<64 * 65535} \<Longrightarrow> free_frames (view fw A s) = free_pages fw A (b_efi s)"
  by (auto simp: free_frames_def frame_used_def view_def no_kmem_def bit_bitmap_row free_pages_def)

lemma view_wf: "A \<subseteq> {1..<64 * 65535} \<Longrightarrow> wf_pmm (view fw A s)"
  by (auto simp: wf_pmm_def view_free) (auto simp: free_pages_def view_def no_kmem_def)

lemma view_only: "pt_only (view fw A s) (view fw A t)"
  unfolding pt_only_def view_def by (rule exI, rule exI) (simp add: no_kmem_def)

lemma page_bytes_iff:
  assumes "f < 2 ^ 52" shows "a \<in> page_bytes f \<longleftrightarrow> unat a div 4096 = f"
proof -
  have "unat (frame_addr f) + 4096 \<le> 2 ^ 64" using assms by (simp add: unat_frame_addr)
  then show ?thesis unfolding page_bytes_def using assms
    by (subst span_nowrap) (auto simp: unat_frame_addr)
qed

lemma unat_div_page: "unat (a :: u64) div 4096 < 2 ^ 52"
  using unat_lt_exp64 [of a] by (simp add: less_mult_imp_div_less)

lemma in_page: "a \<in> page_bytes (unat a div 4096)"
  by (simp only: page_bytes_iff [OF unat_div_page])

text \<open>The eight bytes of an aligned word lie in one page.\<close>

lemma word_in_page:
  assumes "8 dvd unat a" "i < 8" shows "unat (a + of_nat i :: u64) div 4096 = unat a div 4096"
    and "unat (a + of_nat i :: u64) = unat a + i"
proof -
  obtain k where k: "unat a = 8 * k" using assms(1) by (auto elim: dvdE)
  have "unat a < 2 ^ 64" by (rule unat_lt_exp64)
  with k have "k < 2 ^ 61" by simp
  with k assms(2) have lt: "unat a + i < 2 ^ 64" by simp
  show "unat (a + of_nat i) = unat a + i"
    using assms(2) lt by (subst unat_add_nowrap) (simp_all add: unat_of_nat64)
  then show "unat (a + of_nat i) div 4096 = unat a div 4096" 
    using k assms(2) div_mult2_eq [of "8 * k + i" 8 512] by simp
qed

lemma aligned_words_apart:
  assumes "8 dvd unat a" "8 dvd unat b" "a \<noteq> b" "i < 8"
  shows "b + of_nat i \<notin> span a 8"
proof
  assume "b + of_nat i \<in> span a 8"
  then obtain j where j: "j < 8" "b + of_nat i = a + of_nat j" by (rule span_imageE)
  then have "unat b + i = unat a + j"
    using word_in_page(2) [OF assms(2,4)] word_in_page(2) [OF assms(1) j(1)] by metis
  with assms(1,2,4) j(1) have "unat b = unat a" by (auto elim!: dvdE)
  with assms(3) show False by (simp add: word_unat_eq_iff)
qed

lemma slot_aligned: "f < 2 ^ 35 \<Longrightarrow> i < 512 \<Longrightarrow> 8 dvd unat (frame_addr f + 8 * i)"
  by (simp add: unat_slot)

lemma view_read:
  assumes "f < 2 ^ 35" "i < 512" "page_bytes f \<subseteq> page_held fw (b_efi s)"
  shows "pt_read (view fw A s) (frame_addr f) i = tbl_read (frame_addr f) i s"
  using assms by (simp add: pt_read_def tbl_read_def view_def slot_aligned slot_frame)

lemma view_write:
  assumes "f < 2 ^ 35" "i < 512" "page_bytes f \<subseteq> page_held fw (b_efi s)"
  shows "view fw A (tbl_write (frame_addr f) i v s) = pt_write (frame_addr f) i v (view fw A s)"
proof -
  let ?w = "frame_addr f + 8 * i"
  have "load64 a (store64 ?w v (b_mem s)) = load64 a (b_mem s)" if "a \<noteq> ?w" "8 dvd unat a" for a
    using aligned_words_apart [OF slot_aligned [OF assms(1,2)] that(2)] that(1)
    by (intro load64_cong store64_other) auto
  then show ?thesis using assms
    by (simp add: view_def tbl_write_def pt_write_def fun_eq_iff slot_aligned slot_frame)
qed

text \<open>Calls of services that leave the held pages alone.\<close>

lemma view_eq:
  assumes "free_pages fw A (b_efi t) = free_pages fw A (b_efi s) - F" "F \<subseteq> free_pages fw A (b_efi s)"
    and "\<And>f. f < 2 ^ 52 \<Longrightarrow> page_bytes f \<subseteq> page_held fw (b_efi t) \<Longrightarrow>
       page_bytes f \<subseteq> page_held fw (b_efi s) \<and> (\<forall>a\<in>page_bytes f. b_mem t a = b_mem s a) \<or>
       \<not> page_bytes f \<subseteq> page_held fw (b_efi s) \<and> (\<forall>a\<in>page_bytes f. b_mem t a = 0)"
    and "page_held fw (b_efi s) \<subseteq> page_held fw (b_efi t)"
  shows "view fw A t = (view fw A s)\<lparr>km_bitmap := bitmap_row (free_pages fw A (b_efi s) - F)\<rparr>"
proof -
  have "pt_mem (view fw A t) a = pt_mem (view fw A s) a" for a
  proof (cases "8 dvd unat a \<and> page_bytes (unat a div 4096) \<subseteq> page_held fw (b_efi t)")
    case True
    have w: "a + of_nat i \<in> page_bytes (unat a div 4096)" if "i < 8" for i
      using word_in_page(1) [of a i] True that by (simp only: page_bytes_iff [OF unat_div_page])
    from assms(3) [OF unat_div_page] True
    have "page_bytes (unat a div 4096) \<subseteq> page_held fw (b_efi s) \<and> load64 a (b_mem t) = load64 a (b_mem s) \<or>
      \<not> page_bytes (unat a div 4096) \<subseteq> page_held fw (b_efi s) \<and> load64 a (b_mem t) = 0"
      using w load64_cong [of "b_mem t" a "b_mem s"] load64_zero [of "b_mem t" a] by blast
    with True show ?thesis by (auto simp: view_def)
  next
    case False
    with assms(4) show ?thesis by (auto simp: view_def)
  qed
  then show ?thesis using assms(1) by (simp add: view_def fun_eq_iff)
qed

lemma set_bit_row:
  assumes "f < 64 * 65535" "0 < f"
  shows "pmm_set_bit (frame_addr f) (view fw A s) = (view fw A s)\<lparr>km_bitmap := bitmap_row (free_pages fw A (b_efi s) - {f})\<rparr>"
proof -
  let ?s = "view fw A s"
  have nz: "frame_addr f \<noteq> 0" using unat_frame_addr [of f] assms by auto
  have fp: "unat (frame_addr f div PAGE_SIZE) = f" using assms(1) by (intro frame_addr_page) simp
  have "km_bitmap (pmm_set_bit (frame_addr f) ?s) r = bitmap_row (free_pages fw A (b_efi s) - {f}) r" for r
  proof (rule bit_word_eqI)
    fix c assume "c < LENGTH(64)"
    then have c: "(64 * r + c) div 64 = r" "(64 * r + c) mod 64 = c" "c < 64" by simp_all
    have "bit (km_bitmap (pmm_set_bit (frame_addr f) ?s) r) c = frame_used (pmm_set_bit (frame_addr f) ?s) (64 * r + c)"
      by (simp add: frame_used_def c)
    also have "\<dots> = (64 * r + c \<notin> free_pages fw A (b_efi s) - {f})"
      using nz fp assms(1) c by (auto simp: frame_used_set_bit) (auto simp: frame_used_def view_def no_kmem_def bit_bitmap_row)
    finally show "bit (km_bitmap (pmm_set_bit (frame_addr f) ?s) r) c = bit (bitmap_row (free_pages fw A (b_efi s) - {f}) r) c"
      using c by (simp add: bit_bitmap_row)
  qed
  then have "km_bitmap (pmm_set_bit (frame_addr f) ?s) = bitmap_row (free_pages fw A (b_efi s) - {f})" by (rule ext)
  moreover have "pmm_set_bit (frame_addr f) ?s = ?s\<lparr>km_bitmap := km_bitmap (pmm_set_bit (frame_addr f) ?s)\<rparr>"
    by (simp add: pmm_set_bit_def Let_def)
  ultimately show ?thesis by simp
qed

section \<open>Allocating a table\<close>

definition boot_only :: "boot \<Rightarrow> boot \<Rightarrow> bool" where
  "boot_only s s' \<longleftrightarrow> (\<exists>m h. s' = s\<lparr>b_mem := m, b_efi := h\<rparr>)"

lemma boot_only_refl [simp]: "boot_only s s"
  unfolding boot_only_def by (rule exI [of _ "b_mem s"], rule exI [of _ "b_efi s"]) simp

lemma boot_only_trans: "boot_only s t \<Longrightarrow> boot_only t u \<Longrightarrow> boot_only s u"
  unfolding boot_only_def by (elim exE, simp) blast

lemma boot_only_efi: "efi fw c s = (r, t) \<Longrightarrow> boot_only s t"
  by (auto simp: efi_def boot_only_def Let_def)

lemma boot_only_write: "boot_only s (tbl_write tbl i v s)"
  unfolding boot_only_def tbl_write_def by (rule exI, rule exI [of _ "b_efi s"]) simp

lemma conformingD:
  assumes "conforming fw A"
  shows "A \<subseteq> {1..<64 * 65535}"
    and "EFI_ERROR (er_status (ef_call fw (AllocatePages ty 1 # h))) \<Longrightarrow> free_pages fw A h = {}"
    and "\<not> EFI_ERROR (er_status (ef_call fw (AllocatePages ty n # h))) \<Longrightarrow>
      \<exists>f. er_out (ef_call fw (AllocatePages ty n # h)) = Some (frame_addr f) \<and> {f..<f + unat n} \<subseteq> free_pages fw A h"
    and "a \<in> held fw h \<Longrightarrow> a \<notin> buffer_of c \<Longrightarrow> er_stores (ef_call fw (c # h)) a = None"
    and "\<not> EFI_ERROR (er_status (ef_call fw (SetMem p n v # h)))"
    and "a \<in> span p (unat n) \<Longrightarrow> er_stores (ef_call fw (SetMem p n v # h)) a = Some v"
proof -
  note c = assms [unfolded conforming_def Let_def]
  show "A \<subseteq> {1..<64 * 65535}" using c by blast
  have "\<forall>h t n. if EFI_ERROR (er_status (ef_call fw (AllocatePages t n # h))) then n = 1 \<longrightarrow> free_pages fw A h = {}
    else \<exists>f. er_out (ef_call fw (AllocatePages t n # h)) = Some (frame_addr f) \<and> {f..<f + unat n} \<subseteq> free_pages fw A h"
    using c by blast
  then show "EFI_ERROR (er_status (ef_call fw (AllocatePages ty 1 # h))) \<Longrightarrow> free_pages fw A h = {}"
    "\<not> EFI_ERROR (er_status (ef_call fw (AllocatePages ty n # h))) \<Longrightarrow>
      \<exists>f. er_out (ef_call fw (AllocatePages ty n # h)) = Some (frame_addr f) \<and> {f..<f + unat n} \<subseteq> free_pages fw A h"
    by presburger+
  show "a \<in> held fw h \<Longrightarrow> a \<notin> buffer_of c \<Longrightarrow> er_stores (ef_call fw (c # h)) a = None" using c by blast
  show "\<not> EFI_ERROR (er_status (ef_call fw (SetMem p n v # h)))" using c by blast
  show "a \<in> span p (unat n) \<Longrightarrow> er_stores (ef_call fw (SetMem p n v # h)) a = Some v" using c by blast
qed

lemma conformingD_pool:
  assumes "conforming fw A" "\<not> EFI_ERROR (er_status (ef_call fw (AllocatePool t n # h)))"
  shows "\<exists>p. er_out (ef_call fw (AllocatePool t n # h)) = Some p \<and> unat p + unat n \<le> 2 ^ 46 \<and> span p (unat n) \<inter> held fw h = {} \<and>
    span p (unat n) \<inter> (\<Union>f\<in>A. page_bytes f) = {}"
proof -
  have "\<exists>p. er_out (ef_call fw (AllocatePool t n # h)) = Some p \<and> unat p + unat n \<le> 2 ^ 46 \<and>
      span p (unat n) \<inter> (held fw h \<union> (\<Union>f\<in>A. page_bytes f)) = {}"
    using assms unfolding conforming_def Let_def by blast
  then show ?thesis by blast
qed

lemma efi_mem:
  assumes "conforming fw A" "efi fw c s = (r, t)"
  shows "a \<in> held fw (b_efi s) \<Longrightarrow> a \<notin> buffer_of c \<Longrightarrow> b_mem t a = b_mem s a" "b_efi t = c # b_efi s"
    "r = ef_call fw (c # b_efi s)"
  using assms conformingD(4) [OF assms(1)] by (auto simp: efi_def Let_def)

lemma free_page_bounds: "conforming fw A \<Longrightarrow> f \<in> free_pages fw A h \<Longrightarrow> 0 < f \<and> f < 64 * 65535"
  using conformingD(1) by (fastforce simp: free_pages_def)

lemma pages_apart: "f < 2 ^ 52 \<Longrightarrow> g < 2 ^ 52 \<Longrightarrow> f \<noteq> g \<Longrightarrow> page_bytes f \<inter> page_bytes g = {}"
  by (auto simp: page_bytes_iff)

lemma page_bytes_ne: "page_bytes f \<noteq> {}"
  using span_offset [of 0 "frame_addr f" 4096] by (auto simp: page_bytes_def)

lemma page_in_pages:
  assumes "g < 2 ^ 52" "\<And>i. i \<in> F \<Longrightarrow> i < 2 ^ 52"
  shows "page_bytes g \<inter> (\<Union>i\<in>F. page_bytes i) = {} \<longleftrightarrow> g \<notin> F"
proof
  assume "page_bytes g \<inter> (\<Union>i\<in>F. page_bytes i) = {}"
  then show "g \<notin> F" using page_bytes_ne [of g] by blast
next
  assume g: "g \<notin> F"
  show "page_bytes g \<inter> (\<Union>i\<in>F. page_bytes i) = {}"
  proof (rule equals0I)
    fix x assume "x \<in> page_bytes g \<inter> (\<Union>i\<in>F. page_bytes i)"
    then obtain i where "i \<in> F" "x \<in> page_bytes g" "x \<in> page_bytes i" by blast
    with assms g show False using page_bytes_iff by metis
  qed
qed

lemma span_pages:
  assumes "f + n \<le> 2 ^ 52"
  shows "span (frame_addr f) (n * 4096) = (\<Union>g\<in>{f..<f + n}. page_bytes g)"
proof (cases "n = 0")
  case False
  then have f: "f < 2 ^ 52" using assms by simp
  have "unat (frame_addr f) + n * 4096 \<le> 2 ^ 64" using assms by (simp add: unat_frame_addr [OF f])
  then have "a \<in> span (frame_addr f) (n * 4096) \<longleftrightarrow> f \<le> unat a div 4096 \<and> unat a div 4096 < f + n" for a
    by (subst span_nowrap) (simp_all add: unat_frame_addr [OF f] less_eq_div_iff_mult_less_eq div_less_iff_less_mult algebra_simps)
  moreover have "a \<in> (\<Union>g\<in>{f..<f + n}. page_bytes g) \<longleftrightarrow> f \<le> unat a div 4096 \<and> unat a div 4096 < f + n" for a
    using assms by (auto simp: page_bytes_iff)
  ultimately show ?thesis by blast
qed (simp add: span_def)

lemma free_pages_alloc:
  assumes c: "conforming fw A" and f: "{f..<f + n} \<subseteq> free_pages fw A h" "n = unat k"
    and r: "\<not> EFI_ERROR (er_status (ef_call fw (AllocatePages ty k # h)))" "er_out (ef_call fw (AllocatePages ty k # h)) = Some (frame_addr f)"
  shows "free_pages fw A (AllocatePages ty k # h) = free_pages fw A h - {f..<f + n}"
    and "0 < n \<Longrightarrow> held fw (AllocatePages ty k # h) = (\<Union>g\<in>{f..<f + n}. page_bytes g) \<union> held fw h"
    and "0 < n \<Longrightarrow> page_held fw (AllocatePages ty k # h) = (\<Union>g\<in>{f..<f + n}. page_bytes g) \<union> page_held fw h"
proof -
  have A: "A \<subseteq> {1..<64 * 65535}" by (rule conformingD(1) [OF c])
  have h: "page_held fw (AllocatePages ty k # h) = span (frame_addr f) (n * 4096) \<union> page_held fw h"
    "held fw (AllocatePages ty k # h) = span (frame_addr f) (n * 4096) \<union> held fw h"
    using r f(2) by (auto simp: out_or_def held_def)
  have lt: "g < 2 ^ 52" if "g \<in> A" for g using A that by auto
  show held: "held fw (AllocatePages ty k # h) = (\<Union>g\<in>{f..<f + n}. page_bytes g) \<union> held fw h"
    "page_held fw (AllocatePages ty k # h) = (\<Union>g\<in>{f..<f + n}. page_bytes g) \<union> page_held fw h" if "0 < n"
  proof -
    have "f + (n - 1) \<in> free_pages fw A h" using f(1) that by auto
    then have "f + n \<le> 2 ^ 52" using lt [of "f + (n - 1)"] that by (simp add: free_pages_def)
    then show "held fw (AllocatePages ty k # h) = (\<Union>g\<in>{f..<f + n}. page_bytes g) \<union> held fw h"
      "page_held fw (AllocatePages ty k # h) = (\<Union>g\<in>{f..<f + n}. page_bytes g) \<union> page_held fw h"
      using h span_pages by simp_all
  qed
  show "free_pages fw A (AllocatePages ty k # h) = free_pages fw A h - {f..<f + n}"
  proof (cases "n = 0")
    case True
    then show ?thesis using h(2) by (simp add: free_pages_def span_def)
  next
    case False
    have "page_bytes g \<inter> (\<Union>i\<in>{f..<f + n}. page_bytes i) = {} \<longleftrightarrow> g \<notin> {f..<f + n}" if "g \<in> A" for g
    proof -
      have "i < 2 ^ 52" if "i \<in> {f..<f + n}" for i using f(1) that lt by (auto simp: free_pages_def)
      then show ?thesis using lt [OF that] by (intro page_in_pages) auto
    qed
    then show ?thesis unfolding free_pages_def held(1) [OF False [unfolded neq0_conv]] by (auto simp only: Int_Un_distrib)
  qed
qed

lemma AllocTable_cases:
  assumes c: "conforming fw A"
  obtains (none) e s' where "AllocTable fw s = Some (Inl e, s')" "EFI_ERROR e" "free_pages fw A (b_efi s) = {}"
      "held fw (b_efi s') = held fw (b_efi s)" "page_held fw (b_efi s') = page_held fw (b_efi s)" "boot_only s s'" "\<And>a. a \<in> held fw (b_efi s) \<Longrightarrow> b_mem s' a = b_mem s a"
    | (table) f s' where "AllocTable fw s = Some (Inr (frame_addr f), s')" "f \<in> free_pages fw A (b_efi s)"
      "free_pages fw A (b_efi s') = free_pages fw A (b_efi s) - {f}"
      "held fw (b_efi s') = page_bytes f \<union> held fw (b_efi s)"
      "page_held fw (b_efi s') = page_bytes f \<union> page_held fw (b_efi s)" "boot_only s s'"
      "\<And>a. a \<in> held fw (b_efi s) \<Longrightarrow> b_mem s' a = b_mem s a" "\<And>a. a \<in> page_bytes f \<Longrightarrow> b_mem s' a = 0"
proof -
  let ?c = "AllocatePages EfiLoaderData 1"
  obtain r t where r: "efi fw ?c s = (r, t)" by fastforce
  note m = efi_mem [OF c r]
  show thesis
  proof (cases "EFI_ERROR (er_status r)")
    case True
    then have "AllocTable fw s = Some (Inl (er_status r), t)" by (simp add: AllocTable_def efi_try_def r)
    moreover have "free_pages fw A (b_efi s) = {}" using True m(3) by (simp add: conformingD(2) [OF c])
    moreover have "page_held fw (b_efi t) = page_held fw (b_efi s)" "held fw (b_efi t) = held fw (b_efi s)"
      using True m(2,3) by (simp_all add: held_def)
    ultimately show thesis using True m(1) boot_only_efi [OF r] by (intro none [of "er_status r" t]) auto
  next
    case False
    with conformingD(3) [OF c, of EfiLoaderData 1 "b_efi s"] m(3) obtain f where
      f: "er_out r = Some (frame_addr f)" "f \<in> free_pages fw A (b_efi s)" by auto
    note al = free_pages_alloc [OF c, of f 1 "b_efi s" 1 EfiLoaderData]
    have al': "free_pages fw A (b_efi t) = free_pages fw A (b_efi s) - {f}" "held fw (b_efi t) = page_bytes f \<union> held fw (b_efi s)"
      "page_held fw (b_efi t) = page_bytes f \<union> page_held fw (b_efi s)"
      using al False f m(2,3) by (simp_all del: page_held.simps)
    obtain r' u where r': "efi fw (SetMem (frame_addr f) EFI_PAGE_SIZE 0) t = (r', u)" by fastforce
    note m' = efi_mem [OF c r']
    have buf: "buffer_of (SetMem (frame_addr f) EFI_PAGE_SIZE 0) = page_bytes f" by (simp add: page_bytes_def kconst)
    have ok: "\<not> EFI_ERROR (er_status r')" using conformingD(5) [OF c] m'(3) by simp
    have zero: "b_mem u a = 0" if "a \<in> page_bytes f" for a
      using conformingD(6) [OF c, of a "frame_addr f" EFI_PAGE_SIZE 0 "b_efi t"] that buf r' by (auto simp: efi_def Let_def)
    have hu: "held fw (b_efi u) = held fw (b_efi t)" "page_held fw (b_efi u) = page_held fw (b_efi t)" "free_pages fw A (b_efi u) = free_pages fw A (b_efi t)"
      by (simp_all add: m'(2) free_pages_def held_def Let_def)
    show thesis
    proof (rule table [of f u])
      show "AllocTable fw s = Some (Inr (frame_addr f), u)"
        using False ok by (simp add: AllocTable_def efi_try_def r r' f out_or_def)
      show "b_mem u a = b_mem s a" if "a \<in> held fw (b_efi s)" for a
      proof -
        have "a \<notin> page_bytes f" using that f(2) by (auto simp: free_pages_def)
        then have "b_mem u a = b_mem t a" using that al' by (intro m'(1)) (auto simp only: buf Un_iff)
        also have "\<dots> = b_mem s a" using that by (intro m(1)) simp_all
        finally show ?thesis .
      qed
    qed (use f al' hu zero boot_only_efi [OF r] boot_only_efi [OF r'] boot_only_trans in auto)
  qed
qed

section \<open>MapAddr\<close>

definition MapLevel :: "uefi \<Rightarrow> u64 \<Rightarrow> u64 \<Rightarrow> u64 \<Rightarrow> boot \<Rightarrow> unit efi_result" where
  "MapLevel fw p4_tbl tbl i s =
     (if tbl_read tbl i s AND 1 = 0
      then efi_seq (AllocTable fw s) (\<lambda>table s.
             MapAddr fw table table p4_tbl (tbl_write tbl i (table OR KERNEL_PT_ENTRY) s))
      else Some (Inr (), s))"

lemma MapAddr_levels:
  "MapAddr fw phys virt p4 s =
     efi_seq (MapLevel fw p4 p4 (P4_ENTRY virt) s) (\<lambda>_ s1.
       let p3 = tbl_read p4 (P4_ENTRY virt) s1 AND SIGN_MASK in
     efi_seq (MapLevel fw p4 p3 (P3_ENTRY virt) s1) (\<lambda>_ s2.
       let p2 = tbl_read p3 (P3_ENTRY virt) s2 AND SIGN_MASK in
     efi_seq (MapLevel fw p4 p2 (P2_ENTRY virt) s2) (\<lambda>_ s3.
       let p1 = tbl_read p2 (P2_ENTRY virt) s3 AND SIGN_MASK in
       Some (Inr (), tbl_write p1 (P1_ENTRY virt) (phys OR KERNEL_PT_ENTRY) s3))))"
  by (subst MapAddr.simps) (simp only: MapLevel_def Let_def)

text \<open>
  The state of the loader's page tables: a tree of distinct pages, all of them held. \<open>boot_steps\<close>: what every
  sequence of the loader's paging operations keeps.
\<close>

definition boot_inv :: "uefi \<Rightarrow> nat set \<Rightarrow> u64 \<Rightarrow> boot \<Rightarrow> bool" where
  "boot_inv fw A p4 s \<longleftrightarrow> pt_inv p4 (view fw A s) \<and> (\<forall>f\<in>tables p4 (view fw A s). page_bytes f \<subseteq> page_held fw (b_efi s))"

definition boot_steps :: "uefi \<Rightarrow> nat set \<Rightarrow> u64 \<Rightarrow> boot \<Rightarrow> boot \<Rightarrow> bool" where
  "boot_steps fw A p4 s s' \<longleftrightarrow> boot_only s s' \<and> boot_inv fw A p4 s' \<and> held fw (b_efi s) \<subseteq> held fw (b_efi s') \<and>
     page_held fw (b_efi s) \<subseteq> page_held fw (b_efi s') \<and>
     keeps_walks p4 (view fw A s) (view fw A s') \<and>
     tables p4 (view fw A s') \<subseteq> tables p4 (view fw A s) \<union> free_pages fw A (b_efi s) \<and>
     (\<forall>a\<in>held fw (b_efi s). unat a div 4096 \<notin> tables p4 (view fw A s') \<longrightarrow> b_mem s' a = b_mem s a)"

lemma tables_mono: "keeps_walks p4 s t \<Longrightarrow> tables p4 s \<subseteq> tables p4 t"
  by (auto simp: keeps_walks_def tables_def)

lemma boot_steps_trans:
  assumes c: "conforming fw A" and "boot_steps fw A p4 s t" "boot_steps fw A p4 t u"
  shows "boot_steps fw A p4 s u"
proof -
  have sub: "tables p4 (view fw A t) \<subseteq> tables p4 (view fw A u)"
    using assms(3) by (intro tables_mono) (simp add: boot_steps_def)
  have "boot_only s u" "keeps_walks p4 (view fw A s) (view fw A u)"
    using assms boot_only_trans keeps_walks_trans by (auto simp: boot_steps_def)
  moreover have "b_mem u a = b_mem s a" if "a \<in> held fw (b_efi s)" "unat a div 4096 \<notin> tables p4 (view fw A u)" for a
  proof -
    have "a \<in> held fw (b_efi t)" using that(1) assms(2) by (auto simp: boot_steps_def)
    then have "b_mem u a = b_mem t a" using that(2) assms(3) by (simp add: boot_steps_def)
    moreover have "unat a div 4096 \<notin> tables p4 (view fw A t)" using sub that(2) by blast
    then have "b_mem t a = b_mem s a" using that(1) assms(2) by (simp add: boot_steps_def)
    ultimately show ?thesis by simp
  qed
  moreover have "free_pages fw A (b_efi t) \<subseteq> free_pages fw A (b_efi s)"
    using assms(2) by (simp add: boot_steps_def keeps_walks_def view_free [OF conformingD(1) [OF c]])
  ultimately show ?thesis using assms unfolding boot_steps_def by auto
qed

lemma boot_steps_refl:
  assumes "conforming fw A" "boot_inv fw A p4 s" shows "boot_steps fw A p4 s s"
  using assms view_wf [OF conformingD(1) [OF assms(1)]] by (auto simp: boot_steps_def boot_inv_def keeps_walks_def)

definition failed :: "uefi \<Rightarrow> nat set \<Rightarrow> u64 \<Rightarrow> u64 \<Rightarrow> boot \<Rightarrow> boot \<Rightarrow> bool" where
  "failed fw A p4 e s s' \<longleftrightarrow> EFI_ERROR e \<and> free_pages fw A (b_efi s') = {} \<and> boot_steps fw A p4 s s' \<and>
     keeps_pages p4 (view fw A s) (view fw A s')"

lemma failed_after:
  assumes "conforming fw A" "failed fw A p4 e t u" "boot_steps fw A p4 s t" "keeps_pages p4 (view fw A s) (view fw A t)"
  shows "failed fw A p4 e s u"
  using assms boot_steps_trans keeps_pages_trans unfolding failed_def by blast

lemma walk_table:
  assumes "boot_inv fw A p4 s" "valid_path q" "walk (view fw A s) p4 q = Some tbl"
  obtains g where "tbl = frame_addr g" "g < 2 ^ 35" "0 < g" "g \<notin> free_frames (view fw A s)" "page_bytes g \<subseteq> page_held fw (b_efi s)"
proof -
  from assms obtain g where g: "tbl = frame_addr g" "0 < g" "g < 2 ^ 35" "g \<notin> free_frames (view fw A s)"
    unfolding boot_inv_def using pt_invE by metis
  then have "g \<in> tables p4 (view fw A s)" using assms(2,3) by (auto simp: tables_def)
  with g that assms(1) show ?thesis by (simp add: boot_inv_def)
qed

text \<open>The new table is linked: this is \<open>link_table\<close> on the view.\<close>

lemma link_view:
  assumes c: "conforming fw A" and g: "g < 2 ^ 35" "page_bytes g \<subseteq> page_held fw (b_efi s)" "i < 512"
    and f: "f \<in> free_pages fw A (b_efi s)" "free_pages fw A (b_efi t) = free_pages fw A (b_efi s) - {f}"
      "page_held fw (b_efi t) = page_bytes f \<union> page_held fw (b_efi s)"
    and m: "\<And>a. a \<in> held fw (b_efi s) \<Longrightarrow> b_mem t a = b_mem s a" "\<And>a. a \<in> page_bytes f \<Longrightarrow> b_mem t a = 0"
  shows "view fw A (tbl_write (frame_addr g) i v t) = clean_table (frame_addr f) (pt_write (frame_addr g) i v (pmm_set_bit (frame_addr f) (view fw A s)))"
proof -
  have fb: "0 < f" "f < 64 * 65535" using free_page_bounds [OF c f(1)] by auto
  have not: "page_bytes f \<inter> page_held fw (b_efi s) = {}" using f(1) by (auto simp: free_pages_def held_def)
  have vt: "view fw A t = pmm_set_bit (frame_addr f) (view fw A s)"
    unfolding set_bit_row [OF fb(2,1)]
  proof (rule view_eq)
    fix h assume h: "h < 2 ^ 52" "page_bytes h \<subseteq> page_held fw (b_efi t)"
    show "page_bytes h \<subseteq> page_held fw (b_efi s) \<and> (\<forall>a\<in>page_bytes h. b_mem t a = b_mem s a) \<or>
       \<not> page_bytes h \<subseteq> page_held fw (b_efi s) \<and> (\<forall>a\<in>page_bytes h. b_mem t a = 0)"
    proof (cases "h = f")
      case True
      with not m(2) page_bytes_ne [of f] show ?thesis by blast
    next
      case False
      then have "page_bytes h \<inter> page_bytes f = {}" using pages_apart h(1) fb(2) by simp
      with h(2) f(3) m(1) show ?thesis unfolding held_def by blast
    qed
  qed (use f in auto)
  have gf: "g \<noteq> f" using not g(2) page_bytes_ne [of f] by blast
  have w: "view fw A (tbl_write (frame_addr g) i v t) = pt_write (frame_addr g) i v (view fw A t)"
    using g f(3) by (intro view_write) auto
  have zero: "pt_read (view fw A t) (frame_addr f) j = 0" if "j < 512" for j
  proof -
    have f35: "f < 2 ^ 35" using fb by simp
    have "pt_read (view fw A t) (frame_addr f) j = pt_read (view fw A s) (frame_addr f) j" by (simp add: vt)
    also have "\<dots> = 0" using slot_frame [OF f35 that] not page_bytes_ne [of f] by (auto simp: pt_read_def view_def)
    finally show ?thesis .
  qed
  have "clean_table (frame_addr f) (pt_write (frame_addr g) i v (view fw A t)) = pt_write (frame_addr g) i v (view fw A t)"
    unfolding clean_table_def
  proof (rule for_upto_id)
    fix k :: nat assume "k < 512"
    then have k: "(of_nat k :: u64) < 512" by (simp add: word_less_nat_alt unat_of_nat64)
    have "pt_read (pt_write (frame_addr g) i v (view fw A t)) (frame_addr f) (of_nat k) = 0"
      using pt_read_write_frame [of g i f "of_nat k" v "view fw A t"] g fb gf k zero by simp
    then show "pt_write (frame_addr f) (of_nat k) 0 (pt_write (frame_addr g) i v (view fw A t)) = pt_write (frame_addr g) i v (view fw A t)"
      by (simp add: pt_write_def pt_read_def fun_upd_idem)
  qed
  then show ?thesis by (simp only: w vt)
qed

lemma link_steps:
  assumes c: "conforming fw A" and inv: "boot_inv fw A p4 s"
    and p: "valid_path (p @ [i])" "walk (view fw A s) p4 p = Some tbl" and np: "tbl_read tbl i s AND 1 = 0"
    and f: "f \<in> free_pages fw A (b_efi s)" "free_pages fw A (b_efi t) = free_pages fw A (b_efi s) - {f}"
      "held fw (b_efi t) = page_bytes f \<union> held fw (b_efi s)"
      "page_held fw (b_efi t) = page_bytes f \<union> page_held fw (b_efi s)" "boot_only s t"
    and m: "\<And>a. a \<in> held fw (b_efi s) \<Longrightarrow> b_mem t a = b_mem s a" "\<And>a. a \<in> page_bytes f \<Longrightarrow> b_mem t a = 0"
  defines "u \<equiv> tbl_write tbl i (frame_addr f OR KERNEL_PT_ENTRY) t"
  shows "boot_steps fw A p4 s u" "keeps_pages p4 (view fw A s) (view fw A u)"
    "view fw A u = link_table KERNEL_PT_ENTRY tbl i f (view fw A s)"
proof -
  have A: "A \<subseteq> {1..<64 * 65535}" by (rule conformingD(1) [OF c])
  obtain g where g: "tbl = frame_addr g" "g < 2 ^ 35" "page_bytes g \<subseteq> page_held fw (b_efi s)"
    using walk_table [OF inv _ p(2)] p(1) by auto
  have i: "i < 512" using p(1) by simp
  show v: "view fw A u = link_table KERNEL_PT_ENTRY tbl i f (view fw A s)"
    unfolding u_def link_table_def g(1) by (rule link_view [OF c g(2,3) i f(1,2,4) m])
  have pt: "pt_inv p4 (view fw A s)" using inv by (simp add: boot_inv_def)
  have np': "pt_read (view fw A s) (frame_addr g) i AND 1 = 0" using np view_read [OF g(2) i g(3)] by (simp add: g(1))
  have ff: "f \<in> free_frames (view fw A s)" using f(1) by (simp add: view_free [OF A])
  note l = link_table_grows [OF table_flags_kernel view_wf [OF A] pt p(1) p(2) [unfolded g(1)] g(2) np' ff, folded g(1), folded v]
  show "keeps_pages p4 (view fw A s) (view fw A u)" using l(1,3) by (simp add: keeps_pages_def)
  have hu: "held fw (b_efi u) = page_bytes f \<union> held fw (b_efi s)" "page_held fw (b_efi u) = page_bytes f \<union> page_held fw (b_efi s)"
    using f(3,4) by (simp_all add: u_def tbl_write_def)
  have walk_u: "walk (view fw A u) p4 q = (if q = p @ [i] then Some (frame_addr f) else walk (view fw A s) p4 q)" if "valid_path q" for q
    using link_table_walk [OF table_flags_kernel pt p(1) p(2) [unfolded g(1)] g(2) np' ff _ that] free_page_bounds [OF c f(1)]
    by (simp add: v g(1))
  have tab: "h = f \<or> h \<in> tables p4 (view fw A s)" if "h \<in> tables p4 (view fw A u)" for h
  proof -
    from that obtain q where q: "valid_path q" "walk (view fw A u) p4 q = Some (frame_addr h)" "h < 2 ^ 35" by (auto simp: tables_def)
    have f35: "f < 2 ^ 35" using free_page_bounds [OF c f(1)] by simp
    show ?thesis using q walk_u [OF q(1)] frame_addr_inj [OF f35 q(3)] by (auto simp: tables_def split: if_splits)
  qed
  have held_u: "\<forall>h\<in>tables p4 (view fw A u). page_bytes h \<subseteq> page_held fw (b_efi u)"
  proof
    fix h assume "h \<in> tables p4 (view fw A u)"
    with tab [OF this] inv show "page_bytes h \<subseteq> page_held fw (b_efi u)" unfolding boot_inv_def hu(2) by auto
  qed
  have "g \<in> tables p4 (view fw A u)"
  proof -
    have "p \<noteq> p @ [i]" "valid_path p" using p(1) by auto
    then have "walk (view fw A u) p4 p = Some (frame_addr g)" using walk_u [of p] p(2) g(1) by simp
    with \<open>valid_path p\<close> g(2) show ?thesis by (auto simp: tables_def)
  qed
  have mem: "b_mem u a = b_mem s a" if "a \<in> held fw (b_efi s)" "unat a div 4096 \<notin> tables p4 (view fw A u)" for a
  proof -
    have "unat a div 4096 \<noteq> g" using that(2) \<open>g \<in> _\<close> by auto
    then have "a \<notin> span (frame_addr g + 8 * i) 8"
      using word_in_page(1) [OF slot_aligned [OF g(2) i]] slot_frame [OF g(2) i] by (metis span_imageE)
    then show ?thesis using m(1) [OF that(1)] by (simp add: u_def tbl_write_def g(1) store64_other)
  qed
  have "boot_inv fw A p4 u" using l(1) held_u by (simp add: boot_inv_def keeps_walks_def)
  then show "boot_steps fw A p4 s u"
    using l(1) mem hu f(1,5) tab boot_only_trans [OF f(5) boot_only_write] unfolding boot_steps_def by (auto simp: u_def)
qed

text \<open>What a call that maps the page \<open>pg\<close> to \<open>a\<close> leaves behind, in either outcome.\<close>

definition mapped :: "uefi \<Rightarrow> nat set \<Rightarrow> u64 \<Rightarrow> u64 list \<times> u64 \<Rightarrow> u64 \<Rightarrow> boot \<Rightarrow> u64 + unit \<Rightarrow> boot \<Rightarrow> bool" where
  "mapped fw A p4 pg a s r s' \<longleftrightarrow> (case r of
      Inr _ \<Rightarrow> boot_steps fw A p4 s s' \<and> maps_page p4 pg a (view fw A s) (view fw A s')
    | Inl e \<Rightarrow> failed fw A p4 e s s')"

definition levelled :: "uefi \<Rightarrow> nat set \<Rightarrow> u64 \<Rightarrow> u64 list \<Rightarrow> u64 \<Rightarrow> u64 \<Rightarrow> boot \<Rightarrow> u64 + unit \<Rightarrow> boot \<Rightarrow> bool" where
  "levelled fw A p4 p i tbl s r s' \<longleftrightarrow> (case r of
      Inr _ \<Rightarrow> boot_steps fw A p4 s s' \<and> grown p4 {} (view fw A s) (view fw A s') \<and>
        walk (view fw A s') p4 (p @ [i]) = Some (tbl_read tbl i s' AND SIGN_MASK)
    | Inl e \<Rightarrow> failed fw A p4 e s s')"

lemma MapLevel_outcome:
  assumes c: "conforming fw A" and inv: "boot_inv fw A p4 s"
    and p: "valid_path (p @ [i])" "walk (view fw A s) p4 p = Some tbl"
    and rec: "\<And>t f. boot_inv fw A p4 t \<Longrightarrow> free_pages fw A (b_efi t) \<subset> free_pages fw A (b_efi s) \<Longrightarrow> f \<in> A \<Longrightarrow>
        \<exists>r t'. MapAddr fw (frame_addr f) (frame_addr f) p4 t = Some (r, t') \<and>
          mapped fw A p4 (page (frame_addr f)) (frame_addr f) t r t'"
  shows "\<exists>r s'. MapLevel fw p4 tbl i s = Some (r, s') \<and> levelled fw A p4 p i tbl s r s'"
proof -
  have A: "A \<subseteq> {1..<64 * 65535}" by (rule conformingD(1) [OF c])
  have i: "i < 512" "valid_path p" using p(1) by auto
  obtain g where g: "tbl = frame_addr g" "g < 2 ^ 35" "page_bytes g \<subseteq> page_held fw (b_efi s)"
    by (rule walk_table [OF inv i(2) p(2)])
  have pt: "pt_inv p4 (view fw A s)" using inv by (simp add: boot_inv_def)
  have rd: "pt_read (view fw A s) tbl i = tbl_read tbl i s" using view_read [OF g(2) i(1) g(3)] by (simp add: g(1))
  show ?thesis
  proof (cases "tbl_read tbl i s AND 1 = 0")
    case False
    then have "MapLevel fw p4 tbl i s = Some (Inr (), s)" by (simp add: MapLevel_def)
    moreover have "levelled fw A p4 p i tbl s (Inr ()) s"
      using False p(2) rd boot_steps_refl [OF c inv] grown_refl [OF view_wf [OF A] pt] by (simp add: levelled_def walk_snoc)
    ultimately show ?thesis by blast
  next
    case True
    show ?thesis
    proof (rule AllocTable_cases [OF c, of s])
      fix e s'
      assume a: "AllocTable fw s = Some (Inl e, s')" "EFI_ERROR e" "free_pages fw A (b_efi s) = {}"
        "held fw (b_efi s') = held fw (b_efi s)" "page_held fw (b_efi s') = page_held fw (b_efi s)" "boot_only s s'" "\<And>a. a \<in> held fw (b_efi s) \<Longrightarrow> b_mem s' a = b_mem s a"
      have "view fw A s' = (view fw A s)\<lparr>km_bitmap := bitmap_row (free_pages fw A (b_efi s) - {})\<rparr>"
        using a(4,5,7) by (intro view_eq) (auto simp: free_pages_def held_def)
      then have v: "view fw A s' = view fw A s" by (simp add: view_def)
      have "boot_inv fw A p4 s'" using inv a(5) by (simp add: boot_inv_def v)
      then have "boot_steps fw A p4 s s'"
        using boot_steps_refl [OF c inv] a(4-7) by (simp add: boot_steps_def v)
      moreover have "keeps_pages p4 (view fw A s) (view fw A s')"
        using grown_keeps_pages [OF grown_refl [OF view_wf [OF A] pt]] by (simp add: v)
      ultimately have "failed fw A p4 e s s'" using a(2,3,4) by (simp add: failed_def free_pages_def)
      with a(1) True show ?thesis by (simp add: MapLevel_def levelled_def)
    next
      fix f t
      assume a: "AllocTable fw s = Some (Inr (frame_addr f), t)" "f \<in> free_pages fw A (b_efi s)"
        "free_pages fw A (b_efi t) = free_pages fw A (b_efi s) - {f}"
        "held fw (b_efi t) = page_bytes f \<union> held fw (b_efi s)"
        "page_held fw (b_efi t) = page_bytes f \<union> page_held fw (b_efi s)" "boot_only s t"
        "\<And>a. a \<in> held fw (b_efi s) \<Longrightarrow> b_mem t a = b_mem s a" "\<And>a. a \<in> page_bytes f \<Longrightarrow> b_mem t a = 0"
      define u where "u = tbl_write tbl i (frame_addr f OR KERNEL_PT_ENTRY) t"
      note l = link_steps [OF c inv p True a(2-8), folded u_def]
      have u: "boot_inv fw A p4 u" "free_pages fw A (b_efi u) \<subset> free_pages fw A (b_efi s)" "f \<in> A"
        using l(1) a(2,3) by (auto simp: boot_steps_def u_def tbl_write_def free_pages_def)
      from rec [OF u] obtain r s' where r: "MapAddr fw (frame_addr f) (frame_addr f) p4 u = Some (r, s')"
        "mapped fw A p4 (page (frame_addr f)) (frame_addr f) u r s'" by blast
      have call: "MapLevel fw p4 tbl i s = Some (r, s')" using a(1) True r(1) by (simp add: MapLevel_def u_def)
      have "levelled fw A p4 p i tbl s r s'"
      proof (cases r)
        case (Inl e)
        with r(2) l show ?thesis by (simp add: levelled_def mapped_def failed_after [OF c])
      next
        case (Inr x)
        with r(2) have st: "boot_steps fw A p4 s s'" and m: "maps_page p4 (page (frame_addr f)) (frame_addr f) (view fw A u) (view fw A s')"
          using boot_steps_trans [OF c l(1)] by (auto simp: mapped_def)
        have np: "pt_read (view fw A s) (frame_addr g) i AND 1 = 0" using rd True by (simp add: g(1))
        have ff: "f \<in> free_frames (view fw A s)" using a(2) by (simp add: view_free [OF A])
        have m': "maps_page p4 (page (frame_addr f)) (frame_addr f) (link_table KERNEL_PT_ENTRY tbl i f (view fw A s)) (view fw A s')"
          using m l(3) by simp
        note k = link_map_grows [OF table_flags_kernel view_wf [OF A] pt p(1) p(2) [unfolded g(1)] g(2) np ff, folded g(1), OF m']
        have "walk (view fw A s') p4 p = Some tbl" using k(1) i(2) p(2) by (simp add: grown_def keeps_walks_def)
        moreover have "pt_read (view fw A s') tbl i = tbl_read tbl i s'"
          using st g(3) view_read [OF g(2) i(1)] by (auto simp: g(1) boot_steps_def)
        ultimately have "walk (view fw A s') p4 (p @ [i]) = Some (tbl_read tbl i s' AND SIGN_MASK)"
          using k(2) by (auto simp: walk_snoc split: if_splits)
        with Inr st k(1) show ?thesis by (simp add: levelled_def)
      qed
      with call show ?thesis by blast
    qed
  qed
qed

lemma levelled_cases:
  assumes "levelled fw A p4 p i tbl s r s'"
  obtains (err) e where "r = Inl e" "failed fw A p4 e s s'"
    | (ok) "r = Inr ()" "boot_steps fw A p4 s s'" "grown p4 {} (view fw A s) (view fw A s')"
      "walk (view fw A s') p4 (p @ [i]) = Some (tbl_read tbl i s' AND SIGN_MASK)"
  using assms by (cases r) (auto simp: levelled_def)

text \<open>The last entry is written.\<close>

lemma leaf_steps:
  fixes a :: u64
  assumes c: "conforming fw A" and inv: "boot_inv fw A p4 s" and w: "walk (view fw A s) p4 (fst (page v)) = Some tbl"
  defines "s' \<equiv> tbl_write tbl (P1_ENTRY v) (a OR KERNEL_PT_ENTRY) s"
  shows "boot_steps fw A p4 s s'" "maps_page p4 (page v) (a AND SIGN_MASK) (view fw A s) (view fw A s')"
proof -
  have A: "A \<subseteq> {1..<64 * 65535}" by (rule conformingD(1) [OF c])
  have pt: "pt_inv p4 (view fw A s)" using inv by (simp add: boot_inv_def)
  obtain g where g: "tbl = frame_addr g" "g < 2 ^ 35" "page_bytes g \<subseteq> page_held fw (b_efi s)"
    by (rule walk_table [OF inv _ w]) simp
  have v': "view fw A s' = pt_write (frame_addr g) (snd (page v)) (a OR KERNEL_PT_ENTRY) (view fw A s)"
    unfolding s'_def g(1) snd_page by (intro view_write g) simp
  note l = leaf_write_grows [OF view_wf [OF A] pt valid_page_page(1) w [unfolded g(1)] g(2), of "a OR KERNEL_PT_ENTRY", folded v']
  have "(a OR KERNEL_PT_ENTRY) AND SIGN_MASK = a AND SIGN_MASK" by (rule mask_or_flags) (simp add: kconst)
  with l show "maps_page p4 (page v) (a AND SIGN_MASK) (view fw A s) (view fw A s')" by (simp add: maps_page_def)
  have wk: "walk (view fw A s') p4 q = walk (view fw A s) p4 q" if "valid_path q" for q
    unfolding v' snd_page by (rule leaf_write_walk [OF pt _ _ w [unfolded g(1)] g(2) _ that]) simp_all
  then have tab: "tables p4 (view fw A s') = tables p4 (view fw A s)" by (auto simp: tables_def)
  have gt: "g \<in> tables p4 (view fw A s')" 
    unfolding tables_def using w g(1,2) wk [OF valid_page_page(2)] by (intro CollectI exI [of _ "fst (page v)"]) (simp del: walk.simps)
  have h: "b_efi s' = b_efi s" by (simp add: s'_def tbl_write_def)
  have mem: "b_mem s' x = b_mem s x" if "unat x div 4096 \<notin> tables p4 (view fw A s')" for x
  proof -
    have "unat x div 4096 \<noteq> g" using that gt by auto
    then have "x \<notin> span (frame_addr g + 8 * P1_ENTRY v) 8"
      using word_in_page(1) [OF slot_aligned [OF g(2) entry_less(4)]] slot_frame [OF g(2) entry_less(4)] by (metis span_imageE)
    then show ?thesis by (simp add: s'_def tbl_write_def g(1) store64_other)
  qed
  have "boot_inv fw A p4 s'" using l(1) inv h by (simp add: boot_inv_def tab grown_def keeps_walks_def)
  then show "boot_steps fw A p4 s s'"
    using mem h tab l(1) boot_only_write by (auto simp: boot_steps_def s'_def grown_def)
qed

lemma maps_page_after:
  "wf_pmm s \<Longrightarrow> grown p4 {} s t \<Longrightarrow> maps_page p4 pg a t u \<Longrightarrow> maps_page p4 pg a s u"
  using grown_trans [of s p4 "{}" t "{pg}" u] by (simp add: maps_page_def)

lemma mapped_after:
  assumes "conforming fw A" "wf_pmm (view fw A s)" "boot_steps fw A p4 s t" "grown p4 {} (view fw A s) (view fw A t)" "mapped fw A p4 pg a t r u"
  shows "mapped fw A p4 pg a s r u"
proof (cases r)
  case (Inl e)
  with assms show ?thesis by (simp add: mapped_def failed_after [OF assms(1)] grown_keeps_pages)
next
  case (Inr x)
  with assms show ?thesis using boot_steps_trans [OF assms(1)] maps_page_after by (simp add: mapped_def) blast
qed

lemma MapAddr_mapped:
  assumes c: "conforming fw A" and inv: "boot_inv fw A p4 s"
  shows "\<exists>r s'. MapAddr fw phys virt p4 s = Some (r, s') \<and> mapped fw A p4 (page virt) (phys AND SIGN_MASK) s r s'"
  using inv
proof (induction "card (free_pages fw A (b_efi s))" arbitrary: s phys virt rule: less_induct)
  case less
  have A: "A \<subseteq> {1..<64 * 65535}" by (rule conformingD(1) [OF c])
  have fin: "finite (free_pages fw A h)" for h using A by (auto simp: free_pages_def intro: finite_subset)
  have rec: "\<exists>r t'. MapAddr fw (frame_addr f) (frame_addr f) p4 t = Some (r, t') \<and>
      mapped fw A p4 (page (frame_addr f)) (frame_addr f) t r t'"
    if "boot_inv fw A p4 t" "free_pages fw A (b_efi t) \<subset> free_pages fw A (b_efi u)" "f \<in> A"
      "free_pages fw A (b_efi u) \<subseteq> free_pages fw A (b_efi s)" for t u f
  proof -
    have "card (free_pages fw A (b_efi t)) < card (free_pages fw A (b_efi s))"
      using that(2,4) fin by (intro psubset_card_mono) auto
    moreover have "frame_addr f AND SIGN_MASK = frame_addr f" using that(3) A by (intro frame_addr_SIGN_MASK) auto
    ultimately show ?thesis using less.hyps [of t "frame_addr f" "frame_addr f"] that(1) by metis
  qed
  have sub: "free_pages fw A (b_efi u) \<subseteq> free_pages fw A (b_efi t)" if "boot_steps fw A p4 t u" for t u
    using that by (simp add: boot_steps_def keeps_walks_def view_free [OF A])
  define p where "p = fst (page virt)"
  have p: "p = [P4_ENTRY virt, P3_ENTRY virt, P2_ENTRY virt]" by (simp add: p_def page_def)
  let ?goal = "\<lambda>r s'. mapped fw A p4 (page virt) (phys AND SIGN_MASK) s r s'"
  from MapLevel_outcome [OF c less.prems, of "[]" "P4_ENTRY virt" p4] rec [of _ s]
  obtain r1 s1 where 1: "MapLevel fw p4 p4 (P4_ENTRY virt) s = Some (r1, s1)" "levelled fw A p4 [] (P4_ENTRY virt) p4 s r1 s1"
    by auto
  from 1(2) show ?case
  proof (cases rule: levelled_cases)
    case err
    then show ?thesis using 1(1) by (subst MapAddr_levels) (simp add: mapped_def)
  next
    case l1: ok
    define p3 where "p3 = tbl_read p4 (P4_ENTRY virt) s1 AND SIGN_MASK"
    have inv1: "boot_inv fw A p4 s1" using l1(2) by (simp add: boot_steps_def)
    from MapLevel_outcome [OF c inv1, of "[P4_ENTRY virt]" "P3_ENTRY virt" p3] l1(4) rec [of _ s1] sub [OF l1(2)]
    obtain r2 s2 where 2: "MapLevel fw p4 p3 (P3_ENTRY virt) s1 = Some (r2, s2)"
        "levelled fw A p4 [P4_ENTRY virt] (P3_ENTRY virt) p3 s1 r2 s2"
      by (auto simp: p3_def [symmetric])
    have after1: "?goal r u" if "mapped fw A p4 (page virt) (phys AND SIGN_MASK) s1 r u" for r u
      by (rule mapped_after [OF c view_wf [OF A] l1(2,3) that])
    from 2(2) show ?thesis
    proof (cases rule: levelled_cases)
      case err
      then show ?thesis using 1(1) 2(1) l1(1) after1 [of r2 s2]
        by (subst MapAddr_levels) (simp add: p3_def [symmetric] Let_def mapped_def)
    next
      case l2: ok
      define p2 where "p2 = tbl_read p3 (P3_ENTRY virt) s2 AND SIGN_MASK"
      have inv2: "boot_inv fw A p4 s2" using l2(2) by (simp add: boot_steps_def)
      from MapLevel_outcome [OF c inv2, of "[P4_ENTRY virt, P3_ENTRY virt]" "P2_ENTRY virt" p2] l2(4) rec [of _ s2]
        sub [OF l1(2)] sub [OF l2(2)]
      obtain r3 s3 where 3: "MapLevel fw p4 p2 (P2_ENTRY virt) s2 = Some (r3, s3)"
          "levelled fw A p4 [P4_ENTRY virt, P3_ENTRY virt] (P2_ENTRY virt) p2 s2 r3 s3"
        by (auto simp: p2_def [symmetric])
      have after2: "?goal r u" if "mapped fw A p4 (page virt) (phys AND SIGN_MASK) s2 r u" for r u
        by (rule after1 [OF mapped_after [OF c view_wf [OF A] l2(2,3) that]])
      from 3(2) show ?thesis
      proof (cases rule: levelled_cases)
        case err
        then show ?thesis using 1(1) 2(1) 3(1) l1(1) l2(1) after2 [of r3 s3]
          by (subst MapAddr_levels) (simp add: p3_def [symmetric] p2_def [symmetric] Let_def mapped_def)
      next
        case l3: ok
        define p1 where "p1 = tbl_read p2 (P2_ENTRY virt) s3 AND SIGN_MASK"
        have inv3: "boot_inv fw A p4 s3" using l3(2) by (simp add: boot_steps_def)
        have w: "walk (view fw A s3) p4 (fst (page virt)) = Some p1" using l3(4) by (simp add: page_def p1_def)
        define s4 where "s4 = tbl_write p1 (P1_ENTRY virt) (phys OR KERNEL_PT_ENTRY) s3"
        note leaf = leaf_steps [OF c inv3 w, of phys, folded s4_def]
        have "?goal (Inr ()) s4"
          using leaf by (intro after2 mapped_after [OF c view_wf [OF A] l3(2,3)]) (simp add: mapped_def)
        moreover have "MapAddr fw phys virt p4 s = Some (Inr (), s4)"
          using 1(1) 2(1) 3(1) l1(1) l2(1) l3(1)
          by (subst MapAddr_levels) (simp add: p3_def [symmetric] p2_def [symmetric] p1_def [symmetric] s4_def Let_def)
        ultimately show ?thesis by blast
      qed
    qed
  qed
qed

section \<open>Translation\<close>

lemma pt_of_read: "pt_read (pt_of s) t i = tbl_read t i s"
  by (simp add: pt_of_def pt_read_def tbl_read_def)

lemma walk_pt_of:
  assumes "boot_inv fw A p4 s" "valid_path q"
  shows "walk (pt_of s) p4 q = walk (view fw A s) p4 q"
  using assms(2)
proof (induction q rule: rev_induct)
  case (snoc i q)
  then have q: "valid_path q" "i < 512" by auto
  show ?case
  proof (cases "walk (view fw A s) p4 q")
    case (Some u)
    obtain g where g: "u = frame_addr g" "g < 2 ^ 35" "page_bytes g \<subseteq> page_held fw (b_efi s)"
      by (rule walk_table [OF assms(1) q(1) Some])
    with Some snoc.IH [OF q(1)] view_read [OF g(2) q(2) g(3)] show ?thesis by (simp add: walk_snoc pt_of_read)
  qed (use snoc.IH [OF q(1)] in \<open>simp add: walk_snoc\<close>)
qed simp

lemma translate_view:
  assumes "boot_inv fw A p4 s"
  shows "translate_addr v p4 (pt_of s) = pview (view fw A s) p4 (page v)"
proof -
  obtain g where "p4 = frame_addr g" "g < 2 ^ 35" "0 < g" using walk_table [OF assms, of "[]" p4] by auto
  then have "p4 \<noteq> NULL" using unat_frame_addr [of g] by auto
  then have t: "translate_addr v p4 (pt_of s) = pview (pt_of s) p4 (page v)" by (rule translate_addr_pview)
  show ?thesis
  proof (cases "walk (view fw A s) p4 (fst (page v))")
    case (Some u)
    obtain h where h: "u = frame_addr h" "h < 2 ^ 35" "page_bytes h \<subseteq> page_held fw (b_efi s)"
      by (rule walk_table [OF assms _ Some]) simp
    with Some t walk_pt_of [OF assms, of "fst (page v)"] view_read [OF h(2) entry_less(4) h(3)]
    show ?thesis by (simp add: pview_def pt_of_read snd_page)
  qed (use t walk_pt_of [OF assms, of "fst (page v)"] in \<open>simp add: pview_def\<close>)
qed

section \<open>Ranges\<close>

abbreviation nth_page :: "u64 \<Rightarrow> nat \<Rightarrow> u64" where
  "nth_page a i \<equiv> a + of_nat i * PAGE_SIZE"

text \<open>
  A range may be mapped next to the tables it needs: where a page of it is the page of a table, the table's own
  mapping is the one asked for.
\<close>

definition fits :: "nat set \<Rightarrow> u64 \<Rightarrow> u64 \<Rightarrow> nat \<Rightarrow> bool" where
  "fits A phys virt n \<longleftrightarrow> n \<le> 2 ^ 36 \<and>
     (\<forall>i<n. \<forall>f\<in>A. page (nth_page virt i) = page (frame_addr f) \<longrightarrow> nth_page phys i AND SIGN_MASK = frame_addr f)"

definition range_mapped :: "uefi \<Rightarrow> nat set \<Rightarrow> u64 \<Rightarrow> u64 \<Rightarrow> u64 \<Rightarrow> nat \<Rightarrow> boot \<Rightarrow> boot \<Rightarrow> bool" where
  "range_mapped fw A p4 phys virt n s s' \<longleftrightarrow> boot_steps fw A p4 s s' \<and>
     (\<forall>i<n. pview (view fw A s') p4 (page (nth_page virt i)) = nth_page phys i AND SIGN_MASK) \<and>
     (\<forall>pg. valid_page pg \<longrightarrow> pg \<notin> (\<lambda>i. page (nth_page virt i)) ` {..<n} \<longrightarrow>
        pg \<notin> (\<lambda>f. page (frame_addr f)) ` (free_pages fw A (b_efi s) - free_pages fw A (b_efi s')) \<longrightarrow>
        pview (view fw A s') p4 pg = pview (view fw A s) p4 pg)"

definition out_of_pages :: "uefi \<Rightarrow> nat set \<Rightarrow> u64 \<Rightarrow> u64 \<Rightarrow> boot \<Rightarrow> boot \<Rightarrow> bool" where
  "out_of_pages fw A p4 e s s' \<longleftrightarrow> EFI_ERROR e \<and> free_pages fw A (b_efi s') = {} \<and> boot_steps fw A p4 s s'"

lemma range_mapped_0: "conforming fw A \<Longrightarrow> boot_inv fw A p4 s \<Longrightarrow> range_mapped fw A p4 phys virt 0 s s"
  by (simp add: range_mapped_def boot_steps_refl)

lemma free_mono: "conforming fw A \<Longrightarrow> boot_steps fw A p4 s t \<Longrightarrow> free_pages fw A (b_efi t) \<subseteq> free_pages fw A (b_efi s)"
  by (simp add: boot_steps_def keeps_walks_def view_free [OF conformingD(1)])

lemma range_mapped_Suc:
  assumes c: "conforming fw A" and fit: "fits A phys virt n" and k: "k < n"
    and r: "range_mapped fw A p4 phys virt k s t"
    and u: "boot_steps fw A p4 t u" "maps_page p4 (page (nth_page virt k)) (nth_page phys k AND SIGN_MASK) (view fw A t) (view fw A u)"
  shows "range_mapped fw A p4 phys virt (Suc k) s u"
proof -
  have A: "A \<subseteq> {1..<64 * 65535}" by (rule conformingD(1) [OF c])
  note ff = view_free [OF A]
  have st: "boot_steps fw A p4 s t" using r by (simp add: range_mapped_def)
  have sub: "free_pages fw A (b_efi t) \<subseteq> free_pages fw A (b_efi s)" "free_pages fw A (b_efi u) \<subseteq> free_pages fw A (b_efi t)"
    by (rule free_mono [OF c st], rule free_mono [OF c u(1)])
  have g: "adds_ids p4 {page (nth_page virt k)} (view fw A t) (view fw A u)"
    using u(2) by (simp add: maps_page_def grown_def)
  have new: "pview (view fw A u) p4 (page (frame_addr f)) = frame_addr f"
    if "f \<in> free_pages fw A (b_efi t) - free_pages fw A (b_efi u)" "page (frame_addr f) \<noteq> page (nth_page virt k)" for f
    using g that by (simp add: adds_ids_def ff)
  have old: "pview (view fw A u) p4 pg = pview (view fw A t) p4 pg"
    if "valid_page pg" "pg \<noteq> page (nth_page virt k)"
      "pg \<notin> (\<lambda>f. page (frame_addr f)) ` (free_pages fw A (b_efi t) - free_pages fw A (b_efi u))" for pg
    using g that by (cases pg) (simp add: adds_ids_def ff)
  have "pview (view fw A u) p4 (page (nth_page virt i)) = nth_page phys i AND SIGN_MASK" if i: "i < Suc k" for i
  proof (cases "i = k")
    case True
    with u(2) show ?thesis by (simp add: maps_page_def)
  next
    case False
    have ne: "page (nth_page virt i) \<noteq> page (nth_page virt k)"
      using page_step [of i k virt] i False k fit by (simp add: fits_def)
    show ?thesis
    proof (cases "page (nth_page virt i) \<in> (\<lambda>f. page (frame_addr f)) ` (free_pages fw A (b_efi t) - free_pages fw A (b_efi u))")
      case True
      then obtain f where f: "f \<in> free_pages fw A (b_efi t) - free_pages fw A (b_efi u)" "page (nth_page virt i) = page (frame_addr f)" by blast
      then have "f \<in> A" by (simp add: free_pages_def)
      with fit f(2) i k have "nth_page phys i AND SIGN_MASK = frame_addr f" by (simp add: fits_def)
      with new [OF f(1)] f(2) ne show ?thesis by simp
    next
      case False
      from old [OF valid_page_page(1) ne False] r i \<open>i \<noteq> k\<close> show ?thesis by (simp add: range_mapped_def)
    qed
  qed
  moreover have "pview (view fw A u) p4 pg = pview (view fw A s) p4 pg"
    if pg: "valid_page pg" "pg \<notin> (\<lambda>i. page (nth_page virt i)) ` {..<Suc k}"
      "pg \<notin> (\<lambda>f. page (frame_addr f)) ` (free_pages fw A (b_efi s) - free_pages fw A (b_efi u))" for pg
  proof -
    have "pg \<notin> (\<lambda>f. page (frame_addr f)) ` (free_pages fw A (b_efi t) - free_pages fw A (b_efi u))"
      "pg \<notin> (\<lambda>f. page (frame_addr f)) ` (free_pages fw A (b_efi s) - free_pages fw A (b_efi t))"
      using pg(3) sub by blast+
    moreover have "pg \<noteq> page (nth_page virt k)" "pg \<notin> (\<lambda>i. page (nth_page virt i)) ` {..<k}"
      using pg(2) by (auto simp: lessThan_Suc)
    ultimately show ?thesis using old [OF pg(1)] r pg(1) by (cases pg) (simp add: range_mapped_def)
  qed
  ultimately show ?thesis
    unfolding range_mapped_def using boot_steps_trans [OF c st u(1)] by blast
qed

lemma MapRange_mapped:
  assumes c: "conforming fw A" and inv: "boot_inv fw A p4 s" and fit: "fits A phys virt (unat n)"
  shows "\<exists>r s'. MapRange fw phys virt n p4 s = Some (r, s') \<and>
    (case r of Inr _ \<Rightarrow> range_mapped fw A p4 phys virt (unat n) s s' | Inl e \<Rightarrow> out_of_pages fw A p4 e s s')"
  unfolding MapRange_def
proof (rule efi_for_returns)
  show "range_mapped fw A p4 phys virt 0 s s" by (rule range_mapped_0 [OF c inv])
  fix k t assume k: "k < unat n" and r: "range_mapped fw A p4 phys virt k s t"
  have st: "boot_steps fw A p4 s t" and inv': "boot_inv fw A p4 t" using r by (auto simp: range_mapped_def boot_steps_def)
  from MapAddr_mapped [OF c inv', of "nth_page phys k" "nth_page virt k"] obtain q u
    where u: "MapAddr fw (nth_page phys k) (nth_page virt k) p4 t = Some (q, u)"
      "mapped fw A p4 (page (nth_page virt k)) (nth_page phys k AND SIGN_MASK) t q u" by blast
  have "case q of Inr _ \<Rightarrow> range_mapped fw A p4 phys virt (Suc k) s u | Inl e \<Rightarrow> out_of_pages fw A p4 e s u"
  proof (cases q)
    case (Inl e)
    with u(2) boot_steps_trans [OF c st] show ?thesis by (auto simp: mapped_def failed_def out_of_pages_def)
  next
    case (Inr x)
    with u(2) range_mapped_Suc [OF c fit k r] show ?thesis by (simp add: mapped_def)
  qed
  with u(1) show "\<exists>q u. MapAddr fw (nth_page phys k) (nth_page virt k) p4 t = Some (q, u) \<and>
     (case q of Inl e \<Rightarrow> out_of_pages fw A p4 e s u | Inr x \<Rightarrow> range_mapped fw A p4 phys virt (Suc k) s u)" by blast
qed

section \<open>The root table\<close>

lemma empty_root:
  assumes A: "A \<subseteq> {1..<64 * 65535}" and f: "f \<in> A" "page_bytes f \<subseteq> page_held fw (b_efi s)" "\<And>a. a \<in> page_bytes f \<Longrightarrow> b_mem s a = 0"
  shows "boot_inv fw A (frame_addr f) s"
    and "\<And>pg. valid_page pg \<Longrightarrow> pview (view fw A s) (frame_addr f) pg = 0"
proof -
  have fb: "0 < f" "f < 2 ^ 35" using f(1) A by auto
  have z: "tbl_read (frame_addr f) i s = 0" if "i < 512" for i
    unfolding tbl_read_def
  proof (rule load64_zero)
    fix k :: nat assume "k < 8"
    then have "unat (frame_addr f + 8 * i + of_nat k) div 4096 = f"
      using word_in_page(1) [OF slot_aligned [OF fb(2) that]] slot_frame [OF fb(2) that] by simp
    then show "b_mem s (frame_addr f + 8 * i + of_nat k) = 0"
      using fb(2) by (intro f(3)) (simp add: page_bytes_iff)
  qed
  have e: "pt_read (view fw A s) (frame_addr f) i = 0" if "i < 512" for i
    using view_read [OF fb(2) that f(2)] z [OF that] by simp
  have w: "walk (view fw A s) (frame_addr f) q = (if q = [] then Some (frame_addr f) else None)" if "valid_path q" for q
    using that by (cases q) (auto simp: e)
  have nf: "f \<notin> free_frames (view fw A s)"
    using f(2) page_bytes_ne [of f] by (auto simp: view_free [OF A] free_pages_def held_def)
  have pt: "pt_inv (frame_addr f) (view fw A s)"
    unfolding pt_inv_def using fb nf by (auto simp: w split: if_splits)
  have tab: "tables (frame_addr f) (view fw A s) = {f}"
    using fb frame_addr_inj [OF fb(2)] by (auto simp: tables_def w split: if_splits intro!: exI [of _ "[]"])
  show "boot_inv fw A (frame_addr f) s" using pt f(2) by (simp add: boot_inv_def tab)
  show "pview (view fw A s) (frame_addr f) pg = 0" if "valid_page pg" for pg
    using w [of "fst pg"] that by (auto simp: pview_def valid_page_def)
qed

lemma ConfigurePaging_root:
  assumes c: "conforming fw A" and ne: "free_pages fw A (b_efi s) \<noteq> {}"
  obtains f t where "f \<in> free_pages fw A (b_efi s)" "boot_inv fw A (frame_addr f) t"
    "\<forall>pg. valid_page pg \<longrightarrow> pview (view fw A t) (frame_addr f) pg = 0"
    "free_pages fw A (b_efi t) = free_pages fw A (b_efi s) - {f}" "b_pml4 t = frame_addr f"
    "ConfigurePaging fw s = efi_seq (MapAddr fw (frame_addr f) (frame_addr f) (frame_addr f) t) (\<lambda>_ s. Some (Inr (), s))"
proof (rule AllocTable_cases [OF c, of s])
  fix f t
  assume a: "AllocTable fw s = Some (Inr (frame_addr f), t)" "f \<in> free_pages fw A (b_efi s)"
    "free_pages fw A (b_efi t) = free_pages fw A (b_efi s) - {f}"
    "held fw (b_efi t) = page_bytes f \<union> held fw (b_efi s)"
    "page_held fw (b_efi t) = page_bytes f \<union> page_held fw (b_efi s)" "boot_only s t"
    "\<And>a. a \<in> held fw (b_efi s) \<Longrightarrow> b_mem t a = b_mem s a" "\<And>a. a \<in> page_bytes f \<Longrightarrow> b_mem t a = 0"
  let ?c = "AllocatePages EfiLoaderData 1"
  obtain r u where r: "efi fw ?c s = (r, u)" by fastforce
  note m = efi_mem [OF c r]
  from a(1) have ok: "\<not> EFI_ERROR (er_status r)" by (auto simp: AllocTable_def efi_try_def r)
  then obtain g where g: "er_out r = Some (frame_addr g)"
    using conformingD(3) [OF c, of EfiLoaderData 1 "b_efi s"] m(3) by auto
  obtain r' v where r': "efi fw (SetMem (frame_addr g) EFI_PAGE_SIZE 0) u = (r', v)" by fastforce
  have ok': "\<not> EFI_ERROR (er_status r')" using conformingD(5) [OF c] efi_mem(3) [OF c r'] by simp
  with a(1) ok g have e: "frame_addr f = frame_addr g" "t = v" by (auto simp: AllocTable_def efi_try_def r r' out_or_def)
  define w where "w = t\<lparr>b_pml4 := frame_addr f\<rparr>"
  have w: "b_efi w = b_efi t" "b_mem w = b_mem t" by (simp_all add: w_def)
  note root = empty_root [OF conformingD(1) [OF c], of f fw w]
  show thesis
  proof (rule that [of f w])
    show "boot_inv fw A (frame_addr f) w" using a(2,5,8) by (intro root) (auto simp: w free_pages_def)
    show "\<forall>pg. valid_page pg \<longrightarrow> pview (view fw A w) (frame_addr f) pg = 0"
      using a(2,5,8) by (intro allI impI root) (auto simp: w free_pages_def)
    show "ConfigurePaging fw s = efi_seq (MapAddr fw (frame_addr f) (frame_addr f) (frame_addr f) w) (\<lambda>_ s. Some (Inr (), s))"
      using g e r r' by (simp add: ConfigurePaging_def out_or_def w_def Let_def)
  qed (use a w in \<open>simp_all add: w_def\<close>)
qed (use ne in auto)

section \<open>A firmware\<close>

text \<open>
  A firmware that conforms: pages are handed out from frame 256 up to frame 512, pool memory from 16 MiB upwards
  and never again, one file \<open>img\<close> is served under the handle 7, there is one video mode, and the memory map has one
  descriptor.
\<close>

fun next_page :: "efi_call list \<Rightarrow> nat" where
  "next_page [] = 256"
| "next_page (AllocatePages t n # h) = (if next_page h + unat n \<le> 512 then next_page h + unat n else next_page h)"
| "next_page (_ # h) = next_page h"

fun next_pool :: "efi_call list \<Rightarrow> nat" where
  "next_pool [] = 0x1000000"
| "next_pool (AllocatePool t n # h) = (if next_pool h + unat n \<le> 2 ^ 40 then next_pool h + unat n else next_pool h)"
| "next_pool (_ # h) = next_pool h"

fun next_pos :: "nat \<Rightarrow> efi_call list \<Rightarrow> nat" where
  "next_pos k [] = 0"
| "next_pos k (SetPosition g p # h) = (if g = 7 then if p = - 1 then k else unat p else next_pos k h)"
| "next_pos k (FileRead g n p # h) = (if g = 7 then next_pos k h + min (unat n) (k - next_pos k h) else next_pos k h)"
| "next_pos k (_ # h) = next_pos k h"

definition demo_descriptor :: "u8 list" where
  "demo_descriptor = [7,0,0,0,0,0,0,0, 0,0,0x10,0,0,0,0,0, 0,0,0x10,0,0,0,0,0, 0,1,0,0,0,0,0,0, 15,0,0,0,0,0,0,0, 0,0,0,0,0,0,0,0]"

definition demo_info :: gop_info where
  "demo_info = \<lparr>gi_HorizontalResolution = 1024, gi_VerticalResolution = 768, gi_PixelFormat = 1, gi_PixelsPerScanLine = 1024\<rparr>"

definition demo_answer :: "u64 \<Rightarrow> u64 option \<Rightarrow> (u64 \<Rightarrow> u8 option) \<Rightarrow> efi_reply" where
  "demo_answer status v st = \<lparr>er_status = status, er_out = v, er_key = None, er_desc_size = None, er_info = demo_info, er_stores = st\<rparr>"

fun demo_call :: "u8 list \<Rightarrow> efi_call list \<Rightarrow> efi_reply" where
  "demo_call img (AllocatePages t n # h) =
     (if next_page h + unat n \<le> 512 then demo_answer 0 (Some (frame_addr (next_page h))) (\<lambda>_. None)
      else demo_answer EFI_OUT_OF_RESOURCES None (\<lambda>_. None))"
| "demo_call img (AllocatePool t n # h) =
     (if next_pool h + unat n \<le> 2 ^ 40 then demo_answer 0 (Some (of_nat (next_pool h))) (\<lambda>_. None)
      else demo_answer EFI_OUT_OF_RESOURCES None (\<lambda>_. None))"
| "demo_call img (SetMem p n v # h) = demo_answer 0 None (\<lambda>a. if a \<in> span p (unat n) then Some v else None)"
| "demo_call img (FileRead g n p # h) =
     (if g \<noteq> 7 then demo_answer EFI_NOT_FOUND None (\<lambda>_. None)
      else let pos = next_pos (length img) h; k = min (unat n) (length img - pos)
           in demo_answer 0 (Some (of_nat k)) (\<lambda>a. if a \<in> span p k then Some (img ! (pos + unat (a - p))) else None))"
| "demo_call img (GetMemoryMap n p # h) =
     (if unat n < 48 then (demo_answer EFI_BUFFER_TOO_SMALL (Some 48) (\<lambda>_. None))\<lparr>er_desc_size := Some 48\<rparr>
      else (demo_answer 0 (Some 48) (\<lambda>a. if a \<in> span p 48 then Some (demo_descriptor ! unat (a - p)) else None))
             \<lparr>er_desc_size := Some 48, er_key := Some (of_nat (length h))\<rparr>)"
| "demo_call img (FileOpen root nm # h) = demo_answer 0 (Some 7) (\<lambda>_. None)"
| "demo_call img _ = demo_answer 0 (Some 1) (\<lambda>_. None)"

definition demo_uefi :: "u8 list \<Rightarrow> uefi" where
  "demo_uefi img = \<lparr>ef_call = demo_call img,
     ef_mode = \<lambda>_. \<lparr>gm_MaxMode = 1, gm_Info = demo_info, gm_FrameBufferBase = 0x80000000\<rparr>,
     ef_tables = [(1, 0x9000), (2, 0x9000)], ef_CompareGuid = (\<lambda>a b. if a = b then 0 else 1),
     ACPI_20_TABLE_GUID = 2, ACPI_TABLE_GUID = 3\<rparr>"

abbreviation demo_frames :: "nat set" where
  "demo_frames \<equiv> {256..<512}"

lemma demo_answer_simps [simp]:
  "er_status (demo_answer st v m) = st" "er_out (demo_answer st v m) = v" "er_stores (demo_answer st v m) = m"
  by (simp_all add: demo_answer_def)

lemma demo_uefi_call [simp]: "ef_call (demo_uefi img) = demo_call img"
  by (simp add: demo_uefi_def)

lemma next_page_bounds: "256 \<le> next_page h" "next_page h \<le> 512"
  by (induction h rule: next_page.induct) auto

lemma next_pool_bounds: "0x1000000 \<le> next_pool h" "next_pool h \<le> 2 ^ 40"
  by (induction h rule: next_pool.induct) auto

lemma demo_page_span:
  assumes "256 \<le> f" "f + n \<le> 512"
  shows "a \<in> span (frame_addr f) (n * 4096) \<longleftrightarrow> f * 4096 \<le> unat a \<and> unat a < (f + n) * 4096"
  using assms by (subst span_nowrap) (auto simp: unat_frame_addr algebra_simps)

lemma demo_page_held: "a \<in> page_held (demo_uefi img) h \<longleftrightarrow> 0x100000 \<le> unat a \<and> unat a < next_page h * 4096"
proof (induction h rule: next_page.induct)
  case (2 t n h)
  then show ?case using next_page_bounds [of h] demo_page_span [of "next_page h" "unat n" a]
    by (auto simp: Let_def out_or_def)
qed (auto simp: Let_def)

lemma demo_pool_held: "a \<in> pool_held (demo_uefi img) h \<Longrightarrow> 0x1000000 \<le> unat a \<and> unat a < next_pool h"
proof (induction h rule: next_pool.induct)
  case (2 t n h)
  have u: "unat (of_nat (next_pool h) :: u64) = next_pool h" using next_pool_bounds [of h] by (intro unat_of_nat64) simp
  show ?case
  proof (cases "next_pool h + unat n \<le> 2 ^ 40")
    case True
    then have "a \<in> span (of_nat (next_pool h)) (unat n) \<longleftrightarrow> next_pool h \<le> unat a \<and> unat a < next_pool h + unat n"
      by (subst span_nowrap) (simp_all add: u)
    with 2 True next_pool_bounds [of h] show ?thesis by (auto simp: out_or_def)
  qed (use 2 in \<open>simp add: Let_def\<close>)
qed (auto simp: Let_def split: if_splits)

lemma demo_free_pages: "free_pages (demo_uefi img) demo_frames h = {next_page h..<512}"
proof -
  have iff: "page_bytes f \<inter> held (demo_uefi img) h = {} \<longleftrightarrow> next_page h \<le> f" if "f \<in> demo_frames" for f
  proof
    assume "page_bytes f \<inter> held (demo_uefi img) h = {}"
    moreover have "frame_addr f \<in> page_bytes f" using span_offset [of 0 "frame_addr f" 4096] by (simp add: page_bytes_def)
    ultimately have "frame_addr f \<notin> page_held (demo_uefi img) h" by (auto simp: held_def)
    then show "next_page h \<le> f" using that by (simp add: demo_page_held unat_frame_addr)
  next
    assume "next_page h \<le> f"
    then show "page_bytes f \<inter> held (demo_uefi img) h = {}"
      using that demo_page_span [of f 1] demo_page_held [of _ img h] demo_pool_held [of _ img h]
      by (fastforce simp: page_bytes_def held_def)
  qed
  have "free_pages (demo_uefi img) demo_frames h = {f \<in> demo_frames. next_page h \<le> f}"
    unfolding free_pages_def by (intro Collect_cong conj_cong refl iff)
  also have "\<dots> = {next_page h..<512}" using next_page_bounds(1) [of h] by force
  finally show ?thesis .
qed


lemma demo_conforming: "conforming (demo_uefi img) demo_frames"
proof -
  let ?fw = "demo_uefi img"
  have pages: "let r = ef_call ?fw (AllocatePages t n # h) in
      if EFI_ERROR (er_status r) then n = 1 \<longrightarrow> free_pages ?fw demo_frames h = {}
      else \<exists>f. er_out r = Some (frame_addr f) \<and> {f..<f + unat n} \<subseteq> free_pages ?fw demo_frames h" for h t n
    using next_page_bounds [of h] by (auto simp: Let_def demo_free_pages intro!: exI [of _ "next_page h"])
  have pool: "\<exists>p. Some (of_nat (next_pool h)) = Some p \<and> unat p + unat n \<le> 2 ^ 46 \<and>
      span p (unat n) \<inter> (held ?fw h \<union> (\<Union>f\<in>demo_frames. page_bytes f)) = {}" if n: "next_pool h + unat n \<le> 2 ^ 40" for h and n :: u64
  proof -
    have u: "unat (of_nat (next_pool h) :: u64) = next_pool h" using next_pool_bounds [of h] by (intro unat_of_nat64) simp
    have "next_pool h \<le> unat a" if "a \<in> span (of_nat (next_pool h)) (unat n)" for a
      using that n by (subst (asm) span_nowrap) (simp_all add: u)
    then have "a \<notin> held ?fw h \<union> (\<Union>f\<in>demo_frames. page_bytes f)" if "a \<in> span (of_nat (next_pool h)) (unat n)" for a
      using that demo_page_held [of a img h] demo_pool_held [of a img h] next_page_bounds [of h] next_pool_bounds [of h]
        demo_page_span [of _ 1 a] by (fastforce simp: held_def page_bytes_def)
    then show ?thesis using n u by (intro exI [of _ "of_nat (next_pool h)"]) auto
  qed
  have stores: "er_stores (ef_call ?fw (c # h)) a = None" if "a \<in> held ?fw h - buffer_of c" for h c a
    using that by (cases c) (auto simp: Let_def span_iff)
  show ?thesis unfolding conforming_def
    using pages pool stores by (auto simp: Let_def)
qed

text \<open>The state after the root table has been allocated and cleared, with the root in frame 256.\<close>

definition demo_boot :: boot where
  "demo_boot = \<lparr>b_mem = \<lambda>_. 0, b_efi = [SetMem 0x100000 4096 0, AllocatePages 2 1], b_mmap = 0, b_mmap_size = 0,
     b_mmap_desc_size = 0, b_num_ke = 0, b_ke = 0, b_pml4 = 0x100000, b_bitmap = 0, b_bitmap_entries = 0, b_bitmap_size = 0,
     b_mem_pages = 0, b_fb_buffer = 0, b_fb_horizontal_res = 0, b_fb_vertical_res = 0, b_fb_pixels_per_scanline = 0,
     b_fb_bpp = 0, b_acpi_sdt_addr = 0, b_acpi_xsdt = False\<rparr>"

lemma demo_boot_inv: "boot_inv (demo_uefi img) demo_frames 0x100000 demo_boot"
proof -
  have "0x100000 = frame_addr 256" by (simp add: frame_addr_def kconst)
  moreover have "page_bytes 256 \<subseteq> page_held (demo_uefi img) (b_efi demo_boot)"
    using demo_page_span [of 256 1] by (auto simp: page_bytes_def demo_page_held demo_boot_def simp del: page_held.simps)
  ultimately show ?thesis by (simp only:) (intro empty_root(1), auto simp: demo_boot_def)
qed

lemma demo_fits: "fits demo_frames 0x5000 0x5000 2"
proof -
  have "page (nth_page 0x5000 i) \<noteq> page (frame_addr f)" if "i < 2" "f \<in> demo_frames" for i f
    using that by (auto simp: page_number unat_frame_addr less_2_cases_iff kconst)
  then show ?thesis by (auto simp: fits_def)
qed

section \<open>Properties\<close>

text \<open>
  C11. Mapping an address in the loader, over a conforming firmware and page tables that form a tree of held pages:
  \<open>MapAddr\<close> always returns, although it calls itself for every table it adds. It succeeds and
  then the address translates to the page of \<open>phys\<close>, or it returns an error and no page is left. In both cases the
  tables are again a tree, every address keeps its translation except the one mapped and the addresses of tables added,
  and of \<^verbatim>\<open>kinfo\<close> nothing changes.
\<close>
theorem MapAddr_translates:
  assumes "conforming fw A" "boot_inv fw A p4 s"
  shows "\<exists>r s'. MapAddr fw phys virt p4 s = Some (r, s') \<and> boot_inv fw A p4 s' \<and> boot_only s s' \<and>
    (case r of Inr _ \<Rightarrow> translate_addr virt p4 (pt_of s') = phys AND SIGN_MASK
     | Inl e \<Rightarrow> EFI_ERROR e \<and> free_pages fw A (b_efi s') = {}) \<and>
    (\<forall>v. (page v = page virt \<longrightarrow> isl r) \<and>
         page v \<notin> (\<lambda>f. page (frame_addr f)) ` (free_pages fw A (b_efi s) - free_pages fw A (b_efi s')) \<longrightarrow>
         translate_addr v p4 (pt_of s') = translate_addr v p4 (pt_of s))"
proof -
  from MapAddr_mapped [OF assms, of phys virt] obtain r s' where
    r: "MapAddr fw phys virt p4 s = Some (r, s')" "mapped fw A p4 (page virt) (phys AND SIGN_MASK) s r s'" by blast
  note ff = view_free [OF conformingD(1) [OF assms(1)]]
  have st: "boot_steps fw A p4 s s'" using r(2) by (auto simp: mapped_def failed_def split: sum.splits)
  then have inv: "boot_inv fw A p4 s'" "boot_only s s'" by (auto simp: boot_steps_def)
  note tr = translate_view [OF assms(2)] translate_view [OF inv(1)]
  have "pview (view fw A s') p4 (page v) = pview (view fw A s) p4 (page v)"
    if "page v = page virt \<longrightarrow> isl r" "page v \<notin> (\<lambda>f. page (frame_addr f)) ` (free_pages fw A (b_efi s) - free_pages fw A (b_efi s'))" for v
    using r(2) that by (auto simp: mapped_def failed_def keeps_pages_def maps_page_def grown_def adds_ids_def ff split: sum.splits
        dest!: spec [of _ "fst (page v)"] spec [of _ "snd (page v)"])
  with r inv show ?thesis
    by (intro exI [of _ r] exI [of _ s']) (auto simp: tr mapped_def failed_def maps_page_def split: sum.splits)
qed

theorem MapAddr_translates_witness:
  "conforming (demo_uefi []) demo_frames \<and> boot_inv (demo_uefi []) demo_frames 0x100000 demo_boot \<and>
   (\<exists>r s'. MapAddr (demo_uefi []) 0x5000 0xFFFFFFFF80005000 0x100000 demo_boot = Some (r, s') \<and>
     boot_inv (demo_uefi []) demo_frames 0x100000 s' \<and>
     (case r of Inr _ \<Rightarrow> translate_addr 0xFFFFFFFF80005000 0x100000 (pt_of s') = 0x5000 AND SIGN_MASK
      | Inl e \<Rightarrow> EFI_ERROR e \<and> free_pages (demo_uefi []) demo_frames (b_efi s') = {}))"
  using MapAddr_translates [OF demo_conforming demo_boot_inv, of "[]" "0x5000" "0xFFFFFFFF80005000"]
  by (auto simp: demo_conforming demo_boot_inv)

text \<open>
  Mapping a range in the loader always returns: with an error when no page is left, or with every page of the range
  translating to its physical page; pages outside the range keep their translation unless they are those of the tables added.
\<close>
theorem MapRange_translates:
  assumes "conforming fw A" "boot_inv fw A p4 s" "fits A phys virt (unat n)"
  shows "\<exists>r s'. MapRange fw phys virt n p4 s = Some (r, s') \<and> boot_inv fw A p4 s' \<and>
    (case r of
       Inl e \<Rightarrow> EFI_ERROR e \<and> free_pages fw A (b_efi s') = {}
     | Inr _ \<Rightarrow> (\<forall>i<unat n. translate_addr (nth_page virt i) p4 (pt_of s') = nth_page phys i AND SIGN_MASK) \<and>
        (\<forall>v. page v \<notin> (\<lambda>i. page (nth_page virt i)) ` {..<unat n} \<and>
             page v \<notin> (\<lambda>f. page (frame_addr f)) ` (free_pages fw A (b_efi s) - free_pages fw A (b_efi s')) \<longrightarrow>
             translate_addr v p4 (pt_of s') = translate_addr v p4 (pt_of s)))"
proof -
  from MapRange_mapped [OF assms] obtain r s' where r: "MapRange fw phys virt n p4 s = Some (r, s')"
    "case r of Inr _ \<Rightarrow> range_mapped fw A p4 phys virt (unat n) s s' | Inl e \<Rightarrow> out_of_pages fw A p4 e s s'" by blast
  then have inv: "boot_inv fw A p4 s'"
    by (auto simp: range_mapped_def out_of_pages_def boot_steps_def split: sum.splits)
  note tr = translate_view [OF assms(2)] translate_view [OF inv]
  have "pview (view fw A s') p4 (page v) = pview (view fw A s) p4 (page v)"
    if "range_mapped fw A p4 phys virt (unat n) s s'" "page v \<notin> (\<lambda>i. page (nth_page virt i)) ` {..<unat n}"
      "page v \<notin> (\<lambda>f. page (frame_addr f)) ` (free_pages fw A (b_efi s) - free_pages fw A (b_efi s'))" for v
    using that valid_page_page(1) [of v] unfolding range_mapped_def by (metis (no_types, lifting))
  with r inv show ?thesis
    by (intro exI [of _ r] exI [of _ s']) (auto simp: tr range_mapped_def out_of_pages_def split: sum.splits)
qed

theorem MapRange_translates_witness:
  "conforming (demo_uefi []) demo_frames \<and> boot_inv (demo_uefi []) demo_frames 0x100000 demo_boot \<and>
   fits demo_frames 0x5000 0x5000 2 \<and>
   (\<exists>r s'. MapRange (demo_uefi []) 0x5000 0x5000 2 0x100000 demo_boot = Some (r, s') \<and>
     (case r of Inl e \<Rightarrow> EFI_ERROR e \<and> free_pages (demo_uefi []) demo_frames (b_efi s') = {}
      | Inr _ \<Rightarrow> translate_addr 0x5000 0x100000 (pt_of s') = 0x5000 AND SIGN_MASK \<and>
          translate_addr 0x6000 0x100000 (pt_of s') = 0x6000 AND SIGN_MASK))"
proof -
  have "unat (2 :: u64) = 2" by simp
  from MapRange_translates [OF demo_conforming demo_boot_inv, of "0x5000" "0x5000" 2 "[]", unfolded this, OF demo_fits]
  obtain r s' where r: "MapRange (demo_uefi []) 0x5000 0x5000 2 0x100000 demo_boot = Some (r, s')"
    "case r of Inl e \<Rightarrow> EFI_ERROR e \<and> free_pages (demo_uefi []) demo_frames (b_efi s') = {}
      | Inr _ \<Rightarrow> (\<forall>i<2. translate_addr (nth_page 0x5000 i) 0x100000 (pt_of s') = nth_page 0x5000 i AND SIGN_MASK)"
    by (auto simp: not_Inr_unit split: sum.splits)
  then have "case r of Inl e \<Rightarrow> EFI_ERROR e \<and> free_pages (demo_uefi []) demo_frames (b_efi s') = {}
      | Inr _ \<Rightarrow> translate_addr 0x5000 0x100000 (pt_of s') = 0x5000 AND SIGN_MASK \<and>
          translate_addr 0x6000 0x100000 (pt_of s') = 0x6000 AND SIGN_MASK"
    by (auto split: sum.splits simp: kconst less_2_cases_iff all_conj_distrib imp_disjL dest!: spec [of _ 0] spec [of _ 1])
  with r(1) show ?thesis by (simp add: demo_conforming demo_boot_inv demo_fits)
qed



end
