(* ===== verification/Boot_Loader.thy ===== *)
theory Boot_Loader
  imports Boot_Paging
begin

text \<open>
  \<^verbatim>\<open>src/boot/loader.c\<close> and \<^verbatim>\<open>include/boot/loader.h\<close>: reading the ELF image of the kernel and its segments. The definitions
  come first; the rest of the theory is about \<open>LoadSegment\<close>: \<open>boot_grow\<close> is what every step keeps (memory handed out
  before, apart from page tables and the buffers named), \<open>loaded\<close> says that a segment is in memory and in the page
  tables, and \<open>loaded_reads\<close> that its bytes can then be read at its virtual addresses. The file is described by
  \<open>serves\<close>: a read gives the bytes of the image at the position, as the UEFI specification has it.
\<close>

section \<open>Definitions\<close>

subsection \<open>Structures of loader.h\<close>

definition sizeof_elf64_ehdr_t :: u64 where [kconst]: "sizeof_elf64_ehdr_t = 64"
definition sizeof_elf64_phdr_t :: u64 where [kconst]: "sizeof_elf64_phdr_t = 56"
definition sizeof_kernel_entry_t :: u64 where [kconst]: "sizeof_kernel_entry_t = 24"

record elf64_ehdr_t =
  e_ident :: "u8 list"
  e_type :: u16
  e_machine :: u16
  e_version :: u32
  e_entry :: u64
  e_phoff :: u64
  e_shoff :: u64
  e_flags :: u32
  e_ehsize :: u16
  e_phentsize :: u16
  e_phnum :: u16
  e_shentsize :: u16
  e_shnum :: u16
  e_shstrndx :: u16

record elf64_phdr_t =
  p_type :: u32
  p_flags :: u32
  p_offset :: u64
  p_vaddr :: u64
  p_paddr :: u64
  p_filesz :: u64
  p_memsz :: u64
  p_align :: u64

text \<open>The structures, packed, at an address.\<close>

definition ehdr_at :: "u64 \<Rightarrow> bytes \<Rightarrow> elf64_ehdr_t" where
  "ehdr_at a m = \<lparr>e_ident = map (\<lambda>i. m (a + of_nat i)) [0..<16], e_type = load16 (a + 16) m, e_machine = load16 (a + 18) m,
     e_version = load32 (a + 20) m, e_entry = load64 (a + 24) m, e_phoff = load64 (a + 32) m, e_shoff = load64 (a + 40) m,
     e_flags = load32 (a + 48) m, e_ehsize = load16 (a + 52) m, e_phentsize = load16 (a + 54) m, e_phnum = load16 (a + 56) m,
     e_shentsize = load16 (a + 58) m, e_shnum = load16 (a + 60) m, e_shstrndx = load16 (a + 62) m\<rparr>"

definition phdr_at :: "u64 \<Rightarrow> bytes \<Rightarrow> elf64_phdr_t" where
  "phdr_at a m = \<lparr>p_type = load32 a m, p_flags = load32 (a + 4) m, p_offset = load64 (a + 8) m, p_vaddr = load64 (a + 16) m,
     p_paddr = load64 (a + 24) m, p_filesz = load64 (a + 32) m, p_memsz = load64 (a + 40) m, p_align = load64 (a + 48) m\<rparr>"

definition store_entry :: "u64 \<Rightarrow> u64 \<Rightarrow> u64 \<Rightarrow> u64 \<Rightarrow> bytes \<Rightarrow> bytes" where
  "store_entry ke vaddr paddr num_pages m = store64 (ke + 16) num_pages (store64 (ke + 8) paddr (store64 ke vaddr m))"

subsection \<open>LoadSegment\<close>

text \<open>The fields of the program header are read where the code reads them. The result of \<open>MapAddr\<close> is not looked at.\<close>

definition map_segment :: "uefi \<Rightarrow> u64 \<Rightarrow> u64 \<Rightarrow> u64 \<Rightarrow> u64 \<Rightarrow> boot \<Rightarrow> boot option" where
  "map_segment fw program_header segment_data num_pages p4_tbl s =
     for_opt (unat num_pages) (\<lambda>i s.
       map_option snd (MapAddr fw (ALIGN_ADDR (segment_data + PAGE_SIZE * of_nat i))
         (ALIGN_ADDR (p_vaddr (phdr_at program_header (b_mem s)) + PAGE_SIZE * of_nat i)) p4_tbl s)) s"

definition LoadSegment :: "uefi \<Rightarrow> u64 \<Rightarrow> u64 \<Rightarrow> u64 \<Rightarrow> u64 \<Rightarrow> boot \<Rightarrow> unit efi_result" where
  "LoadSegment fw program_header kernel_file p4_tbl kernel_entries_location s =
     (let buffer_read_size = p_filesz (phdr_at program_header (b_mem s));
          page_offset = p_vaddr (phdr_at program_header (b_mem s)) mod EFI_PAGE_SIZE;
          num_pages = EFI_SIZE_TO_PAGES (page_offset + p_memsz (phdr_at program_header (b_mem s)))
      in efi_seq (efi_try fw (SetPosition kernel_file (p_offset (phdr_at program_header (b_mem s)))) s) (\<lambda>_ s.
         efi_seq (efi_try fw (AllocatePages EfiLoaderCode num_pages) s) (\<lambda>r s.
         let segment_data = out_or NULL (er_out r) in
         efi_seq (efi_try fw (FileRead kernel_file buffer_read_size (segment_data + page_offset)) s) (\<lambda>r s.
         let buffer_read_size = out_or buffer_read_size (er_out r) in
         efi_seq (efi_try fw (SetMem (segment_data + page_offset + buffer_read_size)
                    (p_memsz (phdr_at program_header (b_mem s)) - buffer_read_size) 0) s) (\<lambda>_ s.
         let s = s\<lparr>b_mem := store_entry kernel_entries_location (p_vaddr (phdr_at program_header (b_mem s))) segment_data num_pages (b_mem s)\<rparr>
         in map_option (\<lambda>s. (Inr (), s)) (map_segment fw program_header segment_data num_pages p4_tbl s))))))"

subsection \<open>LoadKernel\<close>

definition KERNEL_PATH :: string where "KERNEL_PATH = CHR 0x5C # ''kernel.elf''"

definition load_count :: "u64 \<Rightarrow> u16 \<Rightarrow> bytes \<Rightarrow> u64" where
  "load_count program_headers n m =
     for_upto (unat n) (\<lambda>p k. if p_type (phdr_at (program_headers + sizeof_elf64_phdr_t * of_nat p) m) = 1 then k + 1 else k) 0"

text \<open>The loop over the program headers, with its counter \<open>k\<close> of entries written.\<close>

primrec load_segments :: "uefi \<Rightarrow> u64 \<Rightarrow> u64 \<Rightarrow> nat \<Rightarrow> boot \<Rightarrow> u16 efi_result" where
  "load_segments fw program_headers kernel_file 0 s = Some (Inr 0, s)"
| "load_segments fw program_headers kernel_file (Suc p) s =
     efi_seq (load_segments fw program_headers kernel_file p s) (\<lambda>k s.
       let ph = program_headers + sizeof_elf64_phdr_t * of_nat p in
       if p_type (phdr_at ph (b_mem s)) \<noteq> 1 then Some (Inr k, s)
       else efi_seq (LoadSegment fw ph kernel_file (b_pml4 s) (b_ke s + sizeof_kernel_entry_t * ucast k) s)
              (\<lambda>_ s. Some (Inr (k + 1), s)))"

definition open_kernel :: "uefi \<Rightarrow> boot \<Rightarrow> u64 efi_result" where
  "open_kernel fw s =
     efi_seq (efi_try fw (LocateProtocol SimpleFileSystem) s) (\<lambda>r s.
     let fsp = out_or NULL (er_out r) in
     efi_seq (efi_try fw (OpenVolume fsp) s) (\<lambda>r s.
     let root_fs = out_or NULL (er_out r) in
     efi_seq (efi_try fw (FileOpen root_fs KERNEL_PATH) s) (\<lambda>r s.
     let kernel_file = out_or NULL (er_out r) in
     efi_seq (efi_try fw (SetPosition kernel_file 0) s) (\<lambda>_ s. Some (Inr kernel_file, s)))))"

definition read_header :: "uefi \<Rightarrow> u64 \<Rightarrow> boot \<Rightarrow> u64 efi_result" where
  "read_header fw kernel_file s =
     efi_seq (efi_try fw (SetPosition kernel_file 0) s) (\<lambda>_ s.
     efi_seq (efi_try fw (AllocatePool EfiLoaderData sizeof_elf64_ehdr_t) s) (\<lambda>r s.
     let elf_header_buf = out_or NULL (er_out r) in
     efi_seq (efi_try fw (FileRead kernel_file sizeof_elf64_ehdr_t elf_header_buf) s) (\<lambda>_ s.
     let b = (\<lambda>i. b_mem s (elf_header_buf + i)) in
     if b 0 \<noteq> 0x7F \<or> b 1 \<noteq> 0x45 \<or> b 2 \<noteq> 0x4C \<or> b 3 \<noteq> 0x46 then Some (Inl EFI_INVALID_PARAMETER, s)
     else if b 4 = 1 then Some (Inl EFI_UNSUPPORTED, s)
     else Some (Inr elf_header_buf, s))))"

definition read_program_headers :: "uefi \<Rightarrow> u64 \<Rightarrow> u64 \<Rightarrow> boot \<Rightarrow> u64 efi_result" where
  "read_program_headers fw kernel_file hdr s =
     (let buffer_read_size = sizeof_elf64_phdr_t * ucast (e_phnum (ehdr_at hdr (b_mem s)))
      in efi_seq (efi_try fw (SetPosition kernel_file (e_phoff (ehdr_at hdr (b_mem s)))) s) (\<lambda>_ s.
         efi_seq (efi_try fw (AllocatePool EfiLoaderData buffer_read_size) s) (\<lambda>r s.
         let elf_pheader_buf = out_or NULL (er_out r) in
         efi_seq (efi_try fw (FileRead kernel_file buffer_read_size elf_pheader_buf) s) (\<lambda>_ s.
         Some (Inr elf_pheader_buf, s)))))"

text \<open>The buffer for the kernel entries, and its mapping in the higher half.\<close>

definition alloc_entries :: "uefi \<Rightarrow> u64 \<Rightarrow> boot \<Rightarrow> unit efi_result" where
  "alloc_entries fw num_kernel_entries s =
     efi_seq (efi_try fw (AllocatePool EfiLoaderData (sizeof_kernel_entry_t * num_kernel_entries)) s) (\<lambda>r s.
     let s = s\<lparr>b_ke := out_or (b_ke s) (er_out r)\<rparr>;
         ke_addr = ALIGN_ADDR (b_ke s)
     in MapRange fw ke_addr (VADDR ke_addr) (EFI_SIZE_TO_PAGES (num_kernel_entries * sizeof_kernel_entry_t)) (b_pml4 s) s)"

definition close_kernel :: "uefi \<Rightarrow> u64 \<Rightarrow> u64 \<Rightarrow> u64 \<Rightarrow> boot \<Rightarrow> unit efi_result" where
  "close_kernel fw kernel_file elf_header_buf elf_pheader_buf s =
     efi_seq (efi_try fw (FileClose kernel_file) s) (\<lambda>_ s.
     efi_seq (efi_try fw (FreePool elf_header_buf) s) (\<lambda>_ s.
     efi_seq (efi_try fw (FreePool elf_pheader_buf) s) (\<lambda>_ s. Some (Inr (), s))))"

definition LoadKernel :: "uefi \<Rightarrow> boot \<Rightarrow> u64 efi_result" where
  "LoadKernel fw s =
     efi_seq (open_kernel fw s) (\<lambda>kernel_file s.
     efi_seq (read_header fw kernel_file s) (\<lambda>hdr s.
     let num_program_segments = e_phnum (ehdr_at hdr (b_mem s));
         kernel_entry_point = e_entry (ehdr_at hdr (b_mem s)) in
     efi_seq (read_program_headers fw kernel_file hdr s) (\<lambda>program_headers s.
     let num_kernel_entries = load_count program_headers num_program_segments (b_mem s) in
     efi_seq (alloc_entries fw num_kernel_entries s) (\<lambda>_ s.
     efi_seq (load_segments fw program_headers kernel_file (unat num_program_segments) s) (\<lambda>_ s.
     efi_seq (close_kernel fw kernel_file hdr program_headers s) (\<lambda>_ s.
     Some (Inr kernel_entry_point, s\<lparr>b_num_ke := num_kernel_entries, b_ke := VADDR (b_ke s)\<rparr>)))))))"

section \<open>How the loader's memory grows\<close>

definition table_bytes :: "uefi \<Rightarrow> nat set \<Rightarrow> u64 \<Rightarrow> boot \<Rightarrow> u64 set" where
  "table_bytes fw A p4 s = {a. unat a div 4096 \<in> tables p4 (view fw A s)}"

definition boot_grow :: "uefi \<Rightarrow> nat set \<Rightarrow> u64 \<Rightarrow> u64 set \<Rightarrow> boot \<Rightarrow> boot \<Rightarrow> bool" where
  "boot_grow fw A p4 W s s' \<longleftrightarrow> boot_inv fw A p4 s' \<and> held fw (b_efi s) \<subseteq> held fw (b_efi s') \<and>
     page_held fw (b_efi s) \<subseteq> page_held fw (b_efi s') \<and>
     free_pages fw A (b_efi s') \<subseteq> free_pages fw A (b_efi s) \<and>
     tables p4 (view fw A s) \<subseteq> tables p4 (view fw A s') \<and>
     tables p4 (view fw A s') \<subseteq> tables p4 (view fw A s) \<union> free_pages fw A (b_efi s) \<and>
     (\<forall>a\<in>held fw (b_efi s) - W - table_bytes fw A p4 s. b_mem s' a = b_mem s a)"

definition other_pages :: "uefi \<Rightarrow> nat set \<Rightarrow> u64 \<Rightarrow> (u64 list \<times> u64) set \<Rightarrow> boot \<Rightarrow> boot \<Rightarrow> bool" where
  "other_pages fw A p4 X s s' \<longleftrightarrow>
     (\<forall>pg. valid_page pg \<longrightarrow> pg \<notin> X \<longrightarrow> pg \<notin> (\<lambda>f. page (frame_addr f)) ` A \<longrightarrow>
        pview (view fw A s') p4 pg = pview (view fw A s) p4 pg)"

lemma other_pages_refl [simp]: "other_pages fw A p4 X s s"
  by (simp add: other_pages_def)

lemma other_pages_trans:
  assumes "other_pages fw A p4 X s t" "other_pages fw A p4 Y t u" "X \<union> Y \<subseteq> Z"
  shows "other_pages fw A p4 Z s u"
  unfolding other_pages_def
proof (intro allI impI)
  fix pg assume "valid_page pg" "pg \<notin> Z" "pg \<notin> (\<lambda>f. page (frame_addr f)) ` A"
  moreover from this assms(3) have "pg \<notin> X" "pg \<notin> Y" by auto
  ultimately show "pview (view fw A u) p4 pg = pview (view fw A s) p4 pg"
    using assms(1,2) [unfolded other_pages_def, rule_format, of pg] by simp
qed

lemma held_apart_free:
  assumes "a \<in> held fw h" shows "unat a div 4096 \<notin> free_pages fw A h"
  using assms in_page [of a] by (auto simp: free_pages_def)

text \<open>Held memory that is not part of a table stays apart from all tables to come.\<close>

lemma grow_apart:
  assumes "boot_grow fw A p4 W s s'" "a \<in> held fw (b_efi s)" "a \<notin> table_bytes fw A p4 s"
  shows "a \<in> held fw (b_efi s')" "a \<notin> table_bytes fw A p4 s'"
  using assms held_apart_free [OF assms(2)] by (auto simp: boot_grow_def table_bytes_def)

lemma grow_apart_pages:
  assumes "boot_grow fw A p4 W s s'" "P \<subseteq> page_held fw (b_efi s) - table_bytes fw A p4 s"
  shows "P \<subseteq> page_held fw (b_efi s') - table_bytes fw A p4 s'"
proof
  fix a assume "a \<in> P"
  with assms(2) have "a \<in> held fw (b_efi s)" "a \<notin> table_bytes fw A p4 s" "a \<in> page_held fw (b_efi s)" by (auto simp: held_def)
  with grow_apart(2) [OF assms(1)] assms(1) show "a \<in> page_held fw (b_efi s') - table_bytes fw A p4 s'"
    by (auto simp: boot_grow_def)
qed

lemma boot_grow_trans:
  assumes "boot_grow fw A p4 W s t" "boot_grow fw A p4 V t u" "W \<union> V \<subseteq> Z"
  shows "boot_grow fw A p4 Z s u"
proof -
  have "b_mem u a = b_mem s a" if "a \<in> held fw (b_efi s) - Z - table_bytes fw A p4 s" for a
  proof -
    have "a \<in> held fw (b_efi t) - V - table_bytes fw A p4 t" using grow_apart [OF assms(1), of a] that assms(3) by blast
    then have "b_mem u a = b_mem t a" using assms(2) by (simp add: boot_grow_def)
    also have "\<dots> = b_mem s a" using that assms(1,3) by (auto simp: boot_grow_def)
    finally show ?thesis .
  qed
  then show ?thesis using assms unfolding boot_grow_def by (auto 4 3)
qed

lemma steps_grow:
  assumes "conforming fw A" "boot_steps fw A p4 s s'"
  shows "boot_grow fw A p4 {} s s'"
proof -
  have t: "tables p4 (view fw A s') \<subseteq> tables p4 (view fw A s) \<union> free_pages fw A (b_efi s)"
    using assms(2) by (simp add: boot_steps_def)
  have "b_mem s' a = b_mem s a" if "a \<in> held fw (b_efi s)" "a \<notin> table_bytes fw A p4 s" for a
  proof -
    have "unat a div 4096 \<notin> tables p4 (view fw A s')"
      using t that held_apart_free [OF that(1)] by (auto simp: table_bytes_def)
    then show ?thesis using assms(2) that(1) by (simp add: boot_steps_def)
  qed
  then show ?thesis
    using assms(2) t tables_mono [of p4 "view fw A s" "view fw A s'"] free_mono [OF assms] by (auto simp: boot_grow_def boot_steps_def)
qed

text \<open>Stores that leave the tables alone change no translation.\<close>

lemma same_tables:
  assumes inv: "boot_inv fw A p4 s" and h: "page_held fw (b_efi s) \<subseteq> page_held fw (b_efi t)"
    and m: "\<And>a. a \<in> table_bytes fw A p4 s \<Longrightarrow> b_mem t a = b_mem s a"
  shows "valid_path q \<Longrightarrow> walk (view fw A t) p4 q = walk (view fw A s) p4 q"
    and "valid_page pg \<Longrightarrow> pview (view fw A t) p4 pg = pview (view fw A s) p4 pg"
proof -
  have rd: "pt_read (view fw A t) u i = pt_read (view fw A s) u i"
    if q: "valid_path q" "walk (view fw A s) p4 q = Some u" and i: "i < 512" for q u i
  proof -
    obtain g where g: "u = frame_addr g" "g < 2 ^ 35" "page_bytes g \<subseteq> page_held fw (b_efi s)" by (rule walk_table [OF inv q])
    have "g \<in> tables p4 (view fw A s)" using q g(1,2) by (auto simp: tables_def)
    then have "b_mem t (u + 8 * i + of_nat k) = b_mem s (u + 8 * i + of_nat k)" if "k < 8" for k
      using word_in_page(1) [OF slot_aligned [OF g(2) i] that] slot_frame [OF g(2) i] by (intro m) (simp add: table_bytes_def g(1))
    then have "tbl_read u i t = tbl_read u i s" unfolding tbl_read_def by (intro load64_cong) simp
    then show ?thesis using view_read [OF g(2) i g(3)] view_read [OF g(2) i, of fw t] g h by auto
  qed
  show w: "valid_path q \<Longrightarrow> walk (view fw A t) p4 q = walk (view fw A s) p4 q" for q
  proof (induction q rule: rev_induct)
    case (snoc i q)
    then show ?case using rd [of q _ i] by (auto simp: walk_snoc split: option.splits)
  qed simp
  show "pview (view fw A t) p4 pg = pview (view fw A s) p4 pg" if "valid_page pg"
    using that w [of "fst pg"] rd [of "fst pg" _ "snd pg"] by (auto simp: pview_def valid_page_def split: option.splits)
qed

lemma mem_grow:
  assumes A: "A \<subseteq> {1..<64 * 65535}" and inv: "boot_inv fw A p4 s" and h: "held fw (b_efi s) \<subseteq> held fw (b_efi t)" "page_held fw (b_efi s) \<subseteq> page_held fw (b_efi t)"
    and m: "\<And>a. a \<in> held fw (b_efi s) \<Longrightarrow> a \<notin> W \<Longrightarrow> b_mem t a = b_mem s a" and W: "W \<inter> table_bytes fw A p4 s = {}"
  shows "boot_grow fw A p4 W s t" "other_pages fw A p4 {} s t" "tables p4 (view fw A t) = tables p4 (view fw A s)"
proof -
  have "table_bytes fw A p4 s \<subseteq> held fw (b_efi s)"
    using inv in_page by (auto simp: table_bytes_def boot_inv_def held_def)
  then have m': "b_mem t a = b_mem s a" if "a \<in> table_bytes fw A p4 s" for a using m W that by blast
  note same = same_tables [OF inv h(2) m']
  show tab: "tables p4 (view fw A t) = tables p4 (view fw A s)" using same(1) by (auto simp: tables_def)
  have free: "free_pages fw A (b_efi t) \<subseteq> free_pages fw A (b_efi s)" using h by (auto simp: free_pages_def)
  have "pt_inv p4 (view fw A t)"
    by (rule pt_inv_same [OF _ same(1)]) (use inv free in \<open>simp_all add: boot_inv_def view_free [OF A]\<close>)
  then have "boot_inv fw A p4 t" using inv h by (auto simp: boot_inv_def tab)
  then show "boot_grow fw A p4 W s t" using h free m by (auto simp: boot_grow_def tab)
  show "other_pages fw A p4 {} s t" using same(2) by (simp add: other_pages_def)
qed

fun frees :: "efi_call \<Rightarrow> bool" where
  "frees (FreePool p) = True"
| "frees _ = False"

lemma page_held_mono: "page_held fw h \<subseteq> page_held fw (c # h)"
  by (cases c) (auto simp: Let_def)

lemma held_mono: "\<not> frees c \<Longrightarrow> held fw h \<subseteq> held fw (c # h)"
  by (cases c) (auto simp: Let_def held_def)

lemma call_grow:
  assumes "conforming fw A" "boot_inv fw A p4 s" "efi fw c s = (r, t)" "\<not> frees c" "buffer_of c \<inter> table_bytes fw A p4 s = {}"
  shows "boot_grow fw A p4 (buffer_of c) s t" "other_pages fw A p4 {} s t" "tables p4 (view fw A t) = tables p4 (view fw A s)"
  using mem_grow [OF conformingD(1) [OF assms(1)] assms(2) _ _ _ assms(5), of t] page_held_mono [of fw "b_efi s" c]
    efi_mem [OF assms(1,3)] held_mono [OF assms(4), of fw "b_efi s"] by simp_all

section \<open>Files\<close>

text \<open>The position of a file after a history of calls, and a firmware that serves the contents \<open>img\<close> as the file \<open>fh\<close>.\<close>

fun file_pos :: "uefi \<Rightarrow> u64 \<Rightarrow> u8 list \<Rightarrow> efi_call list \<Rightarrow> nat" where
  "file_pos fw fh img [] = 0"
| "file_pos fw fh img (c # h) =
     (let r = ef_call fw (c # h)
      in if EFI_ERROR (er_status r) then file_pos fw fh img h
         else case c of
             SetPosition g p \<Rightarrow> if g = fh then if p = - 1 then length img else unat p else file_pos fw fh img h
           | FileRead g n b \<Rightarrow> if g = fh then file_pos fw fh img h + unat (out_or 0 (er_out r)) else file_pos fw fh img h
           | _ \<Rightarrow> file_pos fw fh img h)"

definition serves :: "uefi \<Rightarrow> u64 \<Rightarrow> u8 list \<Rightarrow> bool" where
  "serves fw fh img \<longleftrightarrow> length img < 2 ^ 63 \<and>
     (\<forall>h n buf. let r = ef_call fw (FileRead fh n buf # h); pos = file_pos fw fh img h; k = min (unat n) (length img - pos) in
        \<not> EFI_ERROR (er_status r) \<longrightarrow>
          er_out r = Some (of_nat k) \<and> (\<forall>i<k. er_stores r (buf + of_nat i) = Some (img ! (pos + i))))"

text \<open>Byte \<open>i\<close> of the segment a program header describes: from the file as far as it goes, then zero.\<close>

definition seg_byte :: "u8 list \<Rightarrow> elf64_phdr_t \<Rightarrow> nat \<Rightarrow> u8" where
  "seg_byte img ph i =
     (if i < unat (p_filesz ph) \<and> unat (p_offset ph) + i < length img then img ! (unat (p_offset ph) + i) else 0)"

definition seg_pages :: "elf64_phdr_t \<Rightarrow> u64" where
  "seg_pages ph = EFI_SIZE_TO_PAGES (p_vaddr ph mod EFI_PAGE_SIZE + p_memsz ph)"

definition seg_range :: "elf64_phdr_t \<Rightarrow> (u64 list \<times> u64) set" where
  "seg_range ph = (\<lambda>j. page (nth_page (p_vaddr ph) j)) ` {..<unat (seg_pages ph)}"

definition seg_ok :: "nat set \<Rightarrow> elf64_phdr_t \<Rightarrow> bool" where
  "seg_ok A ph \<longleftrightarrow> p_filesz ph \<le> p_memsz ph \<and> 0 < unat (p_memsz ph) \<and> unat (p_memsz ph) \<le> 2 ^ 40 \<and>
     unat (p_vaddr ph) + unat (p_memsz ph) + 4096 \<le> 2 ^ 64 \<and> seg_range ph \<inter> (\<lambda>f. page (frame_addr f)) ` A = {}"

lemma div_page_up: "(n + 4095) div 4096 = n div 4096 + (if n mod 4096 = 0 then 0 else 1)" for n :: nat
proof -
  define q r where "q = n div 4096" and "r = n mod 4096"
  then have n: "n = 4096 * q + r" "r < 4096" by simp_all
  have "(n + 4095) div 4096 = q + (r + 4095) div 4096" unfolding n(1) by (simp add: add.assoc)
  moreover have "(r + 4095) div 4096 = (if r = 0 then 0 else 1)"
    using n(2) by (auto intro!: div_nat_eqI)
  ultimately show ?thesis by (simp add: q_def r_def)
qed

lemma unat_SIZE_TO_PAGES: "unat (EFI_SIZE_TO_PAGES a) = (unat a + 4095) div 4096"
proof -
  have m: "a AND 0xFFF = a mod 4096"
    using take_bit_eq_mask [of 12 a] take_bit_eq_mod [of 12 a] by (simp add: mask_eq_exp_minus_1)
  have u: "unat (a mod 4096) = unat a mod 4096" by (simp add: unat_mod)
  have d: "unat (drop_bit 12 a) = unat a div 4096" by (simp add: drop_bit_eq_div unat_div)
  have lt: "unat a div 4096 < 2 ^ 52" by (rule unat_div_page)
  show ?thesis
  proof (cases "a mod 4096 = 0")
    case True
    then have "unat a mod 4096 = 0" using u by simp
    then show ?thesis using True m d by (simp add: EFI_SIZE_TO_PAGES_def div_page_up)
  next
    case False
    then have nz: "unat a mod 4096 \<noteq> 0" by (metis u unat_eq_zero)
    have "unat (drop_bit 12 a + 1) = unat a div 4096 + 1" using d lt by (subst unat_add_nowrap) simp_all
    also have "\<dots> = (unat a + 4095) div 4096" using nz by (simp add: div_page_up)
    finally show ?thesis using False m by (simp add: EFI_SIZE_TO_PAGES_def)
  qed
qed

lemma load16_shift: "(\<And>i. i < 2 \<Longrightarrow> m (a + of_nat i) = m' (b + of_nat i)) \<Longrightarrow> load16 a m = load16 b m'"
proof -
  assume eq: "\<And>i. i < 2 \<Longrightarrow> m (a + of_nat i) = m' (b + of_nat i)"
  show ?thesis using eq [of 0] eq [of 1] by (simp add: load16_def)
qed

lemma load32_shift: "(\<And>i. i < 4 \<Longrightarrow> m (a + of_nat i) = m' (b + of_nat i)) \<Longrightarrow> load32 a m = load32 b m'"
proof -
  assume eq: "\<And>i. i < 4 \<Longrightarrow> m (a + of_nat i) = m' (b + of_nat i)"
  show ?thesis using eq [of 0] eq [of 1] eq [of 2] eq [of 3] by (simp add: load32_def add.assoc)
qed

lemma phdr_shift:
  assumes "\<And>i. i < 56 \<Longrightarrow> m (a + of_nat i) = m' (b + of_nat i)"
  shows "phdr_at a m = phdr_at b m'"
proof -
  have b: "m (a + of_nat k + of_nat i) = m' (b + of_nat k + of_nat i)" if "k + i < 56" for k i
    using assms [OF that] by (simp add: add.assoc)
  have w: "load64 (a + of_nat k) m = load64 (b + of_nat k) m'" if "k \<le> 48" for k
    using that by (intro load64_shift b) simp
  have "load32 (a + of_nat k) m = load32 (b + of_nat k) m'" if "k \<le> 48" for k
    using that by (intro load32_shift b) simp
  from this [of 0] this [of 4] w [of 8] w [of 16] w [of 24] w [of 32] w [of 40] w [of 48]
  show ?thesis by (simp add: phdr_at_def)
qed

lemma phdr_cong: "\<forall>x\<in>span a 56. m' x = m x \<Longrightarrow> phdr_at a m' = phdr_at a m"
  by (intro phdr_shift) simp

lemma ehdr_shift:
  assumes "\<And>i. i < 64 \<Longrightarrow> m (a + of_nat i) = m' (b + of_nat i)"
  shows "ehdr_at a m = ehdr_at b m'"
proof -
  have b: "m (a + of_nat k + of_nat i) = m' (b + of_nat k + of_nat i)" if "k + i < 64" for k i
    using assms [OF that] by (simp add: add.assoc)
  have w: "load64 (a + of_nat k) m = load64 (b + of_nat k) m'" if "k \<le> 56" for k
    using that by (intro load64_shift b) simp
  have d: "load32 (a + of_nat k) m = load32 (b + of_nat k) m'" if "k \<le> 60" for k
    using that by (intro load32_shift b) simp
  have h: "load16 (a + of_nat k) m = load16 (b + of_nat k) m'" if "k \<le> 62" for k
    using that by (intro load16_shift b) simp
  show ?thesis
    using h [of 16] h [of 18] d [of 20] w [of 24] w [of 32] w [of 40] d [of 48] h [of 52] h [of 54] h [of 56] h [of 58] h [of 60] h [of 62]
    by (simp add: ehdr_at_def assms)
qed

lemma seg_ok_pages:
  assumes "seg_ok A ph"
  shows "unat (p_vaddr ph mod EFI_PAGE_SIZE) = unat (p_vaddr ph) mod 4096"
    and "unat (seg_pages ph) = (unat (p_vaddr ph) mod 4096 + unat (p_memsz ph) + 4095) div 4096"
    and "unat (p_vaddr ph) mod 4096 + unat (p_memsz ph) \<le> unat (seg_pages ph) * 4096"
    and "0 < unat (seg_pages ph)" "unat (seg_pages ph) \<le> 2 ^ 36"
proof -
  have m: "unat (p_memsz ph) \<le> 2 ^ 40" "0 < unat (p_memsz ph)" using assms by (auto simp: seg_ok_def)
  show o: "unat (p_vaddr ph mod EFI_PAGE_SIZE) = unat (p_vaddr ph) mod 4096" by (simp add: kconst unat_mod)
  have lt: "unat (p_vaddr ph) mod 4096 < 4096" by simp
  have "unat (p_vaddr ph mod EFI_PAGE_SIZE + p_memsz ph) = unat (p_vaddr ph) mod 4096 + unat (p_memsz ph)"
    using o m(1) lt by (subst unat_add_nowrap) simp_all
  then show n: "unat (seg_pages ph) = (unat (p_vaddr ph) mod 4096 + unat (p_memsz ph) + 4095) div 4096"
    by (simp add: seg_pages_def unat_SIZE_TO_PAGES)
  let ?k = "unat (p_vaddr ph) mod 4096 + unat (p_memsz ph)"
  show "?k \<le> unat (seg_pages ph) * 4096" using nat_div_ceil_bounds(1) [of 4096 ?k] n by simp
  with m(2) show "0 < unat (seg_pages ph)" by (intro gr0I) simp
  show "unat (seg_pages ph) \<le> 2 ^ 36" using nat_div_ceil_bounds(2) [of 4096 ?k] n m(1) lt by simp
qed

section \<open>Mapping a segment\<close>

lemma grow_mem:
  assumes "boot_grow fw A p4 W s t" "S \<subseteq> held fw (b_efi s) - table_bytes fw A p4 s" "S \<inter> W = {}"
  shows "\<forall>x\<in>S. b_mem t x = b_mem s x"
  using assms by (auto simp: boot_grow_def)

lemma mapped_other:
  assumes c: "conforming fw A" and m: "mapped fw A p4 pg a s r t"
  shows "other_pages fw A p4 {pg} s t"
  unfolding other_pages_def
proof (intro allI impI)
  fix qg assume q: "valid_page qg" "qg \<notin> {pg}" "qg \<notin> (\<lambda>f. page (frame_addr f)) ` A"
  then have "qg \<notin> (\<lambda>f. page (frame_addr f)) ` (free_pages fw A (b_efi s) - free_pages fw A (b_efi t))"
    by (auto simp: free_pages_def)
  with q m show "pview (view fw A t) p4 qg = pview (view fw A s) p4 qg"
    by (cases r; cases qg) (simp_all add: mapped_def failed_def keeps_pages_def maps_page_def grown_def adds_ids_def
        view_free [OF conformingD(1) [OF c]])
qed

lemma map_segment_maps:
  assumes c: "conforming fw A" and inv: "boot_inv fw A p4 s" and ph: "phdr_at a (b_mem s) = ph" and ok: "seg_ok A ph"
    and a: "span a 56 \<subseteq> held fw (b_efi s) - table_bytes fw A p4 s"
    and f: "f + unat (seg_pages ph) \<le> 64 * 65535"
  shows "\<exists>s'. map_segment fw a (frame_addr f) (seg_pages ph) p4 s = Some s' \<and> boot_steps fw A p4 s s' \<and>
    other_pages fw A p4 (seg_range ph) s s' \<and>
    (free_pages fw A (b_efi s') \<noteq> {} \<longrightarrow> range_mapped fw A p4 (frame_addr f) (p_vaddr ph) (unat (seg_pages ph)) s s')"
  unfolding map_segment_def
proof -
  let ?n = "unat (seg_pages ph)" and ?v = "p_vaddr ph"
  have A: "A \<subseteq> {1..<64 * 65535}" by (rule conformingD(1) [OF c])
  have fr: "nth_page (frame_addr f) i = frame_addr (f + i)" for i by (simp add: frame_addr_def algebra_simps)
  have fm: "frame_addr (f + i) AND SIGN_MASK = frame_addr (f + i)" if "i < ?n" for i
    using that f by (intro frame_addr_SIGN_MASK) simp
  have fit: "fits A (frame_addr f) ?v ?n"
    using ok seg_ok_pages(5) [OF ok] unfolding fits_def seg_ok_def seg_range_def by fastforce
  define P where "P k t \<longleftrightarrow> boot_steps fw A p4 s t \<and> other_pages fw A p4 ((\<lambda>j. page (nth_page ?v j)) ` {..<k}) s t \<and>
    (free_pages fw A (b_efi t) \<noteq> {} \<longrightarrow> range_mapped fw A p4 (frame_addr f) ?v k s t)" for k t
  have "\<exists>s'. for_opt ?n (\<lambda>i s. map_option snd (MapAddr fw (ALIGN_ADDR (frame_addr f + PAGE_SIZE * of_nat i))
        (ALIGN_ADDR (p_vaddr (phdr_at a (b_mem s)) + PAGE_SIZE * of_nat i)) p4 s)) s = Some s' \<and> P ?n s'"
  proof (rule for_opt_returns)
    show "P 0 s" using boot_steps_refl [OF c inv] range_mapped_0 [OF c inv] by (simp add: P_def)
    fix k t assume k: "k < ?n" and p: "P k t"
    then have st: "boot_steps fw A p4 s t" and inv': "boot_inv fw A p4 t" by (auto simp: P_def boot_steps_def)
    have "phdr_at a (b_mem t) = ph"
      using grow_mem [OF steps_grow [OF c st], of "span a 56"] a ph phdr_cong [of a "b_mem t" "b_mem s"] by simp
    then have v: "page (ALIGN_ADDR (p_vaddr (phdr_at a (b_mem t)) + PAGE_SIZE * of_nat k)) = page (nth_page ?v k)"
      by (simp add: mult.commute)
    have q: "ALIGN_ADDR (frame_addr f + PAGE_SIZE * of_nat k) = frame_addr (f + k)"
      using fr [of k] ALIGN_frame_addr [of "f + k"] by (simp add: mult.commute)
    from MapAddr_mapped [OF c inv', of "frame_addr (f + k)" "ALIGN_ADDR (p_vaddr (phdr_at a (b_mem t)) + PAGE_SIZE * of_nat k)"]
    obtain r u where u: "MapAddr fw (frame_addr (f + k)) (ALIGN_ADDR (p_vaddr (phdr_at a (b_mem t)) + PAGE_SIZE * of_nat k)) p4 t = Some (r, u)"
      "mapped fw A p4 (page (nth_page ?v k)) (nth_page (frame_addr f) k AND SIGN_MASK) t r u"
      unfolding v fr by blast
    have su: "boot_steps fw A p4 t u" using u(2) by (auto simp: mapped_def failed_def split: sum.splits)
    have op: "other_pages fw A p4 ((\<lambda>j. page (nth_page ?v j)) ` {..<k}) s t" using p by (simp add: P_def)
    have "other_pages fw A p4 ((\<lambda>j. page (nth_page ?v j)) ` {..<Suc k}) s u"
      by (rule other_pages_trans [OF op mapped_other [OF c u(2)]]) auto
    moreover have "range_mapped fw A p4 (frame_addr f) ?v (Suc k) s u" if "free_pages fw A (b_efi u) \<noteq> {}"
    proof -
      have "free_pages fw A (b_efi t) \<noteq> {}" using that free_mono [OF c su] by blast
      then have "range_mapped fw A p4 (frame_addr f) ?v k s t" using p by (simp add: P_def)
      moreover have "maps_page p4 (page (nth_page ?v k)) (nth_page (frame_addr f) k AND SIGN_MASK) (view fw A t) (view fw A u)"
        using u(2) that by (auto simp: mapped_def failed_def split: sum.splits)
      ultimately show ?thesis by (intro range_mapped_Suc [OF c fit k _ su])
    qed
    ultimately have "P (Suc k) u" using boot_steps_trans [OF c st su] by (simp add: P_def)
    then show "\<exists>u. map_option snd (MapAddr fw (ALIGN_ADDR (frame_addr f + PAGE_SIZE * of_nat k))
        (ALIGN_ADDR (p_vaddr (phdr_at a (b_mem t)) + PAGE_SIZE * of_nat k)) p4 t) = Some u \<and> P (Suc k) u"
      using u(1) q by auto
  qed
  then show "\<exists>s'. for_opt ?n (\<lambda>i s. map_option snd (MapAddr fw (ALIGN_ADDR (frame_addr f + PAGE_SIZE * of_nat i))
        (ALIGN_ADDR (p_vaddr (phdr_at a (b_mem s)) + PAGE_SIZE * of_nat i)) p4 s)) s = Some s' \<and> boot_steps fw A p4 s s' \<and>
    other_pages fw A p4 (seg_range ph) s s' \<and>
    (free_pages fw A (b_efi s') \<noteq> {} \<longrightarrow> range_mapped fw A p4 (frame_addr f) ?v ?n s s')"
    by (simp add: P_def seg_range_def)
qed

section \<open>Loading a segment\<close>

definition loaded :: "uefi \<Rightarrow> nat set \<Rightarrow> u64 \<Rightarrow> u64 set \<Rightarrow> u8 list \<Rightarrow> elf64_phdr_t \<Rightarrow> nat \<Rightarrow> boot \<Rightarrow> bool" where
  "loaded fw A p4 K img ph f s \<longleftrightarrow> f + unat (seg_pages ph) \<le> 64 * 65535 \<and>
     span (frame_addr f) (unat (seg_pages ph) * 4096) \<subseteq> page_held fw (b_efi s) - table_bytes fw A p4 s - K \<and>
     (\<forall>j<unat (seg_pages ph). pview (view fw A s) p4 (page (nth_page (p_vaddr ph) j)) = frame_addr (f + j)) \<and>
     (\<forall>i<unat (p_memsz ph). b_mem s (frame_addr f + of_nat (unat (p_vaddr ph) mod 4096 + i)) = seg_byte img ph i)"

lemma seg_in_pages:
  assumes "seg_ok A ph" "k + m \<le> unat (p_memsz ph)"
  shows "span (frame_addr f + of_nat (unat (p_vaddr ph) mod 4096 + k)) m \<subseteq> span (frame_addr f) (unat (seg_pages ph) * 4096)"
proof
  let ?o = "unat (p_vaddr ph) mod 4096"
  fix x assume "x \<in> span (frame_addr f + of_nat (?o + k)) m"
  then obtain i where i: "i < m" "x = frame_addr f + of_nat (?o + k) + of_nat i" by (rule span_imageE)
  have x: "x = frame_addr f + of_nat (?o + k + i)" using i(2) by simp
  have "?o + k + i < unat (seg_pages ph) * 4096" using seg_ok_pages(3) [OF assms(1)] assms(2) i(1) by linarith
  moreover have "?o + k + i < 2 ^ 64"
  proof -
    have "?o < 4096" "unat (p_memsz ph) \<le> 2 ^ 40" using assms(1) by (simp_all add: seg_ok_def)
    then show ?thesis using assms(2) i(1) by simp
  qed
  ultimately show "x \<in> span (frame_addr f) (unat (seg_pages ph) * 4096)" unfolding x by (subst span_offset)
qed

lemma loaded_keep:
  assumes l: "loaded fw A p4 K img ph f s" and g: "boot_grow fw A p4 W s t" "W \<subseteq> K"
    and o: "other_pages fw A p4 X s t" "seg_range ph \<inter> X = {}" and ok: "seg_ok A ph"
  shows "loaded fw A p4 K img ph f t"
proof -
  let ?P = "span (frame_addr f) (unat (seg_pages ph) * 4096)"
  have P: "?P \<subseteq> page_held fw (b_efi s) - table_bytes fw A p4 s" "?P \<inter> K = {}" using l by (auto simp: loaded_def)
  note P' = grow_apart_pages [OF g(1) P(1)]
  have m: "\<forall>x\<in>?P. b_mem t x = b_mem s x" using P g(2) by (intro grow_mem [OF g(1)]) (auto simp: held_def)
  have v: "pview (view fw A t) p4 (page (nth_page (p_vaddr ph) j)) = frame_addr (f + j)" if j: "j < unat (seg_pages ph)" for j
  proof -
    have "page (nth_page (p_vaddr ph) j) \<in> seg_range ph" using j by (simp add: seg_range_def)
    then have "page (nth_page (p_vaddr ph) j) \<notin> X" "page (nth_page (p_vaddr ph) j) \<notin> (\<lambda>f. page (frame_addr f)) ` A"
      using o(2) ok by (auto simp: seg_ok_def)
    then have "pview (view fw A t) p4 (page (nth_page (p_vaddr ph) j)) = pview (view fw A s) p4 (page (nth_page (p_vaddr ph) j))"
      using o(1) [unfolded other_pages_def, rule_format, OF valid_page_page(1)] by blast
    then show ?thesis using l j by (simp add: loaded_def)
  qed
  have b: "b_mem t (frame_addr f + of_nat (unat (p_vaddr ph) mod 4096 + i)) = seg_byte img ph i" if i: "i < unat (p_memsz ph)" for i
  proof -
    have "frame_addr f + of_nat (unat (p_vaddr ph) mod 4096 + i) \<in> ?P"
      using seg_in_pages [OF ok, of i 1 f] i span_offset [of 0 _ 1] by fastforce
    then show ?thesis using m l i by (simp add: loaded_def)
  qed
  show ?thesis using l P P' v b by (auto simp: loaded_def)
qed

lemma store_entry_mem: "x \<notin> span ke 24 \<Longrightarrow> store_entry ke v p n m x = m x"
proof -
  assume "x \<notin> span ke 24"
  moreover have "span (ke + of_nat k) 8 \<subseteq> span ke 24" if "k \<le> 16" for k
  proof
    fix y assume "y \<in> span (ke + of_nat k) 8"
    then obtain i where "i < 8" "y = ke + of_nat k + of_nat i" by (rule span_imageE)
    then have y: "y = ke + of_nat (k + i)" "k + i < 24" using that by simp_all
    show "y \<in> span ke 24" unfolding y(1) using y(2) by (subst span_offset) simp_all
  qed
  from this [of 0] this [of 8] this [of 16] calculation have "x \<notin> span ke 8" "x \<notin> span (ke + 8) 8" "x \<notin> span (ke + 16) 8" by auto
  then show ?thesis by (simp add: store_entry_def store64_other)
qed

lemma store_entry_load:
  "load64 ke (store_entry ke v p n m) = v" "load64 (ke + 8) (store_entry ke v p n m) = p" "load64 (ke + 16) (store_entry ke v p n m) = n"
proof -
  have o: "load64 a (store64 b w m) = load64 a m" if "\<And>i. i < 8 \<Longrightarrow> a + of_nat i \<notin> span b 8" for a b w m
    using that by (intro load64_cong store64_other)
  have d: "ke + of_nat k + of_nat i \<notin> span (ke + of_nat l) 8" if "k + 8 \<le> l \<or> l + 8 \<le> k" "i < 8" "k \<le> 16" "l \<le> 16" for k l i
  proof
    assume "ke + of_nat k + of_nat i \<in> span (ke + of_nat l) 8"
    then obtain j where "j < 8" "ke + of_nat k + of_nat i = ke + of_nat l + of_nat j" by (rule span_imageE)
    then have "of_nat (k + i) = (of_nat (l + j) :: u64)" by simp
    then have "k + i = l + j" using \<open>j < 8\<close> that by (subst (asm) of_nat_eq_iff64) simp_all
    with that \<open>j < 8\<close> show False by auto
  qed
  have "load64 ke (store64 (ke + 8) w m) = load64 ke m" "load64 ke (store64 (ke + 16) w m) = load64 ke m"
    "load64 (ke + 8) (store64 (ke + 16) w m) = load64 (ke + 8) m" for w m
    using o [of ke "ke + 8" w m] o [of ke "ke + 16" w m] o [of "ke + 8" "ke + 16" w m] d [of 0 8] d [of 0 16] d [of 8 16] by simp_all
  then show "load64 ke (store_entry ke v p n m) = v" "load64 (ke + 8) (store_entry ke v p n m) = p" "load64 (ke + 16) (store_entry ke v p n m) = n"
    by (simp_all add: store_entry_def)
qed

lemma servesD:
  assumes "serves fw fh img" "\<not> EFI_ERROR (er_status (ef_call fw (FileRead fh n buf # h)))"
  shows "er_out (ef_call fw (FileRead fh n buf # h)) = Some (of_nat (min (unat n) (length img - file_pos fw fh img h)))"
    and "i < min (unat n) (length img - file_pos fw fh img h) \<Longrightarrow>
      er_stores (ef_call fw (FileRead fh n buf # h)) (buf + of_nat i) = Some (img ! (file_pos fw fh img h + i))"
  using assms unfolding serves_def Let_def by blast+

text \<open>Reading into and clearing behind: what the buffer of a segment holds afterwards.\<close>

lemma fill_segment:
  assumes c: "conforming fw A" and fs: "serves fw fh img" and ok: "seg_ok A ph"
    and pos: "file_pos fw fh img (b_efi s) = (if p_offset ph = - 1 then length img else unat (p_offset ph))"
    and r: "efi fw (FileRead fh (p_filesz ph) (frame_addr f + of_nat (unat (p_vaddr ph) mod 4096))) s = (r, t)" "\<not> EFI_ERROR (er_status r)"
    and k: "k = out_or (p_filesz ph) (er_out r)"
    and r': "efi fw (SetMem (frame_addr f + of_nat (unat (p_vaddr ph) mod 4096) + k) (p_memsz ph - k) 0) t = (r', u)"
    and P: "span (frame_addr f) (unat (seg_pages ph) * 4096) \<subseteq> held fw (b_efi s)"
  shows "i < unat (p_memsz ph) \<Longrightarrow> b_mem u (frame_addr f + of_nat (unat (p_vaddr ph) mod 4096 + i)) = seg_byte img ph i"
    and "buffer_of (SetMem (frame_addr f + of_nat (unat (p_vaddr ph) mod 4096) + k) (p_memsz ph - k) 0) \<subseteq> span (frame_addr f) (unat (seg_pages ph) * 4096)"
    and "buffer_of (FileRead fh (p_filesz ph) (frame_addr f + of_nat (unat (p_vaddr ph) mod 4096))) \<subseteq> span (frame_addr f) (unat (seg_pages ph) * 4096)"
proof -
  let ?o = "unat (p_vaddr ph) mod 4096" and ?b = "frame_addr f + of_nat (unat (p_vaddr ph) mod 4096)"
  define n where "n = min (unat (p_filesz ph)) (length img - file_pos fw fh img (b_efi s))"
  note m = efi_mem [OF c r(1)] and m' = efi_mem [OF c r']
  have nf: "n \<le> unat (p_filesz ph)" by (simp add: n_def)
  have fm: "unat (p_filesz ph) \<le> unat (p_memsz ph)" "unat (p_memsz ph) \<le> 2 ^ 40" using ok by (auto simp: seg_ok_def word_le_nat_alt)
  have kn: "k = of_nat n" using servesD(1) [OF fs] r(2) m(3) k by (simp add: out_or_def n_def)
  have lt: "n < 2 ^ 64" using nf fm by simp
  have km: "k \<le> p_memsz ph" using kn lt nf fm by (simp add: word_le_nat_alt unat_of_nat64)
  have sz: "unat (p_memsz ph - k) = unat (p_memsz ph) - n" using km kn lt by (simp add: unat_sub_le unat_of_nat64)
  have base: "?b + k = frame_addr f + of_nat (?o + n)" by (simp add: kn)
  have set: "buffer_of (SetMem (?b + k) (p_memsz ph - k) 0) = span (frame_addr f + of_nat (?o + n)) (unat (p_memsz ph) - n)"
    by (simp only: buffer_of.simps sz base)
  show "buffer_of (SetMem (?b + k) (p_memsz ph - k) 0) \<subseteq> span (frame_addr f) (unat (seg_pages ph) * 4096)"
    unfolding set using nf fm by (intro seg_in_pages [OF ok]) simp
  show rd: "buffer_of (FileRead fh (p_filesz ph) ?b) \<subseteq> span (frame_addr f) (unat (seg_pages ph) * 4096)"
    using seg_in_pages [OF ok, of 0 "unat (p_filesz ph)" f] fm by simp
  show "b_mem u (frame_addr f + of_nat (?o + i)) = seg_byte img ph i" if i: "i < unat (p_memsz ph)"
  proof -
    let ?x = "frame_addr f + of_nat (?o + i)"
    have i64: "?o + i < 2 ^ 63" using i fm by simp
    have xP: "?x \<in> span (frame_addr f) (unat (seg_pages ph) * 4096)"
      using seg_in_pages [OF ok, of i 1 f] i span_offset [of 0 ?x 1] by fastforce
    have mem: "?x \<in> span (frame_addr f + of_nat (?o + n)) (unat (p_memsz ph) - n) \<longleftrightarrow> n \<le> i"
    proof
      assume "n \<le> i"
      then have e: "?o + i = ?o + n + (i - n)" by simp
      have "?x = frame_addr f + of_nat (?o + n) + of_nat (i - n)" unfolding e of_nat_add [of "?o + n"] by (simp only: add.assoc)
      then show "?x \<in> span (frame_addr f + of_nat (?o + n)) (unat (p_memsz ph) - n)"
        using i64 \<open>n \<le> i\<close> i by (simp only:) (subst span_offset, simp_all)
    next
      assume "?x \<in> span (frame_addr f + of_nat (?o + n)) (unat (p_memsz ph) - n)"
      then obtain j where j: "j < unat (p_memsz ph) - n" "?x = frame_addr f + of_nat (?o + n) + of_nat j" by (rule span_imageE)
      then have "(of_nat (?o + i) :: u64) = of_nat (?o + n + j)" by simp
      moreover have "?o + n + j < 2 ^ 64" using j(1) fm by simp
      ultimately have "?o + i = ?o + n + j" using i64 by (subst (asm) of_nat_eq_iff64) simp_all
      then show "n \<le> i" by simp
    qed
    have byte: "seg_byte img ph i = (if i < n then img ! (file_pos fw fh img (b_efi s) + i) else 0)"
    proof -
      have "length img < 2 ^ 63" using fs by (simp add: serves_def)
      moreover have "unat (- 1 :: u64) = 2 ^ 64 - 1" by (simp add: unsigned_minus_1_eq_mask mask_eq_exp_minus_1)
      ultimately show ?thesis using pos by (auto simp: seg_byte_def n_def)
    qed
    show ?thesis
    proof (cases "i < n")
      case True
      have "er_stores r (?b + of_nat i) = Some (img ! (file_pos fw fh img (b_efi s) + i))"
        using servesD(2) [OF fs, of "p_filesz ph" ?b "b_efi s" i] r(2) True m(3) by (simp add: n_def)
      then have t: "b_mem t ?x = img ! (file_pos fw fh img (b_efi s) + i)" using r(1) by (auto simp: efi_def Let_def add.assoc)
      have "?x \<in> held fw (b_efi t)" using xP P m(2) held_mono [of "FileRead fh (p_filesz ph) ?b" fw "b_efi s"] by auto
      moreover have "?x \<notin> buffer_of (SetMem (?b + k) (p_memsz ph - k) 0)" unfolding set using mem True by simp
      ultimately have "b_mem u ?x = b_mem t ?x" by (rule m'(1))
      with t byte True show ?thesis by simp
    next
      case False
      then have "?x \<in> span (?b + k) (unat (p_memsz ph - k))" using mem set by simp
      then have "er_stores r' ?x = Some 0" using conformingD(6) [OF c] m'(3) by blast
      then have "b_mem u ?x = 0" using r' by (auto simp: efi_def Let_def)
      with byte False show ?thesis by simp
    qed
  qed
qed

definition segment_loaded :: "uefi \<Rightarrow> nat set \<Rightarrow> u64 \<Rightarrow> u64 set \<Rightarrow> u8 list \<Rightarrow> elf64_phdr_t \<Rightarrow> u64 \<Rightarrow> boot \<Rightarrow> boot \<Rightarrow> bool" where
  "segment_loaded fw A p4 K img ph ke s s' \<longleftrightarrow> boot_only s s' \<and> boot_grow fw A p4 (span ke 24) s s' \<and>
     other_pages fw A p4 (seg_range ph) s s' \<and>
     (\<exists>f. (free_pages fw A (b_efi s') \<noteq> {} \<longrightarrow> loaded fw A p4 K img ph f s') \<and> load64 ke (b_mem s') = p_vaddr ph \<and>
        load64 (ke + 8) (b_mem s') = frame_addr f \<and> load64 (ke + 16) (b_mem s') = seg_pages ph)"

lemma efi_try_cases:
  obtains (err) e t where "efi_try fw c s = Some (Inl e, t)" "EFI_ERROR e"
    | (ok) r t where "efi_try fw c s = Some (Inr r, t)" "efi fw c s = (r, t)" "\<not> EFI_ERROR (er_status r)"
proof -
  obtain r t where "efi fw c s = (r, t)" by fastforce
  then show thesis using that by (cases "EFI_ERROR (er_status r)") (auto simp: efi_try_def)
qed

lemma phdr_keep:
  assumes "boot_grow fw A p4 W s t" "span a 56 \<subseteq> held fw (b_efi s) - table_bytes fw A p4 s" "span a 56 \<inter> W = {}"
  shows "phdr_at a (b_mem t) = phdr_at a (b_mem s)"
  using grow_mem [OF assms] by (rule phdr_cong)

lemma file_pos_other: "\<not> frees c \<Longrightarrow> (\<forall>g p n b. c \<noteq> SetPosition g p \<and> c \<noteq> FileRead g n b) \<Longrightarrow> file_pos fw fh img (c # h) = file_pos fw fh img h"
  by (cases c) (simp_all add: Let_def)

lemma alloc_segment:
  assumes c: "conforming fw A" and inv: "boot_inv fw A p4 s" and n: "0 < unat n"
    and r: "efi fw (AllocatePages ty n) s = (r, t)" "\<not> EFI_ERROR (er_status r)"
  obtains f where "er_out r = Some (frame_addr f)" "f + unat n \<le> 64 * 65535"
    "span (frame_addr f) (unat n * 4096) \<subseteq> page_held fw (b_efi t) - table_bytes fw A p4 t"
    "span (frame_addr f) (unat n * 4096) \<inter> held fw (b_efi s) = {}"
proof -
  have A: "A \<subseteq> {1..<64 * 65535}" by (rule conformingD(1) [OF c])
  have e: "b_efi t = AllocatePages ty n # b_efi s" "r = ef_call fw (b_efi t)" using efi_mem [OF c r(1)] by auto
  obtain f where f: "er_out r = Some (frame_addr f)" "{f..<f + unat n} \<subseteq> free_pages fw A (b_efi s)"
    using conformingD(3) [OF c, of ty n "b_efi s"] r(2) e by auto
  let ?P = "span (frame_addr f) (unat n * 4096)"
  have "f + (unat n - 1) \<in> {f..<f + unat n}" using n by simp
  then have "f + (unat n - 1) \<in> A" using f(2) unfolding free_pages_def by blast
  then have "f + (unat n - 1) < 64 * 65535" using A by (metis atLeastLessThan_iff subsetD)
  then have fn: "f + unat n \<le> 64 * 65535" using n by linarith
  have Pp: "?P = (\<Union>g\<in>{f..<f + unat n}. page_bytes g)" using fn by (intro span_pages) simp
  have "page_held fw (b_efi t) = ?P \<union> page_held fw (b_efi s)" using r(2) e f(1) by (simp add: out_or_def Let_def)
  then have Ph: "?P \<subseteq> page_held fw (b_efi t)" by blast
  have Pf: "?P \<inter> held fw (b_efi s) = {}" unfolding Pp using f(2) by (auto simp: free_pages_def)
  have "h \<notin> free_pages fw A (b_efi s)" if "h \<in> tables p4 (view fw A s)" for h
    using inv that page_bytes_ne [of h] by (auto simp: boot_inv_def free_pages_def held_def dest!: bspec)
  then have "?P \<inter> table_bytes fw A p4 t = {}"
    unfolding table_bytes_def call_grow(3) [OF c inv r(1), simplified] Pp using f(2) fn by (auto simp: page_bytes_iff)
  with that f(1) fn Ph Pf show thesis by blast
qed

lemma fill_grow:
  assumes c: "conforming fw A" and inv: "boot_inv fw A p4 s" and P: "P \<inter> table_bytes fw A p4 s = {}"
    and r: "efi fw (FileRead fh n b) s = (r, t)" "efi fw (SetMem b' n' v) t = (r', u)"
    and b: "buffer_of (FileRead fh n b) \<subseteq> P" "buffer_of (SetMem b' n' v) \<subseteq> P"
  shows "boot_grow fw A p4 P s t" "boot_grow fw A p4 P t u" "boot_grow fw A p4 P s u" "other_pages fw A p4 {} s u"
proof -
  have g: "boot_grow fw A p4 P s t" "other_pages fw A p4 {} s t" "tables p4 (view fw A t) = tables p4 (view fw A s)"
  proof -
    have d: "buffer_of (FileRead fh n b) \<inter> table_bytes fw A p4 s = {}" using b(1) P by blast
    show "boot_grow fw A p4 P s t" using call_grow(1) [OF c inv r(1) _ d] b(1) by (auto simp: boot_grow_def)
    show "other_pages fw A p4 {} s t" "tables p4 (view fw A t) = tables p4 (view fw A s)"
      using call_grow(2,3) [OF c inv r(1) _ d] by simp_all
  qed
  have inv': "boot_inv fw A p4 t" using g(1) by (simp add: boot_grow_def)
  have d: "buffer_of (SetMem b' n' v) \<inter> table_bytes fw A p4 t = {}" using b(2) P by (auto simp: table_bytes_def g(3))
  have g': "boot_grow fw A p4 P t u" using call_grow(1) [OF c inv' r(2) _ d] b(2) by (auto simp: boot_grow_def)
  have o': "other_pages fw A p4 {} t u" using call_grow(2) [OF c inv' r(2) _ d] by simp
  show "boot_grow fw A p4 P s t" "boot_grow fw A p4 P t u" by (fact g(1), fact g')
  show "boot_grow fw A p4 P s u" by (rule boot_grow_trans [OF g(1) g']) simp
  show "other_pages fw A p4 {} s u" by (rule other_pages_trans [OF g(2) o']) simp
qed

lemma entry_grow:
  fixes v p n :: u64
  assumes c: "conforming fw A" and inv: "boot_inv fw A p4 s" and ke: "span ke 24 \<inter> table_bytes fw A p4 s = {}"
  defines "t \<equiv> s\<lparr>b_mem := store_entry ke v p n (b_mem s)\<rparr>"
  shows "boot_grow fw A p4 (span ke 24) s t" "other_pages fw A p4 {} s t"
  using mem_grow [OF conformingD(1) [OF c] inv _ _ _ ke, of t] by (simp_all add: t_def store_entry_mem)

lemma map_loaded:
  assumes c: "conforming fw A" and inv: "boot_inv fw A p4 s" and ph: "phdr_at a (b_mem s) = ph" and ok: "seg_ok A ph"
    and K: "K \<subseteq> held fw (b_efi s) - table_bytes fw A p4 s" "span a 56 \<subseteq> K" "span ke 24 \<subseteq> K" "span a 56 \<inter> span ke 24 = {}"
    and f: "f + unat (seg_pages ph) \<le> 64 * 65535"
      "span (frame_addr f) (unat (seg_pages ph) * 4096) \<subseteq> page_held fw (b_efi s) - table_bytes fw A p4 s - K"
    and b: "\<And>i. i < unat (p_memsz ph) \<Longrightarrow> b_mem s (frame_addr f + of_nat (unat (p_vaddr ph) mod 4096 + i)) = seg_byte img ph i"
  defines "t \<equiv> s\<lparr>b_mem := store_entry ke (p_vaddr ph) (frame_addr f) (seg_pages ph) (b_mem s)\<rparr>"
  shows "\<exists>s'. map_segment fw a (frame_addr f) (seg_pages ph) p4 t = Some s' \<and> segment_loaded fw A p4 K img ph ke s s'"
proof -
  let ?P = "span (frame_addr f) (unat (seg_pages ph) * 4096)"
  have kt: "span ke 24 \<inter> table_bytes fw A p4 s = {}" using K by blast
  note g = entry_grow [OF c inv kt, of "p_vaddr ph" "frame_addr f" "seg_pages ph", folded t_def]
  have inv': "boot_inv fw A p4 t" using g(1) by (simp add: boot_grow_def)
  have hd: "phdr_at a (b_mem t) = ph" using phdr_keep [OF g(1)] K ph by (metis subset_trans)
  have P0: "?P \<subseteq> page_held fw (b_efi s) - table_bytes fw A p4 s" using f(2) by blast
  have Kt: "K \<subseteq> held fw (b_efi t) - table_bytes fw A p4 t" using K(1) grow_apart [OF g(1)] by blast
  note Pt = grow_apart_pages [OF g(1) P0]
  from map_segment_maps [OF c inv' hd ok _ f(1)] Kt K(2) obtain s' where
    s': "map_segment fw a (frame_addr f) (seg_pages ph) p4 t = Some s'" "boot_steps fw A p4 t s'" "other_pages fw A p4 (seg_range ph) t s'"
      "free_pages fw A (b_efi s') \<noteq> {} \<longrightarrow> range_mapped fw A p4 (frame_addr f) (p_vaddr ph) (unat (seg_pages ph)) t s'" by blast
  note g' = steps_grow [OF c s'(2)]
  have ke: "\<forall>x\<in>span ke 24. b_mem s' x = b_mem t x" using Kt K(3) by (intro grow_mem [OF g']) auto
  have w: "load64 (ke + of_nat i) (b_mem s') = load64 (ke + of_nat i) (b_mem t)" if "i \<le> 16" for i
  proof (rule load64_cong)
    fix j :: nat assume j: "j < 8"
    have "ke + of_nat (i + j) \<in> span ke 24" using that j by (subst span_offset) simp_all
    then show "b_mem s' (ke + of_nat i + of_nat j) = b_mem t (ke + of_nat i + of_nat j)" using ke by (simp add: add.assoc)
  qed
  have en: "load64 ke (b_mem s') = p_vaddr ph" "load64 (ke + 8) (b_mem s') = frame_addr f" "load64 (ke + 16) (b_mem s') = seg_pages ph"
    using w [of 0] w [of 8] w [of 16] store_entry_load by (simp_all add: t_def)
  have "loaded fw A p4 K img ph f s'" if "free_pages fw A (b_efi s') \<noteq> {}"
  proof -
    have "frame_addr (f + j) AND SIGN_MASK = frame_addr (f + j)" if "j < unat (seg_pages ph)" for j
      using that f(1) by (intro frame_addr_SIGN_MASK) simp
    then have v: "\<forall>j<unat (seg_pages ph). pview (view fw A s') p4 (page (nth_page (p_vaddr ph) j)) = frame_addr (f + j)"
      using s'(4) that by (simp add: range_mapped_def frame_addr_def algebra_simps)
    have m: "b_mem s' x = b_mem s x" if "x \<in> ?P" for x
    proof -
      have "x \<notin> span ke 24" using that f(2) K(3) by blast
      then have "b_mem t x = b_mem s x" by (simp add: t_def store_entry_mem)
      moreover have "b_mem s' x = b_mem t x" using grow_mem [OF g', of ?P] Pt that unfolding held_def by blast
      ultimately show ?thesis by simp
    qed
    have "b_mem s' (frame_addr f + of_nat (unat (p_vaddr ph) mod 4096 + i)) = seg_byte img ph i" if "i < unat (p_memsz ph)" for i
      using m seg_in_pages [OF ok, of i 1 f] that span_offset [of 0 "frame_addr f + of_nat (unat (p_vaddr ph) mod 4096 + i)" 1] b [OF that]
      by fastforce
    moreover have "?P \<subseteq> page_held fw (b_efi s') - table_bytes fw A p4 s' - K" using grow_apart_pages [OF g' Pt] f(2) by blast
    ultimately show ?thesis using v f(1) by (simp add: loaded_def)
  qed
  moreover have "boot_grow fw A p4 (span ke 24) s s'" by (rule boot_grow_trans [OF g(1) g']) simp
  moreover have "other_pages fw A p4 (seg_range ph) s s'" by (rule other_pages_trans [OF g(2) s'(3)]) simp
  moreover have "boot_only s s'"
    using s'(2) boot_only_trans [of s t s'] by (auto simp: boot_steps_def t_def boot_only_def)
  ultimately show ?thesis using s'(1) en by (auto simp: segment_loaded_def)
qed

text \<open>The end of \<open>LoadSegment\<close>, from the pages allocated for the segment on.\<close>

definition finish_segment :: "uefi \<Rightarrow> u64 \<Rightarrow> u64 \<Rightarrow> u64 \<Rightarrow> u64 \<Rightarrow> elf64_phdr_t \<Rightarrow> u64 \<Rightarrow> boot \<Rightarrow> unit efi_result" where
  "finish_segment fw a fh p4 ke ph d s =
     efi_seq (efi_try fw (FileRead fh (p_filesz ph) (d + p_vaddr ph mod EFI_PAGE_SIZE)) s) (\<lambda>r s.
     let k = out_or (p_filesz ph) (er_out r) in
     efi_seq (efi_try fw (SetMem (d + p_vaddr ph mod EFI_PAGE_SIZE + k) (p_memsz (phdr_at a (b_mem s)) - k) 0) s) (\<lambda>_ s.
     let s = s\<lparr>b_mem := store_entry ke (p_vaddr (phdr_at a (b_mem s))) d (seg_pages ph) (b_mem s)\<rparr>
     in map_option (\<lambda>s. (Inr (), s)) (map_segment fw a d (seg_pages ph) p4 s)))"

lemma LoadSegment_finish:
  assumes "phdr_at a (b_mem s) = ph"
  shows "LoadSegment fw a fh p4 ke s =
     efi_seq (efi_try fw (SetPosition fh (p_offset ph)) s) (\<lambda>_ s.
     efi_seq (efi_try fw (AllocatePages EfiLoaderCode (seg_pages ph)) s) (\<lambda>r.
       finish_segment fw a fh p4 ke ph (out_or NULL (er_out r))))"
  unfolding LoadSegment_def finish_segment_def Let_def seg_pages_def assms by (rule refl)

lemma finish_segment_outcome:
  assumes c: "conforming fw A" and fs: "serves fw fh img" and inv: "boot_inv fw A p4 s"
    and pos: "file_pos fw fh img (b_efi s) = (if p_offset ph = - 1 then length img else unat (p_offset ph))"
    and ph: "phdr_at a (b_mem s) = ph" and ok: "seg_ok A ph"
    and K: "K \<subseteq> held fw (b_efi s) - table_bytes fw A p4 s" "span a 56 \<subseteq> K" "span ke 24 \<subseteq> K" "span a 56 \<inter> span ke 24 = {}"
    and f: "f + unat (seg_pages ph) \<le> 64 * 65535"
      "span (frame_addr f) (unat (seg_pages ph) * 4096) \<subseteq> page_held fw (b_efi s) - table_bytes fw A p4 s - K"
  shows "\<exists>r s'. finish_segment fw a fh p4 ke ph (frame_addr f) s = Some (r, s') \<and>
    (case r of Inl e \<Rightarrow> EFI_ERROR e
     | Inr _ \<Rightarrow> \<exists>u. boot_only s u \<and> boot_grow fw A p4 (span (frame_addr f) (unat (seg_pages ph) * 4096)) s u \<and>
         other_pages fw A p4 {} s u \<and> segment_loaded fw A p4 K img ph ke u s')"
proof -
  let ?P = "span (frame_addr f) (unat (seg_pages ph) * 4096)"
  have po: "p_vaddr ph mod EFI_PAGE_SIZE = of_nat (unat (p_vaddr ph) mod 4096)"
    by (rule word_unat_eq_iff [THEN iffD2]) (simp add: kconst unat_mod unat_of_nat64)
  show ?thesis
  proof (cases rule: efi_try_cases [of fw "FileRead fh (p_filesz ph) (frame_addr f + of_nat (unat (p_vaddr ph) mod 4096))" s])
    case (err e t)
    then show ?thesis by (simp add: finish_segment_def po)
  next
    case 1: (ok r t)
    define k where "k = out_or (p_filesz ph) (er_out r)"
    obtain r' u where 2: "efi fw (SetMem (frame_addr f + of_nat (unat (p_vaddr ph) mod 4096) + k) (p_memsz ph - k) 0) t = (r', u)" by fastforce
    have Ph: "?P \<subseteq> held fw (b_efi s)" "?P \<inter> table_bytes fw A p4 s = {}" "?P \<inter> K = {}" using f(2) by (auto simp: held_def)
    note fill = fill_segment [OF c fs ok pos 1(2,3) k_def 2 Ph(1)]
    note g = fill_grow [OF c inv Ph(2) 1(2) 2 fill(3,2)]
    have hK: "span a 56 \<subseteq> held fw (b_efi s) - table_bytes fw A p4 s" "span a 56 \<inter> ?P = {}" using K Ph(3) by auto
    have hd: "phdr_at a (b_mem t) = ph" "phdr_at a (b_mem u) = ph"
      using phdr_keep [OF g(1) hK] phdr_keep [OF g(3) hK] ph by simp_all
    have inv': "boot_inv fw A p4 u" using g(3) by (simp add: boot_grow_def)
    have P0: "?P \<subseteq> page_held fw (b_efi s) - table_bytes fw A p4 s" using f(2) by blast
    have Ku: "K \<subseteq> held fw (b_efi u) - table_bytes fw A p4 u" "?P \<subseteq> page_held fw (b_efi u) - table_bytes fw A p4 u - K"
      using K(1) grow_apart [OF g(3)] grow_apart_pages [OF g(3) P0] Ph(3) by blast+
    from map_loaded [OF c inv' hd(2) ok Ku(1) K(2-4) f(1) Ku(2) fill(1)] obtain s' where
      s': "map_segment fw a (frame_addr f) (seg_pages ph) p4
             (u\<lparr>b_mem := store_entry ke (p_vaddr ph) (frame_addr f) (seg_pages ph) (b_mem u)\<rparr>) = Some s'"
        "segment_loaded fw A p4 K img ph ke u s'" by blast
    have "\<not> EFI_ERROR (er_status r')" using conformingD(5) [OF c] efi_mem(3) [OF c 2] by simp
    then have "finish_segment fw a fh p4 ke ph (frame_addr f) s = Some (Inr (), s')"
      using 1(1) s'(1) by (simp add: finish_segment_def po k_def [symmetric] hd efi_try_def 2)
    moreover have "boot_only s u" using boot_only_trans boot_only_efi [OF 1(2)] boot_only_efi [OF 2] by blast
    ultimately show ?thesis using g(3,4) s'(2) by auto
  qed
qed

lemma segment_loaded_after:
  assumes s: "boot_only s t" "boot_grow fw A p4 W s t" "other_pages fw A p4 {} s t" "W \<inter> held fw (b_efi s) = {}"
    and l: "segment_loaded fw A p4 K img ph ke t u"
  shows "segment_loaded fw A p4 K img ph ke s u"
proof -
  have g: "boot_grow fw A p4 {} s t" using s(2,4) by (auto simp: boot_grow_def)
  have u: "boot_grow fw A p4 (span ke 24) t u" "other_pages fw A p4 (seg_range ph) t u" using l by (auto simp: segment_loaded_def)
  have "boot_grow fw A p4 (span ke 24) s u" by (rule boot_grow_trans [OF g u(1)]) simp
  moreover have "other_pages fw A p4 (seg_range ph) s u" by (rule other_pages_trans [OF s(3) u(2)]) simp
  ultimately show ?thesis using l s(1) boot_only_trans by (auto simp: segment_loaded_def)
qed

lemma LoadSegment_outcome:
  assumes c: "conforming fw A" and fs: "serves fw fh img" and inv: "boot_inv fw A p4 s"
    and ph: "phdr_at a (b_mem s) = ph" and ok: "seg_ok A ph"
    and K: "K \<subseteq> held fw (b_efi s) - table_bytes fw A p4 s" "span a 56 \<subseteq> K" "span ke 24 \<subseteq> K" "span a 56 \<inter> span ke 24 = {}"
  shows "\<exists>r s'. LoadSegment fw a fh p4 ke s = Some (r, s') \<and>
    (case r of Inl e \<Rightarrow> EFI_ERROR e | Inr _ \<Rightarrow> segment_loaded fw A p4 K img ph ke s s')"
proof (cases rule: efi_try_cases [of fw "SetPosition fh (p_offset ph)" s])
  case (err e t)
  then show ?thesis by (simp add: LoadSegment_finish [OF ph])
next
  case 1: (ok r1 s1)
  note g1 = call_grow [OF c inv 1(2), simplified]
  have inv1: "boot_inv fw A p4 s1" using g1(1) by (simp add: boot_grow_def)
  have pos1: "file_pos fw fh img (b_efi s1) = (if p_offset ph = - 1 then length img else unat (p_offset ph))"
    using 1(3) efi_mem(2,3) [OF c 1(2)] by (simp add: Let_def)
  show ?thesis
  proof (cases rule: efi_try_cases [of fw "AllocatePages EfiLoaderCode (seg_pages ph)" s1])
    case (err e t)
    then show ?thesis using 1(1) by (simp add: LoadSegment_finish [OF ph])
  next
    case 2: (ok r2 s2)
    note g2 = call_grow [OF c inv1 2(2), simplified]
    obtain f where f: "er_out r2 = Some (frame_addr f)" "f + unat (seg_pages ph) \<le> 64 * 65535"
      "span (frame_addr f) (unat (seg_pages ph) * 4096) \<subseteq> page_held fw (b_efi s2) - table_bytes fw A p4 s2"
      "span (frame_addr f) (unat (seg_pages ph) * 4096) \<inter> held fw (b_efi s1) = {}"
      by (rule alloc_segment [OF c inv1 seg_ok_pages(4) [OF ok] 2(2,3)])
    have inv2: "boot_inv fw A p4 s2" using g2(1) by (simp add: boot_grow_def)
    have g: "boot_grow fw A p4 {} s s2" by (rule boot_grow_trans [OF g1(1) g2(1)]) simp
    have o: "other_pages fw A p4 {} s s2" by (rule other_pages_trans [OF g1(2) g2(2)]) simp
    have pos2: "file_pos fw fh img (b_efi s2) = (if p_offset ph = - 1 then length img else unat (p_offset ph))"
      using pos1 efi_mem(2) [OF c 2(2)] by (simp add: file_pos_other del: file_pos.simps)
    have hs: "held fw (b_efi s) \<subseteq> held fw (b_efi s1)" using g1(1) by (simp add: boot_grow_def)
    have K2: "K \<subseteq> held fw (b_efi s2) - table_bytes fw A p4 s2" using K(1) grow_apart [OF g] by blast
    have P2: "span (frame_addr f) (unat (seg_pages ph) * 4096) \<subseteq> page_held fw (b_efi s2) - table_bytes fw A p4 s2 - K"
      using f(3,4) K(1) hs by blast
    have hd: "phdr_at a (b_mem s2) = ph" using phdr_keep [OF g] K(1,2) ph by blast
    from finish_segment_outcome [OF c fs inv2 pos2 hd ok K2 K(2-4) f(2) P2] obtain r s' where
      r: "finish_segment fw a fh p4 ke ph (frame_addr f) s2 = Some (r, s')"
        "case r of Inl e \<Rightarrow> EFI_ERROR e
     | Inr _ \<Rightarrow> \<exists>u. boot_only s2 u \<and> boot_grow fw A p4 (span (frame_addr f) (unat (seg_pages ph) * 4096)) s2 u \<and>
         other_pages fw A p4 {} s2 u \<and> segment_loaded fw A p4 K img ph ke u s'" by blast
    have call: "LoadSegment fw a fh p4 ke s = Some (r, s')"
      using 1(1) 2(1) f(1) r(1) by (simp add: LoadSegment_finish [OF ph] out_or_def)
    have only: "boot_only s s2" using boot_only_trans boot_only_efi [OF 1(2)] boot_only_efi [OF 2(2)] by blast
    have "segment_loaded fw A p4 K img ph ke s s'" if "boot_only s2 u"
      "boot_grow fw A p4 (span (frame_addr f) (unat (seg_pages ph) * 4096)) s2 u"
      "other_pages fw A p4 {} s2 u" "segment_loaded fw A p4 K img ph ke u s'" for u
    proof (rule segment_loaded_after [OF _ _ _ _ that(4)])
      show "boot_only s u" by (rule boot_only_trans [OF only that(1)])
      show "boot_grow fw A p4 (span (frame_addr f) (unat (seg_pages ph) * 4096)) s u" by (rule boot_grow_trans [OF g that(2)]) simp
      show "other_pages fw A p4 {} s u" by (rule other_pages_trans [OF o that(3)]) simp
      show "span (frame_addr f) (unat (seg_pages ph) * 4096) \<inter> held fw (b_efi s) = {}" using f(4) hs by blast
    qed
    with call r(2) show ?thesis by (cases r) auto
  qed
qed

section \<open>Reading through the page tables\<close>

text \<open>The byte the processor reads at a virtual address.\<close>

definition boot_load :: "u64 \<Rightarrow> boot \<Rightarrow> u64 \<Rightarrow> u8" where
  "boot_load p4 s v = b_mem s (translate_addr v p4 (pt_of s) + v mod PAGE_SIZE)"

lemma loaded_reads:
  assumes inv: "boot_inv fw A p4 s" and l: "loaded fw A p4 K img ph f s" and ok: "seg_ok A ph" and i: "i < unat (p_memsz ph)"
  shows "boot_load p4 s (p_vaddr ph + of_nat i) = seg_byte img ph i"
proof -
  define w q where "w = unat (p_vaddr ph) mod 4096" and "q = unat (p_vaddr ph) div 4096"
  define j r where "j = (w + i) div 4096" and "r = (w + i) mod 4096"
  have b: "unat (p_vaddr ph) + unat (p_memsz ph) + 4096 \<le> 2 ^ 64" "unat (p_memsz ph) \<le> 2 ^ 40" using ok by (auto simp: seg_ok_def)
  have v: "unat (p_vaddr ph) = q * 4096 + w" by (simp add: w_def q_def)
  have w4: "w < 4096" by (simp add: w_def)
  have jr: "w + i = j * 4096 + r" "r < 4096" by (simp_all add: j_def r_def)
  have ui: "unat (p_vaddr ph + of_nat i) = unat (p_vaddr ph) + i"
    using i b by (subst unat_add_nowrap) (simp_all add: unat_of_nat64)
  then have "unat (p_vaddr ph + of_nat i) = q * 4096 + (w + i)" using v by simp
  then have ui': "unat (p_vaddr ph + of_nat i) = (q + j) * 4096 + r" unfolding jr(1) by (simp add: distrib_right)
  have jn: "j < unat (seg_pages ph)"
    using seg_ok_pages(3) [OF ok] i jr(1) by (simp add: w_def [symmetric])
  have "j < 2 ^ 36" using jn seg_ok_pages(5) [OF ok] by simp
  then have uj: "unat (of_nat j * PAGE_SIZE :: u64) = j * 4096"
    by (subst unat_mult_nowrap) (simp_all add: unat_of_nat64 kconst)
  have "unat (nth_page (p_vaddr ph) j) = unat (p_vaddr ph) + j * 4096"
  proof -
    have "unat (p_vaddr ph) + j * 4096 < 2 ^ 64" using jr(1) i b(1) w4 by simp
    then show ?thesis using uj by (subst unat_add_nowrap) simp_all
  qed
  then have "unat (nth_page (p_vaddr ph) j) div 4096 = q + j" using v w4 by simp
  moreover have "unat (p_vaddr ph + of_nat i) div 4096 = q + j" using ui' jr(2) by simp
  ultimately have pg: "page (p_vaddr ph + of_nat i) = page (nth_page (p_vaddr ph) j)" by (simp add: page_number)
  have tr: "translate_addr (p_vaddr ph + of_nat i) p4 (pt_of s) = frame_addr (f + j)"
    using translate_view [OF inv] l jn by (simp add: pg loaded_def)
  have "((q + j) * 4096 + r) mod 4096 = r" using jr(2) by (simp only: mod_mult_self3 mod_less)
  then have "unat ((p_vaddr ph + of_nat i) mod PAGE_SIZE) = r" using ui' by (simp add: kconst unat_mod)
  then have "(p_vaddr ph + of_nat i) mod PAGE_SIZE = of_nat r" by (metis of_nat_unat ucast_id)
  then have "translate_addr (p_vaddr ph + of_nat i) p4 (pt_of s) + (p_vaddr ph + of_nat i) mod PAGE_SIZE = frame_addr f + of_nat (w + i)"
    unfolding tr jr(1) by (simp add: frame_addr_def kconst algebra_simps)
  then show ?thesis using l i by (simp add: boot_load_def loaded_def w_def)
qed

end
