(* ===== verification/Boot_Image.thy ===== *)
theory Boot_Image
  imports Boot_Loader
begin

text \<open>
  \<open>LoadKernel\<close> over a whole image: reading the headers, counting and loading the segments, closing the file. \<open>elf_ok\<close> is
  an image the loader can take; \<open>kernel_loaded\<close> says that each of its loadable segments is in place. The last section
  shows what happens to an image that is not a 64-bit ELF file.
\<close>

section \<open>The image\<close>

definition img_mem :: "u8 list \<Rightarrow> bytes" where
  "img_mem img a = (if unat a < length img then img ! unat a else 0)"

abbreviation img_ehdr :: "u8 list \<Rightarrow> elf64_ehdr_t" where
  "img_ehdr img \<equiv> ehdr_at 0 (img_mem img)"

definition img_phdr :: "u8 list \<Rightarrow> nat \<Rightarrow> elf64_phdr_t" where
  "img_phdr img k = phdr_at (e_phoff (img_ehdr img) + of_nat (56 * k)) (img_mem img)"

abbreviation img_phnum :: "u8 list \<Rightarrow> nat" where
  "img_phnum img \<equiv> unat (e_phnum (img_ehdr img))"

definition loadable :: "u8 list \<Rightarrow> nat \<Rightarrow> bool" where
  "loadable img k \<longleftrightarrow> k < img_phnum img \<and> p_type (img_phdr img k) = 1"

text \<open>A kernel image the loader can take: an ELF header, program headers inside the file, segments in separate pages.\<close>

definition elf_ok :: "nat set \<Rightarrow> u8 list \<Rightarrow> bool" where
  "elf_ok A img \<longleftrightarrow> 64 \<le> length img \<and> length img < 2 ^ 63 \<and> take 4 img = [0x7F, 0x45, 0x4C, 0x46] \<and> img ! 4 \<noteq> 1 \<and>
     unat (e_phoff (img_ehdr img)) + 56 * img_phnum img \<le> length img \<and>
     (\<forall>k. loadable img k \<longrightarrow> seg_ok A (img_phdr img k)) \<and>
     (\<forall>k l. loadable img k \<longrightarrow> loadable img l \<longrightarrow> k \<noteq> l \<longrightarrow> seg_range (img_phdr img k) \<inter> seg_range (img_phdr img l) = {})"

definition kernel_file :: "uefi \<Rightarrow> u8 list \<Rightarrow> bool" where
  "kernel_file fw img \<longleftrightarrow> (\<forall>h root. let r = ef_call fw (FileOpen root KERNEL_PATH # h) in
     \<not> EFI_ERROR (er_status r) \<longrightarrow> (\<exists>fh. er_out r = Some fh \<and> serves fw fh img))"

section \<open>Reading the headers\<close>

text \<open>What every step of \<open>LoadKernel\<close> up to the segments leaves behind.\<close>

definition boot_quiet :: "uefi \<Rightarrow> nat set \<Rightarrow> u64 \<Rightarrow> boot \<Rightarrow> boot \<Rightarrow> bool" where
  "boot_quiet fw A p4 s t \<longleftrightarrow> boot_only s t \<and> boot_grow fw A p4 {} s t"

lemma boot_quietI:
  assumes "boot_inv fw A p4 s" "conforming fw A" "efi fw c s = (r, t)" "\<not> frees c" "buffer_of c = {}"
  shows "boot_quiet fw A p4 s t"
  using call_grow(1) [OF assms(2,1,3,4)] boot_only_efi [OF assms(3)] assms(5) by (simp add: boot_quiet_def)

lemma boot_quiet_trans: "boot_quiet fw A p4 s t \<Longrightarrow> boot_quiet fw A p4 t u \<Longrightarrow> boot_quiet fw A p4 s u"
  using boot_grow_trans [of fw A p4 "{}" s t "{}" u "{}"] boot_only_trans [of s t u] by (simp add: boot_quiet_def)

lemma boot_quiet_inv: "boot_quiet fw A p4 s t \<Longrightarrow> boot_inv fw A p4 t"
  by (simp add: boot_quiet_def boot_grow_def)

lemma pool_alloc:
  assumes c: "conforming fw A" and inv: "boot_inv fw A p4 s"
    and r: "efi fw (AllocatePool ty n) s = (r, t)" "\<not> EFI_ERROR (er_status r)"
  obtains p where "er_out r = Some p" "unat p + unat n \<le> 2 ^ 46" "span p (unat n) \<subseteq> held fw (b_efi t) - table_bytes fw A p4 t"
    "span p (unat n) \<inter> held fw (b_efi s) = {}"
proof -
  have e: "b_efi t = AllocatePool ty n # b_efi s" "r = ef_call fw (b_efi t)" using efi_mem [OF c r(1)] by auto
  obtain p where p: "er_out r = Some p" "span p (unat n) \<inter> held fw (b_efi s) = {}" "unat p + unat n \<le> 2 ^ 46"
    using conformingD_pool [OF c, of ty n "b_efi s"] r(2) by (auto simp: e)
  have "table_bytes fw A p4 t = table_bytes fw A p4 s"
    using call_grow(3) [OF c inv r(1)] by (simp add: table_bytes_def)
  moreover have "table_bytes fw A p4 s \<subseteq> held fw (b_efi s)"
    using inv in_page by (auto simp: table_bytes_def boot_inv_def held_def)
  moreover have "span p (unat n) \<subseteq> held fw (b_efi t)" using r(2) e p(1) by (auto simp: held_def out_or_def Let_def)
  ultimately show thesis using that p by blast
qed

definition read_file :: "uefi \<Rightarrow> u64 \<Rightarrow> u64 \<Rightarrow> u64 \<Rightarrow> boot \<Rightarrow> u64 efi_result" where
  "read_file fw fh off n s =
     efi_seq (efi_try fw (SetPosition fh off) s) (\<lambda>_ s.
     efi_seq (efi_try fw (AllocatePool EfiLoaderData n) s) (\<lambda>r s.
     let buf = out_or NULL (er_out r) in
     efi_seq (efi_try fw (FileRead fh n buf) s) (\<lambda>_ s. Some (Inr buf, s))))"

lemma read_file_outcome:
  assumes c: "conforming fw A" and fs: "serves fw fh img" and inv: "boot_inv fw A p4 s"
    and len: "unat off + unat n \<le> length img"
  shows "\<exists>r t. read_file fw fh off n s = Some (r, t) \<and>
    (case r of Inl e \<Rightarrow> EFI_ERROR e
     | Inr buf \<Rightarrow> boot_quiet fw A p4 s t \<and> span buf (unat n) \<subseteq> held fw (b_efi t) - table_bytes fw A p4 t \<and>
         span buf (unat n) \<inter> held fw (b_efi s) = {} \<and> (\<forall>i<unat n. b_mem t (buf + of_nat i) = img ! (unat off + i)))"
proof (cases rule: efi_try_cases [of fw "SetPosition fh off" s])
  case (err e t)
  then show ?thesis by (simp add: read_file_def)
next
  case 1: (ok r1 s1)
  note q1 = boot_quietI [OF inv c 1(2), simplified]
  have inv1: "boot_inv fw A p4 s1" by (rule boot_quiet_inv [OF q1])
  have ne: "off \<noteq> - 1"
  proof
    assume "off = - 1"
    then have "unat off = 2 ^ 64 - 1" by (simp add: unsigned_minus_1_eq_mask mask_eq_exp_minus_1)
    with len fs show False by (simp add: serves_def)
  qed
  have pos1: "file_pos fw fh img (b_efi s1) = unat off" using 1(3) ne efi_mem(2,3) [OF c 1(2)] by (simp add: Let_def)
  show ?thesis
  proof (cases rule: efi_try_cases [of fw "AllocatePool EfiLoaderData n" s1])
    case (err e t)
    then show ?thesis using 1(1) by (simp add: read_file_def)
  next
    case 2: (ok r2 s2)
    note q2 = boot_quietI [OF inv1 c 2(2), simplified]
    have inv2: "boot_inv fw A p4 s2" by (rule boot_quiet_inv [OF q2])
    obtain p where p: "er_out r2 = Some p" "unat p + unat n \<le> 2 ^ 46" "span p (unat n) \<subseteq> held fw (b_efi s2) - table_bytes fw A p4 s2"
      "span p (unat n) \<inter> held fw (b_efi s1) = {}" by (rule pool_alloc [OF c inv1 2(2,3)])
    have pos2: "file_pos fw fh img (b_efi s2) = unat off"
      using pos1 efi_mem(2) [OF c 2(2)] by (simp add: file_pos_other del: file_pos.simps)
    show ?thesis
    proof (cases rule: efi_try_cases [of fw "FileRead fh n p" s2])
      case (err e t)
      then show ?thesis using 1(1) 2(1) p(1) by (simp add: read_file_def out_or_def)
    next
      case 3: (ok r3 s3)
      have g3: "boot_grow fw A p4 (span p (unat n)) s2 s3" using call_grow(1) [OF c inv2 3(2)] p(3) by auto
      have g2: "boot_grow fw A p4 {} s s2" using boot_quiet_trans [OF q1 q2] by (simp add: boot_quiet_def)
      have hs: "held fw (b_efi s) \<subseteq> held fw (b_efi s1)" using q1 by (simp add: boot_quiet_def boot_grow_def)
      have "boot_grow fw A p4 (span p (unat n)) s s3" by (rule boot_grow_trans [OF g2 g3]) simp
      then have g: "boot_grow fw A p4 {} s s3" using p(4) hs by (auto simp: boot_grow_def)
      have "boot_only s s3" using boot_only_trans boot_only_efi [OF 1(2)] boot_only_efi [OF 2(2)] boot_only_efi [OF 3(2)] by blast
      with g have q: "boot_quiet fw A p4 s s3" by (simp add: boot_quiet_def)
      have "er_stores r3 (p + of_nat i) = Some (img ! (unat off + i))" if "i < unat n" for i
        using servesD(2) [OF fs, of n p "b_efi s2" i] 3(3) efi_mem(3) [OF c 3(2)] that len pos2 by simp
      then have b: "\<forall>i<unat n. b_mem s3 (p + of_nat i) = img ! (unat off + i)" using 3(2) by (auto simp: efi_def Let_def)
      have "read_file fw fh off n s = Some (Inr p, s3)" using 1(1) 2(1) 3(1) p(1) by (simp add: read_file_def out_or_def)
      moreover have "span p (unat n) \<subseteq> held fw (b_efi s3) - table_bytes fw A p4 s3" using grow_apart [OF g3] p(3) by blast
      ultimately show ?thesis using q b p(4) hs by auto
    qed
  qed
qed

lemma open_kernel_outcome:
  assumes c: "conforming fw A" and kf: "kernel_file fw img" and inv: "boot_inv fw A p4 s"
  shows "\<exists>r t. open_kernel fw s = Some (r, t) \<and>
    (case r of Inl e \<Rightarrow> EFI_ERROR e | Inr fh \<Rightarrow> boot_quiet fw A p4 s t \<and> serves fw fh img)"
proof (cases rule: efi_try_cases [of fw "LocateProtocol SimpleFileSystem" s])
  case (err e t)
  then show ?thesis by (simp add: open_kernel_def)
next
  case 1: (ok r1 s1)
  note q1 = boot_quietI [OF inv c 1(2), simplified]
  show ?thesis
  proof (cases rule: efi_try_cases [of fw "OpenVolume (out_or NULL (er_out r1))" s1])
    case (err e t)
    then show ?thesis using 1(1) by (simp add: open_kernel_def)
  next
    case 2: (ok r2 s2)
    note q2 = boot_quietI [OF boot_quiet_inv [OF q1] c 2(2), simplified]
    show ?thesis
    proof (cases rule: efi_try_cases [of fw "FileOpen (out_or NULL (er_out r2)) KERNEL_PATH" s2])
      case (err e t)
      then show ?thesis using 1(1) 2(1) by (simp add: open_kernel_def)
    next
      case 3: (ok r3 s3)
      note q3 = boot_quietI [OF boot_quiet_inv [OF q2] c 3(2), simplified]
      obtain fh where fh: "er_out r3 = Some fh" "serves fw fh img"
        using kf 3(3) efi_mem(3) [OF c 3(2)] by (auto simp: kernel_file_def Let_def)
      show ?thesis
      proof (cases rule: efi_try_cases [of fw "SetPosition fh 0" s3])
        case (err e t)
        then show ?thesis using 1(1) 2(1) 3(1) fh(1) by (simp add: open_kernel_def out_or_def)
      next
        case 4: (ok r4 s4)
        note q4 = boot_quietI [OF boot_quiet_inv [OF q3] c 4(2), simplified]
        have "boot_quiet fw A p4 s s4" using q1 q2 q3 q4 boot_quiet_trans by blast
        then show ?thesis using 1(1) 2(1) 3(1) 4(1) fh by (simp add: open_kernel_def out_or_def)
      qed
    qed
  qed
qed

lemma img_bytes:
  assumes "i < n" "off + n \<le> length img" "length img < 2 ^ 63"
  shows "img_mem img (of_nat off + of_nat i) = img ! (off + i)"
proof -
  have "unat (of_nat (off + i) :: u64) = off + i" using assms by (intro unat_of_nat64) simp
  then show ?thesis using assms by (simp add: img_mem_def)
qed

lemma read_header_file:
  "read_header fw fh s = efi_seq (read_file fw fh 0 64 s) (\<lambda>b s.
     if b_mem s (b + 0) \<noteq> 0x7F \<or> b_mem s (b + 1) \<noteq> 0x45 \<or> b_mem s (b + 2) \<noteq> 0x4C \<or> b_mem s (b + 3) \<noteq> 0x46
     then Some (Inl EFI_INVALID_PARAMETER, s)
     else if b_mem s (b + 4) = 1 then Some (Inl EFI_UNSUPPORTED, s) else Some (Inr b, s))"
  unfolding read_header_def read_file_def kconst Let_def
  by (auto simp: efi_try_def Let_def split: prod.splits)

lemma read_program_headers_file:
  "read_program_headers fw fh hdr s =
     read_file fw fh (e_phoff (ehdr_at hdr (b_mem s))) (56 * ucast (e_phnum (ehdr_at hdr (b_mem s)))) s"
  unfolding read_program_headers_def read_file_def kconst Let_def by (rule refl)

lemma read_header_outcome:
  assumes c: "conforming fw A" and fs: "serves fw fh img" and inv: "boot_inv fw A p4 s" and ok: "elf_ok A img"
  shows "\<exists>r t. read_header fw fh s = Some (r, t) \<and>
    (case r of Inl e \<Rightarrow> EFI_ERROR e
     | Inr b \<Rightarrow> boot_quiet fw A p4 s t \<and> ehdr_at b (b_mem t) = img_ehdr img)"
proof -
  have len: "64 \<le> length img" "length img < 2 ^ 63" "take 4 img = [0x7F, 0x45, 0x4C, 0x46]" "img ! 4 \<noteq> 1"
    using ok by (auto simp: elf_ok_def)
  have "take 4 img ! i = img ! i" if "i < 4" for i using that by simp
  from this [of 0] this [of 1] this [of 2] this [of 3] len(3)
  have magic: "img ! 0 = 0x7F" "img ! 1 = 0x45" "img ! 2 = 0x4C" "img ! 3 = 0x46" by simp_all
  have "unat (0 :: u64) + unat (64 :: u64) \<le> length img" using len(1) by simp
  moreover have u: "unat (64 :: u64) = 64" by simp
  ultimately obtain r t where
    r: "read_file fw fh 0 64 s = Some (r, t)"
      "case r of Inl e \<Rightarrow> EFI_ERROR e
     | Inr buf \<Rightarrow> boot_quiet fw A p4 s t \<and> span buf 64 \<subseteq> held fw (b_efi t) - table_bytes fw A p4 t \<and>
         span buf 64 \<inter> held fw (b_efi s) = {} \<and> (\<forall>i<64. b_mem t (buf + of_nat i) = img ! i)"
    using read_file_outcome [OF c fs inv, of 0 64] unfolding u unat_0 add_0 by blast
  show ?thesis
  proof (cases r)
    case (Inl e)
    with r show ?thesis by (simp add: read_header_file)
  next
    case (Inr b)
    with r(2) have q: "boot_quiet fw A p4 s t" and m: "\<And>i. i < 64 \<Longrightarrow> b_mem t (b + of_nat i) = img ! i" by auto
    have "ehdr_at b (b_mem t) = img_ehdr img"
      using m img_bytes [of _ 64 0 img] len by (intro ehdr_shift) simp
    moreover have "read_header fw fh s = Some (Inr b, t)"
      using r(1) Inr m [of 0] m [of 1] m [of 2] m [of 3] m [of 4] magic len(4) by (simp add: read_header_file)
    ultimately show ?thesis using q by simp
  qed
qed

lemma read_program_headers_outcome:
  assumes c: "conforming fw A" and fs: "serves fw fh img" and inv: "boot_inv fw A p4 s" and ok: "elf_ok A img"
    and h: "ehdr_at hdr (b_mem s) = img_ehdr img"
  shows "\<exists>r t. read_program_headers fw fh hdr s = Some (r, t) \<and>
    (case r of Inl e \<Rightarrow> EFI_ERROR e
     | Inr b \<Rightarrow> boot_quiet fw A p4 s t \<and> span b (56 * img_phnum img) \<subseteq> held fw (b_efi t) - table_bytes fw A p4 t \<and>
         (\<forall>k<img_phnum img. phdr_at (b + of_nat (56 * k)) (b_mem t) = img_phdr img k))"
proof -
  let ?n = "img_phnum img" and ?o = "e_phoff (img_ehdr img)"
  have len: "unat ?o + 56 * ?n \<le> length img" "length img < 2 ^ 63" using ok by (auto simp: elf_ok_def)
  have lt: "?n < 2 ^ 16" using unsigned_less [of "e_phnum (img_ehdr img)"] by simp
  have n: "unat (56 * ucast (e_phnum (img_ehdr img)) :: u64) = 56 * ?n"
    using lt unat_ucast_row [of ?n] by (subst unat_mult_nowrap) simp_all
  obtain r t where
    r: "read_program_headers fw fh hdr s = Some (r, t)"
      "case r of Inl e \<Rightarrow> EFI_ERROR e
     | Inr buf \<Rightarrow> boot_quiet fw A p4 s t \<and> span buf (56 * ?n) \<subseteq> held fw (b_efi t) - table_bytes fw A p4 t \<and>
         span buf (56 * ?n) \<inter> held fw (b_efi s) = {} \<and> (\<forall>i<56 * ?n. b_mem t (buf + of_nat i) = img ! (unat ?o + i))"
    using read_file_outcome [OF c fs inv, of ?o "56 * ucast (e_phnum (img_ehdr img))"] len(1)
    unfolding read_program_headers_file h n by blast
  have ph: "phdr_at (b + of_nat (56 * k)) (b_mem t) = img_phdr img k"
    if m: "\<forall>i<56 * ?n. b_mem t (b + of_nat i) = img ! (unat ?o + i)" and k: "k < ?n" for b k
    unfolding img_phdr_def
  proof (rule phdr_shift)
    fix i :: nat assume i: "i < 56"
    have lt: "56 * k + i < 56 * ?n" using i k by simp
    have "b_mem t (b + of_nat (56 * k) + of_nat i) = b_mem t (b + of_nat (56 * k + i))" by (simp add: add.assoc)
    also have "\<dots> = img ! (unat ?o + (56 * k + i))" using m lt by blast
    also have "\<dots> = img_mem img (of_nat (unat ?o) + of_nat (56 * k + i))" using img_bytes [OF lt len] by simp
    finally show "b_mem t (b + of_nat (56 * k) + of_nat i) = img_mem img (?o + of_nat (56 * k) + of_nat i)"
      by (simp add: add.assoc)
  qed
  show ?thesis
  proof (cases r)
    case (Inl e)
    with r show ?thesis by simp
  next
    case (Inr b)
    with r ph show ?thesis by auto
  qed
qed

section \<open>The kernel entries\<close>

definition nloads :: "u8 list \<Rightarrow> nat \<Rightarrow> nat" where
  "nloads img k = length (filter (loadable img) [0..<k])"

lemma nloads_simps [simp]: "nloads img 0 = 0" "nloads img (Suc k) = nloads img k + (if loadable img k then 1 else 0)"
  by (simp_all add: nloads_def)

lemma nloads_mono: "k \<le> l \<Longrightarrow> nloads img k \<le> nloads img l"
  by (induction l) (auto simp: le_Suc_eq)

lemma nloads_le: "nloads img k \<le> k"
  by (induction k) auto

lemma load_count_nloads:
  assumes "\<forall>k<img_phnum img. phdr_at (b + of_nat (56 * k)) m = img_phdr img k"
  shows "load_count b (e_phnum (img_ehdr img)) m = of_nat (nloads img (img_phnum img))"
proof -
  have "for_upto n (\<lambda>p k. if p_type (phdr_at (b + sizeof_elf64_phdr_t * of_nat p) m) = 1 then k + 1 else k) (0 :: u64) = of_nat (nloads img n)"
    if "n \<le> img_phnum img" for n
    using that
  proof (induction n)
    case (Suc n)
    then have "phdr_at (b + sizeof_elf64_phdr_t * of_nat n) m = img_phdr img n" using assms by (simp add: kconst)
    with Suc show ?case by (simp add: loadable_def)
  qed simp
  then show ?thesis by (simp add: load_count_def)
qed

lemma unat_VADDR:
  assumes "unat x < 2 ^ 47"
  shows "unat (VADDR x) = unat x + (2 ^ 52 - 2 ^ 35) * 4096"
proof -
  have "\<not> bit x n" if "47 \<le> n" for n
    using assms that bit_take_bit_iff [of 47 "unat x" n] by (simp add: take_bit_nat_eq_self bit_unsigned_iff)
  then have "x AND HIGHER_HALF_OFFSET = 0" by (intro bit_word_eqI) (auto simp: bit_and_iff bit_HIGHER_HALF)
  then have v: "VADDR x = x + HIGHER_HALF_OFFSET" unfolding VADDR_def by (rule disjunctive_add_eq_or [symmetric])
  have hh: "unat HIGHER_HALF_OFFSET = (2 ^ 52 - 2 ^ 35) * 4096" by (simp add: kconst)
  show ?thesis unfolding v using assms by (subst unat_add_nowrap) (simp_all add: hh)
qed

lemma high_page:
  assumes "unat x + i * 4096 < 2 ^ 47" "f < 2 ^ 35"
  shows "page (nth_page (VADDR x) i) \<noteq> page (frame_addr f)"
proof -
  have i: "i < 2 ^ 35" using assms(1) by simp
  have "unat (of_nat i * PAGE_SIZE :: u64) = i * 4096"
    using i by (subst unat_mult_nowrap) (simp_all add: kconst unat_of_nat64)
  then have "unat (nth_page (VADDR x) i) = unat x + i * 4096 + (2 ^ 52 - 2 ^ 35) * 4096"
    using assms(1) by (subst unat_add_nowrap) (simp_all add: unat_VADDR)
  then have "unat (nth_page (VADDR x) i) div 4096 = (unat x + i * 4096) div 4096 + (2 ^ 52 - 2 ^ 35)" by simp
  moreover have d: "(unat x + i * 4096) div 4096 < 2 ^ 35" using assms(1) by (simp add: less_mult_imp_div_less)
  ultimately have "unat (nth_page (VADDR x) i) div 4096 = 2 ^ 36 * (2 ^ 16 - 1) + ((unat x + i * 4096) div 4096 + 2 ^ 35)" by simp
  then have "unat (nth_page (VADDR x) i) div 4096 mod 2 ^ 36 = (unat x + i * 4096) div 4096 + 2 ^ 35"
    using d by (simp only: mod_mult_self4) simp
  moreover have "unat (frame_addr f) div 4096 mod 2 ^ 36 = f" using assms(2) by (simp add: unat_frame_addr)
  moreover have "f < (unat x + i * 4096) div 4096 + 2 ^ 35" using assms(2) by simp
  ultimately show ?thesis unfolding page_number by (metis less_irrefl)
qed

lemma alloc_entries_outcome:
  assumes c: "conforming fw A" and inv: "boot_inv fw A (b_pml4 s) s" and n: "n < 2 ^ 16"
  shows "\<exists>r t. alloc_entries fw (of_nat n) s = Some (r, t) \<and>
    (case r of Inl e \<Rightarrow> EFI_ERROR e
     | Inr _ \<Rightarrow> boot_grow fw A (b_pml4 s) {} s t \<and> b_pml4 t = b_pml4 s \<and>
         span (b_ke t) (24 * n) \<subseteq> held fw (b_efi t) - table_bytes fw A (b_pml4 s) t \<and> span (b_ke t) (24 * n) \<inter> held fw (b_efi s) = {})"
proof (cases rule: efi_try_cases [of fw "AllocatePool EfiLoaderData (24 * of_nat n)" s])
  case (err e t)
  then show ?thesis by (simp add: alloc_entries_def kconst)
next
  case 1: (ok r s1)
  have un: "unat (24 * of_nat n :: u64) = 24 * n" using n by (subst unat_mult_nowrap) (simp_all add: unat_of_nat64)
  note q = boot_quietI [OF inv c 1(2), simplified]
  obtain p where p: "er_out r = Some p" "unat p + 24 * n \<le> 2 ^ 46"
    "span p (24 * n) \<subseteq> held fw (b_efi s1) - table_bytes fw A (b_pml4 s) s1" "span p (24 * n) \<inter> held fw (b_efi s) = {}"
    by (rule pool_alloc [OF c inv 1(2,3), unfolded un])
  define s2 where "s2 = s1\<lparr>b_ke := p\<rparr>"
  have v2: "view fw A s2 = view fw A s1" "b_efi s2 = b_efi s1" "b_mem s2 = b_mem s1" "b_ke s2 = p"
    by (rule view_cong) (simp_all add: s2_def)
  have p2: "b_pml4 s2 = b_pml4 s" "b_pml4 s1 = b_pml4 s" using q by (auto simp: s2_def boot_quiet_def boot_only_def)
  have inv2: "boot_inv fw A (b_pml4 s) s2" using boot_quiet_inv [OF q] by (simp add: boot_inv_def v2)
  let ?x = "ALIGN_ADDR p" and ?m = "EFI_SIZE_TO_PAGES (of_nat n * 24)"
  have m: "unat ?m = (24 * n + 4095) div 4096" using un by (simp add: unat_SIZE_TO_PAGES mult.commute)
  have ax: "unat ?x \<le> unat p" unfolding ALIGN_ADDR_def by (rule word_le_nat_alt [THEN iffD1]) (rule word_and_le2)
  have m9: "unat ?m \<le> 2 ^ 9" using n m by simp
  have fit: "fits A ?x (VADDR ?x) (unat ?m)"
  proof -
    have "page (nth_page (VADDR ?x) i) \<noteq> page (frame_addr f)" if "i < unat ?m" "f \<in> A" for i f
      using that m9 ax p(2) conformingD(1) [OF c] by (intro high_page) auto
    then show ?thesis using m9 by (auto simp: fits_def)
  qed
  from MapRange_mapped [OF c inv2 fit] obtain r' t where
    t: "MapRange fw ?x (VADDR ?x) ?m (b_pml4 s) s2 = Some (r', t)"
      "case r' of Inr _ \<Rightarrow> range_mapped fw A (b_pml4 s) ?x (VADDR ?x) (unat ?m) s2 t | Inl e \<Rightarrow> out_of_pages fw A (b_pml4 s) e s2 t" by blast
  have call: "alloc_entries fw (of_nat n) s = Some (r', t)"
    using 1(1) p(1) t(1) p2 by (simp add: alloc_entries_def kconst out_or_def s2_def [symmetric] v2(4) Let_def)
  show ?thesis
  proof (cases r')
    case (Inl e)
    with t(2) call show ?thesis by (simp add: out_of_pages_def)
  next
    case (Inr u)
    with t(2) have st: "boot_steps fw A (b_pml4 s) s2 t" by (simp add: range_mapped_def)
    have g2: "boot_grow fw A (b_pml4 s) {} s2 t" by (rule steps_grow [OF c st])
    have g1: "boot_grow fw A (b_pml4 s) {} s s2" using q inv2 by (simp add: boot_quiet_def boot_grow_def v2)
    have "boot_grow fw A (b_pml4 s) {} s t" by (rule boot_grow_trans [OF g1 g2]) simp
    moreover have "b_pml4 t = b_pml4 s" "b_ke t = p" using st v2 p2 by (auto simp: boot_steps_def boot_only_def)
    moreover have "span p (24 * n) \<subseteq> held fw (b_efi t) - table_bytes fw A (b_pml4 s) t"
      using grow_apart [OF g2] p(3) by (auto simp: v2 table_bytes_def)
    ultimately show ?thesis using call Inr p(4) by simp
  qed
qed

section \<open>All segments\<close>

definition segments_loaded :: "uefi \<Rightarrow> nat set \<Rightarrow> u64 \<Rightarrow> u64 set \<Rightarrow> u8 list \<Rightarrow> nat \<Rightarrow> boot \<Rightarrow> bool" where
  "segments_loaded fw A p4 K img n s \<longleftrightarrow>
     (\<forall>k<n. loadable img k \<longrightarrow> (\<exists>f. loaded fw A p4 K img (img_phdr img k) f s))"

lemma sub_span: "k + m \<le> n \<Longrightarrow> n < 2 ^ 63 \<Longrightarrow> span (a + of_nat k) m \<subseteq> span a n"
proof
  fix x assume n: "k + m \<le> n" "n < 2 ^ 63" and "x \<in> span (a + of_nat k) m"
  then obtain i where i: "i < m" "x = a + of_nat k + of_nat i" by (auto elim: span_imageE)
  then have x: "x = a + of_nat (k + i)" by simp
  show "x \<in> span a n" unfolding x using n i(1) by (subst span_offset) simp_all
qed

lemma segments_loaded_Suc:
  assumes ok: "elf_ok A img" and n: "loadable img n" and sl: "segment_loaded fw A p4 K img (img_phdr img n) ke t u"
    and e: "span ke 24 \<subseteq> K" and fr: "free_pages fw A (b_efi u) \<noteq> {}"
    and l: "free_pages fw A (b_efi t) \<noteq> {} \<Longrightarrow> segments_loaded fw A p4 K img n t"
  shows "segments_loaded fw A p4 K img (Suc n) u"
  unfolding segments_loaded_def
proof (intro allI impI)
  fix j assume j: "j < Suc n" "loadable img j"
  have gu: "boot_grow fw A p4 (span ke 24) t u" and ou: "other_pages fw A p4 (seg_range (img_phdr img n)) t u"
    using sl by (auto simp: segment_loaded_def)
  show "\<exists>f. loaded fw A p4 K img (img_phdr img j) f u"
  proof (cases "j = n")
    case True
    with sl fr show ?thesis by (auto simp: segment_loaded_def)
  next
    case False
    with j(1) have jn: "j < n" by simp
    have "free_pages fw A (b_efi t) \<noteq> {}" using fr gu by (auto simp: boot_grow_def)
    then obtain f where lf: "loaded fw A p4 K img (img_phdr img j) f t"
      using l j(2) jn by (auto simp: segments_loaded_def)
    have "seg_ok A (img_phdr img j)" "seg_range (img_phdr img j) \<inter> seg_range (img_phdr img n) = {}"
      using ok j(2) n False by (auto simp: elf_ok_def)
    then show ?thesis using loaded_keep [OF lf gu e ou] by blast
  qed
qed

lemma load_segments_outcome:
  assumes c: "conforming fw A" and fs: "serves fw fh img" and inv: "boot_inv fw A (b_pml4 s) s" and ok: "elf_ok A img"
    and ph: "\<forall>k<img_phnum img. phdr_at (b + of_nat (56 * k)) (b_mem s) = img_phdr img k"
    and b: "span b (56 * img_phnum img) \<subseteq> held fw (b_efi s) - table_bytes fw A (b_pml4 s) s"
    and ke: "span (b_ke s) (24 * nloads img (img_phnum img)) \<subseteq> held fw (b_efi s) - table_bytes fw A (b_pml4 s) s"
    and d: "span b (56 * img_phnum img) \<inter> span (b_ke s) (24 * nloads img (img_phnum img)) = {}"
    and n: "n \<le> img_phnum img"
  defines "K \<equiv> span b (56 * img_phnum img) \<union> span (b_ke s) (24 * nloads img (img_phnum img))"
  shows "\<exists>r t. load_segments fw b fh n s = Some (r, t) \<and>
    (case r of Inl e \<Rightarrow> EFI_ERROR e
     | Inr k \<Rightarrow> k = of_nat (nloads img n) \<and> boot_only s t \<and>
         boot_grow fw A (b_pml4 s) (span (b_ke s) (24 * nloads img (img_phnum img))) s t \<and>
         (free_pages fw A (b_efi t) \<noteq> {} \<longrightarrow> segments_loaded fw A (b_pml4 s) K img n t))"
  using n
proof (induction n)
  case 0
  have "boot_grow fw A (b_pml4 s) W s s" for W using inv by (auto simp: boot_grow_def)
  then show ?case by (simp add: segments_loaded_def)
next
  case (Suc n)
  let ?W = "span (b_ke s) (24 * nloads img (img_phnum img))" and ?p = "img_phdr img n" and ?a = "b + of_nat (56 * n)"
  have N: "img_phnum img < 2 ^ 16" using unsigned_less [of "e_phnum (img_ehdr img)"] by simp
  from Suc obtain r t where t: "load_segments fw b fh n s = Some (r, t)"
    "case r of Inl e \<Rightarrow> EFI_ERROR e
     | Inr k \<Rightarrow> k = of_nat (nloads img n) \<and> boot_only s t \<and> boot_grow fw A (b_pml4 s) ?W s t \<and>
         (free_pages fw A (b_efi t) \<noteq> {} \<longrightarrow> segments_loaded fw A (b_pml4 s) K img n t)" by auto
  show ?case
  proof (cases r)
    case (Inl e)
    with t show ?thesis by simp
  next
    case (Inr k)
    with t(2) have k: "k = of_nat (nloads img n)" and only: "boot_only s t" and g: "boot_grow fw A (b_pml4 s) ?W s t"
      and l: "free_pages fw A (b_efi t) \<noteq> {} \<longrightarrow> segments_loaded fw A (b_pml4 s) K img n t" by auto
    have f: "b_pml4 t = b_pml4 s" "b_ke t = b_ke s" using only by (auto simp: boot_only_def)
    have a: "span ?a 56 \<subseteq> span b (56 * img_phnum img)" using Suc.prems N by (intro sub_span) simp_all
    then have "span ?a 56 \<subseteq> held fw (b_efi s) - table_bytes fw A (b_pml4 s) s" "span ?a 56 \<inter> ?W = {}" using b d by auto
    from phdr_keep [OF g this] have h: "phdr_at ?a (b_mem t) = ?p" using ph Suc.prems by simp
    have call: "load_segments fw b fh (Suc n) s =
        (if p_type ?p \<noteq> 1 then Some (Inr k, t)
         else efi_seq (LoadSegment fw ?a fh (b_pml4 s) (b_ke s + of_nat (24 * nloads img n)) t) (\<lambda>_ s. Some (Inr (k + 1), s)))"
    proof -
      have "ucast k = (of_nat (nloads img n) :: u64)"
        using nloads_le [of img n] Suc.prems N by (simp add: k unsigned_of_nat take_bit_nat_eq_self)
      then show ?thesis using t(1) Inr h f by (simp add: kconst Let_def)
    qed
    show ?thesis
    proof (cases "loadable img n")
      case False
      then have "load_segments fw b fh (Suc n) s = Some (Inr k, t)" using call Suc.prems by (simp add: loadable_def)
      moreover have "segments_loaded fw A (b_pml4 s) K img (Suc n) t" if "segments_loaded fw A (b_pml4 s) K img n t"
        using that False by (auto simp: segments_loaded_def less_Suc_eq)
      ultimately show ?thesis using False k only g l by simp
    next
      case True
      let ?e = "b_ke s + of_nat (24 * nloads img n)"
      have so: "seg_ok A ?p" using ok True by (simp add: elf_ok_def)
      have nl: "nloads img (Suc n) \<le> nloads img (img_phnum img)" using Suc.prems by (rule nloads_mono)
      have e: "span ?e 24 \<subseteq> ?W" using True nl nloads_le [of img "img_phnum img"] N by (intro sub_span) simp_all
      have Kt: "K \<subseteq> held fw (b_efi t) - table_bytes fw A (b_pml4 s) t"
        unfolding K_def using b ke grow_apart [OF g] by blast
      have inv': "boot_inv fw A (b_pml4 s) t" using g by (simp add: boot_grow_def)
      have aK: "span ?a 56 \<subseteq> K" "span ?e 24 \<subseteq> K" "span ?a 56 \<inter> span ?e 24 = {}" unfolding K_def using a e d by blast+
      from LoadSegment_outcome [OF c fs inv' h so Kt aK] obtain q u where
        u: "LoadSegment fw ?a fh (b_pml4 s) ?e t = Some (q, u)"
          "case q of Inl e \<Rightarrow> EFI_ERROR e | Inr _ \<Rightarrow> segment_loaded fw A (b_pml4 s) K img ?p ?e t u" by blast
      have call': "load_segments fw b fh (Suc n) s = efi_seq (Some (q, u)) (\<lambda>_ s. Some (Inr (k + 1), s))"
        using call u(1) True by (simp add: loadable_def)
      show ?thesis
      proof (cases q)
        case (Inl e)
        with call' u(2) show ?thesis by simp
      next
        case (Inr x)
        with u(2) have sl: "segment_loaded fw A (b_pml4 s) K img ?p ?e t u" by simp
        then have gu: "boot_grow fw A (b_pml4 s) (span ?e 24) t u" and ou: "other_pages fw A (b_pml4 s) (seg_range ?p) t u"
          and bo: "boot_only t u" by (auto simp: segment_loaded_def)
        have "segments_loaded fw A (b_pml4 s) K img (Suc n) u" if "free_pages fw A (b_efi u) \<noteq> {}"
          by (rule segments_loaded_Suc [OF ok True sl aK(2) that]) (use l in blast)
        moreover have "boot_grow fw A (b_pml4 s) ?W s u" by (rule boot_grow_trans [OF g gu]) (use e in simp)
        moreover have "boot_only s u" by (rule boot_only_trans [OF only bo])
        ultimately show ?thesis using call' Inr k True by simp
      qed
    qed
  qed
qed

section \<open>Giving buffers back\<close>

lemma pool_apart: "conforming fw A \<Longrightarrow> f \<in> A \<Longrightarrow> page_bytes f \<inter> pool_held fw h = {}"
proof (induction h)
  case (Cons c h)
  have "span (out_or NULL (er_out (ef_call fw (AllocatePool t n # h)))) (unat n) \<inter> page_bytes f = {}"
    if "\<not> EFI_ERROR (er_status (ef_call fw (AllocatePool t n # h)))" for t n
    using conformingD_pool [OF Cons.prems(1) that] Cons.prems(2) by (auto simp: out_or_def)
  with Cons show ?case by (cases c) (auto simp: Let_def)
qed simp

lemma free_pages_pages: "conforming fw A \<Longrightarrow> free_pages fw A h = {f \<in> A. page_bytes f \<inter> page_held fw h = {}}"
  using pool_apart [of fw A] by (auto simp: free_pages_def held_def)

lemma close_call:
  assumes c: "conforming fw A" and inv: "boot_inv fw A p4 s" and r: "efi fw call s = (r, t)"
    and q: "buffer_of call = {}" "page_held fw (b_efi t) = page_held fw (b_efi s)"
  shows "boot_inv fw A p4 t" "free_pages fw A (b_efi t) = free_pages fw A (b_efi s)"
    "loaded fw A p4 {} img ph f s \<Longrightarrow> seg_ok A ph \<Longrightarrow> loaded fw A p4 {} img ph f t"
proof -
  have A: "A \<subseteq> {1..<64 * 65535}" by (rule conformingD(1) [OF c])
  show free: "free_pages fw A (b_efi t) = free_pages fw A (b_efi s)" by (simp add: free_pages_pages [OF c] q(2))
  have m: "b_mem t a = b_mem s a" if "a \<in> page_held fw (b_efi s)" for a
    using efi_mem(1) [OF c r] that q(1) by (simp add: held_def)
  have tb: "table_bytes fw A p4 s \<subseteq> page_held fw (b_efi s)"
    using inv in_page by (auto simp: table_bytes_def boot_inv_def)
  have "page_held fw (b_efi s) \<subseteq> page_held fw (b_efi t)" by (simp add: q(2))
  note same = same_tables [OF inv this m [OF subsetD [OF tb]]]
  have tab: "tables p4 (view fw A t) = tables p4 (view fw A s)" using same(1) by (auto simp: tables_def)
  have "pt_inv p4 (view fw A t)"
    by (rule pt_inv_same [OF _ same(1)]) (use inv free in \<open>simp_all add: boot_inv_def view_free [OF A]\<close>)
  then show "boot_inv fw A p4 t" using inv by (simp add: boot_inv_def tab q(2))
  show "loaded fw A p4 {} img ph f t" if l: "loaded fw A p4 {} img ph f s" and ok: "seg_ok A ph"
  proof -
    let ?P = "span (frame_addr f) (unat (seg_pages ph) * 4096)"
    have P: "?P \<subseteq> page_held fw (b_efi s) - table_bytes fw A p4 s" using l by (simp add: loaded_def)
    have "b_mem t (frame_addr f + of_nat (unat (p_vaddr ph) mod 4096 + i)) = seg_byte img ph i" if i: "i < unat (p_memsz ph)" for i
    proof -
      have "frame_addr f + of_nat (unat (p_vaddr ph) mod 4096 + i) \<in> ?P"
        using seg_in_pages [OF ok, of i 1 f] i span_offset [of 0 _ 1] by fastforce
      then show ?thesis using m P l i by (auto simp: loaded_def)
    qed
    then show ?thesis using l P same(2) by (simp add: loaded_def q(2) table_bytes_def tab)
  qed
qed

lemma loaded_weaken: "loaded fw A p4 K img ph f s \<Longrightarrow> loaded fw A p4 {} img ph f s"
  by (auto simp: loaded_def)

definition kernel_loaded :: "uefi \<Rightarrow> nat set \<Rightarrow> u64 \<Rightarrow> u8 list \<Rightarrow> boot \<Rightarrow> bool" where
  "kernel_loaded fw A p4 img s \<longleftrightarrow> boot_inv fw A p4 s \<and>
     (free_pages fw A (b_efi s) \<noteq> {} \<longrightarrow> segments_loaded fw A p4 {} img (img_phnum img) s)"

lemma close_keeps:
  assumes c: "conforming fw A" and ok: "elf_ok A img" and k: "kernel_loaded fw A p4 img s" and r: "efi fw call s = (r, t)"
    and q: "buffer_of call = {}" "frees call \<or> (\<exists>g. call = FileClose g)"
  shows "kernel_loaded fw A p4 img t"
proof -
  have p: "page_held fw (b_efi t) = page_held fw (b_efi s)"
    using efi_mem(2) [OF c r] q(2) by (cases call) (auto simp: Let_def)
  have inv: "boot_inv fw A p4 s" using k by (simp add: kernel_loaded_def)
  note cl = close_call [OF c inv r q(1) p]
  show ?thesis using k ok cl unfolding kernel_loaded_def segments_loaded_def elf_ok_def by (metis (no_types, lifting))
qed

lemma close_kernel_outcome:
  assumes c: "conforming fw A" and ok: "elf_ok A img" and k: "kernel_loaded fw A p4 img s"
  shows "\<exists>r t. close_kernel fw fh hb pb s = Some (r, t) \<and>
    (case r of Inl e \<Rightarrow> EFI_ERROR e | Inr _ \<Rightarrow> boot_only s t \<and> kernel_loaded fw A p4 img t)"
proof (cases rule: efi_try_cases [of fw "FileClose fh" s])
  case (err e t)
  then show ?thesis by (simp add: close_kernel_def)
next
  case 1: (ok r1 s1)
  note k1 = close_keeps [OF c ok k 1(2), simplified]
  show ?thesis
  proof (cases rule: efi_try_cases [of fw "FreePool hb" s1])
    case (err e t)
    then show ?thesis using 1(1) by (simp add: close_kernel_def)
  next
    case 2: (ok r2 s2)
    note k2 = close_keeps [OF c ok k1 2(2), simplified]
    show ?thesis
    proof (cases rule: efi_try_cases [of fw "FreePool pb" s2])
      case (err e t)
      then show ?thesis using 1(1) 2(1) by (simp add: close_kernel_def)
    next
      case 3: (ok r3 s3)
      have "boot_only s s3" using boot_only_trans boot_only_efi [OF 1(2)] boot_only_efi [OF 2(2)] boot_only_efi [OF 3(2)] by blast
      then show ?thesis using 1(1) 2(1) 3(1) close_keeps [OF c ok k2 3(2)] by (simp add: close_kernel_def)
    qed
  qed
qed

section \<open>LoadKernel\<close>

definition load_entries :: "uefi \<Rightarrow> u8 list \<Rightarrow> u64 \<Rightarrow> u64 \<Rightarrow> u64 \<Rightarrow> boot \<Rightarrow> u64 efi_result" where
  "load_entries fw img fh hb pb s =
     efi_seq (alloc_entries fw (of_nat (nloads img (img_phnum img))) s) (\<lambda>_ s.
     efi_seq (load_segments fw pb fh (img_phnum img) s) (\<lambda>_ s.
     efi_seq (close_kernel fw fh hb pb s) (\<lambda>_ s.
     Some (Inr (e_entry (img_ehdr img)), s\<lparr>b_num_ke := of_nat (nloads img (img_phnum img)), b_ke := VADDR (b_ke s)\<rparr>))))"

lemma load_entries_outcome:
  assumes c: "conforming fw A" and fs: "serves fw fh img" and ok: "elf_ok A img" and inv: "boot_inv fw A (b_pml4 s) s"
    and b: "span pb (56 * img_phnum img) \<subseteq> held fw (b_efi s) - table_bytes fw A (b_pml4 s) s"
    and ph: "\<forall>k<img_phnum img. phdr_at (pb + of_nat (56 * k)) (b_mem s) = img_phdr img k"
  shows "\<exists>r t. load_entries fw img fh hb pb s = Some (r, t) \<and>
    (case r of Inl e \<Rightarrow> EFI_ERROR e
     | Inr entry \<Rightarrow> entry = e_entry (img_ehdr img) \<and> b_pml4 t = b_pml4 s \<and> b_num_ke t = of_nat (nloads img (img_phnum img)) \<and>
         kernel_loaded fw A (b_pml4 s) img t)"
proof -
  let ?p4 = "b_pml4 s" and ?n = "img_phnum img" and ?m = "nloads img (img_phnum img)"
  have "?n < 2 ^ 16" using unsigned_less [of "e_phnum (img_ehdr img)"] by simp
  then have m: "?m < 2 ^ 16" using nloads_le [of img ?n] by simp
  obtain r1 s1 where 1: "alloc_entries fw (of_nat ?m) s = Some (r1, s1)"
    "case r1 of Inl e \<Rightarrow> EFI_ERROR e
     | Inr _ \<Rightarrow> boot_grow fw A ?p4 {} s s1 \<and> b_pml4 s1 = ?p4 \<and>
         span (b_ke s1) (24 * ?m) \<subseteq> held fw (b_efi s1) - table_bytes fw A ?p4 s1 \<and> span (b_ke s1) (24 * ?m) \<inter> held fw (b_efi s) = {}"
    using alloc_entries_outcome [OF c inv m] by blast
  show ?thesis
  proof (cases r1)
    case (Inl e)
    with 1 show ?thesis by (simp add: load_entries_def)
  next
    case r1: (Inr x)
    with 1(2) have g: "boot_grow fw A ?p4 {} s s1" and p: "b_pml4 s1 = ?p4"
      and ke: "span (b_ke s1) (24 * ?m) \<subseteq> held fw (b_efi s1) - table_bytes fw A ?p4 s1" "span (b_ke s1) (24 * ?m) \<inter> held fw (b_efi s) = {}" by auto
    have inv1: "boot_inv fw A ?p4 s1" using g by (simp add: boot_grow_def)
    have b1: "span pb (56 * ?n) \<subseteq> held fw (b_efi s1) - table_bytes fw A ?p4 s1" using b grow_apart [OF g] by blast
    have d: "span pb (56 * ?n) \<inter> span (b_ke s1) (24 * ?m) = {}" using b ke(2) by blast
    have ph1: "phdr_at (pb + of_nat (56 * k)) (b_mem s1) = img_phdr img k" if "k < ?n" for k
    proof -
      have "span (pb + of_nat (56 * k)) 56 \<subseteq> span pb (56 * ?n)" using that \<open>?n < 2 ^ 16\<close> by (intro sub_span) simp_all
      then have "span (pb + of_nat (56 * k)) 56 \<subseteq> held fw (b_efi s) - table_bytes fw A ?p4 s" using b by blast
      from phdr_keep [OF g this] show ?thesis using ph that by simp
    qed
    obtain r2 s2 where 2: "load_segments fw pb fh ?n s1 = Some (r2, s2)"
      "case r2 of Inl e \<Rightarrow> EFI_ERROR e
       | Inr k \<Rightarrow> k = of_nat ?m \<and> boot_only s1 s2 \<and> boot_grow fw A ?p4 (span (b_ke s1) (24 * ?m)) s1 s2 \<and>
           (free_pages fw A (b_efi s2) \<noteq> {} \<longrightarrow> segments_loaded fw A ?p4 (span pb (56 * ?n) \<union> span (b_ke s1) (24 * ?m)) img ?n s2)"
      using load_segments_outcome [OF c fs _ ok, of s1 pb ?n] inv1 b1 ke(1) d ph1 unfolding p by blast
    show ?thesis
    proof (cases r2)
      case (Inl e)
      with 1(1) r1 2 show ?thesis by (simp add: load_entries_def)
    next
      case r2: (Inr k)
      with 2(2) have "kernel_loaded fw A ?p4 img s2"
        using loaded_weaken unfolding kernel_loaded_def segments_loaded_def boot_grow_def by (simp) blast
      from close_kernel_outcome [OF c ok this, of fh hb pb] obtain r3 s3 where
        3: "close_kernel fw fh hb pb s2 = Some (r3, s3)"
          "case r3 of Inl e \<Rightarrow> EFI_ERROR e | Inr _ \<Rightarrow> boot_only s2 s3 \<and> kernel_loaded fw A ?p4 img s3" by blast
      show ?thesis
      proof (cases r3)
        case (Inl e)
        with 1(1) r1 2(1) r2 3 show ?thesis by (simp add: load_entries_def)
      next
        case r3: (Inr x)
        let ?t = "s3\<lparr>b_num_ke := of_nat ?m, b_ke := VADDR (b_ke s3)\<rparr>"
        have "load_entries fw img fh hb pb s = Some (Inr (e_entry (img_ehdr img)), ?t)"
          using 1(1) r1 2(1) r2 3(1) r3 by (simp add: load_entries_def)
        moreover have "b_pml4 ?t = ?p4" using p 2(2) r2 3(2) r3 by (auto simp: boot_only_def)
        moreover have "kernel_loaded fw A ?p4 img ?t"
          using 3(2) r3 view_cong [of ?t s3 fw A]
          by (simp add: kernel_loaded_def boot_inv_def segments_loaded_def loaded_def table_bytes_def)
        ultimately show ?thesis by simp
      qed
    qed
  qed
qed

lemma LoadKernel_outcome:
  assumes c: "conforming fw A" and kf: "kernel_file fw img" and inv: "boot_inv fw A (b_pml4 s) s" and ok: "elf_ok A img"
  shows "\<exists>r t. LoadKernel fw s = Some (r, t) \<and>
    (case r of Inl e \<Rightarrow> EFI_ERROR e
     | Inr entry \<Rightarrow> entry = e_entry (img_ehdr img) \<and> b_pml4 t = b_pml4 s \<and> b_num_ke t = of_nat (nloads img (img_phnum img)) \<and>
         kernel_loaded fw A (b_pml4 s) img t)"
proof -
  let ?p4 = "b_pml4 s" and ?n = "img_phnum img"
  have N: "?n < 2 ^ 16" using unsigned_less [of "e_phnum (img_ehdr img)"] by simp
  obtain r1 s1 where 1: "open_kernel fw s = Some (r1, s1)"
    "case r1 of Inl e \<Rightarrow> EFI_ERROR e | Inr fh \<Rightarrow> boot_quiet fw A ?p4 s s1 \<and> serves fw fh img"
    using open_kernel_outcome [OF c kf inv] by blast
  show ?thesis
  proof (cases r1)
    case (Inl e)
    with 1 show ?thesis by (simp add: LoadKernel_def)
  next
    case r1: (Inr fh)
    with 1(2) have q1: "boot_quiet fw A ?p4 s s1" and fs: "serves fw fh img" by auto
    obtain r2 s2 where 2: "read_header fw fh s1 = Some (r2, s2)"
      "case r2 of Inl e \<Rightarrow> EFI_ERROR e | Inr b \<Rightarrow> boot_quiet fw A ?p4 s1 s2 \<and> ehdr_at b (b_mem s2) = img_ehdr img"
      using read_header_outcome [OF c fs boot_quiet_inv [OF q1] ok] by blast
    show ?thesis
    proof (cases r2)
      case (Inl e)
      with 1(1) r1 2 show ?thesis by (simp add: LoadKernel_def)
    next
      case r2: (Inr hb)
      with 2(2) have q2: "boot_quiet fw A ?p4 s1 s2" and h: "ehdr_at hb (b_mem s2) = img_ehdr img" by auto
      obtain r3 s3 where 3: "read_program_headers fw fh hb s2 = Some (r3, s3)"
        "case r3 of Inl e \<Rightarrow> EFI_ERROR e
         | Inr b \<Rightarrow> boot_quiet fw A ?p4 s2 s3 \<and> span b (56 * ?n) \<subseteq> held fw (b_efi s3) - table_bytes fw A ?p4 s3 \<and>
             (\<forall>k<?n. phdr_at (b + of_nat (56 * k)) (b_mem s3) = img_phdr img k)"
        using read_program_headers_outcome [OF c fs boot_quiet_inv [OF q2] ok h] by blast
      show ?thesis
      proof (cases r3)
        case (Inl e)
        with 1(1) r1 2(1) r2 3 show ?thesis by (simp add: LoadKernel_def Let_def)
      next
        case r3: (Inr pb)
        with 3(2) have q3: "boot_quiet fw A ?p4 s2 s3" and b: "span pb (56 * ?n) \<subseteq> held fw (b_efi s3) - table_bytes fw A ?p4 s3"
          and ph: "\<forall>k<?n. phdr_at (pb + of_nat (56 * k)) (b_mem s3) = img_phdr img k" by auto
        have call: "LoadKernel fw s = load_entries fw img fh hb pb s3"
          using 1(1) r1 2(1) r2 3(1) r3 h load_count_nloads [OF ph] by (simp add: LoadKernel_def load_entries_def Let_def)
        have q: "boot_quiet fw A ?p4 s s3" using q1 q2 q3 boot_quiet_trans by blast
        then have p: "b_pml4 s3 = ?p4" by (auto simp: boot_quiet_def boot_only_def)
        show ?thesis
          using load_entries_outcome [OF c fs ok, of s3 pb hb] boot_quiet_inv [OF q] b ph unfolding call p by blast
      qed
    qed
  qed
qed

section \<open>Where errors come from\<close>

text \<open>An error that is the status of the newest service call.\<close>

definition fails_last :: "uefi \<Rightarrow> 'a efi_result \<Rightarrow> bool" where
  "fails_last fw m \<longleftrightarrow> (\<forall>e t. m = Some (Inl e, t) \<longrightarrow> er_status (ef_call fw (b_efi t)) = e)"

lemma fails_last_try [simp]: "fails_last fw (efi_try fw c s)"
  by (simp add: fails_last_def efi_try_def efi_def Let_def)

lemma fails_last_return [simp]: "fails_last fw (Some (Inr x, s))"
  by (simp add: fails_last_def)

lemma fails_last_seq:
  "fails_last fw m \<Longrightarrow> (\<And>x s. m = Some (Inr x, s) \<Longrightarrow> fails_last fw (f x s)) \<Longrightarrow> fails_last fw (efi_seq m f)"
  by (auto simp: fails_last_def efi_seq_Some)

lemma fails_last_open: "fails_last fw (open_kernel fw s)"
  unfolding open_kernel_def Let_def by (intro fails_last_seq fails_last_try fails_last_return)

lemma fails_last_read_file: "fails_last fw (read_file fw fh off n s)"
  unfolding read_file_def Let_def by (intro fails_last_seq fails_last_try fails_last_return)

lemma magic_iff:
  "4 \<le> length img \<Longrightarrow> take 4 img = [x, y, z, w] \<longleftrightarrow> img ! 0 = x \<and> img ! 1 = y \<and> img ! 2 = z \<and> img ! 3 = w"
  by (auto simp: list_eq_iff_nth_eq less_Suc_eq numeral_eq_Suc)

lemma fails_last_AllocTable: "fails_last fw (AllocTable fw s)"
  unfolding AllocTable_def Let_def by (intro fails_last_seq fails_last_try fails_last_return)

lemma fails_last_MapAddr: "fails_last fw (MapAddr fw phys virt p4 s)"
proof -
  have "fails_last fw (Some y)" if "MapAddr fw phys virt p4 s = Some y" for y
  proof (rule MapAddr.raw_induct [where P = "\<lambda>fw _ _ _ _ y. fails_last fw (Some y)", OF _ that], goal_cases)
    case (1 M fw phys virt p4 s y)
    then have rec: "fails_last fw (M fw p v q u)" for p v q u
      by (cases "M fw p v q u") (auto simp: fails_last_def)
    show ?case unfolding 1(2) [symmetric] Let_def
      by (intro fails_last_seq) (auto intro!: fails_last_seq rec fails_last_AllocTable)
  qed
  then show ?thesis by (auto simp: fails_last_def)
qed

lemma fails_last_for: "(\<And>i s. fails_last fw (f i s)) \<Longrightarrow> fails_last fw (efi_for n f s)"
  by (induction n arbitrary: s) (auto intro: fails_last_seq)

lemma fails_last_MapRange: "fails_last fw (MapRange fw phys virt n p4 s)"
  unfolding MapRange_def by (intro fails_last_for fails_last_MapAddr)

lemma fails_last_LoadSegment: "fails_last fw (LoadSegment fw a fh p4 ke s)"
  unfolding LoadSegment_def Let_def
  by (intro fails_last_seq fails_last_try) (auto simp: fails_last_def)

lemma fails_last_load_segments: "fails_last fw (load_segments fw pb fh n s)"
  by (induction n) (auto simp: Let_def intro!: fails_last_seq fails_last_LoadSegment)

lemma fails_last_alloc_entries: "fails_last fw (alloc_entries fw n s)"
  unfolding alloc_entries_def Let_def by (intro fails_last_seq fails_last_try fails_last_MapRange)

lemma fails_last_close_kernel: "fails_last fw (close_kernel fw fh hb pb s)"
  unfolding close_kernel_def by (intro fails_last_seq fails_last_try fails_last_return)

lemma read_header_checks:
  assumes c: "conforming fw A" and fs: "serves fw fh img" and inv: "boot_inv fw A p4 s" and len: "64 \<le> length img"
  shows "\<exists>r t. read_header fw fh s = Some (r, t) \<and>
    (case r of
       Inr b \<Rightarrow> take 4 img = [0x7F, 0x45, 0x4C, 0x46] \<and> img ! 4 \<noteq> 1
     | Inl e \<Rightarrow> EFI_ERROR e \<and> (er_status (ef_call fw (b_efi t)) = e \<or> boot_quiet fw A p4 s t \<and>
         e = (if take 4 img \<noteq> [0x7F, 0x45, 0x4C, 0x46] then EFI_INVALID_PARAMETER else EFI_UNSUPPORTED) \<and>
         (take 4 img \<noteq> [0x7F, 0x45, 0x4C, 0x46] \<or> img ! 4 = 1)))"
proof -
  have u: "unat (0 :: u64) + unat (64 :: u64) \<le> length img" "unat (64 :: u64) = 64" using len by simp_all
  obtain r t where r: "read_file fw fh 0 64 s = Some (r, t)"
    "case r of Inl e \<Rightarrow> EFI_ERROR e | Inr b \<Rightarrow> boot_quiet fw A p4 s t \<and> (\<forall>i<64. b_mem t (b + of_nat i) = img ! i)"
    using read_file_outcome [OF c fs inv u(1), unfolded u(2)] by (auto simp: sum.case_eq_if)
  show ?thesis
  proof (cases r)
    case (Inl e)
    with r fails_last_read_file [of fw fh 0 64 s] show ?thesis by (auto simp: read_header_file fails_last_def)
  next
    case (Inr b)
    with r(2) have m: "boot_quiet fw A p4 s t" "\<And>i. i < 64 \<Longrightarrow> b_mem t (b + of_nat i) = img ! i" by auto
    show ?thesis using r(1) Inr m(1) m(2) [of 0] m(2) [of 1] m(2) [of 2] m(2) [of 3] m(2) [of 4] len magic_iff [of img]
      by (auto simp: read_header_file)
  qed
qed

lemma fails_last_LoadKernel:
  assumes c: "conforming fw A" and kf: "kernel_file fw img" and inv: "boot_inv fw A p4 s" and ok: "elf_ok A img"
  shows "fails_last fw (LoadKernel fw s)"
proof -
  have "fails_last fw (read_header fw fh s1)" if o: "open_kernel fw s = Some (Inr fh, s1)" for fh s1
  proof -
    have fs: "serves fw fh img" "boot_inv fw A p4 s1"
      using open_kernel_outcome [OF c kf inv] o boot_quiet_inv by auto
    from read_header_checks [OF c fs] ok show ?thesis by (auto simp: fails_last_def elf_ok_def)
  qed
  then show ?thesis unfolding LoadKernel_def Let_def read_program_headers_file
    by (intro fails_last_seq fails_last_return fails_last_open fails_last_read_file fails_last_alloc_entries
        fails_last_load_segments fails_last_close_kernel)
qed

section \<open>A small image\<close>

lemma demo_file_pos:
  assumes "length img < 2 ^ 63"
  shows "file_pos (demo_uefi img) 7 img h = next_pos (length img) h"
proof (induction h)
  case (Cons c h)
  with assms show ?case by (cases c) (auto simp: Let_def out_or_def unat_of_nat64)
qed simp

lemma demo_serves: "length img < 2 ^ 63 \<Longrightarrow> serves (demo_uefi img) 7 img"
  by (auto simp: serves_def Let_def demo_file_pos unat_of_nat64)

lemma demo_kernel_file: "length img < 2 ^ 63 \<Longrightarrow> kernel_file (demo_uefi img) img"
  by (simp add: kernel_file_def demo_serves)

text \<open>One program header; its segment has four bytes in the file and eight in memory.\<close>

definition demo_img :: "u8 list" where
  "demo_img =
     [0x7F,0x45,0x4C,0x46,2,1,1,0,0,0,0,0,0,0,0,0, 2,0,0x3E,0,1,0,0,0, 0,0,0,0x80,0xFF,0xFF,0xFF,0xFF,
      64,0,0,0,0,0,0,0, 0,0,0,0,0,0,0,0, 0,0,0,0,64,0,56,0,1,0,0,0,0,0,0,0,
      1,0,0,0,5,0,0,0, 120,0,0,0,0,0,0,0, 0,0,0,0x80,0xFF,0xFF,0xFF,0xFF, 0,0,0,0,0,0,0,0,
      4,0,0,0,0,0,0,0, 8,0,0,0,0,0,0,0, 0,0x10,0,0,0,0,0,0, 0xFA,0xF4,0xEB,0xFE]"

lemma demo_img_simps [simp]:
  "length demo_img = 124" "img_phnum demo_img = 1" "e_phoff (img_ehdr demo_img) = 64" "e_entry (img_ehdr demo_img) = 0xFFFFFFFF80000000"
  by (simp_all add: demo_img_def ehdr_at_def img_mem_def load16_def load32_def load64_def)


lemma demo_img_phdr:
  "img_phdr demo_img 0 = \<lparr>p_type = 1, p_flags = 5, p_offset = 120, p_vaddr = 0xFFFFFFFF80000000, p_paddr = 0, p_filesz = 4,
     p_memsz = 8, p_align = 0x1000\<rparr>"
  unfolding img_phdr_def by (simp, simp add: demo_img_def phdr_at_def img_mem_def load16_def load32_def load64_def)

lemma demo_loadable [simp]: "loadable demo_img k \<longleftrightarrow> k = 0"
  by (auto simp: loadable_def demo_img_phdr)

lemma demo_elf_ok: "elf_ok demo_frames demo_img"
proof -
  have "unat (seg_pages (img_phdr demo_img 0)) = 1"
    by (simp add: demo_img_phdr seg_pages_def EFI_SIZE_TO_PAGES_def kconst)
  then have "seg_range (img_phdr demo_img 0) = {page 0xFFFFFFFF80000000}"
    by (simp add: seg_range_def lessThan_Suc) (simp add: demo_img_phdr)
  moreover have "page 0xFFFFFFFF80000000 \<notin> (\<lambda>f. page (frame_addr f)) ` demo_frames"
    by (auto simp: page_number unat_frame_addr)
  ultimately have "seg_range (img_phdr demo_img 0) \<inter> (\<lambda>f. page (frame_addr f)) ` demo_frames = {}" by simp
  then have "seg_ok demo_frames (img_phdr demo_img 0)"
    unfolding seg_ok_def by (intro conjI) (simp_all add: demo_img_phdr)
  moreover have "take 4 demo_img = [0x7F, 0x45, 0x4C, 0x46]" "demo_img ! 4 = 2" by (simp_all add: demo_img_def)
  ultimately show ?thesis unfolding elf_ok_def by simp
qed

section \<open>Properties\<close>

text \<open>
  C2. Loading the kernel: for an image the loader can take, \<open>LoadKernel\<close> returns; with the error of a service call that failed, or with the entry point
  of the image, the number of its loadable segments in \<^verbatim>\<open>kinfo\<close>, the root table unchanged and the page tables a tree of
  held pages. If a page of memory is left then, every byte of every loadable segment can be read at its virtual
  address through these tables.
\<close>
theorem LoadKernel_loads_image:
  assumes "conforming fw A" "kernel_file fw img" "boot_inv fw A (b_pml4 s) s" "elf_ok A img"
  shows "\<exists>r t. LoadKernel fw s = Some (r, t) \<and>
    (case r of Inl e \<Rightarrow> EFI_ERROR e \<and> er_status (ef_call fw (b_efi t)) = e
     | Inr entry \<Rightarrow> entry = e_entry (img_ehdr img) \<and> b_pml4 t = b_pml4 s \<and> boot_inv fw A (b_pml4 t) t \<and>
         b_num_ke t = of_nat (nloads img (img_phnum img)) \<and>
         (free_pages fw A (b_efi t) \<noteq> {} \<longrightarrow>
           (\<forall>k. loadable img k \<longrightarrow> (\<forall>i<unat (p_memsz (img_phdr img k)).
              boot_load (b_pml4 t) t (p_vaddr (img_phdr img k) + of_nat i) = seg_byte img (img_phdr img k) i))))"
proof -
  from LoadKernel_outcome [OF assms] obtain r t where r: "LoadKernel fw s = Some (r, t)"
    "case r of Inl e \<Rightarrow> EFI_ERROR e
     | Inr entry \<Rightarrow> entry = e_entry (img_ehdr img) \<and> b_pml4 t = b_pml4 s \<and> b_num_ke t = of_nat (nloads img (img_phnum img)) \<and>
         kernel_loaded fw A (b_pml4 s) img t" by blast
  show ?thesis
  proof (cases r)
    case (Inl e)
    with r fails_last_LoadKernel [OF assms] show ?thesis by (simp add: fails_last_def)
  next
    case (Inr entry)
    with r(2) have k: "entry = e_entry (img_ehdr img)" "b_pml4 t = b_pml4 s" "b_num_ke t = of_nat (nloads img (img_phnum img))"
      "kernel_loaded fw A (b_pml4 s) img t" by auto
    then have inv: "boot_inv fw A (b_pml4 s) t" by (simp add: kernel_loaded_def)
    have "boot_load (b_pml4 s) t (p_vaddr (img_phdr img j) + of_nat i) = seg_byte img (img_phdr img j) i"
      if j: "free_pages fw A (b_efi t) \<noteq> {}" "loadable img j" "i < unat (p_memsz (img_phdr img j))" for j i
    proof -
      have "j < img_phnum img" using j(2) by (simp add: loadable_def)
      then obtain f where "loaded fw A (b_pml4 s) {} img (img_phdr img j) f t"
        using k(4) j(1,2) unfolding kernel_loaded_def segments_loaded_def by blast
      moreover have "seg_ok A (img_phdr img j)" using assms(4) j(2) by (simp add: elf_ok_def)
      ultimately show ?thesis using j(3) by (intro loaded_reads [OF inv])
    qed
    with r(1) Inr k inv show ?thesis by simp
  qed
qed

theorem LoadKernel_loads_image_witness:
  "conforming (demo_uefi demo_img) demo_frames \<and> kernel_file (demo_uefi demo_img) demo_img \<and>
   boot_inv (demo_uefi demo_img) demo_frames 0x100000 demo_boot \<and> elf_ok demo_frames demo_img \<and>
   (\<exists>r t. LoadKernel (demo_uefi demo_img) demo_boot = Some (r, t) \<and>
     (case r of Inl e \<Rightarrow> EFI_ERROR e \<and> er_status (ef_call (demo_uefi demo_img) (b_efi t)) = e
      | Inr entry \<Rightarrow> entry = 0xFFFFFFFF80000000 \<and> b_num_ke t = 1 \<and>
          (free_pages (demo_uefi demo_img) demo_frames (b_efi t) \<noteq> {} \<longrightarrow>
             boot_load 0x100000 t 0xFFFFFFFF80000000 = 0xFA \<and> boot_load 0x100000 t 0xFFFFFFFF80000007 = 0)))"
proof -
  have kf: "kernel_file (demo_uefi demo_img) demo_img" by (rule demo_kernel_file) simp
  have p: "b_pml4 demo_boot = 0x100000" by (simp add: demo_boot_def)
  note t = LoadKernel_loads_image [OF demo_conforming kf _ demo_elf_ok, of demo_boot, unfolded p, OF demo_boot_inv]
  then obtain r t where r: "LoadKernel (demo_uefi demo_img) demo_boot = Some (r, t)"
    "case r of Inl e \<Rightarrow> EFI_ERROR e \<and> er_status (ef_call (demo_uefi demo_img) (b_efi t)) = e
     | Inr entry \<Rightarrow> entry = 0xFFFFFFFF80000000 \<and> b_pml4 t = 0x100000 \<and> boot_inv (demo_uefi demo_img) demo_frames (b_pml4 t) t \<and>
         b_num_ke t = of_nat (nloads demo_img 1) \<and>
         (free_pages (demo_uefi demo_img) demo_frames (b_efi t) \<noteq> {} \<longrightarrow>
           (\<forall>k. loadable demo_img k \<longrightarrow> (\<forall>i<unat (p_memsz (img_phdr demo_img k)).
              boot_load (b_pml4 t) t (p_vaddr (img_phdr demo_img k) + of_nat i) = seg_byte demo_img (img_phdr demo_img k) i)))"
    unfolding demo_img_simps by blast
  have b: "seg_byte demo_img (img_phdr demo_img 0) 0 = 0xFA" "seg_byte demo_img (img_phdr demo_img 0) 7 = 0"
    by (simp_all add: seg_byte_def demo_img_phdr) (simp_all add: demo_img_def)
  have "case r of Inl e \<Rightarrow> EFI_ERROR e \<and> er_status (ef_call (demo_uefi demo_img) (b_efi t)) = e
      | Inr entry \<Rightarrow> entry = 0xFFFFFFFF80000000 \<and> b_num_ke t = 1 \<and>
          (free_pages (demo_uefi demo_img) demo_frames (b_efi t) \<noteq> {} \<longrightarrow>
             boot_load 0x100000 t 0xFFFFFFFF80000000 = 0xFA \<and> boot_load 0x100000 t 0xFFFFFFFF80000007 = 0)"
  proof (cases r)
    case (Inr x)
    have i: "0 < unat (p_memsz (img_phdr demo_img 0))" "7 < unat (p_memsz (img_phdr demo_img 0))" by (simp_all add: demo_img_phdr)
    have v: "p_vaddr (img_phdr demo_img 0) = 0xFFFFFFFF80000000" by (simp add: demo_img_phdr)
    have "boot_load 0x100000 t (0xFFFFFFFF80000000 + of_nat i) = seg_byte demo_img (img_phdr demo_img 0) i"
      if "free_pages (demo_uefi demo_img) demo_frames (b_efi t) \<noteq> {}" "i < unat (p_memsz (img_phdr demo_img 0))" for i
      using Inr r(2) that v by auto
    from this [of 0] this [of 7] Inr r(2) i b show ?thesis by auto
  qed (use r(2) in simp)
  with r(1) kf demo_conforming demo_boot_inv demo_elf_ok show ?thesis by blast
qed

text \<open>
  C23. A file that is not a 64-bit ELF image: if it does not start with the magic number, or says that it is 32-bit,
  \<open>LoadKernel\<close> returns \<^verbatim>\<open>EFI_INVALID_PARAMETER\<close> or \<^verbatim>\<open>EFI_UNSUPPORTED\<close>, with no field of \<^verbatim>\<open>kinfo\<close> changed and the page
  tables still a tree of held pages, unless a service call has failed before: then its status is returned.
\<close>
theorem LoadKernel_rejects:
  assumes "conforming fw A" "kernel_file fw img" "boot_inv fw A p4 s" "64 \<le> length img"
    and "take 4 img \<noteq> [0x7F, 0x45, 0x4C, 0x46] \<or> img ! 4 = 1"
  shows "\<exists>e t. LoadKernel fw s = Some (Inl e, t) \<and> EFI_ERROR e \<and>
    (e = (if take 4 img \<noteq> [0x7F, 0x45, 0x4C, 0x46] then EFI_INVALID_PARAMETER else EFI_UNSUPPORTED) \<and>
       boot_only s t \<and> boot_inv fw A p4 t
     \<or> e = er_status (ef_call fw (b_efi t)))"
proof -
  obtain r1 s1 where 1: "open_kernel fw s = Some (r1, s1)"
    "case r1 of Inl e \<Rightarrow> EFI_ERROR e | Inr fh \<Rightarrow> boot_quiet fw A p4 s s1 \<and> serves fw fh img"
    using open_kernel_outcome [OF assms(1-3)] by blast
  show ?thesis
  proof (cases r1)
    case (Inl e)
    with 1 fails_last_open [of fw s] show ?thesis by (auto simp: LoadKernel_def fails_last_def)
  next
    case r1: (Inr fh)
    with 1(2) have q: "boot_quiet fw A p4 s s1" and fs: "serves fw fh img" by auto
    from read_header_checks [OF assms(1) fs boot_quiet_inv [OF q] assms(4)] 1(1) r1 assms(5)
    show ?thesis using boot_quiet_trans [OF q] boot_quiet_inv by (fastforce simp: LoadKernel_def boot_quiet_def split: sum.splits)
  qed
qed

theorem LoadKernel_rejects_witness:
  "conforming (demo_uefi (replicate 64 0)) demo_frames \<and> kernel_file (demo_uefi (replicate 64 0)) (replicate 64 0) \<and>
   boot_inv (demo_uefi (replicate 64 0)) demo_frames 0x100000 demo_boot \<and>
   (\<exists>e t. LoadKernel (demo_uefi (replicate 64 0)) demo_boot = Some (Inl e, t) \<and> EFI_ERROR e \<and>
     (e = EFI_INVALID_PARAMETER \<or> e = er_status (ef_call (demo_uefi (replicate 64 0)) (b_efi t))))"
proof -
  have kf: "kernel_file (demo_uefi (replicate 64 0)) (replicate 64 0)" by (rule demo_kernel_file) simp
  have "take 4 (replicate 64 (0 :: u8)) \<noteq> [0x7F, 0x45, 0x4C, 0x46]" by (subst magic_iff) simp_all
  then show ?thesis
    using LoadKernel_rejects [OF demo_conforming kf demo_boot_inv] kf demo_conforming demo_boot_inv by fastforce
qed

end
