(* ===== verification/Boot_Map.thy ===== *)
theory Boot_Map
  imports Boot_Image
begin

text \<open>
  \<^verbatim>\<open>src/boot/mem.c\<close>, second half: \<open>GetMMAP\<close>, \<open>ParseMMAP\<close> and \<open>FreeMMAP\<close>. \<open>ParseMMAP\<close> maps the memory the firmware
  reports to itself and sizes the frame bitmap of the kernel; \<open>kinfo_mem\<close> is what it hands over, as a state of the
  kernel's model. \<open>id_maps\<close> is about mappings of frames to themselves, \<open>evolves\<close> about everything that stays as it is
  while the loader goes on, service calls that give memory back included.
\<close>

section \<open>Definitions\<close>

text \<open>\<open>key\<close> is the value of \<^verbatim>\<open>*mmap_key\<close> before the call, the result its value after it.\<close>

definition GetMMAP :: "uefi \<Rightarrow> u64 \<Rightarrow> boot \<Rightarrow> u64 efi_result" where
  "GetMMAP fw key s =
     (let (r, s) = efi fw (GetMemoryMap 0 NULL) s;
          mmap_size = out_or 0 (er_out r);
          descriptor_size = out_or 0 (er_desc_size r);
          key = out_or key (er_key r)
      in if EFI_ERROR (er_status r) \<and> er_status r \<noteq> EFI_BUFFER_TOO_SMALL then Some (Inl (er_status r), s)
         else let mmap_size = mmap_size + 2 * descriptor_size in
         efi_seq (efi_try fw (AllocatePool EfiLoaderData mmap_size) s) (\<lambda>r s.
         let mmap = out_or NULL (er_out r) in
         efi_seq (efi_try fw (GetMemoryMap mmap_size mmap) s) (\<lambda>r s.
         Some (Inr (out_or key (er_key r)),
           s\<lparr>b_mmap := mmap, b_mmap_size := out_or mmap_size (er_out r),
             b_mmap_desc_size := out_or descriptor_size (er_desc_size r)\<rparr>))))"

definition md_at :: "u64 \<Rightarrow> bytes \<Rightarrow> mmap_desc_t" where
  "md_at a m = \<lparr>md_type = load32 a m, md_physical_start = load64 (a + 8) m, md_virtual_start = load64 (a + 16) m,
     md_count = load64 (a + 24) m, md_attributes = load64 (a + 32) m\<rparr>"

definition mapped_types :: "u32 list" where
  "mapped_types = [1, 2, 3, 4, 7, 9]"

text \<open>
  The loop over the descriptors with its variable \<^verbatim>\<open>max_addr\<close>. The results of \<open>MapRange\<close> are not looked at.
\<close>

primrec parse_entries :: "uefi \<Rightarrow> nat \<Rightarrow> boot \<Rightarrow> (u64 \<times> boot) option" where
  "parse_entries fw 0 s = Some (0, s)"
| "parse_entries fw (Suc i) s =
     Option.bind (parse_entries fw i s) (\<lambda>(max_addr, s).
       let cur_desc = md_at (b_mmap s + of_nat i * b_mmap_desc_size s) (b_mem s);
           new_max_addr = md_physical_start cur_desc + md_count cur_desc * PAGE_SIZE;
           max_addr = (if new_max_addr > max_addr then new_max_addr else max_addr)
       in if md_type cur_desc \<in> set mapped_types
          then map_option (\<lambda>(_, s). (max_addr, s))
            (if md_physical_start cur_desc = 0
             then MapRange fw PAGE_SIZE PAGE_SIZE (md_count cur_desc - 1) (b_pml4 s) s
             else MapRange fw (md_physical_start cur_desc) (md_physical_start cur_desc) (md_count cur_desc) (b_pml4 s) s)
          else Some (max_addr, s))"

text \<open>
  The division by the descriptor size traps when it is 0. The status of \<^verbatim>\<open>AllocatePages\<close> is not looked at: when it
  fails, \<^verbatim>\<open>kinfo->mem.bitmap\<close> keeps its old value.
\<close>

definition ParseMMAP :: "uefi \<Rightarrow> boot \<Rightarrow> unit efi_result" where
  "ParseMMAP fw s =
     (if b_mmap_desc_size s = 0 then None
      else Option.bind (parse_entries fw (unat (b_mmap_size s div b_mmap_desc_size s)) s) (\<lambda>(max_addr, s).
        let mem_pages = max_addr div PAGE_SIZE;
            bitmap_size = DIV_CEIL mem_pages 64 * 8;
            (r, s) = efi fw (AllocatePages EfiLoaderData (EFI_SIZE_TO_PAGES bitmap_size)) s;
            s = s\<lparr>b_bitmap := out_or (b_bitmap s) (er_out r)\<rparr>;
            bitmap_location = b_bitmap s
        in efi_seq
            (efi_for (unat (SIZE_TO_PAGES bitmap_size)) (\<lambda>i.
               MapAddr fw (bitmap_location + of_nat i * PAGE_SIZE) (bitmap_location + of_nat i * PAGE_SIZE) (b_pml4 s)) s)
            (\<lambda>_ s. Some (Inr (), s\<lparr>b_bitmap := bitmap_location, b_bitmap_entries := bitmap_size div 8,
               b_bitmap_size := SIZE_TO_PAGES bitmap_size, b_mem_pages := mem_pages\<rparr>))))"

definition FreeMMAP :: "uefi \<Rightarrow> boot \<Rightarrow> unit efi_result" where
  "FreeMMAP fw s = efi_seq (efi_try fw (FreePool (b_mmap s)) s) (\<lambda>_ s. Some (Inr (), s))"

section \<open>What the kernel is handed\<close>

text \<open>
  \<^verbatim>\<open>kinfo->mem\<close>, with the arrays behind its pointers, as the kernel's model has it (the pointer to the kernel entries is a
  virtual address; \<^verbatim>\<open>vmm\<close> is not filled in by the loader).
\<close>

definition kinfo_mem :: "boot \<Rightarrow> kmem" where
  "kinfo_mem s = \<lparr>km_mmap = (\<lambda>i. md_at (b_mmap s + of_nat i * b_mmap_desc_size s) (b_mem s)),
     km_mmap_size = b_mmap_size s, km_mmap_desc_size = b_mmap_desc_size s, km_num_ke = b_num_ke s,
     km_ke = (\<lambda>i. let e = b_ke s + 24 * of_nat i; m = boot_load (b_pml4 s) s
       in \<lparr>ke_vaddr = load64 e m, ke_paddr = load64 (e + 8) m, ke_num_pages = load64 (e + 16) m\<rparr>), km_pml4 = b_pml4 s,
     km_bitmap = (\<lambda>r. load64 (b_bitmap s + 8 * of_nat r) (b_mem s)), km_bitmap_addr = b_bitmap s,
     km_bitmap_entries = b_bitmap_entries s, km_bitmap_size = b_bitmap_size s, km_mem_pages = b_mem_pages s,
     k_vmm = \<lparr>vm_flags = 0, vm_p4_tbl = 0, vm_bm = demo_region\<rparr>\<rparr>"

section \<open>Identity mappings\<close>

abbreviation frame_page :: "nat \<Rightarrow> u64 list \<times> u64" where
  "frame_page f \<equiv> page (frame_addr f)"

text \<open>From \<open>s\<close> to \<open>t\<close> the frames \<open>F\<close> have been mapped to themselves, as far as there was memory for the tables.\<close>

definition id_maps :: "uefi \<Rightarrow> nat set \<Rightarrow> u64 \<Rightarrow> nat set \<Rightarrow> boot \<Rightarrow> boot \<Rightarrow> bool" where
  "id_maps fw A p4 F s t \<longleftrightarrow> boot_steps fw A p4 s t \<and> other_pages fw A p4 (frame_page ` F) s t \<and>
     (free_pages fw A (b_efi t) \<noteq> {} \<longrightarrow> (\<forall>g<2 ^ 35. g \<in> F \<or> pview (view fw A s) p4 (frame_page g) = frame_addr g \<longrightarrow>
        pview (view fw A t) p4 (frame_page g) = frame_addr g))"

lemma id_maps_refl: "conforming fw A \<Longrightarrow> boot_inv fw A p4 s \<Longrightarrow> id_maps fw A p4 {} s s"
  by (simp add: id_maps_def boot_steps_refl)

lemma other_pages_mono: "other_pages fw A p4 X s t \<Longrightarrow> X \<subseteq> Y \<Longrightarrow> other_pages fw A p4 Y s t"
  unfolding other_pages_def by blast

lemma id_maps_trans:
  assumes c: "conforming fw A" and "id_maps fw A p4 F s t" "id_maps fw A p4 G t u"
  shows "id_maps fw A p4 (F \<union> G) s u"
proof -
  have st: "boot_steps fw A p4 s t" "boot_steps fw A p4 t u" using assms(2,3) by (simp_all add: id_maps_def)
  have "free_pages fw A (b_efi u) \<subseteq> free_pages fw A (b_efi t)" by (rule free_mono [OF c st(2)])
  moreover have "other_pages fw A p4 (frame_page ` (F \<union> G)) s u"
    using assms(2,3) other_pages_trans [of fw A p4 "frame_page ` F" s t "frame_page ` G" u] by (auto simp: id_maps_def image_Un)
  ultimately show ?thesis using assms(2,3) boot_steps_trans [OF c st] unfolding id_maps_def by blast
qed

lemma frame_page_inj: "f < 2 ^ 35 \<Longrightarrow> g < 2 ^ 35 \<Longrightarrow> frame_page f = frame_page g \<longleftrightarrow> f = g"
  by (auto simp: page_number unat_frame_addr)

lemma frame_addr_mask: "f < 2 ^ 35 \<Longrightarrow> frame_addr f AND SIGN_MASK = frame_addr f"
  by (rule frame_addr_SIGN_MASK) simp

lemma MapAddr_ids:
  assumes c: "conforming fw A" and inv: "boot_inv fw A p4 s"
    and v: "\<forall>g<2 ^ 35. page virt = frame_page g \<longrightarrow> phys AND SIGN_MASK = frame_addr g"
  shows "\<exists>r t. MapAddr fw phys virt p4 s = Some (r, t) \<and> boot_steps fw A p4 s t \<and> other_pages fw A p4 {page virt} s t \<and>
    (case r of Inl e \<Rightarrow> EFI_ERROR e \<and> free_pages fw A (b_efi t) = {}
     | Inr _ \<Rightarrow> pview (view fw A t) p4 (page virt) = phys AND SIGN_MASK \<and>
         (\<forall>g<2 ^ 35. pview (view fw A s) p4 (frame_page g) = frame_addr g \<longrightarrow> pview (view fw A t) p4 (frame_page g) = frame_addr g))"
proof -
  note A = conformingD(1) [OF c] and ff = view_free [OF conformingD(1) [OF c]]
  from MapAddr_mapped [OF c inv, of phys virt] obtain r t where
    r: "MapAddr fw phys virt p4 s = Some (r, t)" "mapped fw A p4 (page virt) (phys AND SIGN_MASK) s r t" by blast
  show ?thesis
  proof (cases r)
    case (Inl e)
    with r(2) have "boot_steps fw A p4 s t" "EFI_ERROR e" "free_pages fw A (b_efi t) = {}" "keeps_pages p4 (view fw A s) (view fw A t)"
      by (auto simp: mapped_def failed_def)
    moreover from this(4) have "other_pages fw A p4 X s t" for X
      unfolding keeps_pages_def other_pages_def ff by (auto simp: free_pages_def)
    ultimately show ?thesis using r(1) Inl by auto
  next
    case (Inr x)
    with r(2) have st: "boot_steps fw A p4 s t" and m: "pview (view fw A t) p4 (page virt) = phys AND SIGN_MASK"
      "adds_ids p4 {page virt} (view fw A s) (view fw A t)" by (auto simp: mapped_def maps_page_def grown_def)
    let ?N = "free_pages fw A (b_efi s) - free_pages fw A (b_efi t)"
    note ids = m(2) [unfolded adds_ids_def ff]
    have "pview (view fw A t) p4 (frame_page g) = frame_addr g"
      if g: "g < 2 ^ 35" "pview (view fw A s) p4 (frame_page g) = frame_addr g" for g
    proof (cases "frame_page g = page virt")
      case True
      then show ?thesis using v g(1) m(1) by simp
    next
      case other: False
      show ?thesis
      proof (cases "frame_page g \<in> frame_page ` ?N")
        case True
        then obtain h where h: "h \<in> ?N" "frame_page g = frame_page h" by blast
        then have "h < 2 ^ 35" using A by (auto simp: free_pages_def)
        with h g(1) have "g = h" using frame_page_inj by blast
        with h(1) other ids show ?thesis by simp
      next
        case False
        then show ?thesis using ids [THEN conjunct2, rule_format, of "frame_page g"] g(2) other by simp
      qed
    qed
    moreover have "other_pages fw A p4 {page virt} s t"
      using ids [THEN conjunct2] image_mono [of _ A frame_page] unfolding other_pages_def free_pages_def by blast
    ultimately show ?thesis using r(1) Inr st m(1) by auto
  qed
qed

lemma MapAddr_id:
  assumes c: "conforming fw A" and inv: "boot_inv fw A p4 s" and f: "f < 2 ^ 35"
  shows "\<exists>r t. MapAddr fw (frame_addr f) (frame_addr f) p4 s = Some (r, t) \<and> id_maps fw A p4 {f} s t \<and>
    (case r of Inl e \<Rightarrow> EFI_ERROR e \<and> free_pages fw A (b_efi t) = {} | Inr _ \<Rightarrow> True)"
proof -
  have "\<forall>g<2 ^ 35. frame_page f = frame_page g \<longrightarrow> frame_addr f AND SIGN_MASK = frame_addr g"
    using frame_page_inj [OF f] frame_addr_mask [OF f] by auto
  from MapAddr_ids [OF c inv this] obtain r t where "MapAddr fw (frame_addr f) (frame_addr f) p4 s = Some (r, t)"
    "boot_steps fw A p4 s t" "other_pages fw A p4 {frame_page f} s t"
    "case r of Inl e \<Rightarrow> EFI_ERROR e \<and> free_pages fw A (b_efi t) = {}
     | Inr _ \<Rightarrow> pview (view fw A t) p4 (frame_page f) = frame_addr f \<and>
         (\<forall>g<2 ^ 35. pview (view fw A s) p4 (frame_page g) = frame_addr g \<longrightarrow> pview (view fw A t) p4 (frame_page g) = frame_addr g)"
    unfolding frame_addr_mask [OF f] by blast
  then show ?thesis by (cases r) (auto simp: id_maps_def)
qed

lemma MapRange_id:
  assumes c: "conforming fw A" and inv: "boot_inv fw A p4 s" and f: "f + unat n \<le> 2 ^ 35"
  shows "\<exists>r t. MapRange fw (frame_addr f) (frame_addr f) n p4 s = Some (r, t) \<and> id_maps fw A p4 {f..<f + unat n} s t \<and>
    (case r of Inl e \<Rightarrow> EFI_ERROR e \<and> free_pages fw A (b_efi t) = {} | Inr _ \<Rightarrow> True)"
proof -
  let ?Q = "\<lambda>e t. EFI_ERROR e \<and> free_pages fw A (b_efi t) = {} \<and> id_maps fw A p4 {f..<f + unat n} s t"
  have "\<exists>r t. MapRange fw (frame_addr f) (frame_addr f) n p4 s = Some (r, t) \<and>
    (case r of Inr _ \<Rightarrow> id_maps fw A p4 {f..<f + unat n} s t | Inl e \<Rightarrow> ?Q e t)"
    unfolding MapRange_def
  proof (rule efi_for_returns)
    show "id_maps fw A p4 {f..<f + 0} s s" using id_maps_refl [OF c inv] by simp
    fix i u assume i: "i < unat n" and u: "id_maps fw A p4 {f..<f + i} s u"
    have inv': "boot_inv fw A p4 u" using u by (simp add: id_maps_def boot_steps_def)
    have fi: "frame_addr f + of_nat i * PAGE_SIZE = frame_addr (f + i)" by (simp add: frame_addr_def algebra_simps)
    have "f + i < 2 ^ 35" using i f by simp
    from MapAddr_id [OF c inv' this] obtain r v where v: "MapAddr fw (frame_addr (f + i)) (frame_addr (f + i)) p4 u = Some (r, v)"
      "id_maps fw A p4 {f + i} u v" "case r of Inl e \<Rightarrow> EFI_ERROR e \<and> free_pages fw A (b_efi v) = {} | Inr _ \<Rightarrow> True" by blast
    have "{f..<f + i} \<union> {f + i} = {f..<f + Suc i}" by auto
    then have s: "id_maps fw A p4 {f..<f + Suc i} s v" using id_maps_trans [OF c u v(2)] by simp
    moreover have "id_maps fw A p4 {f..<f + unat n} s v" if "free_pages fw A (b_efi v) = {}"
    proof -
      have "frame_page ` {f..<f + Suc i} \<subseteq> frame_page ` {f..<f + unat n}" using i by (intro image_mono) auto
      with s have "other_pages fw A p4 (frame_page ` {f..<f + unat n}) s v" unfolding id_maps_def by (blast intro: other_pages_mono)
      with s that show ?thesis unfolding id_maps_def by simp
    qed
    ultimately show "\<exists>r v. MapAddr fw (frame_addr f + of_nat i * PAGE_SIZE) (frame_addr f + of_nat i * PAGE_SIZE) p4 u = Some (r, v) \<and>
        (case r of Inl e \<Rightarrow> ?Q e v | Inr x \<Rightarrow> id_maps fw A p4 {f..<f + Suc i} s v)"
      unfolding fi using v(1,3) by (cases r) auto
  qed
  then obtain r t where r: "MapRange fw (frame_addr f) (frame_addr f) n p4 s = Some (r, t)"
    "case r of Inr _ \<Rightarrow> id_maps fw A p4 {f..<f + unat n} s t | Inl e \<Rightarrow> ?Q e t" by blast
  then show ?thesis by (cases r) auto
qed


section \<open>The descriptors\<close>

abbreviation desc_of :: "boot \<Rightarrow> nat \<Rightarrow> mmap_desc_t" where
  "desc_of s i \<equiv> km_mmap (kinfo_mem s) i"

text \<open>
  A memory map as the UEFI specification has it, for physical addresses below 128 TiB: the descriptors are at least
  as long as the part the loader reads and lie in the map, there is one, regions are not empty and start at a page.
\<close>

definition map_sane :: "boot \<Rightarrow> bool" where
  "map_sane s \<longleftrightarrow> 0 < mmap_entries (kinfo_mem s) \<and> 40 \<le> unat (b_mmap_desc_size s) \<and> unat (b_mmap_size s) < 2 ^ 63 \<and>
     (\<forall>i<mmap_entries (kinfo_mem s). let d = desc_of s i in
        unat (md_physical_start d) mod 4096 = 0 \<and> 0 < unat (md_count d) \<and>
        unat (md_physical_start d) div 4096 + unat (md_count d) \<le> 2 ^ 35)"

definition desc_end :: "mmap_desc_t \<Rightarrow> nat" where
  "desc_end d = unat (md_physical_start d) div 4096 + unat (md_count d)"

definition mapped_frames :: "boot \<Rightarrow> nat \<Rightarrow> nat set" where
  "mapped_frames s n = (\<Union>i\<in>{i. i < n \<and> md_type (desc_of s i) \<in> set mapped_types}.
     area_frames (md_physical_start (desc_of s i)) (md_count (desc_of s i)) - {0})"

definition map_end :: "boot \<Rightarrow> nat \<Rightarrow> nat" where
  "map_end s n = fold max (map (\<lambda>i. desc_end (desc_of s i)) [0..<n]) 0"

lemma map_end_simps [simp]: "map_end s 0 = 0" "map_end s (Suc n) = max (desc_end (desc_of s n)) (map_end s n)"
  by (simp_all add: map_end_def)

lemma map_end_le: "i < n \<Longrightarrow> desc_end (desc_of s i) \<le> map_end s n"
  by (induction n) (auto simp: less_Suc_eq)

lemma md_shift:
  assumes "\<And>i. i < 40 \<Longrightarrow> m (a + of_nat i) = m' (a + of_nat i)"
  shows "md_at a m = md_at a m'"
proof -
  have "load64 (a + of_nat k) m = load64 (a + of_nat k) m'" if "k + 8 \<le> 40" for k
    using assms [of "k + _"] that by (intro load64_shift) (simp add: add.assoc)
  from this [of 8] this [of 16] this [of 24] this [of 32]
  have "load64 (a + 8) m = load64 (a + 8) m'" "load64 (a + 16) m = load64 (a + 16) m'" "load64 (a + 24) m = load64 (a + 24) m'"
    "load64 (a + 32) m = load64 (a + 32) m'" by simp_all
  moreover have "load32 a m = load32 a m'" using assms by (intro load32_shift) simp
  ultimately show ?thesis by (simp add: md_at_def)
qed

lemma desc_keep:
  assumes c: "conforming fw A" and st: "boot_grow fw A p4 W s t" and m: "map_sane s" and i: "i < mmap_entries (kinfo_mem s)"
    and h: "span (b_mmap s) (unat (b_mmap_size s)) \<subseteq> held fw (b_efi s) - table_bytes fw A p4 s"
      "W \<inter> span (b_mmap s) (unat (b_mmap_size s)) = {}"
  shows "md_at (b_mmap s + of_nat i * b_mmap_desc_size s) (b_mem t) = desc_of s i"
proof -
  let ?d = "unat (b_mmap_desc_size s)" and ?n = "unat (b_mmap_size s)"
  have d: "40 \<le> ?d" "?n < 2 ^ 63" using m by (auto simp: map_sane_def)
  have "i < ?n div ?d" using i by (simp add: mmap_entries_def kinfo_mem_def unat_div)
  then have "Suc i * ?d \<le> ?n" using d by (meson Suc_leI div_times_less_eq_dividend le_trans mult_le_mono1)
  then have "span (b_mmap s + of_nat (i * ?d)) 40 \<subseteq> span (b_mmap s) ?n" using d by (intro sub_span) auto
  moreover have a: "of_nat (i * ?d) = of_nat i * b_mmap_desc_size s" by simp
  moreover have "b_mmap s + of_nat i * b_mmap_desc_size s + of_nat k \<in> span (b_mmap s + of_nat i * b_mmap_desc_size s) 40" if "k < 40" for k
    using that by (subst span_offset) simp_all
  ultimately have "b_mmap s + of_nat i * b_mmap_desc_size s + of_nat k \<in> span (b_mmap s) ?n" if "k < 40" for k
    using that by auto
  then have "b_mem t (b_mmap s + of_nat i * b_mmap_desc_size s + of_nat k) = b_mem s (b_mmap s + of_nat i * b_mmap_desc_size s + of_nat k)"
    if "k < 40" for k using that h st unfolding boot_grow_def by blast
  then show ?thesis unfolding kinfo_mem_def kmem.simps by (rule md_shift)
qed

section \<open>ParseMMAP\<close>

lemma desc_maps:
  fixes d :: mmap_desc_t
  assumes c: "conforming fw A" and inv: "boot_inv fw A p4 s"
    and d: "unat (md_physical_start d) mod 4096 = 0" "0 < unat (md_count d)" "desc_end d \<le> 2 ^ 35"
  shows "\<exists>r t. (if md_physical_start d = 0 then MapRange fw PAGE_SIZE PAGE_SIZE (md_count d - 1) p4 s
      else MapRange fw (md_physical_start d) (md_physical_start d) (md_count d) p4 s) = Some (r, t) \<and>
    id_maps fw A p4 (area_frames (md_physical_start d) (md_count d) - {0}) s t"
proof (cases "md_physical_start d = 0")
  case True
  have "unat (md_count d - 1) = unat (md_count d) - 1" using d(2) by (subst unat_sub_le) (auto simp: word_le_nat_alt)
  moreover from this have "{1..<1 + unat (md_count d - 1)} = area_frames (md_physical_start d) (md_count d) - {0}"
    using True d(2) by (auto simp: area_frames_def)
  moreover have "frame_addr 1 = PAGE_SIZE" by (simp add: frame_addr_def)
  moreover have "1 + unat (md_count d - 1) \<le> 2 ^ 35" using calculation(1) d(2,3) by (simp add: desc_end_def)
  ultimately show ?thesis using True MapRange_id [OF c inv, of 1 "md_count d - 1"] by auto
next
  case False
  let ?f = "unat (md_physical_start d) div 4096"
  have "?f * 4096 = unat (md_physical_start d)" using d(1) by auto
  then have f: "frame_addr ?f = md_physical_start d"
    unfolding frame_addr_def kconst by (metis of_nat_mult of_nat_numeral of_nat_unat ucast_id)
  have "?f \<noteq> 0" using False f by (metis frame_addr_def mult_zero_left of_nat_0)
  then have "{?f..<?f + unat (md_count d)} = area_frames (md_physical_start d) (md_count d) - {0}"
    by (auto simp: area_frames_def)
  with False f MapRange_id [OF c inv, of ?f "md_count d"] d(3) show ?thesis by (auto simp: desc_end_def)
qed

lemma unat_desc_end:
  assumes "unat (md_physical_start d) mod 4096 = 0" "desc_end d \<le> 2 ^ 35"
  shows "unat (md_physical_start d + md_count d * PAGE_SIZE) = desc_end d * 4096"
proof -
  have b: "unat (md_physical_start d) = unat (md_physical_start d) div 4096 * 4096" using assms(1) by auto
  have "unat (md_count d) \<le> 2 ^ 35" using assms(2) by (simp add: desc_end_def)
  then have c: "unat (md_count d * PAGE_SIZE) = unat (md_count d) * 4096" by (subst unat_mult_nowrap) (simp_all add: kconst)
  have "unat (md_physical_start d) + unat (md_count d) * 4096 = desc_end d * 4096" using b by (simp add: desc_end_def algebra_simps)
  with assms(2) c show ?thesis by (subst unat_add_nowrap) simp_all
qed

lemma parse_entries_outcome:
  assumes c: "conforming fw A" and inv: "boot_inv fw A (b_pml4 s) s" and m: "map_sane s"
    and h: "span (b_mmap s) (unat (b_mmap_size s)) \<subseteq> held fw (b_efi s) - table_bytes fw A (b_pml4 s) s"
    and n: "n \<le> mmap_entries (kinfo_mem s)"
  shows "\<exists>max_addr t. parse_entries fw n s = Some (max_addr, t) \<and> id_maps fw A (b_pml4 s) (mapped_frames s n) s t \<and>
    unat max_addr = map_end s n * 4096 \<and> map_end s n \<le> 2 ^ 35"
  using n
proof (induction n)
  case 0
  then show ?case using id_maps_refl [OF c inv] by (simp add: mapped_frames_def)
next
  case (Suc n)
  then obtain a t where t: "parse_entries fw n s = Some (a, t)" "id_maps fw A (b_pml4 s) (mapped_frames s n) s t"
    "unat a = map_end s n * 4096" "map_end s n \<le> 2 ^ 35" by auto
  let ?d = "desc_of s n"
  have st: "boot_steps fw A (b_pml4 s) s t" using t(2) by (simp add: id_maps_def)
  then have f: "b_mmap t = b_mmap s" "b_mmap_desc_size t = b_mmap_desc_size s" "b_pml4 t = b_pml4 s"
    and inv': "boot_inv fw A (b_pml4 s) t" by (auto simp: boot_steps_def boot_only_def)
  have cur: "md_at (b_mmap t + of_nat n * b_mmap_desc_size t) (b_mem t) = ?d"
    unfolding f using Suc.prems by (intro desc_keep [OF c steps_grow [OF c st] m _ h]) simp_all
  have d: "unat (md_physical_start ?d) mod 4096 = 0" "0 < unat (md_count ?d)" "desc_end ?d \<le> 2 ^ 35"
    using m Suc.prems by (auto simp: map_sane_def Let_def desc_end_def)
  define e where "e = md_physical_start ?d + md_count ?d * PAGE_SIZE"
  have e: "unat (if e > a then e else a) = map_end s (Suc n) * 4096" "map_end s (Suc n) \<le> 2 ^ 35"
    using unat_desc_end [OF d(1,3)] t(3,4) d(3) by (auto simp: e_def word_less_nat_alt max_def)
  have F: "mapped_frames s (Suc n) = mapped_frames s n \<union>
      (if md_type ?d \<in> set mapped_types then area_frames (md_physical_start ?d) (md_count ?d) - {0} else {})"
    by (auto simp: mapped_frames_def less_Suc_eq)
  obtain r u where u: "(if md_physical_start ?d = 0 then MapRange fw PAGE_SIZE PAGE_SIZE (md_count ?d - 1) (b_pml4 s) t
      else MapRange fw (md_physical_start ?d) (md_physical_start ?d) (md_count ?d) (b_pml4 s) t) = Some (r, u)"
    "id_maps fw A (b_pml4 s) (area_frames (md_physical_start ?d) (md_count ?d) - {0}) t u"
    using desc_maps [OF c inv' d] by blast
  show ?case
  proof (cases "md_type ?d \<in> set mapped_types")
    case True
    then have "parse_entries fw (Suc n) s = Some (if e > a then e else a, u)"
      using t(1) u(1) by (auto simp: cur f(3) Let_def e_def split: if_splits)
    moreover have "id_maps fw A (b_pml4 s) (mapped_frames s (Suc n)) s u"
      using id_maps_trans [OF c t(2) u(2)] True by (simp add: F)
    ultimately show ?thesis using e by blast
  next
    case False
    then have "parse_entries fw (Suc n) s = Some (if e > a then e else a, t)"
      using t(1) by (simp add: cur Let_def e_def)
    with False t(2) e show ?thesis by (simp add: F)
  qed
qed

lemma bitmap_sizes:
  fixes max_addr :: u64
  assumes "unat max_addr = n * 4096" "n \<le> 2 ^ 35"
  defines "b \<equiv> DIV_CEIL (max_addr div PAGE_SIZE) 64 * 8"
  shows "unat (max_addr div PAGE_SIZE) = n" "unat (b div 8) = (n + 63) div 64" "unat b = 8 * ((n + 63) div 64)"
    "unat (SIZE_TO_PAGES b) = (8 * ((n + 63) div 64) + 4095) div 4096" "EFI_SIZE_TO_PAGES b = SIZE_TO_PAGES b"
proof -
  show p: "unat (max_addr div PAGE_SIZE) = n" using assms(1) by (simp add: unat_div kconst)
  have d: "unat (DIV_CEIL (max_addr div PAGE_SIZE) 64) = (n + 63) div 64"
    using assms(2) by (subst unat_DIV_CEIL) (simp_all add: p)
  have "(n + 63) div 64 \<le> 2 ^ 30" using assms(2) by simp
  then show b: "unat b = 8 * ((n + 63) div 64)" unfolding b_def by (subst unat_mult_nowrap) (simp_all add: d)
  then show "unat (b div 8) = (n + 63) div 64" by (simp add: unat_div)
  have "unat b \<le> 2 ^ 33" using b \<open>(n + 63) div 64 \<le> 2 ^ 30\<close> by simp
  then have s: "unat (SIZE_TO_PAGES b) = (unat b + 4095) div 4096"
    unfolding SIZE_TO_PAGES_def by (subst unat_DIV_CEIL) (simp_all add: kconst)
  then show "unat (SIZE_TO_PAGES b) = (8 * ((n + 63) div 64) + 4095) div 4096" using b by simp
  show "EFI_SIZE_TO_PAGES b = SIZE_TO_PAGES b" by (rule word_unat_eq_iff [THEN iffD2]) (simp only: unat_SIZE_TO_PAGES s)
qed


section \<open>What later calls keep\<close>

text \<open>
  From \<open>s\<close> to \<open>t\<close> pages stay held and keep their contents, the tables grow by free pages only, pages outside \<open>X\<close> keep
  their translation (tables added excepted), and frames mapped to themselves stay so while a page is left. Pool memory may
  have been given back.
\<close>

definition evolves :: "uefi \<Rightarrow> nat set \<Rightarrow> u64 \<Rightarrow> (u64 list \<times> u64) set \<Rightarrow> boot \<Rightarrow> boot \<Rightarrow> bool" where
  "evolves fw A p4 X s t \<longleftrightarrow> boot_inv fw A p4 t \<and> page_held fw (b_efi s) \<subseteq> page_held fw (b_efi t) \<and>
     free_pages fw A (b_efi t) \<subseteq> free_pages fw A (b_efi s) \<and>
     tables p4 (view fw A t) \<subseteq> tables p4 (view fw A s) \<union> free_pages fw A (b_efi s) \<and>
     (\<forall>a\<in>page_held fw (b_efi s) - table_bytes fw A p4 s. b_mem t a = b_mem s a) \<and> other_pages fw A p4 X s t \<and>
     (free_pages fw A (b_efi t) \<noteq> {} \<longrightarrow> (\<forall>g<2 ^ 35. pview (view fw A s) p4 (frame_page g) = frame_addr g \<longrightarrow>
        pview (view fw A t) p4 (frame_page g) = frame_addr g))"

lemma evolves_apart:
  assumes "evolves fw A p4 X s t" "P \<subseteq> page_held fw (b_efi s) - table_bytes fw A p4 s"
  shows "P \<subseteq> page_held fw (b_efi t) - table_bytes fw A p4 t"
proof
  fix a assume "a \<in> P"
  then have a: "a \<in> page_held fw (b_efi s)" "a \<notin> table_bytes fw A p4 s" using assms(2) by auto
  have "unat a div 4096 \<notin> free_pages fw A (b_efi s)" by (rule held_apart_free) (use a in \<open>simp add: held_def\<close>)
  with a assms(1) show "a \<in> page_held fw (b_efi t) - table_bytes fw A p4 t" by (auto simp: evolves_def table_bytes_def)
qed

lemma evolves_trans:
  assumes st: "evolves fw A p4 X s t" and tu: "evolves fw A p4 Y t u" and Z: "X \<union> Y \<subseteq> Z"
  shows "evolves fw A p4 Z s u"
proof -
  have "b_mem u a = b_mem s a" if "a \<in> page_held fw (b_efi s) - table_bytes fw A p4 s" for a
  proof -
    have "a \<in> page_held fw (b_efi t) - table_bytes fw A p4 t" using evolves_apart [OF st, of "{a}"] that by simp
    with that st tu show ?thesis by (simp add: evolves_def)
  qed
  moreover have "other_pages fw A p4 Z s u"
    by (rule other_pages_trans [OF _ _ Z, of fw A p4 s t]) (use st tu in \<open>simp_all add: evolves_def\<close>)
  moreover have "tables p4 (view fw A u) \<subseteq> tables p4 (view fw A s) \<union> free_pages fw A (b_efi s)"
    "page_held fw (b_efi s) \<subseteq> page_held fw (b_efi u)" "free_pages fw A (b_efi u) \<subseteq> free_pages fw A (b_efi s)"
    "boot_inv fw A p4 u" using st tu unfolding evolves_def by blast+
  moreover have "pview (view fw A u) p4 (frame_page g) = frame_addr g"
    if "free_pages fw A (b_efi u) \<noteq> {}" "g < 2 ^ 35" "pview (view fw A s) p4 (frame_page g) = frame_addr g" for g
  proof -
    have "free_pages fw A (b_efi t) \<noteq> {}" using that(1) tu unfolding evolves_def by blast
    with that st tu show ?thesis by (simp add: evolves_def)
  qed
  ultimately show ?thesis by (simp add: evolves_def)
qed

lemma evolves_cong:
  assumes "b_mem s = b_mem s'" "b_efi s = b_efi s'" "b_mem t = b_mem t'" "b_efi t = b_efi t'"
  shows "evolves fw A p4 X s t \<longleftrightarrow> evolves fw A p4 X s' t'"
  using view_cong [OF assms(1,2)] view_cong [OF assms(3,4)] assms
  by (simp add: evolves_def boot_inv_def other_pages_def table_bytes_def)

lemma steps_evolve:
  assumes c: "conforming fw A" and st: "boot_steps fw A p4 s t" and o: "other_pages fw A p4 X s t"
    and ids: "\<And>g. free_pages fw A (b_efi t) \<noteq> {} \<Longrightarrow> g < 2 ^ 35 \<Longrightarrow> pview (view fw A s) p4 (frame_page g) = frame_addr g \<Longrightarrow>
        pview (view fw A t) p4 (frame_page g) = frame_addr g"
  shows "evolves fw A p4 X s t"
proof -
  have "boot_grow fw A p4 {} s t" by (rule steps_grow [OF c st])
  with o ids show ?thesis unfolding evolves_def boot_grow_def by (auto simp: held_def)
qed

lemma id_maps_evolves: "conforming fw A \<Longrightarrow> id_maps fw A p4 F s t \<Longrightarrow> frame_page ` F \<subseteq> X \<Longrightarrow> evolves fw A p4 X s t"
  by (rule steps_evolve) (use other_pages_mono [of fw A p4 "frame_page ` F" s t X] in \<open>auto simp: id_maps_def\<close>)

text \<open>A service call that is given no buffer in a page, be it one that gives memory back.\<close>

lemma call_evolves:
  assumes c: "conforming fw A" and inv: "boot_inv fw A p4 s" and r: "efi fw call s = (r, t)"
    and q: "buffer_of call \<inter> page_held fw (b_efi s) = {}"
  shows "evolves fw A p4 {} s t" "tables p4 (view fw A t) = tables p4 (view fw A s)"
proof -
  have A: "A \<subseteq> {1..<64 * 65535}" by (rule conformingD(1) [OF c])
  have p: "page_held fw (b_efi s) \<subseteq> page_held fw (b_efi t)"
    unfolding efi_mem(2) [OF c r] by (rule page_held_mono)
  have m: "b_mem t a = b_mem s a" if "a \<in> page_held fw (b_efi s)" for a
    using efi_mem(1) [OF c r] that q by (auto simp: held_def)
  have tb: "table_bytes fw A p4 s \<subseteq> page_held fw (b_efi s)"
    using inv in_page by (auto simp: table_bytes_def boot_inv_def)
  note same = same_tables [OF inv p m [OF subsetD [OF tb]]]
  show tab: "tables p4 (view fw A t) = tables p4 (view fw A s)" using same(1) by (auto simp: tables_def)
  have fr: "free_pages fw A (b_efi t) \<subseteq> free_pages fw A (b_efi s)" using p by (auto simp: free_pages_pages [OF c])
  have "pt_inv p4 (view fw A t)"
    by (rule pt_inv_same [OF _ same(1)]) (use inv fr in \<open>simp_all add: boot_inv_def view_free [OF A]\<close>)
  then have "boot_inv fw A p4 t" using inv p by (auto simp: boot_inv_def tab)
  with p fr tab m same(2) show "evolves fw A p4 {} s t" by (auto simp: evolves_def other_pages_def)
qed

lemma loaded_evolves:
  assumes l: "loaded fw A p4 {} img ph f s" and e: "evolves fw A p4 X s t" and ok: "seg_ok A ph" and X: "seg_range ph \<inter> X = {}"
  shows "loaded fw A p4 {} img ph f t"
proof -
  let ?P = "span (frame_addr f) (unat (seg_pages ph) * 4096)"
  have P: "?P \<subseteq> page_held fw (b_efi s) - table_bytes fw A p4 s" using l by (simp add: loaded_def)
  have "b_mem t (frame_addr f + of_nat (unat (p_vaddr ph) mod 4096 + i)) = seg_byte img ph i" if i: "i < unat (p_memsz ph)" for i
  proof -
    have "frame_addr f + of_nat (unat (p_vaddr ph) mod 4096 + i) \<in> ?P"
      using seg_in_pages [OF ok, of i 1 f] i span_offset [of 0 _ 1] by fastforce
    then show ?thesis using P l e i by (auto simp: loaded_def evolves_def)
  qed
  moreover have "pview (view fw A t) p4 (page (nth_page (p_vaddr ph) j)) = frame_addr (f + j)" if "j < unat (seg_pages ph)" for j
  proof -
    have "page (nth_page (p_vaddr ph) j) \<in> seg_range ph" using that by (auto simp: seg_range_def)
    then have "page (nth_page (p_vaddr ph) j) \<notin> X" "page (nth_page (p_vaddr ph) j) \<notin> frame_page ` A"
      using X ok unfolding seg_ok_def by blast+
    with e have "pview (view fw A t) p4 (page (nth_page (p_vaddr ph) j)) = pview (view fw A s) p4 (page (nth_page (p_vaddr ph) j))"
      unfolding evolves_def other_pages_def using valid_page_page(1) by blast
    with l that show ?thesis by (simp add: loaded_def)
  qed
  ultimately show ?thesis using l evolves_apart [OF e P] by (simp add: loaded_def)
qed

text \<open>The bitmap is fresh memory, or was refused (then nothing was stored in \<^verbatim>\<open>kinfo->mem.bitmap\<close>).\<close>

definition bitmap_placed :: "uefi \<Rightarrow> nat set \<Rightarrow> u64 \<Rightarrow> boot \<Rightarrow> boot \<Rightarrow> bool" where
  "bitmap_placed fw A p4 s t \<longleftrightarrow>
     (\<exists>f. b_bitmap t = frame_addr f \<and> f + unat (b_bitmap_size t) \<le> 64 * 65535 \<and>
        span (b_bitmap t) (unat (b_bitmap_size t) * 4096) \<subseteq> page_held fw (b_efi t) - table_bytes fw A p4 t \<and>
        span (b_bitmap t) (unat (b_bitmap_size t) * 4096) \<inter> held fw (b_efi s) = {}) \<or>
     (\<exists>h. EFI_ERROR (er_status (ef_call fw (AllocatePages EfiLoaderData (b_bitmap_size t) # h))) \<and> b_bitmap t = 0)"

text \<open>What \<open>ParseMMAP\<close> has done when it succeeds.\<close>

definition map_parsed :: "uefi \<Rightarrow> nat set \<Rightarrow> u64 \<Rightarrow> boot \<Rightarrow> boot \<Rightarrow> bool" where
  "map_parsed fw A p4 s t \<longleftrightarrow> (let k = mmap_entries (kinfo_mem s); n = map_end s k; f = unat (b_bitmap t) div 4096 in
     evolves fw A p4 (frame_page ` {..<2 ^ 35}) s t \<and> boot_grow fw A p4 {} s t \<and>
     t = s\<lparr>b_mem := b_mem t, b_efi := b_efi t, b_bitmap := b_bitmap t, b_bitmap_entries := b_bitmap_entries t,
       b_bitmap_size := b_bitmap_size t, b_mem_pages := b_mem_pages t\<rparr> \<and>
     unat (b_mem_pages t) = n \<and> unat (b_bitmap_entries t) = (n + 63) div 64 \<and>
     unat (b_bitmap_size t) = (8 * ((n + 63) div 64) + 4095) div 4096 \<and> bitmap_placed fw A p4 s t \<and>
     (free_pages fw A (b_efi t) \<noteq> {} \<longrightarrow> (\<forall>g\<in>mapped_frames s k \<union> {f..<f + unat (b_bitmap_size t)}.
        pview (view fw A t) p4 (frame_page g) = frame_addr g)))"

lemma boot_inv_cong: "b_mem s = b_mem t \<Longrightarrow> b_efi s = b_efi t \<Longrightarrow> boot_inv fw A p4 s \<longleftrightarrow> boot_inv fw A p4 t"
  using view_cong [of s t fw A] by (simp add: boot_inv_def)

lemma boot_grow_cong:
  assumes "b_mem s = b_mem s'" "b_efi s = b_efi s'" "b_mem t = b_mem t'" "b_efi t = b_efi t'"
  shows "boot_grow fw A p4 W s t \<longleftrightarrow> boot_grow fw A p4 W s' t'"
  using view_cong [OF assms(1,2)] view_cong [OF assms(3,4)] assms by (simp add: boot_grow_def boot_inv_def table_bytes_def)

lemma id_maps_free: "id_maps fw A p4 F s t \<Longrightarrow> free_pages fw A (b_efi t) \<noteq> {} \<Longrightarrow> g \<in> F \<Longrightarrow> g < 2 ^ 35 \<Longrightarrow>
    pview (view fw A t) p4 (frame_page g) = frame_addr g"
  by (simp add: id_maps_def)

lemma mapped_frames_bound: "map_sane s \<Longrightarrow> g \<in> mapped_frames s (mmap_entries (kinfo_mem s)) \<Longrightarrow> g < 2 ^ 35"
  by (fastforce simp: mapped_frames_def map_sane_def area_frames_def Let_def)

text \<open>\<^verbatim>\<open>AllocatePages\<close> sets its output parameter to the base of the pages it has allocated, and only then.\<close>

definition refusal_keeps :: "uefi \<Rightarrow> bool" where
  "refusal_keeps fw \<longleftrightarrow> (\<forall>h t n. let r = ef_call fw (AllocatePages t n # h) in EFI_ERROR (er_status r) \<longrightarrow> er_out r = None)"

lemma alloc_bitmap:
  assumes c: "conforming fw A" "refusal_keeps fw" and inv: "boot_inv fw A p4 s" and n: "0 < unat n"
    and r: "efi fw (AllocatePages EfiLoaderData n) s = (r, t)" and z: "b_bitmap s = 0"
  obtains f where "out_or (b_bitmap t) (er_out r) = frame_addr f" "f + unat n \<le> 64 * 65535"
      "span (frame_addr f) (unat n * 4096) \<subseteq> page_held fw (b_efi t) - table_bytes fw A p4 t"
      "span (frame_addr f) (unat n * 4096) \<inter> held fw (b_efi s) = {}"
  | "out_or (b_bitmap t) (er_out r) = 0" "EFI_ERROR (er_status (ef_call fw (AllocatePages EfiLoaderData n # b_efi s)))"
proof (cases "EFI_ERROR (er_status r)")
  case True
  moreover have "b_bitmap t = 0" "r = ef_call fw (AllocatePages EfiLoaderData n # b_efi s)"
    using r z by (auto simp: efi_def Let_def)
  ultimately show thesis using that(2) c(2) by (auto simp: refusal_keeps_def Let_def out_or_def)
next
  case False
  show thesis
    by (rule alloc_segment [OF c(1) inv n r False], rule that(1)) (simp_all add: out_or_def)
qed

lemma place_bitmap:
  fixes q :: u64
  assumes c: "conforming fw A" "refusal_keeps fw" and inv: "boot_inv fw A p4 s1" and q: "0 < unat q" "unat q \<le> 2 ^ 22"
    and z: "b_bitmap s1 = 0" and r: "efi fw (AllocatePages EfiLoaderData q) s1 = (r, s2)"
  defines "loc \<equiv> out_or (b_bitmap s2) (er_out r)"
  defines "s3 \<equiv> s2\<lparr>b_bitmap := loc\<rparr>"
  obtains f r' s4 where "loc = frame_addr f" "f + unat q \<le> 2 ^ 35"
    "f + unat q \<le> 64 * 65535 \<and> span loc (unat q * 4096) \<subseteq> page_held fw (b_efi s4) - table_bytes fw A p4 s4 \<and>
        span loc (unat q * 4096) \<inter> held fw (b_efi s1) = {} \<or>
      EFI_ERROR (er_status (ef_call fw (AllocatePages EfiLoaderData q # b_efi s1))) \<and> loc = 0"
    "MapRange fw loc loc q p4 s3 = Some (r', s4)"
    "case r' of Inl e \<Rightarrow> EFI_ERROR e \<and> free_pages fw A (b_efi s4) = {} | Inr _ \<Rightarrow> True"
    "boot_only s3 s4" "evolves fw A p4 (frame_page ` {..<2 ^ 35}) s1 s4" "boot_grow fw A p4 {} s1 s4"
    "\<forall>g\<in>{f..<f + unat q}. free_pages fw A (b_efi s4) \<noteq> {} \<longrightarrow> pview (view fw A s4) p4 (frame_page g) = frame_addr g"
proof -
  have e2: "evolves fw A p4 {} s1 s3"
    using call_evolves(1) [OF c(1) inv r] evolves_cong [of s1 s1 s2 s3] by (simp add: s3_def)
  have g2: "boot_grow fw A p4 {} s1 s3"
    using call_grow(1) [OF c(1) inv r] boot_grow_cong [of s1 s1 s2 s3] by (simp add: s3_def)
  have inv3: "boot_inv fw A p4 s3" using e2 by (simp add: evolves_def)
  have v: "table_bytes fw A p4 s3 = table_bytes fw A p4 s2" "b_efi s3 = b_efi s2"
    using view_cong [of s3 s2] by (simp_all add: table_bytes_def s3_def)
  obtain f where f: "loc = frame_addr f" "f + unat q \<le> 2 ^ 35"
    and pl: "f + unat q \<le> 64 * 65535 \<and> span loc (unat q * 4096) \<subseteq> page_held fw (b_efi s3) - table_bytes fw A p4 s3 \<and>
        span loc (unat q * 4096) \<inter> held fw (b_efi s1) = {} \<or>
      EFI_ERROR (er_status (ef_call fw (AllocatePages EfiLoaderData q # b_efi s1))) \<and> loc = 0"
  proof (cases rule: alloc_bitmap [OF c inv q(1) r z])
    case (1 f)
    then show thesis using that [of f] by (simp add: loc_def v)
  next
    case 2
    then show thesis using that [of 0] q(2) by (simp add: loc_def frame_addr_def)
  qed
  obtain r' s4 where 4: "MapRange fw loc loc q p4 s3 = Some (r', s4)" "id_maps fw A p4 {f..<f + unat q} s3 s4"
    "case r' of Inl e \<Rightarrow> EFI_ERROR e \<and> free_pages fw A (b_efi s4) = {} | Inr _ \<Rightarrow> True"
    using MapRange_id [OF c(1) inv3 f(2)] f(1) by blast
  then have st: "boot_steps fw A p4 s3 s4" "boot_only s3 s4" by (auto simp: id_maps_def boot_steps_def)
  have "frame_page ` {f..<f + unat q} \<subseteq> frame_page ` {..<2 ^ 35}" using f(2) by (intro image_mono) auto
  then have e4: "evolves fw A p4 (frame_page ` {..<2 ^ 35}) s3 s4" by (rule id_maps_evolves [OF c(1) 4(2)])
  show thesis
  proof (rule that [OF f _ 4(1,3) st(2)])
    show "evolves fw A p4 (frame_page ` {..<2 ^ 35}) s1 s4" using evolves_trans [OF e2 e4] by simp
    show "boot_grow fw A p4 {} s1 s4" using boot_grow_trans [OF g2 steps_grow [OF c(1) st(1)]] by simp
    show "\<forall>g\<in>{f..<f + unat q}. free_pages fw A (b_efi s4) \<noteq> {} \<longrightarrow> pview (view fw A s4) p4 (frame_page g) = frame_addr g"
      using id_maps_free [OF 4(2)] f(2) by auto
  qed (use pl evolves_apart [OF e4, of "span loc (unat q * 4096)"] in blast)
qed

lemma ParseMMAP_outcome:
  assumes c: "conforming fw A" "refusal_keeps fw" and inv: "boot_inv fw A (b_pml4 s) s" and m: "map_sane s"
    and h: "span (b_mmap s) (unat (b_mmap_size s)) \<subseteq> held fw (b_efi s) - table_bytes fw A (b_pml4 s) s" and z: "b_bitmap s = 0"
  shows "\<exists>r t. ParseMMAP fw s = Some (r, t) \<and> boot_inv fw A (b_pml4 s) t \<and>
    (case r of Inl e \<Rightarrow> EFI_ERROR e \<and> free_pages fw A (b_efi t) = {} | Inr _ \<Rightarrow> map_parsed fw A (b_pml4 s) s t)"
proof -
  let ?p4 = "b_pml4 s" and ?k = "mmap_entries (kinfo_mem s)" and ?X = "frame_page ` {..<2 ^ 35}"
  define n where "n = map_end s ?k"
  obtain a s1 where 1: "parse_entries fw ?k s = Some (a, s1)" "id_maps fw A ?p4 (mapped_frames s ?k) s s1"
    and a: "unat a = n * 4096" "n \<le> 2 ^ 35"
    using parse_entries_outcome [OF c(1) inv m h order.refl] by (auto simp: n_def)
  define b q where "b = DIV_CEIL (a div PAGE_SIZE) 64 * 8" and "q = SIZE_TO_PAGES b"
  note sz = bitmap_sizes [OF a, folded b_def q_def]
  have "0 < n" using m map_end_le [of 0 ?k s] unfolding n_def map_sane_def by (auto simp: desc_end_def Let_def)
  then have qn: "0 < unat q" "unat q \<le> 2 ^ 22" using sz(4) a(2) by (auto simp: Suc_le_eq div_greater_zero_iff)
  have d: "b_mmap_desc_size s \<noteq> 0" "unat (b_mmap_size s div b_mmap_desc_size s) = ?k"
    using m by (auto simp: map_sane_def mmap_entries_def kinfo_mem_def)
  have st: "boot_steps fw A ?p4 s s1" using 1(2) by (simp add: id_maps_def)
  then have inv1: "boot_inv fw A ?p4 s1" and o1: "boot_only s s1" by (auto simp: boot_steps_def)
  obtain r s2 where 2: "efi fw (AllocatePages EfiLoaderData q) s1 = (r, s2)" by fastforce
  have z1: "b_bitmap s1 = 0" "b_pml4 s2 = ?p4" using z o1 2 by (auto simp: boot_only_def efi_def Let_def)
  define loc where "loc = out_or (b_bitmap s2) (er_out r)"
  note pb = place_bitmap [OF c inv1 qn z1(1) 2, folded loc_def]
  obtain f r' s4 where f: "loc = frame_addr f" "f + unat q \<le> 2 ^ 35"
    and pl: "f + unat q \<le> 64 * 65535 \<and> span loc (unat q * 4096) \<subseteq> page_held fw (b_efi s4) - table_bytes fw A ?p4 s4 \<and>
        span loc (unat q * 4096) \<inter> held fw (b_efi s1) = {} \<or>
      EFI_ERROR (er_status (ef_call fw (AllocatePages EfiLoaderData q # b_efi s1))) \<and> loc = 0"
    and 4: "MapRange fw loc loc q ?p4 (s2\<lparr>b_bitmap := loc\<rparr>) = Some (r', s4)"
      "case r' of Inl e \<Rightarrow> EFI_ERROR e \<and> free_pages fw A (b_efi s4) = {} | Inr _ \<Rightarrow> True"
    and o4: "boot_only (s2\<lparr>b_bitmap := loc\<rparr>) s4" and e4: "evolves fw A ?p4 ?X s1 s4" and g4: "boot_grow fw A ?p4 {} s1 s4"
    and id4: "\<forall>g\<in>{f..<f + unat q}. free_pages fw A (b_efi s4) \<noteq> {} \<longrightarrow> pview (view fw A s4) ?p4 (frame_page g) = frame_addr g"
    by (rule pb)
  define t where "t = s4\<lparr>b_bitmap := loc, b_bitmap_entries := b div 8, b_bitmap_size := q, b_mem_pages := a div PAGE_SIZE\<rparr>"
  have call: "ParseMMAP fw s = Some (case r' of Inl e \<Rightarrow> (Inl e, s4) | Inr _ \<Rightarrow> (Inr (), t))"
    using 4(1) by (cases r') (simp_all add: ParseMMAP_def d 1(1) Let_def b_def [symmetric] sz(5) q_def [symmetric] 2
        loc_def [symmetric] z1(2) MapRange_def [symmetric] t_def)
  show ?thesis
  proof (cases r')
    case (Inl e)
    with call e4 4(2) show ?thesis by (auto simp: evolves_def)
  next
    case (Inr x)
    have F: "mapped_frames s ?k \<subseteq> {..<2 ^ 35}" using mapped_frames_bound [OF m] by blast
    have e: "evolves fw A ?p4 ?X s s4"
      using evolves_trans [OF id_maps_evolves [OF c(1) 1(2) image_mono [OF F]] e4] by simp
    have g: "boot_grow fw A ?p4 {} s s4" using boot_grow_trans [OF steps_grow [OF c(1) st] g4] by simp
    have v: "view fw A t = view fw A s4" "b_efi t = b_efi s4" "b_mem t = b_mem s4" "b_bitmap t = loc" "b_bitmap_size t = q"
      using view_cong [of t s4] by (simp_all add: t_def)
    have fl: "t = s\<lparr>b_mem := b_mem t, b_efi := b_efi t, b_bitmap := b_bitmap t, b_bitmap_entries := b_bitmap_entries t,
        b_bitmap_size := b_bitmap_size t, b_mem_pages := b_mem_pages t\<rparr>"
      using o1 2 o4 by (auto simp: boot_only_def efi_def Let_def t_def)
    have "held fw (b_efi s) \<subseteq> held fw (b_efi s1)" using st by (simp add: boot_steps_def)
    with pl have place: "bitmap_placed fw A ?p4 s t" unfolding bitmap_placed_def v table_bytes_def using f(1) by blast
    have "pview (view fw A t) ?p4 (frame_page g) = frame_addr g"
      if fn: "free_pages fw A (b_efi t) \<noteq> {}" and "g \<in> mapped_frames s ?k" for g
    proof -
      have g35: "g < 2 ^ 35" using that(2) F by blast
      have "free_pages fw A (b_efi s4) \<subseteq> free_pages fw A (b_efi s1)" using e4 by (simp add: evolves_def)
      then have "pview (view fw A s1) ?p4 (frame_page g) = frame_addr g" using fn that(2) v by (intro id_maps_free [OF 1(2) _ _ g35]) auto
      with e4 fn g35 show ?thesis by (simp add: evolves_def v)
    qed
    moreover have "unat loc div 4096 = f" using f by (simp add: unat_frame_addr)
    ultimately have "map_parsed fw A ?p4 s t"
      using e g fl place sz(1-4) id4 evolves_cong [of s s s4 t] boot_grow_cong [of s s s4 t]
      unfolding map_parsed_def Let_def v(4,5) n_def [symmetric] by (auto simp: v) (simp_all add: t_def)
    moreover have "ParseMMAP fw s = Some (Inr (), t)" using call Inr by simp
    ultimately show ?thesis by (auto simp: map_parsed_def Let_def evolves_def)
  qed
qed

lemma parsed_descs:
  assumes c: "conforming fw A" and m: "map_sane s" and p: "map_parsed fw A p4 s t" and i: "i < mmap_entries (kinfo_mem s)"
    and h: "span (b_mmap s) (unat (b_mmap_size s)) \<subseteq> held fw (b_efi s) - table_bytes fw A p4 s"
  shows "desc_of t i = desc_of s i" "mmap_entries (kinfo_mem t) = mmap_entries (kinfo_mem s)"
proof -
  from p have g: "boot_grow fw A p4 {} s t" and t: "t = s\<lparr>b_mem := b_mem t, b_efi := b_efi t, b_bitmap := b_bitmap t,
      b_bitmap_entries := b_bitmap_entries t, b_bitmap_size := b_bitmap_size t, b_mem_pages := b_mem_pages t\<rparr>"
    by (auto simp: map_parsed_def Let_def)
  have f: "b_mmap t = b_mmap s" "b_mmap_desc_size t = b_mmap_desc_size s" "b_mmap_size t = b_mmap_size s" by (subst t, simp)+
  show "mmap_entries (kinfo_mem t) = mmap_entries (kinfo_mem s)" by (simp add: mmap_entries_def kinfo_mem_def f)
  show "desc_of t i = desc_of s i" using desc_keep [OF c g m i h] by (simp add: kinfo_mem_def f)
qed

lemma parsed_frames_below:
  assumes "map_parsed fw A p4 s t" "i < mmap_entries (kinfo_mem s)" "f \<in> area_frames (md_physical_start (desc_of s i)) (md_count (desc_of s i))"
  shows "f < unat (b_mem_pages t)"
proof -
  have "f < desc_end (desc_of s i)" using assms(3) by (simp add: area_frames_def desc_end_def)
  also have "\<dots> \<le> map_end s (mmap_entries (kinfo_mem s))" by (rule map_end_le [OF assms(2)])
  also have "\<dots> = unat (b_mem_pages t)" using assms(1) by (simp add: map_parsed_def Let_def)
  finally show ?thesis .
qed

lemma parsed_pmm:
  assumes c: "conforming fw A" and m: "map_sane s" and p: "map_parsed fw A p4 s t"
    and h: "span (b_mmap s) (unat (b_mmap_size s)) \<subseteq> held fw (b_efi s) - table_bytes fw A p4 s"
    and n: "map_end s (mmap_entries (kinfo_mem s)) \<le> 64 * 65535"
  shows "wf_pmm (init_pmm (kinfo_mem t)) \<and> free_frames (init_pmm (kinfo_mem t)) = usable_frames (kinfo_mem s) - {0}"
proof -
  note d = parsed_descs [OF c m p _ h]
  have k: "0 < mmap_entries (kinfo_mem s)" using m by (simp add: map_sane_def)
  have us: "usable_frames (kinfo_mem t) = usable_frames (kinfo_mem s)"
    unfolding usable_frames_def d(2) [OF k] using d(1) by (auto 0 3)
  have "area_ok (md_physical_start (desc_of s i)) (md_count (desc_of s i))" if "i < mmap_entries (kinfo_mem s)" for i
  proof -
    have "unat (md_physical_start (desc_of s i)) mod 4096 = 0" "desc_end (desc_of s i) \<le> 2 ^ 35"
      using m that by (auto simp: map_sane_def Let_def desc_end_def)
    then show ?thesis by (auto simp: area_ok_def desc_end_def)
  qed
  then have ok: "mmap_ok (kinfo_mem t)" using d by (simp add: mmap_ok_def d(2) [OF k])
  have below: "f < unat (b_mem_pages t)" if "f \<in> usable_frames (kinfo_mem s)" for f
    using that parsed_frames_below [OF p] by (auto simp: usable_frames_def)
  have f: "km_bitmap_entries (kinfo_mem t) = b_bitmap_entries t" "km_mem_pages (kinfo_mem t) = b_mem_pages t"
    by (simp_all add: kinfo_mem_def)
  have e: "unat (b_mem_pages t) \<le> 64 * unat (b_bitmap_entries t)" "unat (b_bitmap_entries t) < 2 ^ 16"
    using p n by (auto simp: map_parsed_def Let_def)
  with below have "f < 64 * unat (b_bitmap_entries t)" if "f \<in> usable_frames (kinfo_mem s)" for f using that by force
  then have "free_frames (init_pmm (kinfo_mem t)) = usable_frames (kinfo_mem s) - {0}"
    unfolding init_pmm_free [OF ok] us f by auto
  moreover have "wf_pmm (init_pmm (kinfo_mem t))"
    using below e by (intro init_pmm_wf [OF ok]) (auto simp: f us less_imp_le)
  ultimately show ?thesis by simp
qed

section \<open>A memory map\<close>

lemma demo_refusal_keeps: "refusal_keeps (demo_uefi img)"
  by (simp add: refusal_keeps_def Let_def)

text \<open>The state of \<open>demo_boot\<close> after the memory map has been read into pool memory.\<close>

definition demo_map :: boot where
  "demo_map = demo_boot\<lparr>b_mem := (\<lambda>a. if a \<in> span 0x1000000 48 then demo_descriptor ! unat (a - 0x1000000) else 0),
     b_efi := [GetMemoryMap 144 0x1000000, AllocatePool 2 144, GetMemoryMap 0 0, SetMem 0x100000 4096 0, AllocatePages 2 1],
     b_mmap := 0x1000000, b_mmap_size := 48, b_mmap_desc_size := 48\<rparr>"

lemma demo_map_fields [simp]:
  "b_pml4 demo_map = 0x100000" "b_mmap demo_map = 0x1000000" "b_mmap_size demo_map = 48" "b_mmap_desc_size demo_map = 48" "b_bitmap demo_map = 0"
  by (simp_all add: demo_map_def demo_boot_def)

lemma demo_map_entries [simp]: "mmap_entries (kinfo_mem demo_map) = 1"
  by (simp add: mmap_entries_def kinfo_mem_def)

lemma demo_map_desc:
  "desc_of demo_map 0 = \<lparr>md_type = 7, md_physical_start = 0x100000, md_virtual_start = 0x100000, md_count = 0x100, md_attributes = 15\<rparr>"
  by (simp add: kinfo_mem_def) (simp add: md_at_def load64_def load32_def demo_map_def span_iff demo_descriptor_def)

lemma demo_map_sane: "map_sane demo_map"
  by (simp add: map_sane_def demo_map_desc)

lemma demo_map_inv: "boot_inv (demo_uefi img) demo_frames 0x100000 demo_map"
proof -
  have "0x100000 = frame_addr 256" by (simp add: frame_addr_def kconst)
  moreover have "page_bytes 256 \<subseteq> page_held (demo_uefi img) (b_efi demo_map)"
    using demo_page_span [of 256 1] by (auto simp: page_bytes_def demo_page_held demo_map_def simp del: page_held.simps)
  moreover have "b_mem demo_map a = 0" if "a \<in> page_bytes 256" for a
    using that demo_page_span [of 256 1 a] span_nowrap [of "0x1000000" 48 a] by (auto simp: page_bytes_def demo_map_def)
  ultimately show ?thesis by (simp only:) (intro empty_root(1), auto)
qed

lemma demo_map_held: "span 0x1000000 48 \<subseteq> held (demo_uefi img) (b_efi demo_map) - table_bytes (demo_uefi img) demo_frames 0x100000 demo_map"
proof
  fix a :: u64 assume "a \<in> span 0x1000000 48"
  then have a: "0x1000000 \<le> unat a" "unat a < 0x1000000 + 48" using span_nowrap [of "0x1000000" 48 a] by auto
  have "a \<in> held (demo_uefi img) (b_efi demo_map)"
    using a span_nowrap [of "0x1000000" 144 a] by (simp add: held_def demo_map_def Let_def out_or_def)
  moreover have "a \<notin> table_bytes (demo_uefi img) demo_frames 0x100000 demo_map"
  proof
    assume "a \<in> table_bytes (demo_uefi img) demo_frames 0x100000 demo_map"
    then have "a \<in> page_held (demo_uefi img) (b_efi demo_map)"
      using demo_map_inv [of img] in_page [of a] by (auto simp: table_bytes_def boot_inv_def)
    with a show False by (simp add: demo_page_held) (simp add: demo_map_def)
  qed
  ultimately show "a \<in> held (demo_uefi img) (b_efi demo_map) - table_bytes (demo_uefi img) demo_frames 0x100000 demo_map" by simp
qed

lemmas demo_map_hyps = demo_conforming [of "[]"] demo_refusal_keeps [of "[]"] demo_map_inv [of "[]"] demo_map_sane

section \<open>Properties\<close>

text \<open>
  C21. Reading the memory map: over a well-formed map that lies in memory handed out by the firmware, \<open>ParseMMAP\<close>
  always returns. It fails only when no page is left for a table. When it succeeds: the frames of every descriptor
  lie below \<^verbatim>\<open>mem_pages\<close>, the bitmap has a bit for each and no row too many, and its pages hold its rows; the map itself is
  untouched and the page tables are a tree of held pages. The bitmap is fresh memory unless the firmware refused
  it. If a page of memory is left (otherwise a failed \<^verbatim>\<open>MapRange\<close> has gone unnoticed), every frame of a region
  of the mapped types, frame 0 excepted, and every page of the bitmap translates to itself.
\<close>
theorem ParseMMAP_covers:
  assumes "conforming fw A" "refusal_keeps fw" "boot_inv fw A (b_pml4 s) s" "map_sane s" "b_bitmap s = 0"
    and "span (b_mmap s) (unat (b_mmap_size s)) \<subseteq> held fw (b_efi s) - table_bytes fw A (b_pml4 s) s"
  shows "\<exists>r t. ParseMMAP fw s = Some (r, t) \<and> boot_inv fw A (b_pml4 s) t \<and>
    (case r of
       Inl e \<Rightarrow> EFI_ERROR e \<and> free_pages fw A (b_efi t) = {}
     | Inr _ \<Rightarrow>
        (\<forall>i<mmap_entries (kinfo_mem s). desc_of t i = desc_of s i \<and>
           (\<forall>f\<in>area_frames (md_physical_start (desc_of s i)) (md_count (desc_of s i)). f < unat (b_mem_pages t))) \<and>
        unat (b_mem_pages t) \<le> 64 * unat (b_bitmap_entries t) \<and> 64 * unat (b_bitmap_entries t) < unat (b_mem_pages t) + 64 \<and>
        8 * unat (b_bitmap_entries t) \<le> 4096 * unat (b_bitmap_size t) \<and>
        bitmap_placed fw A (b_pml4 s) s t \<and>
        (free_pages fw A (b_efi t) \<noteq> {} \<longrightarrow>
           (\<forall>f\<in>mapped_frames s (mmap_entries (kinfo_mem s)). translate_addr (frame_addr f) (b_pml4 s) (pt_of t) = frame_addr f) \<and>
           (\<forall>i<unat (b_bitmap_size t). translate_addr (nth_page (b_bitmap t) i) (b_pml4 s) (pt_of t) = nth_page (b_bitmap t) i)))"
proof -
  let ?k = "mmap_entries (kinfo_mem s)"
  obtain r t where r: "ParseMMAP fw s = Some (r, t)" and inv: "boot_inv fw A (b_pml4 s) t"
    and o: "case r of Inl e \<Rightarrow> EFI_ERROR e \<and> free_pages fw A (b_efi t) = {} | Inr _ \<Rightarrow> map_parsed fw A (b_pml4 s) s t"
    using ParseMMAP_outcome [OF assms(1-4,6,5)] by blast
  show ?thesis
  proof (cases r)
    case (Inl e)
    with r inv o show ?thesis by simp
  next
    case (Inr x)
    with o have p: "map_parsed fw A (b_pml4 s) s t" by simp
    define n where "n = map_end s ?k"
    from p have sz: "unat (b_mem_pages t) = n" "unat (b_bitmap_entries t) = (n + 63) div 64"
      "unat (b_bitmap_size t) = (8 * ((n + 63) div 64) + 4095) div 4096" and pl: "bitmap_placed fw A (b_pml4 s) s t"
      by (simp_all add: map_parsed_def Let_def n_def)
    have "n \<le> 64 * ((n + 63) div 64)" "64 * ((n + 63) div 64) < n + 64" by simp_all
    moreover have "8 * ((n + 63) div 64) \<le> 4096 * ((8 * ((n + 63) div 64) + 4095) div 4096)" by simp
    moreover have "nth_page (b_bitmap t) i = frame_addr (unat (b_bitmap t) div 4096 + i)" for i
    proof -
      obtain f where "b_bitmap t = frame_addr f" "f < 2 ^ 52"
        using pl by (force simp: bitmap_placed_def frame_addr_def)
      then show ?thesis by (simp add: unat_frame_addr) (simp add: frame_addr_def algebra_simps)
    qed
    ultimately show ?thesis
      using r Inr inv pl p parsed_descs(1) [OF assms(1,4) p _ assms(6)] parsed_frames_below [OF p]
      unfolding map_parsed_def Let_def by (simp add: sz translate_view [OF inv])
  qed
qed

theorem ParseMMAP_covers_witness:
  "conforming (demo_uefi []) demo_frames \<and> refusal_keeps (demo_uefi []) \<and>
   boot_inv (demo_uefi []) demo_frames 0x100000 demo_map \<and> map_sane demo_map \<and>
   (\<exists>r t. ParseMMAP (demo_uefi []) demo_map = Some (r, t) \<and>
     (case r of Inl e \<Rightarrow> EFI_ERROR e \<and> free_pages (demo_uefi []) demo_frames (b_efi t) = {}
      | Inr _ \<Rightarrow> 511 < unat (b_mem_pages t) \<and> unat (b_mem_pages t) \<le> 64 * unat (b_bitmap_entries t)))"
proof -
  have "511 \<in> area_frames 0x100000 0x100" by (simp add: area_frames_def)
  moreover obtain r t where "ParseMMAP (demo_uefi []) demo_map = Some (r, t)"
    "case r of Inl e \<Rightarrow> EFI_ERROR e \<and> free_pages (demo_uefi []) demo_frames (b_efi t) = {}
      | Inr _ \<Rightarrow> (\<forall>f\<in>area_frames (md_physical_start (desc_of demo_map 0)) (md_count (desc_of demo_map 0)). f < unat (b_mem_pages t)) \<and>
          unat (b_mem_pages t) \<le> 64 * unat (b_bitmap_entries t)"
    using ParseMMAP_covers [of "demo_uefi []" demo_frames demo_map] demo_map_hyps demo_map_held [of "[]"]
    by (auto simp: not_Inr_unit split: sum.splits)
  ultimately show ?thesis using demo_map_hyps by (cases r) (auto simp: demo_map_desc)
qed



end
