(* ===== verification/Boot_Devices.thy ===== *)
theory Boot_Devices
  imports Boot_Map
begin

text \<open>
  \<^verbatim>\<open>src/boot/acpi.c\<close> and \<^verbatim>\<open>src/boot/graphics.c\<close>: finding the ACPI tables among the configuration tables of the firmware and
  choosing the video mode. Both are shown equal to what they look for, the first match.
\<close>

section \<open>acpi.c\<close>

primrec find_guid :: "uefi \<Rightarrow> guid \<Rightarrow> (guid \<times> u64) list \<Rightarrow> int \<Rightarrow> int" where
  "find_guid fw g [] i = - 1"
| "find_guid fw g (e # es) i = (if ef_CompareGuid fw g (fst e) = 0 then i else find_guid fw g es (i + 1))"

definition FindGuid :: "uefi \<Rightarrow> guid \<Rightarrow> int" where
  "FindGuid fw tableGuid = find_guid fw tableGuid (ef_tables fw) 0"

definition ValidateTable :: "u64 \<Rightarrow> u64 \<Rightarrow> bytes \<Rightarrow> bool" where
  "ValidateTable table n m = (for_upto (unat n) (\<lambda>i sm. sm + m (table + of_nat i)) 0 = 0)"

definition VendorTable :: "uefi \<Rightarrow> int \<Rightarrow> u64" where
  "VendorTable fw i = snd (ef_tables fw ! nat i)"

definition FindRSDP :: "uefi \<Rightarrow> boot \<Rightarrow> unit efi_result" where
  "FindRSDP fw s =
     (let index = FindGuid fw (ACPI_20_TABLE_GUID fw);
          index = (if index \<noteq> - 1 then index else FindGuid fw (ACPI_TABLE_GUID fw))
      in if index = - 1 then Some (Inl EFI_NOT_FOUND, s)
         else let tableBytes = VendorTable fw index in
         if \<not> ValidateTable tableBytes 20 (b_mem s) then Some (Inl EFI_NOT_FOUND, s)
         else if b_mem s (tableBytes + 15) = 2
         then if \<not> ValidateTable tableBytes (ucast (load32 (tableBytes + 20) (b_mem s))) (b_mem s) then Some (Inl EFI_NOT_FOUND, s)
              else Some (Inr (), s\<lparr>b_acpi_sdt_addr := load64 (tableBytes + 24) (b_mem s), b_acpi_xsdt := True\<rparr>)
         else Some (Inr (), s\<lparr>b_acpi_sdt_addr := ucast (load32 (tableBytes + 16) (b_mem s)), b_acpi_xsdt := False\<rparr>))"

section \<open>graphics.c\<close>

definition TARGET_SCREEN_WIDTH :: u32 where [kconst]: "TARGET_SCREEN_WIDTH = 1024"
definition TARGET_SCREEN_HEIGHT :: u32 where [kconst]: "TARGET_SCREEN_HEIGHT = 768"
definition PixelBlueGreenRedReserved8BitPerColor :: u32 where [kconst]: "PixelBlueGreenRedReserved8BitPerColor = 1"
definition TARGET_PIXEL_FORMAT :: u32 where [kconst]: "TARGET_PIXEL_FORMAT = PixelBlueGreenRedReserved8BitPerColor"
definition sizeof_EFI_GRAPHICS_OUTPUT_BLT_PIXEL :: u8 where [kconst]: "sizeof_EFI_GRAPHICS_OUTPUT_BLT_PIXEL = 4"

definition mode_matches :: "u32 \<Rightarrow> u32 \<Rightarrow> u32 \<Rightarrow> gop_info \<Rightarrow> bool" where
  "mode_matches w h fmt info \<longleftrightarrow>
     gi_HorizontalResolution info = w \<and> gi_VerticalResolution info = h \<and> gi_PixelFormat info = fmt"

text \<open>The loop from mode \<open>i\<close> on; the bound \<^verbatim>\<open>gop->Mode->MaxMode\<close> is read again before every iteration.\<close>

function find_mode :: "uefi \<Rightarrow> u64 \<Rightarrow> u32 \<Rightarrow> u32 \<Rightarrow> u32 \<Rightarrow> nat \<Rightarrow> boot \<Rightarrow> (u64 + u64) \<times> boot" where
  "find_mode fw gop w h fmt i s =
     (if unat (gm_MaxMode (ef_mode fw (b_efi s))) \<le> i then (Inl EFI_UNSUPPORTED, s)
      else let (r, s) = efi fw (QueryMode gop (of_nat i)) s in
           if EFI_ERROR (er_status r) then (Inl (er_status r), s)
           else if mode_matches w h fmt (er_info r) then (Inr (of_nat i), s)
           else find_mode fw gop w h fmt (i + 1) s)"
  by pat_completeness auto
termination
proof (relation "measure (\<lambda>(fw, gop, w, h, fmt, i, s). 2 ^ 32 - i)")
  fix fw :: uefi and s :: boot and i :: nat
  assume "\<not> unat (gm_MaxMode (ef_mode fw (b_efi s))) \<le> i"
  moreover have "unat (gm_MaxMode (ef_mode fw (b_efi s))) < 2 ^ 32" using unsigned_less [of "gm_MaxMode (ef_mode fw (b_efi s))"] by simp
  ultimately have "i < 2 ^ 32" by simp
  then show "((fw, gop, w, h, fmt, i + 1, s'), fw, gop, w, h, fmt, i, s) \<in> measure (\<lambda>(fw, gop, w, h, fmt, i, s). 2 ^ 32 - i)"
    for gop :: u64 and w h fmt :: u32 and s' :: boot by simp
qed simp

declare find_mode.simps [simp del]

definition FindVideoMode :: "uefi \<Rightarrow> u64 \<Rightarrow> u32 \<Rightarrow> u32 \<Rightarrow> u32 \<Rightarrow> boot \<Rightarrow> u64 efi_result" where
  "FindVideoMode fw gop target_width target_height target_pixel_format s =
     Some (find_mode fw gop target_width target_height target_pixel_format 0 s)"

definition ConfigureGraphics :: "uefi \<Rightarrow> boot \<Rightarrow> unit efi_result" where
  "ConfigureGraphics fw s =
     efi_seq (efi_try fw (LocateProtocol GraphicsOutput) s) (\<lambda>r s.
     let gop = out_or NULL (er_out r) in
     efi_seq (FindVideoMode fw gop TARGET_SCREEN_WIDTH TARGET_SCREEN_HEIGHT TARGET_PIXEL_FORMAT s) (\<lambda>video_mode s.
     efi_seq (efi_try fw ClearScreen s) (\<lambda>_ s.
     efi_seq (efi_try fw (SetMode gop video_mode) s) (\<lambda>_ s.
     let mode = ef_mode fw (b_efi s) in
     Some (Inr (), s\<lparr>b_fb_buffer := gm_FrameBufferBase mode,
       b_fb_horizontal_res := gi_HorizontalResolution (gm_Info mode),
       b_fb_vertical_res := gi_VerticalResolution (gm_Info mode),
       b_fb_pixels_per_scanline := gi_PixelsPerScanLine (gm_Info mode),
       b_fb_bpp := sizeof_EFI_GRAPHICS_OUTPUT_BLT_PIXEL\<rparr>)))))"

text \<open>\<^verbatim>\<open>CloseGraphics\<close> is never called.\<close>

definition CloseGraphics :: "uefi \<Rightarrow> u64 \<Rightarrow> boot \<Rightarrow> unit efi_result" where
  "CloseGraphics fw handle_buffer s = efi_seq (efi_try fw (FreePool handle_buffer) s) (\<lambda>_ s. Some (Inr (), s))"

section \<open>Tables and modes\<close>

lemma for_upto_sum: "for_upto n (\<lambda>i sm. sm + f i) (0 :: u8) = (\<Sum>i<n. f i)"
  by (induction n) simp_all

text \<open>The sum of the first \<open>n\<close> bytes of a table.\<close>

lemma ValidateTable_sum: "ValidateTable t n m \<longleftrightarrow> (\<Sum>i<unat n. m (t + of_nat i)) = 0"
  by (simp add: ValidateTable_def for_upto_sum)

definition compares :: "uefi \<Rightarrow> bool" where
  "compares fw \<longleftrightarrow> (\<forall>a b. ef_CompareGuid fw a b = 0 \<longleftrightarrow> a = b)"

lemma find_guid_first:
  assumes "compares fw"
  shows "case map_of es g of
      Some t \<Rightarrow> \<exists>j<length es. find_guid fw g es i = i + int j \<and> snd (es ! j) = t
    | None \<Rightarrow> find_guid fw g es i = - 1"
proof (induction es arbitrary: i)
  case (Cons e es)
  obtain a b where e: "e = (a, b)" by (cases e)
  show ?case
  proof (cases "g = a")
    case True
    with assms show ?thesis by (auto simp: e compares_def)
  next
    case False
    then have step: "find_guid fw g (e # es) i = find_guid fw g es (i + 1)" "map_of (e # es) g = map_of es g"
      using assms by (simp_all add: e compares_def)
    show ?thesis
    proof (cases "map_of es g")
      case (Some t)
      then obtain j where "j < length es" "find_guid fw g es (i + 1) = i + 1 + int j" "snd (es ! j) = t"
        using Cons.IH [of "i + 1"] by auto
      then show ?thesis unfolding step Some by (auto intro!: exI [of _ "Suc j"])
    qed (use Cons.IH [of "i + 1"] in \<open>unfold step, simp\<close>)
  qed
qed simp

lemma FindGuid_first:
  assumes "compares fw"
  shows "case map_of (ef_tables fw) g of Some t \<Rightarrow> FindGuid fw g \<noteq> - 1 \<and> VendorTable fw (FindGuid fw g) = t | None \<Rightarrow> FindGuid fw g = - 1"
  using find_guid_first [OF assms, of g "ef_tables fw" 0]
  by (auto simp: FindGuid_def VendorTable_def split: option.splits)

text \<open>
  C24. Finding the ACPI tables: \<open>FindRSDP\<close> takes the first configuration table with the ACPI 2.0 identifier, or else the first
  with the ACPI 1.0 identifier; it fails with \<^verbatim>\<open>EFI_NOT_FOUND\<close> exactly when there is neither, when its first 20 bytes do
  not sum up to zero or, for revision 2, the number of bytes it says it has do not. Otherwise the address of the extended
  table (revision 2) or of the root table is stored, and nothing else of \<^verbatim>\<open>kinfo\<close> changes.
\<close>
theorem FindRSDP_takes_first:
  assumes "compares fw"
  shows "FindRSDP fw s = Some
    (let found = (case map_of (ef_tables fw) (ACPI_20_TABLE_GUID fw) of Some t \<Rightarrow> Some t | None \<Rightarrow> map_of (ef_tables fw) (ACPI_TABLE_GUID fw));
         adds_up = (\<lambda>t n. (\<Sum>i<n. b_mem s (t + of_nat i)) = 0)
     in case found of
       None \<Rightarrow> (Inl EFI_NOT_FOUND, s)
     | Some t \<Rightarrow>
         if \<not> adds_up t 20 \<or> b_mem s (t + 15) = 2 \<and> \<not> adds_up t (unat (load32 (t + 20) (b_mem s))) then (Inl EFI_NOT_FOUND, s)
         else if b_mem s (t + 15) = 2 then (Inr (), s\<lparr>b_acpi_sdt_addr := load64 (t + 24) (b_mem s), b_acpi_xsdt := True\<rparr>)
         else (Inr (), s\<lparr>b_acpi_sdt_addr := ucast (load32 (t + 16) (b_mem s)), b_acpi_xsdt := False\<rparr>))"
proof -
  have u: "unat (ucast x :: u64) = unat x" for x :: u32
  proof -
    have "unat x < 2 ^ 32" using unsigned_less [of x, where 'a = nat] by simp
    then show ?thesis by (simp add: unsigned_ucast_eq take_bit_nat_eq_self)
  qed
  note g20 = FindGuid_first [OF assms, of "ACPI_20_TABLE_GUID fw"] and g10 = FindGuid_first [OF assms, of "ACPI_TABLE_GUID fw"]
  note def = FindRSDP_def Let_def ValidateTable_sum u
  show ?thesis
  proof (cases "map_of (ef_tables fw) (ACPI_20_TABLE_GUID fw)")
    case (Some t)
    with g20 show ?thesis by (simp add: def)
  next
    case None
    then show ?thesis
    proof (cases "map_of (ef_tables fw) (ACPI_TABLE_GUID fw)")
      case (Some t)
      with None g20 g10 show ?thesis by (simp add: def)
    qed (use g20 g10 in \<open>simp add: def\<close>)
  qed
qed

definition demo_start :: boot where
  "demo_start = demo_boot\<lparr>b_efi := []\<rparr>"

theorem FindRSDP_takes_first_witness:
  "compares (demo_uefi []) \<and> FindRSDP (demo_uefi []) demo_start = Some (Inr (), demo_start\<lparr>b_acpi_sdt_addr := 0, b_acpi_xsdt := False\<rparr>)"
proof -
  have c: "compares (demo_uefi [])" by (simp add: compares_def demo_uefi_def)
  show ?thesis using FindRSDP_takes_first [OF c, of demo_start] c
    by (simp add: demo_uefi_def demo_start_def demo_boot_def load32_def)
qed

text \<open>A firmware with the video modes \<open>infos\<close>, whose answers do not change.\<close>

definition video_modes :: "uefi \<Rightarrow> gop_info list \<Rightarrow> bool" where
  "video_modes fw infos \<longleftrightarrow> length infos < 2 ^ 32 \<and> (\<forall>h. unat (gm_MaxMode (ef_mode fw h)) = length infos) \<and>
     (\<forall>gop i h. i < length infos \<longrightarrow> (let r = ef_call fw (QueryMode gop (of_nat i) # h) in
        \<not> EFI_ERROR (er_status r) \<and> er_info r = infos ! i))"

lemma find_mode_first:
  assumes "video_modes fw infos"
  shows "i \<le> length infos \<Longrightarrow> \<exists>s'. find_mode fw gop w h fmt i s =
    (case find (\<lambda>j. mode_matches w h fmt (infos ! j)) [i..<length infos] of Some j \<Rightarrow> Inr (of_nat j) | None \<Rightarrow> Inl EFI_UNSUPPORTED, s')"
proof (induction "length infos - i" arbitrary: i s)
  case 0
  with assms show ?case by (subst find_mode.simps) (simp add: video_modes_def)
next
  case (Suc n)
  then have i: "i < length infos" "[i..<length infos] = i # [Suc i..<length infos]" by (simp_all add: upt_conv_Cons)
  let ?c = "QueryMode gop (of_nat i)"
  obtain r t where r: "efi fw ?c s = (r, t)" by fastforce
  then have "\<not> EFI_ERROR (er_status r)" "er_info r = infos ! i" "\<not> unat (gm_MaxMode (ef_mode fw (b_efi s))) \<le> i"
    using assms i(1) by (auto simp: video_modes_def efi_def Let_def)
  moreover have "n = length infos - Suc i" "Suc i \<le> length infos" using Suc(2) i(1) by simp_all
  note Suc(1) [OF this, of t]
  ultimately show ?case by (subst find_mode.simps) (auto simp: r i(2))
qed

text \<open>
  C33. Finding the video mode, on a firmware whose answers do not change: \<open>FindVideoMode\<close> returns the first mode of the
  wanted width, height and pixel format, and \<^verbatim>\<open>EFI_UNSUPPORTED\<close> exactly when there is none.
\<close>
theorem FindVideoMode_first_match:
  assumes "video_modes fw infos"
  shows "\<exists>s'. FindVideoMode fw gop w h fmt s = Some
    (if \<exists>j<length infos. mode_matches w h fmt (infos ! j)
     then Inr (of_nat (LEAST j. j < length infos \<and> mode_matches w h fmt (infos ! j))) else Inl EFI_UNSUPPORTED, s')"
proof -
  let ?P = "\<lambda>j. mode_matches w h fmt (infos ! j)"
  obtain s' where f: "find_mode fw gop w h fmt 0 s =
      (case find ?P [0..<length infos] of Some j \<Rightarrow> Inr (of_nat j) | None \<Rightarrow> Inl EFI_UNSUPPORTED, s')"
    using find_mode_first [OF assms, of 0 gop w h fmt s] by auto
  show ?thesis
  proof (cases "find ?P [0..<length infos]")
    case None
    then have "\<not> (\<exists>j<length infos. ?P j)" by (auto simp: find_None_iff)
    with f None show ?thesis by (simp add: FindVideoMode_def)
  next
    case (Some j)
    then have j: "j < length infos" "?P j" "\<forall>k<j. \<not> ?P k" by (auto simp: find_Some_iff)
    then have "(LEAST j. j < length infos \<and> ?P j) = j" by (intro Least_equality) (auto simp: not_less [symmetric])
    with f Some j show ?thesis by (auto simp: FindVideoMode_def)
  qed
qed

theorem FindVideoMode_first_match_witness:
  "video_modes (demo_uefi []) [demo_info] \<and>
   (\<exists>s'. FindVideoMode (demo_uefi []) 1 1024 768 1 demo_start = Some (Inr 0, s')) \<and>
   (\<exists>s'. FindVideoMode (demo_uefi []) 1 640 480 1 demo_start = Some (Inl EFI_UNSUPPORTED, s'))"
proof -
  have v: "video_modes (demo_uefi []) [demo_info]"
    by (simp add: video_modes_def Let_def demo_answer_def) (simp add: demo_uefi_def)
  have l: "(LEAST j. j < length [demo_info] \<and> mode_matches 1024 768 1 ([demo_info] ! j)) = 0"
    by (rule Least_equality) (simp_all add: mode_matches_def demo_info_def)
  have m: "(\<exists>j<length [demo_info]. mode_matches 1024 768 1 ([demo_info] ! j)) = True"
    "(\<exists>j<length [demo_info]. mode_matches 640 480 1 ([demo_info] ! j)) = False"
    by (simp_all add: mode_matches_def demo_info_def)
  have "\<exists>s'. FindVideoMode (demo_uefi []) 1 1024 768 1 demo_start = Some (Inr 0, s')"
    using FindVideoMode_first_match [OF v, of 1 1024 768 1 demo_start] unfolding m l by simp
  moreover have "\<exists>s'. FindVideoMode (demo_uefi []) 1 640 480 1 demo_start = Some (Inl EFI_UNSUPPORTED, s')"
    using FindVideoMode_first_match [OF v, of 1 640 480 1 demo_start] unfolding m by simp
  ultimately show ?thesis using v by blast
qed

end
