(* ===== verification/Boot_Main.thy ===== *)
theory Boot_Main
  imports Boot_Devices
begin

text \<open>
  \<^verbatim>\<open>src/boot/uefi.c\<close>: \<open>efi_main\<close>, the composition of everything in the loader. \<open>calm\<close> describes the steps before the page tables exist,
  \<open>onward\<close> those after the kernel has been loaded; each is closed under sequencing, so the theorems on the whole run
  follow from one lemma per step. \<open>fails_known\<close> says where an error comes from.
\<close>

section \<open>uefi.c\<close>

definition zero_kinfo :: "boot \<Rightarrow> boot" where
  "zero_kinfo s = s\<lparr>b_mmap := 0, b_mmap_size := 0, b_mmap_desc_size := 0, b_num_ke := 0, b_ke := 0, b_pml4 := 0, b_bitmap := 0,
     b_bitmap_entries := 0, b_bitmap_size := 0, b_mem_pages := 0, b_fb_buffer := 0, b_fb_horizontal_res := 0, b_fb_vertical_res := 0,
     b_fb_pixels_per_scanline := 0, b_fb_bpp := 0, b_acpi_sdt_addr := 0, b_acpi_xsdt := False\<rparr>"

text \<open>What \<^verbatim>\<open>efi_main\<close> loads into registers and passes to the kernel.\<close>

record handover =
  ho_cr3 :: u64
  ho_rsp :: u64
  ho_entry :: u64
  ho_kinfo :: u64
  ho_stack :: u64

text \<open>The part up to the memory map: devices, page tables, kernel image and stack. The result is the entry point and the stack.\<close>

definition prepare :: "uefi \<Rightarrow> u64 \<Rightarrow> u64 \<Rightarrow> boot \<Rightarrow> (u64 \<times> u64) efi_result" where
  "prepare fw kinfo kinfo_size s =
     efi_seq (efi_try fw SetWatchdogTimer s) (\<lambda>_ s.
     efi_seq (efi_try fw (SetMem kinfo kinfo_size 0) s) (\<lambda>_ s.
     let s = zero_kinfo s in
     efi_seq (efi_try fw ConInReset s) (\<lambda>_ s.
     efi_seq (ConfigureGraphics fw s) (\<lambda>_ s.
     efi_seq (FindRSDP fw s) (\<lambda>_ s.
     efi_seq (ConfigurePaging fw s) (\<lambda>_ s.
     efi_seq (LoadKernel fw s) (\<lambda>kernel_entry_point s.
     efi_seq (efi_try fw (AllocatePages EfiLoaderData 1) s) (\<lambda>r s.
     let stack = out_or NULL (er_out r) in
     efi_seq (MapRange fw stack (VADDR stack) 1 (b_pml4 s) s) (\<lambda>_ s.
     Some (Inr (kernel_entry_point, stack + PAGE_SIZE), s))))))))))"

text \<open>The memory map and the end of boot services; the key of the last map goes to \<^verbatim>\<open>ExitBootServices\<close>.\<close>

definition leave_firmware :: "uefi \<Rightarrow> u64 \<Rightarrow> boot \<Rightarrow> unit efi_result" where
  "leave_firmware fw ImageHandle s =
     efi_seq (GetMMAP fw 0 s) (\<lambda>mmap_key s.
     efi_seq (ParseMMAP fw s) (\<lambda>_ s.
     efi_seq (FreeMMAP fw s) (\<lambda>_ s.
     efi_seq (GetMMAP fw mmap_key s) (\<lambda>mmap_key s.
     efi_seq (efi_try fw (ExitBootServices ImageHandle mmap_key) s) (\<lambda>_ s. Some (Inr (), s))))))"

text \<open>
  \<open>Inr\<close> is the jump to the kernel with these registers and arguments; the statement behind the jump is reached only if the kernel
  returns. The address and the size of \<^verbatim>\<open>kinfo\<close> on the stack are arguments.
\<close>

definition efi_main :: "uefi \<Rightarrow> u64 \<Rightarrow> u64 \<Rightarrow> u64 \<Rightarrow> boot \<Rightarrow> handover efi_result" where
  "efi_main fw ImageHandle kinfo kinfo_size s =
     efi_seq (prepare fw kinfo kinfo_size s) (\<lambda>(kernel_entry_point, stack) s.
     efi_seq (leave_firmware fw ImageHandle s) (\<lambda>_ s.
     Some (Inr \<lparr>ho_cr3 = b_pml4 s, ho_rsp = VADDR stack, ho_entry = kernel_entry_point, ho_kinfo = kinfo, ho_stack = stack - PAGE_SIZE\<rparr>, s)))"

section \<open>The end of boot services\<close>

lemma GetMMAP_last:
  assumes "GetMMAP fw key s = Some (Inr k, t)"
  shows "\<exists>n h d. b_efi t = GetMemoryMap n (b_mmap t) # h \<and> k = out_or d (er_key (ef_call fw (GetMemoryMap n (b_mmap t) # h)))"
  using assms
  by (auto simp: GetMMAP_def efi_try_def efi_def Let_def efi_seq_Some split: if_splits)

lemma efi_try_history: "efi_try fw c s = Some (r, t) \<Longrightarrow> b_efi t = c # b_efi s \<and> b_mmap t = b_mmap s"
  by (auto simp: efi_try_def efi_def Let_def)

section \<open>Fields that stay\<close>

definition keeps_bitmap :: "boot \<Rightarrow> 'a efi_result \<Rightarrow> bool" where
  "keeps_bitmap s m \<longleftrightarrow> (\<forall>r t. m = Some (r, t) \<longrightarrow> b_bitmap t = b_bitmap s)"

lemma keeps_bitmap_seq:
  "keeps_bitmap s m \<Longrightarrow> (\<And>x t. b_bitmap t = b_bitmap s \<Longrightarrow> keeps_bitmap s (f x t)) \<Longrightarrow> keeps_bitmap s (efi_seq m f)"
  unfolding keeps_bitmap_def efi_seq_Some by blast

lemma keeps_bitmap_try: "b_bitmap t = b_bitmap s \<Longrightarrow> keeps_bitmap s (efi_try fw c t)"
  by (auto simp: keeps_bitmap_def efi_try_def efi_def Let_def)

lemma keeps_bitmap_return: "b_bitmap t = b_bitmap s \<Longrightarrow> keeps_bitmap s (Some (x, t))"
  by (simp add: keeps_bitmap_def)

lemma keeps_bitmap_AllocTable: "b_bitmap t = b_bitmap s \<Longrightarrow> keeps_bitmap s (AllocTable fw t)"
  unfolding AllocTable_def Let_def by (intro keeps_bitmap_seq keeps_bitmap_try keeps_bitmap_return)

lemma keeps_bitmap_MapAddr:
  assumes "b_bitmap t = b_bitmap s" shows "keeps_bitmap s (MapAddr fw phys virt p4 t)"
proof -
  have "keeps_bitmap t (Some y)" if "MapAddr fw phys virt p4 t = Some y" for y
  proof (rule MapAddr.raw_induct [where P = "\<lambda>_ _ _ _ t y. keeps_bitmap t (Some y)", OF _ that], goal_cases)
    case (1 M fw phys virt p4 t y)
    then have rec: "keeps_bitmap s (M fw p v q u)" if "b_bitmap u = b_bitmap s" for p v q u s
      using that by (cases "M fw p v q u") (auto simp: keeps_bitmap_def)
    show ?case unfolding 1(2) [symmetric] Let_def
      by (intro keeps_bitmap_seq)
        (auto simp: tbl_write_def intro!: keeps_bitmap_seq rec keeps_bitmap_AllocTable keeps_bitmap_return)
  qed
  with assms show ?thesis by (auto simp: keeps_bitmap_def)
qed

lemma keeps_bitmap_for:
  "(\<And>i t. b_bitmap t = b_bitmap s \<Longrightarrow> keeps_bitmap s (f i t)) \<Longrightarrow> b_bitmap t = b_bitmap s \<Longrightarrow> keeps_bitmap s (efi_for n f t)"
  by (induction n) (auto intro: keeps_bitmap_seq keeps_bitmap_return)

lemma keeps_bitmap_MapRange: "b_bitmap t = b_bitmap s \<Longrightarrow> keeps_bitmap s (MapRange fw phys virt n p4 t)"
  unfolding MapRange_def by (intro keeps_bitmap_for keeps_bitmap_MapAddr)

lemma map_segment_bitmap: "map_segment fw a d n p4 t = Some u \<Longrightarrow> b_bitmap u = b_bitmap t"
  unfolding map_segment_def
proof (erule for_opt_inv)
  fix i v w assume v: "b_bitmap v = b_bitmap t"
    and w: "map_option snd (MapAddr fw (ALIGN_ADDR (d + PAGE_SIZE * of_nat i))
      (ALIGN_ADDR (p_vaddr (phdr_at a (b_mem v)) + PAGE_SIZE * of_nat i)) p4 v) = Some w"
  then show "b_bitmap w = b_bitmap t" using keeps_bitmap_MapAddr [OF v] by (auto simp: keeps_bitmap_def)
qed simp

lemma keeps_bitmap_LoadSegment: "b_bitmap t = b_bitmap s \<Longrightarrow> keeps_bitmap s (LoadSegment fw a fh p4 ke t)"
  unfolding LoadSegment_def Let_def
  by (intro keeps_bitmap_seq keeps_bitmap_try) (auto simp: keeps_bitmap_def dest: map_segment_bitmap)

lemma keeps_bitmap_load_segments: "b_bitmap t = b_bitmap s \<Longrightarrow> keeps_bitmap s (load_segments fw pb fh n t)"
  by (induction n)
    (auto simp: Let_def intro!: keeps_bitmap_return keeps_bitmap_seq keeps_bitmap_LoadSegment)

lemma LoadKernel_bitmap: "LoadKernel fw s = Some (r, t) \<Longrightarrow> b_bitmap t = b_bitmap s"
proof -
  have "keeps_bitmap s (LoadKernel fw s)"
    unfolding LoadKernel_def open_kernel_def read_header_def read_program_headers_def alloc_entries_def close_kernel_def Let_def
    by (intro keeps_bitmap_seq keeps_bitmap_try keeps_bitmap_MapRange keeps_bitmap_load_segments)
      (auto intro!: keeps_bitmap_return)
  then show "LoadKernel fw s = Some (r, t) \<Longrightarrow> b_bitmap t = b_bitmap s" by (auto simp: keeps_bitmap_def)
qed

section \<open>The memory map\<close>

text \<open>\<^verbatim>\<open>GetMemoryMap\<close> fills its buffer with a well-formed map and says how long the map and its descriptors are.\<close>

definition reports_map :: "uefi \<Rightarrow> bool" where
  "reports_map fw \<longleftrightarrow> (\<forall>s n p. let (r, t) = efi fw (GetMemoryMap n p) s in \<not> EFI_ERROR (er_status r) \<longrightarrow>
     (\<exists>k d. er_out r = Some k \<and> er_desc_size r = Some d \<and> k \<le> n \<and>
        map_sane (t\<lparr>b_mmap := p, b_mmap_size := k, b_mmap_desc_size := d\<rparr>)))"

lemma map_sane_cong:
  "b_mem s = b_mem t \<Longrightarrow> b_mmap s = b_mmap t \<Longrightarrow> b_mmap_size s = b_mmap_size t \<Longrightarrow> b_mmap_desc_size s = b_mmap_desc_size t \<Longrightarrow>
    map_sane s \<longleftrightarrow> map_sane t"
  by (simp add: map_sane_def kinfo_mem_def mmap_entries_def)

definition map_read :: "uefi \<Rightarrow> nat set \<Rightarrow> u64 \<Rightarrow> boot \<Rightarrow> boot \<Rightarrow> bool" where
  "map_read fw A p4 s t \<longleftrightarrow> evolves fw A p4 {} s t \<and>
     t = s\<lparr>b_mem := b_mem t, b_efi := b_efi t, b_mmap := b_mmap t, b_mmap_size := b_mmap_size t, b_mmap_desc_size := b_mmap_desc_size t\<rparr> \<and>
     map_sane t \<and> span (b_mmap t) (unat (b_mmap_size t)) \<subseteq> held fw (b_efi t) - table_bytes fw A p4 t"

lemma read_map:
  assumes c: "conforming fw A" and inv: "boot_inv fw A p4 s" and rm: "reports_map fw"
  shows "\<exists>r t. efi_seq (efi_try fw (AllocatePool EfiLoaderData n) s) (\<lambda>r s.
         let mmap = out_or NULL (er_out r) in
         efi_seq (efi_try fw (GetMemoryMap n mmap) s) (\<lambda>r s.
         Some (Inr (out_or key (er_key r)),
           s\<lparr>b_mmap := mmap, b_mmap_size := out_or n (er_out r), b_mmap_desc_size := out_or ds (er_desc_size r)\<rparr>))) = Some (r, t) \<and>
    (case r of Inl e \<Rightarrow> EFI_ERROR e | Inr k \<Rightarrow> map_read fw A p4 s t)"
proof (cases rule: efi_try_cases [of fw "AllocatePool EfiLoaderData n" s])
  case (err e t)
  then show ?thesis by simp
next
  case 1: (ok r1 s1)
  obtain p where p: "er_out r1 = Some p" "span p (unat n) \<subseteq> held fw (b_efi s1) - table_bytes fw A p4 s1"
    "span p (unat n) \<inter> held fw (b_efi s) = {}" by (rule pool_alloc [OF c inv 1(2,3)])
  have e1: "evolves fw A p4 {} s s1" by (rule call_evolves [OF c inv 1(2)]) simp
  have inv1: "boot_inv fw A p4 s1" using e1 by (simp add: evolves_def)
  have o1: "boot_only s s1" by (rule boot_only_efi [OF 1(2)])
  show ?thesis
  proof (cases rule: efi_try_cases [of fw "GetMemoryMap n p" s1])
    case (err e t)
    then show ?thesis using 1(1) p(1) by (simp add: out_or_def)
  next
    case 2: (ok r2 s2)
    obtain k d where k: "er_out r2 = Some k" "er_desc_size r2 = Some d" "k \<le> n"
      "map_sane (s2\<lparr>b_mmap := p, b_mmap_size := k, b_mmap_desc_size := d\<rparr>)"
      using rm 2(2,3) unfolding reports_map_def by (auto simp: Let_def split: prod.splits) (metis prod.inject)
    define t where "t = s2\<lparr>b_mmap := p, b_mmap_size := k, b_mmap_desc_size := d\<rparr>"
    have "page_held fw (b_efi s1) = page_held fw (b_efi s)" using efi_mem(2) [OF c 1(2)] by (simp add: Let_def)
    then have "buffer_of (GetMemoryMap n p) \<inter> page_held fw (b_efi s1) = {}" using p(3) by (auto simp: held_def)
    note e2 = call_evolves [OF c inv1 2(2) this]
    have e: "evolves fw A p4 {} s t"
      using evolves_trans [OF e1 e2(1)] evolves_cong [of s s s2 t] by (simp add: t_def)
    have "span p (unat k) \<subseteq> span p (unat n)" using k(3) by (auto simp: span_iff word_le_nat_alt)
    moreover have "held fw (b_efi s1) \<subseteq> held fw (b_efi s2)"
      unfolding efi_mem(2) [OF c 2(2)] by (rule held_mono) simp
    moreover have "table_bytes fw A p4 t = table_bytes fw A p4 s1"
      using e2(2) view_cong [of t s2] by (simp add: table_bytes_def t_def)
    ultimately have h: "span p (unat k) \<subseteq> held fw (b_efi t) - table_bytes fw A p4 t" using p(2) by (auto simp: t_def)
    have "t = s\<lparr>b_mem := b_mem t, b_efi := b_efi t, b_mmap := b_mmap t, b_mmap_size := b_mmap_size t, b_mmap_desc_size := b_mmap_desc_size t\<rparr>"
      using boot_only_trans [OF o1 boot_only_efi [OF 2(2)]] by (auto simp: boot_only_def t_def)
    then have "map_read fw A p4 s t" using e k(4) h by (simp add: map_read_def) (simp add: t_def)
    then show ?thesis using 1(1) 2(1) p(1) k by (simp add: out_or_def t_def)
  qed
qed

lemma GetMMAP_outcome:
  assumes c: "conforming fw A" and inv: "boot_inv fw A p4 s" and rm: "reports_map fw"
  shows "\<exists>r t. GetMMAP fw key s = Some (r, t) \<and> (case r of Inl e \<Rightarrow> EFI_ERROR e | Inr k \<Rightarrow> map_read fw A p4 s t)"
proof -
  obtain r s1 where 1: "efi fw (GetMemoryMap 0 NULL) s = (r, s1)" by fastforce
  have e1: "evolves fw A p4 {} s s1" by (rule call_evolves [OF c inv 1]) (simp add: span_def)
  then have inv1: "boot_inv fw A p4 s1" by (simp add: evolves_def)
  have o: "boot_only s s1" by (rule boot_only_efi [OF 1])
  have "map_read fw A p4 s t" if "map_read fw A p4 s1 t" for t
    using that evolves_trans [OF e1, of "{}" t "{}"] o by (auto simp: map_read_def boot_only_def)
  with read_map [OF c inv1 rm, of "out_or 0 (er_out r) + 2 * out_or 0 (er_desc_size r)" "out_or key (er_key r)" "out_or 0 (er_desc_size r)"]
  show ?thesis unfolding GetMMAP_def 1 by (auto simp: Let_def split: sum.splits) 
qed

section \<open>From the loaded kernel to the jump\<close>

definition onward :: "uefi \<Rightarrow> nat set \<Rightarrow> u64 \<Rightarrow> boot \<Rightarrow> 'a efi_result \<Rightarrow> bool" where
  "onward fw A p4 s m \<longleftrightarrow> (\<exists>r t. m = Some (r, t) \<and>
     (case r of Inl e \<Rightarrow> EFI_ERROR e
      | Inr _ \<Rightarrow> evolves fw A p4 (frame_page ` {..<2 ^ 35}) s t \<and> b_pml4 t = b_pml4 s \<and> b_num_ke t = b_num_ke s))"

lemma onward_seq:
  assumes m: "onward fw A p4 s m" and f: "\<And>x t. m = Some (Inr x, t) \<Longrightarrow> boot_inv fw A p4 t \<Longrightarrow> onward fw A p4 t (f x t)"
  shows "onward fw A p4 s (efi_seq m f)"
proof -
  obtain r t where r: "m = Some (r, t)" using m by (auto simp: onward_def)
  show ?thesis
  proof (cases r)
    case (Inr x)
    with m r have e: "evolves fw A p4 (frame_page ` {..<2 ^ 35}) s t" "b_pml4 t = b_pml4 s" "b_num_ke t = b_num_ke s" by (auto simp: onward_def)
    then have "onward fw A p4 t (f x t)" using r Inr by (intro f) (auto simp: evolves_def)
    with r Inr e evolves_trans [OF e(1) _ Un_absorb [THEN equalityD1]] show ?thesis
      by (auto simp: onward_def split: sum.splits)
  qed (use m r in \<open>simp add: onward_def\<close>)
qed

lemma evolves_mono: "evolves fw A p4 X s t \<Longrightarrow> X \<subseteq> Y \<Longrightarrow> evolves fw A p4 Y s t"
  using other_pages_mono unfolding evolves_def by blast

lemma onward_try:
  assumes "conforming fw A" "boot_inv fw A p4 s" "buffer_of c = {}"
  shows "onward fw A p4 s (efi_try fw c s)"
proof (cases rule: efi_try_cases [of fw c s])
  case (ok r t)
  have "evolves fw A p4 (frame_page ` {..<2 ^ 35}) s t"
    by (rule evolves_mono [OF call_evolves(1) [OF assms(1,2) ok(2)]]) (simp_all add: assms(3))
  with ok(1) boot_only_efi [OF ok(2)] show ?thesis by (auto simp: onward_def boot_only_def)
qed (simp add: onward_def)

lemma onward_return [simp]: "boot_inv fw A p4 s \<Longrightarrow> onward fw A p4 s (Some (Inr x, s))"
  by (simp add: onward_def evolves_def)

lemma onward_GetMMAP:
  assumes "conforming fw A" "boot_inv fw A p4 s" "reports_map fw"
  shows "onward fw A p4 s (GetMMAP fw key s)"
proof -
  obtain r t where r: "GetMMAP fw key s = Some (r, t)" "case r of Inl e \<Rightarrow> EFI_ERROR e | Inr k \<Rightarrow> map_read fw A p4 s t"
    using GetMMAP_outcome [OF assms] by blast
  show ?thesis
  proof (cases r)
    case (Inr k)
    with r(2) have m: "map_read fw A p4 s t" by simp
    then have t: "t = s\<lparr>b_mem := b_mem t, b_efi := b_efi t, b_mmap := b_mmap t, b_mmap_size := b_mmap_size t,
        b_mmap_desc_size := b_mmap_desc_size t\<rparr>" by (simp add: map_read_def)
    have "b_pml4 t = b_pml4 s" "b_num_ke t = b_num_ke s" by (subst t, simp)+
    with r(1) Inr m show ?thesis using evolves_mono [of fw A p4 "{}" s t] by (auto simp: onward_def map_read_def)
  qed (use r in \<open>simp add: onward_def\<close>)
qed

lemma onward_ParseMMAP:
  assumes "conforming fw A" "refusal_keeps fw" "boot_inv fw A (b_pml4 s) s" "map_sane s" "b_bitmap s = 0"
    and "span (b_mmap s) (unat (b_mmap_size s)) \<subseteq> held fw (b_efi s) - table_bytes fw A (b_pml4 s) s"
  shows "onward fw A (b_pml4 s) s (ParseMMAP fw s)"
proof -
  obtain r t where r: "ParseMMAP fw s = Some (r, t)"
    "case r of Inl e \<Rightarrow> EFI_ERROR e \<and> free_pages fw A (b_efi t) = {} | Inr _ \<Rightarrow> map_parsed fw A (b_pml4 s) s t"
    using ParseMMAP_outcome [OF assms(1-4,6,5)] by blast
  show ?thesis
  proof (cases r)
    case (Inr x)
    with r(2) have m: "map_parsed fw A (b_pml4 s) s t" by simp
    then have t: "t = s\<lparr>b_mem := b_mem t, b_efi := b_efi t, b_bitmap := b_bitmap t, b_bitmap_entries := b_bitmap_entries t,
        b_bitmap_size := b_bitmap_size t, b_mem_pages := b_mem_pages t\<rparr>" by (simp add: map_parsed_def Let_def)
    have "b_pml4 t = b_pml4 s" "b_num_ke t = b_num_ke s" by (subst t, simp)+
    with r(1) Inr m show ?thesis by (simp add: onward_def map_parsed_def Let_def)
  qed (use r in \<open>simp add: onward_def\<close>)
qed

lemma GetMMAP_read:
  assumes "conforming fw A" "boot_inv fw A p4 s" "reports_map fw" "GetMMAP fw key s = Some (Inr k, t)"
  shows "map_sane t" "span (b_mmap t) (unat (b_mmap_size t)) \<subseteq> held fw (b_efi t) - table_bytes fw A p4 t"
    "b_pml4 t = b_pml4 s" "b_bitmap t = b_bitmap s"
proof -
  have m: "map_read fw A p4 s t" using GetMMAP_outcome [OF assms(1-3), of key] assms(4) by simp
  then show "map_sane t" "span (b_mmap t) (unat (b_mmap_size t)) \<subseteq> held fw (b_efi t) - table_bytes fw A p4 t" by (auto simp: map_read_def)
  have t: "t = s\<lparr>b_mem := b_mem t, b_efi := b_efi t, b_mmap := b_mmap t, b_mmap_size := b_mmap_size t,
      b_mmap_desc_size := b_mmap_desc_size t\<rparr>" using m by (simp add: map_read_def)
  show "b_pml4 t = b_pml4 s" "b_bitmap t = b_bitmap s" by (subst t, simp)+
qed

lemma onward_leave_firmware:
  assumes c: "conforming fw A" "refusal_keeps fw" "reports_map fw" and inv: "boot_inv fw A (b_pml4 s) s" and z: "b_bitmap s = 0"
  shows "onward fw A (b_pml4 s) s (leave_firmware fw ih s)"
  unfolding leave_firmware_def
proof (rule onward_seq [OF onward_GetMMAP [OF c(1) inv c(3)]])
  fix k s1 assume 1: "GetMMAP fw 0 s = Some (Inr k, s1)" and inv1: "boot_inv fw A (b_pml4 s) s1"
  note m = GetMMAP_read [OF c(1) inv c(3) 1]
  have parse: "onward fw A (b_pml4 s) s1 (ParseMMAP fw s1)"
    using onward_ParseMMAP [OF c(1,2), of s1] inv1 m z by simp
  show "onward fw A (b_pml4 s) s1 (efi_seq (ParseMMAP fw s1) (\<lambda>_ s. efi_seq (FreeMMAP fw s) (\<lambda>_ s.
      efi_seq (GetMMAP fw k s) (\<lambda>k s. efi_seq (efi_try fw (ExitBootServices ih k) s) (\<lambda>_ s. Some (Inr (), s))))))"
    unfolding FreeMMAP_def
    by (intro onward_seq parse onward_try onward_return onward_GetMMAP c) simp_all
qed

section \<open>Up to the loaded kernel\<close>

text \<open>Steps that return and, unless they fail, neither take pages nor touch the bitmap field.\<close>

definition calm :: "uefi \<Rightarrow> nat set \<Rightarrow> boot \<Rightarrow> 'a efi_result \<Rightarrow> bool" where
  "calm fw A s m \<longleftrightarrow> (\<exists>r t. m = Some (r, t) \<and>
     (case r of Inl e \<Rightarrow> EFI_ERROR e
      | Inr _ \<Rightarrow> free_pages fw A (b_efi t) = free_pages fw A (b_efi s) \<and> b_bitmap t = b_bitmap s))"

lemma calm_return [simp]: "calm fw A s (Some (Inr x, t)) \<longleftrightarrow> free_pages fw A (b_efi t) = free_pages fw A (b_efi s) \<and> b_bitmap t = b_bitmap s"
  by (simp add: calm_def)

lemma calm_seq:
  assumes "calm fw A s m" "\<And>x t. m = Some (Inr x, t) \<Longrightarrow> calm fw A t (f x t)"
  shows "calm fw A s (efi_seq m f)"
proof -
  obtain r t where m: "m = Some (r, t)" using assms(1) by (auto simp: calm_def)
  show ?thesis
  proof (cases r)
    case (Inr x)
    with m assms(1) assms(2) [of x t] show ?thesis by (auto simp: calm_def split: sum.splits)
  qed (use m assms(1) in \<open>simp add: calm_def\<close>)
qed

lemma calm_try: "conforming fw A \<Longrightarrow> (\<And>t n. c \<noteq> AllocatePages t n) \<Longrightarrow> calm fw A s (efi_try fw c s)"
proof (cases rule: efi_try_cases [of fw c s])
  case (ok r t)
  assume a: "conforming fw A" "\<And>t n. c \<noteq> AllocatePages t n"
  then have "page_held fw (b_efi t) = page_held fw (b_efi s)"
    using efi_mem(2) [OF a(1) ok(2)] by (cases c) (auto simp: Let_def)
  with ok a boot_only_efi [OF ok(2)] show ?thesis by (auto simp: calm_def free_pages_pages boot_only_def)
qed (simp add: calm_def)

lemma calm_find_mode: "conforming fw A \<Longrightarrow> calm fw A s (Some (find_mode fw gop w h fmt i s))"
proof (induction fw gop w h fmt i s rule: find_mode.induct)
  case (1 fw gop w h fmt i s)
  obtain r t where r: "efi fw (QueryMode gop (of_nat i)) s = (r, t)" by fastforce
  have q: "calm fw A s (efi_try fw (QueryMode gop (of_nat i)) s)" using 1(2) by (rule calm_try) simp
  show ?case
  proof (cases "unat (gm_MaxMode (ef_mode fw (b_efi s))) \<le> i")
    case True
    then show ?thesis by (subst find_mode.simps) (simp add: calm_def)
  next
    case False
    then have "Some (find_mode fw gop w h fmt i s) = efi_seq (efi_try fw (QueryMode gop (of_nat i)) s) (\<lambda>r t.
        if mode_matches w h fmt (er_info r) then Some (Inr (of_nat i), t) else Some (find_mode fw gop w h fmt (i + 1) t))"
      by (subst find_mode.simps) (simp add: r efi_try_def Let_def)
    moreover have "calm fw A t' (if mode_matches w h fmt (er_info r') then Some (Inr (of_nat i), t') else Some (find_mode fw gop w h fmt (i + 1) t'))"
      if "efi_try fw (QueryMode gop (of_nat i)) s = Some (Inr r', t')" for r' t'
      using 1(1) [OF False refl, of r' t'] 1(2) that r by (auto simp: efi_try_def Let_def split: if_splits)
    ultimately show ?thesis using q by (simp only:) (rule calm_seq)
  qed
qed

lemma calm_ConfigureGraphics: "conforming fw A \<Longrightarrow> calm fw A s (ConfigureGraphics fw s)"
  unfolding ConfigureGraphics_def FindVideoMode_def Let_def by (intro calm_seq calm_try calm_find_mode) simp_all

lemma calm_FindRSDP: "calm fw A s (FindRSDP fw s)"
  by (simp add: FindRSDP_def Let_def calm_def)

lemma ConfigurePaging_inv:
  assumes c: "conforming fw A" and ne: "free_pages fw A (b_efi s) \<noteq> {}"
  shows "\<exists>r t. ConfigurePaging fw s = Some (r, t) \<and> (case r of Inl e \<Rightarrow> EFI_ERROR e | Inr _ \<Rightarrow> boot_inv fw A (b_pml4 t) t)"
proof (rule ConfigurePaging_root [OF c ne])
  fix f t
  assume t: "boot_inv fw A (frame_addr f) t" "b_pml4 t = frame_addr f"
    "ConfigurePaging fw s = efi_seq (MapAddr fw (frame_addr f) (frame_addr f) (frame_addr f) t) (\<lambda>_ s. Some (Inr (), s))"
  from MapAddr_mapped [OF c t(1), of "frame_addr f" "frame_addr f"] obtain r u where
    r: "MapAddr fw (frame_addr f) (frame_addr f) (frame_addr f) t = Some (r, u)"
      "mapped fw A (frame_addr f) (page (frame_addr f)) (frame_addr f AND SIGN_MASK) t r u" by blast
  then have "boot_steps fw A (frame_addr f) t u" "isl r \<Longrightarrow> EFI_ERROR (projl r)"
    by (auto simp: mapped_def failed_def split: sum.splits)
  then show ?thesis using t r(1) by (cases r) (auto simp: boot_steps_def boot_only_def)
qed

text \<open>
  The segments of the image are in the higher half, away from the addresses memory is mapped to itself at and from the
  higher-half address of any page the stack may be in.
\<close>

definition stack_page :: "nat \<Rightarrow> u64 list \<times> u64" where
  "stack_page f = page (VADDR (frame_addr f))"

definition higher_half :: "nat set \<Rightarrow> u8 list \<Rightarrow> bool" where
  "higher_half A img \<longleftrightarrow> (\<forall>k. loadable img k \<longrightarrow>
     seg_range (img_phdr img k) \<inter> (frame_page ` {..<2 ^ 35} \<union> stack_page ` A) = {})"

lemma stack_page_apart: "f < 2 ^ 22 \<Longrightarrow> g < 2 ^ 35 \<Longrightarrow> stack_page f \<noteq> frame_page g"
  using high_page [of "frame_addr f" 0 g] by (simp add: stack_page_def unat_frame_addr)

lemma MapRange_one: "MapRange fw a v 1 p4 s = MapAddr fw a v p4 s"
  by (simp add: MapRange_def)

definition prepared :: "uefi \<Rightarrow> nat set \<Rightarrow> u8 list \<Rightarrow> nat \<Rightarrow> boot \<Rightarrow> bool" where
  "prepared fw A img f t \<longleftrightarrow> f \<in> A \<and> b_bitmap t = 0 \<and> boot_inv fw A (b_pml4 t) t \<and>
     b_num_ke t = of_nat (nloads img (img_phnum img)) \<and>
     (free_pages fw A (b_efi t) \<noteq> {} \<longrightarrow> segments_loaded fw A (b_pml4 t) {} img (img_phnum img) t \<and>
        pview (view fw A t) (b_pml4 t) (stack_page f) = frame_addr f)"

lemma segments_evolve:
  assumes "segments_loaded fw A p4 {} img (img_phnum img) s" "evolves fw A p4 X s t" "elf_ok A img"
    and "\<And>k. loadable img k \<Longrightarrow> seg_range (img_phdr img k) \<inter> X = {}"
  shows "segments_loaded fw A p4 {} img (img_phnum img) t"
  unfolding segments_loaded_def
proof (intro allI impI)
  fix k assume k: "k < img_phnum img" "loadable img k"
  then obtain f where "loaded fw A p4 {} img (img_phdr img k) f s" using assms(1) by (auto simp: segments_loaded_def)
  moreover have "seg_ok A (img_phdr img k)" using assms(3) k(2) by (simp add: elf_ok_def)
  ultimately show "\<exists>f. loaded fw A p4 {} img (img_phdr img k) f t" using loaded_evolves [OF _ assms(2)] assms(4) [OF k(2)] by blast
qed

lemma map_stack:
  assumes c: "conforming fw A" and k: "kernel_loaded fw A (b_pml4 s) img s" and ok: "elf_ok A img" "higher_half A img"
    and b: "b_bitmap s = 0" "b_num_ke s = of_nat (nloads img (img_phnum img))"
  shows "\<exists>r t. efi_seq (efi_try fw (AllocatePages EfiLoaderData 1) s) (\<lambda>r s.
      let stack = out_or NULL (er_out r) in
      efi_seq (MapRange fw stack (VADDR stack) 1 (b_pml4 s) s) (\<lambda>_ s. Some (Inr (entry, stack + PAGE_SIZE), s))) = Some (r, t) \<and>
    (case r of Inl e \<Rightarrow> EFI_ERROR e | Inr (e, stack) \<Rightarrow> e = entry \<and> (\<exists>f. stack = frame_addr f + PAGE_SIZE \<and> prepared fw A img f t))"
proof (cases rule: efi_try_cases [of fw "AllocatePages EfiLoaderData 1" s])
  case (err e t)
  then show ?thesis by simp
next
  case 1: (ok r1 s1)
  let ?p4 = "b_pml4 s"
  have inv: "boot_inv fw A ?p4 s" using k by (simp add: kernel_loaded_def)
  have A: "A \<subseteq> {1..<64 * 65535}" by (rule conformingD(1) [OF c])
  have e1: "evolves fw A ?p4 {} s s1" using call_evolves(1) [OF c inv 1(2)] by simp
  have inv1: "boot_inv fw A ?p4 s1" using e1 by (simp add: evolves_def)
  have o1: "boot_only s s1" by (rule boot_only_efi [OF 1(2)])
  obtain f where f: "er_out r1 = Some (frame_addr f)" "f \<in> A"
    using conformingD(3) [OF c, of EfiLoaderData 1 "b_efi s"] 1(3) efi_mem(3) [OF c 1(2)] by (auto simp: free_pages_def)
  have f22: "f < 2 ^ 22" using f(2) A by auto
  have apart: "\<forall>g<2 ^ 35. page (VADDR (frame_addr f)) = frame_page g \<longrightarrow> frame_addr f AND SIGN_MASK = frame_addr g"
    using stack_page_apart [OF f22] by (auto simp: stack_page_def)
  have fm: "frame_addr f AND SIGN_MASK = frame_addr f" using f22 by (intro frame_addr_mask) simp
  obtain r2 t where 2: "MapAddr fw (frame_addr f) (VADDR (frame_addr f)) ?p4 s1 = Some (r2, t)"
    and st: "boot_steps fw A ?p4 s1 t" and o: "other_pages fw A ?p4 {stack_page f} s1 t"
    and r2: "case r2 of Inl e \<Rightarrow> EFI_ERROR e \<and> free_pages fw A (b_efi t) = {}
       | Inr _ \<Rightarrow> pview (view fw A t) ?p4 (stack_page f) = frame_addr f \<and>
         (\<forall>g<2 ^ 35. pview (view fw A s1) ?p4 (frame_page g) = frame_addr g \<longrightarrow> pview (view fw A t) ?p4 (frame_page g) = frame_addr g)"
    using MapAddr_ids [OF c inv1 apart] unfolding fm stack_page_def [symmetric] by blast
  have call: "efi_seq (efi_try fw (AllocatePages EfiLoaderData 1) s) (\<lambda>r s. let stack = out_or NULL (er_out r) in
      efi_seq (MapRange fw stack (VADDR stack) 1 (b_pml4 s) s) (\<lambda>_ s. Some (Inr (entry, stack + PAGE_SIZE), s))) =
    efi_seq (Some (r2, t)) (\<lambda>_ s. Some (Inr (entry, frame_addr f + PAGE_SIZE), s))"
    using 1(1) f(1) 2 o1 by (auto simp: out_or_def MapRange_one boot_only_def)
  show ?thesis
  proof (cases r2)
    case (Inl e)
    with call r2 show ?thesis by auto
  next
    case (Inr x)
    have e2: "evolves fw A ?p4 {stack_page f} s1 t" using r2 Inr by (intro steps_evolve [OF c st o]) auto
    have e: "evolves fw A ?p4 {stack_page f} s t" using evolves_trans [OF e1 e2] by simp
    have fl: "b_pml4 t = ?p4" "b_bitmap t = 0" "b_num_ke t = b_num_ke s"
      using o1 st b by (auto simp: boot_only_def boot_steps_def)
    have "seg_range (img_phdr img j) \<inter> {stack_page f} = {}" if "loadable img j" for j
      using ok(2) that f(2) by (auto simp: higher_half_def)
    moreover have "segments_loaded fw A ?p4 {} img (img_phnum img) s" if "free_pages fw A (b_efi t) \<noteq> {}"
      using that e k by (auto simp: evolves_def kernel_loaded_def)
    ultimately have "free_pages fw A (b_efi t) \<noteq> {} \<longrightarrow> segments_loaded fw A ?p4 {} img (img_phnum img) t"
      using segments_evolve [OF _ e ok(1)] by blast
    then have "prepared fw A img f t" using e r2 Inr f(2) fl b by (auto simp: prepared_def evolves_def)
    with call Inr show ?thesis by auto
  qed
qed

definition start_devices :: "uefi \<Rightarrow> u64 \<Rightarrow> u64 \<Rightarrow> boot \<Rightarrow> unit efi_result" where
  "start_devices fw kinfo kinfo_size s =
     efi_seq (efi_try fw SetWatchdogTimer s) (\<lambda>_ s.
     efi_seq (efi_try fw (SetMem kinfo kinfo_size 0) s) (\<lambda>_ s.
     let s = zero_kinfo s in
     efi_seq (efi_try fw ConInReset s) (\<lambda>_ s.
     efi_seq (ConfigureGraphics fw s) (\<lambda>_ s. FindRSDP fw s))))"

lemma prepare_parts:
  "prepare fw kinfo kinfo_size s = efi_seq (start_devices fw kinfo kinfo_size s) (\<lambda>_ s.
     efi_seq (ConfigurePaging fw s) (\<lambda>_ s.
     efi_seq (LoadKernel fw s) (\<lambda>kernel_entry_point s.
     efi_seq (efi_try fw (AllocatePages EfiLoaderData 1) s) (\<lambda>r s.
     let stack = out_or NULL (er_out r) in
     efi_seq (MapRange fw stack (VADDR stack) 1 (b_pml4 s) s) (\<lambda>_ s. Some (Inr (kernel_entry_point, stack + PAGE_SIZE), s))))))"
  unfolding prepare_def start_devices_def Let_def efi_seq_assoc by (rule refl)

lemma start_devices_outcome:
  assumes c: "conforming fw A"
  shows "\<exists>r t. start_devices fw kinfo kinfo_size s = Some (r, t) \<and>
    (case r of Inl e \<Rightarrow> EFI_ERROR e | Inr _ \<Rightarrow> free_pages fw A (b_efi t) = free_pages fw A (b_efi s) \<and> b_bitmap t = 0)"
proof -
  have 1: "calm fw A s (efi_seq (efi_try fw SetWatchdogTimer s) (\<lambda>_. efi_try fw (SetMem kinfo kinfo_size 0)))"
    by (intro calm_seq calm_try [OF c]) simp_all
  have 2: "calm fw A u (efi_seq (efi_try fw ConInReset u) (\<lambda>_ s. efi_seq (ConfigureGraphics fw s) (\<lambda>_ s. FindRSDP fw s)))" for u
    by (intro calm_seq calm_try [OF c] calm_ConfigureGraphics [OF c] calm_FindRSDP) simp_all
  obtain r u where u: "efi_seq (efi_try fw SetWatchdogTimer s) (\<lambda>_. efi_try fw (SetMem kinfo kinfo_size 0)) = Some (r, u)"
    "case r of Inl e \<Rightarrow> EFI_ERROR e | Inr _ \<Rightarrow> free_pages fw A (b_efi u) = free_pages fw A (b_efi s) \<and> b_bitmap u = b_bitmap s"
    using 1 unfolding calm_def by blast
  have s: "start_devices fw kinfo kinfo_size s = efi_seq (Some (r, u)) (\<lambda>_ s. efi_seq (efi_try fw ConInReset (zero_kinfo s))
      (\<lambda>_ s. efi_seq (ConfigureGraphics fw s) (\<lambda>_ s. FindRSDP fw s)))"
    unfolding u(1) [symmetric] start_devices_def Let_def efi_seq_assoc by (rule refl)
  have z: "b_efi (zero_kinfo u) = b_efi u" "b_bitmap (zero_kinfo u) = 0" by (simp_all add: zero_kinfo_def)
  show ?thesis
  proof (cases r)
    case (Inr x)
    with s u(2) 2 [of "zero_kinfo u"] z show ?thesis by (auto simp: calm_def split: sum.splits)
  qed (use s u in simp)
qed

lemma ConfigurePaging_bitmap: "ConfigurePaging fw s = Some (r, t) \<Longrightarrow> b_bitmap t = b_bitmap s"
proof -
  have "keeps_bitmap s (ConfigurePaging fw s)"
    unfolding ConfigurePaging_def Let_def efi_def split_conv
    by (intro keeps_bitmap_seq keeps_bitmap_MapAddr keeps_bitmap_return) simp_all
  then show "ConfigurePaging fw s = Some (r, t) \<Longrightarrow> b_bitmap t = b_bitmap s" by (auto simp: keeps_bitmap_def)
qed

lemma prepare_outcome:
  assumes c: "conforming fw A" and kf: "kernel_file fw img" and ok: "elf_ok A img" "higher_half A img"
    and ne: "free_pages fw A (b_efi s) \<noteq> {}"
  shows "\<exists>r t. prepare fw kinfo kinfo_size s = Some (r, t) \<and>
    (case r of Inl e \<Rightarrow> EFI_ERROR e
     | Inr (entry, stack) \<Rightarrow> entry = e_entry (img_ehdr img) \<and> (\<exists>f. stack = frame_addr f + PAGE_SIZE \<and> prepared fw A img f t))"
proof -
  obtain r1 s1 where 1: "start_devices fw kinfo kinfo_size s = Some (r1, s1)"
    "case r1 of Inl e \<Rightarrow> EFI_ERROR e | Inr _ \<Rightarrow> free_pages fw A (b_efi s1) = free_pages fw A (b_efi s) \<and> b_bitmap s1 = 0"
    using start_devices_outcome [OF c] by blast
  show ?thesis
  proof (cases r1)
    case (Inl e)
    with 1 show ?thesis by (simp add: prepare_parts)
  next
    case r1: (Inr x)
    then have "free_pages fw A (b_efi s1) \<noteq> {}" using 1(2) ne by simp
    then obtain r2 s2 where 2: "ConfigurePaging fw s1 = Some (r2, s2)"
      "case r2 of Inl e \<Rightarrow> EFI_ERROR e | Inr _ \<Rightarrow> boot_inv fw A (b_pml4 s2) s2" using ConfigurePaging_inv [OF c] by blast
    have b2: "b_bitmap s2 = 0" using ConfigurePaging_bitmap [OF 2(1)] 1(2) r1 by simp
    show ?thesis
    proof (cases r2)
      case (Inl e)
      with 1(1) r1 2 show ?thesis by (simp add: prepare_parts)
    next
      case r2: (Inr y)
      obtain r3 s3 where 3: "LoadKernel fw s2 = Some (r3, s3)"
        "case r3 of Inl e \<Rightarrow> EFI_ERROR e
         | Inr entry \<Rightarrow> entry = e_entry (img_ehdr img) \<and> b_pml4 s3 = b_pml4 s2 \<and> b_num_ke s3 = of_nat (nloads img (img_phnum img)) \<and>
             kernel_loaded fw A (b_pml4 s2) img s3"
        using LoadKernel_outcome [OF c kf _ ok(1), of s2] 2(2) r2 by auto
      show ?thesis
      proof (cases r3)
        case (Inl e)
        with 1(1) r1 2(1) r2 3 show ?thesis by (simp add: prepare_parts)
      next
        case r3: (Inr entry)
        have "b_bitmap s3 = 0" using LoadKernel_bitmap [OF 3(1)] b2 by simp
        moreover have e: "entry = e_entry (img_ehdr img)" using 3(2) r3 by simp
        ultimately show ?thesis
          using map_stack [OF c _ ok, of s3 "e_entry (img_ehdr img)"] 1(1) r1 2(1) r2 3 r3 by (simp add: prepare_parts)
      qed
    qed
  qed
qed


section \<open>Where errors come from\<close>

text \<open>An error is the status of the newest service call, or one of the two the loader itself gives for a missing table or video mode.\<close>

definition fails_known :: "uefi \<Rightarrow> 'a efi_result \<Rightarrow> bool" where
  "fails_known fw m \<longleftrightarrow> (\<forall>e t. m = Some (Inl e, t) \<longrightarrow> e \<in> {EFI_NOT_FOUND, EFI_UNSUPPORTED} \<or> er_status (ef_call fw (b_efi t)) = e)"

lemma fails_known_last: "fails_last fw m \<Longrightarrow> fails_known fw m"
  by (simp add: fails_known_def fails_last_def)

lemma fails_known_seq:
  "fails_known fw m \<Longrightarrow> (\<And>x s. m = Some (Inr x, s) \<Longrightarrow> fails_known fw (f x s)) \<Longrightarrow> fails_known fw (efi_seq m f)"
  by (auto simp: fails_known_def efi_seq_Some)

lemma fails_known_find_mode: "fails_known fw (Some (find_mode fw gop w h fmt i s))"
proof (induction fw gop w h fmt i s rule: find_mode.induct)
  case (1 fw gop w h fmt i s)
  obtain r t where r: "efi fw (QueryMode gop (of_nat i)) s = (r, t)" by fastforce
  then have "er_status (ef_call fw (b_efi t)) = er_status r" by (auto simp: efi_def Let_def)
  with r 1 [OF _ refl, of r t] show ?case by (subst find_mode.simps) (auto simp: fails_known_def)
qed

lemma fails_known_ConfigureGraphics: "fails_known fw (ConfigureGraphics fw s)"
  unfolding ConfigureGraphics_def FindVideoMode_def Let_def
  by (intro fails_known_seq fails_known_find_mode fails_known_last fails_last_try fails_last_return)

lemma fails_known_FindRSDP: "fails_known fw (FindRSDP fw s)"
  by (simp add: FindRSDP_def Let_def fails_known_def)

lemma fails_last_ConfigurePaging: "fails_last fw (ConfigurePaging fw s)"
  unfolding ConfigurePaging_def Let_def split_def by (intro fails_last_seq fails_last_MapAddr fails_last_return)

lemma fails_last_GetMMAP: "fails_last fw (GetMMAP fw key s)"
proof -
  obtain r t where r: "efi fw (GetMemoryMap 0 NULL) s = (r, t)" by fastforce
  then have "er_status (ef_call fw (b_efi t)) = er_status r" by (auto simp: efi_def Let_def)
  then have "fails_last fw (Some (Inl (er_status r), t))" by (simp add: fails_last_def)
  then show ?thesis unfolding GetMMAP_def r Let_def split_conv by (auto intro!: fails_last_seq)
qed

lemma fails_last_ParseMMAP: "fails_last fw (ParseMMAP fw s)"
proof -
  have "fails_last fw (efi_seq (efi_for n (\<lambda>i. MapAddr fw (a i) (v i) p4) t) (\<lambda>_ s. Some (Inr (), g s)))" for n a v p4 t g
    by (intro fails_last_seq fails_last_for fails_last_MapAddr fails_last_return)
  then show ?thesis by (cases "parse_entries fw (unat (b_mmap_size s div b_mmap_desc_size s)) s")
      (auto simp: ParseMMAP_def Let_def fails_last_def split: prod.splits)
qed

lemma fails_last_leave_firmware: "fails_last fw (leave_firmware fw ih s)"
  unfolding leave_firmware_def FreeMMAP_def
  by (intro fails_last_seq fails_last_GetMMAP fails_last_ParseMMAP fails_last_try fails_last_return)

lemma fails_known_efi_main:
  assumes c: "conforming fw A" and kf: "kernel_file fw img" and ok: "elf_ok A img" and ne: "free_pages fw A (b_efi s) \<noteq> {}"
  shows "fails_known fw (efi_main fw ih kinfo kinfo_size s)"
proof -
  have start: "fails_known fw (start_devices fw kinfo kinfo_size s)"
    unfolding start_devices_def Let_def
    by (intro fails_known_seq fails_known_ConfigureGraphics fails_known_FindRSDP fails_known_last fails_last_try)
  have "fails_known fw (LoadKernel fw s2)"
    if 1: "start_devices fw kinfo kinfo_size s = Some (Inr x, s1)" and 2: "ConfigurePaging fw s1 = Some (Inr y, s2)" for x s1 y s2
  proof -
    have "free_pages fw A (b_efi s1) \<noteq> {}" using start_devices_outcome [OF c, of kinfo kinfo_size s] 1 ne by simp
    then have "boot_inv fw A (b_pml4 s2) s2" using ConfigurePaging_inv [OF c, of s1] 2 by simp
    then show ?thesis by (intro fails_known_last fails_last_LoadKernel [OF c kf _ ok])
  qed
  then have "fails_known fw (prepare fw kinfo kinfo_size s)"
    unfolding prepare_parts Let_def
    by (intro fails_known_seq start fails_known_last [OF fails_last_ConfigurePaging] fails_known_last [OF fails_last_try]
        fails_known_last [OF fails_last_MapRange] fails_known_last [OF fails_last_return])
  then show ?thesis unfolding efi_main_def split_def
    by (intro fails_known_seq fails_known_last [OF fails_last_leave_firmware] fails_known_last [OF fails_last_return])
qed

section \<open>The hypotheses can hold\<close>

lemma demo_reports_map: "reports_map (demo_uefi img)"
proof -
  have "map_sane (t\<lparr>b_mmap := p, b_mmap_size := 48, b_mmap_desc_size := 48\<rparr>)"
    if "\<And>i. i < 48 \<Longrightarrow> b_mem t (p + of_nat i) = demo_descriptor ! i" for t p
  proof -
    let ?u = "t\<lparr>b_mmap := p, b_mmap_size := 48, b_mmap_desc_size := 48\<rparr>"
    have k: "mmap_entries (kinfo_mem ?u) = 1" by (simp add: mmap_entries_def kinfo_mem_def)
    have "md_at p (b_mem t) = md_at p (\<lambda>a. demo_descriptor ! unat (a - p))"
      using that by (intro md_shift) (simp add: unat_of_nat64)
    also have "\<dots> = \<lparr>md_type = 7, md_physical_start = 0x100000, md_virtual_start = 0x100000, md_count = 0x100, md_attributes = 15\<rparr>"
      by (simp add: md_at_def load64_def load32_def demo_descriptor_def add.assoc)
    finally show ?thesis by (simp add: map_sane_def k) (simp add: kinfo_mem_def)
  qed
  then show ?thesis
    by (auto simp: reports_map_def efi_def Let_def word_le_nat_alt unat_of_nat64 split: if_splits)
qed

lemma demo_higher_half: "higher_half demo_frames demo_img"
proof -
  have "unat (seg_pages (img_phdr demo_img 0)) = 1"
    by (simp add: demo_img_phdr seg_pages_def EFI_SIZE_TO_PAGES_def kconst)
  then have s: "seg_range (img_phdr demo_img 0) = {page 0xFFFFFFFF80000000}"
    by (simp add: seg_range_def lessThan_Suc) (simp add: demo_img_phdr)
  have "page 0xFFFFFFFF80000000 \<notin> frame_page ` {..<2 ^ 35}" by (auto simp: page_number unat_frame_addr)
  moreover have "page 0xFFFFFFFF80000000 \<noteq> stack_page f" if "f \<in> demo_frames" for f
  proof -
    have "unat (VADDR (frame_addr f)) = f * 4096 + (2 ^ 52 - 2 ^ 35) * 4096"
      using that by (subst unat_VADDR) (auto simp: unat_frame_addr)
    then have "unat (VADDR (frame_addr f)) div 4096 = 2 ^ 36 * (2 ^ 16 - 1) + (f + 2 ^ 35)" by simp
    then have "unat (VADDR (frame_addr f)) div 4096 mod 2 ^ 36 = f + 2 ^ 35" using that by (simp only: mod_mult_self4) simp
    then show ?thesis using that by (simp add: stack_page_def page_number)
  qed
  then have "page 0xFFFFFFFF80000000 \<notin> stack_page ` demo_frames" by blast
  ultimately show ?thesis by (simp add: higher_half_def s)
qed

section \<open>Properties\<close>

text \<open>
  C1. The whole loader, over a firmware that behaves as specified, has a page left at the start and serves a kernel image the loader can take, linked to
  the higher half: \<^verbatim>\<open>efi_main\<close> always comes to an end. Either it returns an error, which is the status of the service call
  made last or one of its own two (no ACPI table, no video mode); or it jumps to the entry point of the image, with
  \<^verbatim>\<open>cr3\<close> at the root of a tree of held pages and the stack pointer at the end of the stack page. If a page of memory is
  left then, the stack page is mapped where the stack pointer says, and every byte of every loadable segment is readable at its
  virtual address through \<^verbatim>\<open>cr3\<close>.
\<close>
theorem efi_main_hands_over:
  assumes "conforming fw A" "refusal_keeps fw" "reports_map fw" "kernel_file fw img" "elf_ok A img" "higher_half A img"
    and "free_pages fw A (b_efi s) \<noteq> {}"
  shows "\<exists>r t. efi_main fw ImageHandle kinfo kinfo_size s = Some (r, t) \<and>
    (case r of
       Inl e \<Rightarrow> EFI_ERROR e \<and> (e \<in> {EFI_NOT_FOUND, EFI_UNSUPPORTED} \<or> er_status (ef_call fw (b_efi t)) = e)
     | Inr jump \<Rightarrow> ho_entry jump = e_entry (img_ehdr img) \<and> ho_cr3 jump = b_pml4 t \<and> boot_inv fw A (b_pml4 t) t \<and>
         ho_kinfo jump = kinfo \<and> b_num_ke t = of_nat (nloads img (img_phnum img)) \<and>
         ho_rsp jump = VADDR (ho_stack jump + PAGE_SIZE) \<and>
         (free_pages fw A (b_efi t) \<noteq> {} \<longrightarrow>
            translate_addr (VADDR (ho_stack jump)) (ho_cr3 jump) (pt_of t) = ho_stack jump \<and> ho_stack jump \<noteq> 0 \<and>
            (\<forall>k. loadable img k \<longrightarrow> (\<forall>i<unat (p_memsz (img_phdr img k)).
               boot_load (ho_cr3 jump) t (p_vaddr (img_phdr img k) + of_nat i) = seg_byte img (img_phdr img k) i))))"
proof -
  let ?X = "frame_page ` {..<2 ^ 35}"
  have A: "A \<subseteq> {1..<64 * 65535}" by (rule conformingD(1) [OF assms(1)])
  obtain r1 s1 where 1: "prepare fw kinfo kinfo_size s = Some (r1, s1)"
    "case r1 of Inl e \<Rightarrow> EFI_ERROR e
     | Inr (entry, stack) \<Rightarrow> entry = e_entry (img_ehdr img) \<and> (\<exists>f. stack = frame_addr f + PAGE_SIZE \<and> prepared fw A img f s1)"
    using prepare_outcome [OF assms(1,4,5,6,7)] by blast
  note known = fails_known_efi_main [OF assms(1,4,5,7), of ImageHandle kinfo kinfo_size, unfolded fails_known_def]
  show ?thesis
  proof (cases r1)
    case (Inl e)
    with 1 known show ?thesis by (simp add: efi_main_def)
  next
    case r1: (Inr es)
    then obtain f where f: "es = (e_entry (img_ehdr img), frame_addr f + PAGE_SIZE)" "prepared fw A img f s1" using 1(2) by (cases es) auto
    from f(2) have p: "f \<in> A" "b_bitmap s1 = 0" "boot_inv fw A (b_pml4 s1) s1" "b_num_ke s1 = of_nat (nloads img (img_phnum img))"
      by (auto simp: prepared_def)
    obtain r2 t where 2: "leave_firmware fw ImageHandle s1 = Some (r2, t)"
      "case r2 of Inl e \<Rightarrow> EFI_ERROR e | Inr _ \<Rightarrow> evolves fw A (b_pml4 s1) ?X s1 t \<and> b_pml4 t = b_pml4 s1 \<and> b_num_ke t = b_num_ke s1"
      using onward_leave_firmware [OF assms(1,2,3) p(3,2), of ImageHandle] unfolding onward_def by blast
    show ?thesis
    proof (cases r2)
      case (Inl e)
      with 1(1) r1 f(1) 2 known show ?thesis by (simp add: efi_main_def)
    next
      case r2: (Inr x)
      with 2(2) have e: "evolves fw A (b_pml4 s1) ?X s1 t" "b_pml4 t = b_pml4 s1" "b_num_ke t = b_num_ke s1" by auto
      have inv: "boot_inv fw A (b_pml4 t) t" using e by (simp add: evolves_def)
      have call: "efi_main fw ImageHandle kinfo kinfo_size s = Some (Inr \<lparr>ho_cr3 = b_pml4 t, ho_rsp = VADDR (frame_addr f + PAGE_SIZE),
          ho_entry = e_entry (img_ehdr img), ho_kinfo = kinfo, ho_stack = frame_addr f\<rparr>, t)"
        using 1(1) r1 f(1) 2(1) r2 by (simp add: efi_main_def)
      have f22: "0 < f" "f < 2 ^ 22" using p(1) A by auto
      have left: "translate_addr (VADDR (frame_addr f)) (b_pml4 t) (pt_of t) = frame_addr f \<and>
          segments_loaded fw A (b_pml4 t) {} img (img_phnum img) t" if free: "free_pages fw A (b_efi t) \<noteq> {}"
      proof -
        have free1: "free_pages fw A (b_efi s1) \<noteq> {}" using free e(1) unfolding evolves_def by blast
        with f(2) have s1: "segments_loaded fw A (b_pml4 s1) {} img (img_phnum img) s1"
          "pview (view fw A s1) (b_pml4 s1) (stack_page f) = frame_addr f" by (auto simp: prepared_def)
        have "seg_range (img_phdr img k) \<inter> ?X = {}" if "loadable img k" for k using assms(6) that by (auto simp: higher_half_def)
        then have "segments_loaded fw A (b_pml4 s1) {} img (img_phnum img) t" by (rule segments_evolve [OF s1(1) e(1) assms(5)])
        moreover have x: "stack_page f \<notin> ?X" using stack_page_apart [OF f22(2)] by auto
        have "A \<subseteq> {..<2 ^ 35}" using A by auto
        then have "stack_page f \<notin> frame_page ` A" using x by blast
        with x have "pview (view fw A t) (b_pml4 s1) (stack_page f) = frame_addr f"
          using e(1) s1(2) valid_page_page(1) unfolding evolves_def other_pages_def stack_page_def by metis
        ultimately show ?thesis by (simp add: e(2) translate_view [OF inv [unfolded e(2)]] stack_page_def)
      qed
      have "boot_load (b_pml4 t) t (p_vaddr (img_phdr img k) + of_nat i) = seg_byte img (img_phdr img k) i"
        if "free_pages fw A (b_efi t) \<noteq> {}" "loadable img k" "i < unat (p_memsz (img_phdr img k))" for k i
        using left that assms(5) loaded_reads [OF inv] by (auto simp: segments_loaded_def elf_ok_def loadable_def)
      moreover have "frame_addr f \<noteq> 0" using f22 unat_frame_addr [of f] by auto
      ultimately show ?thesis using call inv left e(3) p(4) by simp
    qed
  qed
qed

theorem efi_main_hands_over_witness:
  "conforming (demo_uefi demo_img) demo_frames \<and> refusal_keeps (demo_uefi demo_img) \<and> reports_map (demo_uefi demo_img) \<and>
   kernel_file (demo_uefi demo_img) demo_img \<and> elf_ok demo_frames demo_img \<and> higher_half demo_frames demo_img \<and>
   free_pages (demo_uefi demo_img) demo_frames (b_efi demo_start) \<noteq> {} \<and>
   (\<exists>r t. efi_main (demo_uefi demo_img) 1 0x7000 1000 demo_start = Some (r, t) \<and>
     (case r of
        Inl e \<Rightarrow> EFI_ERROR e \<and> (e \<in> {EFI_NOT_FOUND, EFI_UNSUPPORTED} \<or> er_status (ef_call (demo_uefi demo_img) (b_efi t)) = e)
      | Inr jump \<Rightarrow> ho_entry jump = 0xFFFFFFFF80000000 \<and> ho_cr3 jump = b_pml4 t))"
proof -
  have kf: "kernel_file (demo_uefi demo_img) demo_img" by (rule demo_kernel_file) simp
  have ne: "free_pages (demo_uefi demo_img) demo_frames (b_efi demo_start) \<noteq> {}" by (simp add: demo_free_pages demo_start_def)
  note hyps = demo_conforming [of demo_img] demo_refusal_keeps [of demo_img] demo_reports_map [of demo_img] kf demo_elf_ok demo_higher_half ne
  from efi_main_hands_over [OF hyps, of 1 "0x7000" 1000] show ?thesis
  proof (elim exE conjE)
    fix r t assume "efi_main (demo_uefi demo_img) 1 0x7000 1000 demo_start = Some (r, t)"
      and "case r of
         Inl e \<Rightarrow> EFI_ERROR e \<and> (e \<in> {EFI_NOT_FOUND, EFI_UNSUPPORTED} \<or> er_status (ef_call (demo_uefi demo_img) (b_efi t)) = e)
       | Inr jump \<Rightarrow> ho_entry jump = e_entry (img_ehdr demo_img) \<and> ho_cr3 jump = b_pml4 t \<and> boot_inv (demo_uefi demo_img) demo_frames (b_pml4 t) t \<and>
           ho_kinfo jump = 0x7000 \<and> b_num_ke t = of_nat (nloads demo_img (img_phnum demo_img)) \<and>
           ho_rsp jump = VADDR (ho_stack jump + PAGE_SIZE) \<and>
           (free_pages (demo_uefi demo_img) demo_frames (b_efi t) \<noteq> {} \<longrightarrow>
              translate_addr (VADDR (ho_stack jump)) (ho_cr3 jump) (pt_of t) = ho_stack jump \<and> ho_stack jump \<noteq> 0 \<and>
              (\<forall>k. loadable demo_img k \<longrightarrow> (\<forall>i<unat (p_memsz (img_phdr demo_img k)).
                 boot_load (ho_cr3 jump) t (p_vaddr (img_phdr demo_img k) + of_nat i) = seg_byte demo_img (img_phdr demo_img k) i)))"
    with hyps show ?thesis by (cases r) simp_all
  qed
qed

text \<open>
  C20. Leaving the firmware: whatever the firmware answers, when \<^verbatim>\<open>efi_main\<close> gets to the jump to the kernel, its last two
  service calls were \<^verbatim>\<open>GetMemoryMap\<close> into the buffer handed over in \<^verbatim>\<open>kinfo\<close> and, with nothing in between that could
  change the map, \<^verbatim>\<open>ExitBootServices\<close> with the key that came with that map.
\<close>
theorem efi_main_exit_key:
  "case efi_main fw ImageHandle kinfo kinfo_size s of
     Some (Inr jump, t) \<Rightarrow> ho_cr3 jump = b_pml4 t \<and>
       (\<exists>n h d. b_efi t =
          ExitBootServices ImageHandle (out_or d (er_key (ef_call fw (GetMemoryMap n (b_mmap t) # h)))) # GetMemoryMap n (b_mmap t) # h)
   | _ \<Rightarrow> True"
proof -
  have "ho_cr3 jump = b_pml4 t \<and> (\<exists>n h d. b_efi t =
      ExitBootServices ImageHandle (out_or d (er_key (ef_call fw (GetMemoryMap n (b_mmap t) # h)))) # GetMemoryMap n (b_mmap t) # h)"
    if "efi_main fw ImageHandle kinfo kinfo_size s = Some (Inr jump, t)" for jump t
  proof -
    from that obtain u where l: "leave_firmware fw ImageHandle u = Some (Inr (), t)" and j: "ho_cr3 jump = b_pml4 t"
      by (auto simp: efi_main_def efi_seq_Some split: prod.splits)
    then obtain k u1 k' u2 r where g: "GetMMAP fw k u1 = Some (Inr k', u2)"
      "efi_try fw (ExitBootServices ImageHandle k') u2 = Some (Inr r, t)"
      by (auto simp: leave_firmware_def efi_seq_Some)
    show ?thesis using GetMMAP_last [OF g(1)] efi_try_history [OF g(2)] j by auto
  qed
  note jump = this
  show ?thesis
  proof (cases "efi_main fw ImageHandle kinfo kinfo_size s")
    case (Some p)
    obtain r t where p: "p = (r, t)" by (cases p)
    show ?thesis
    proof (cases r)
      case (Inr j)
      from jump [OF Some [unfolded p Inr]] show ?thesis unfolding Some p Inr option.case prod.case sum.case .
    qed (simp add: Some p)
  qed simp
qed

end
