(* ===== verification/Ioapic.thy ===== *)
theory Ioapic
  imports Kernel_State
begin

text \<open>
  The I/O interrupt controller, \<^verbatim>\<open>src/kernel/cpu/ioapic.c\<close>. Its registers are reached through a select
  register and a data window, both memory-mapped; a redirection entry is two of them. The union
  \<^verbatim>\<open>ioapic_redtbl_entry_t\<close> is its \<open>raw\<close> word, a bit-field assignment is \<open>set_field\<close> (which keeps the low bits of
  the value, as C does).
\<close>

section \<open>Definitions\<close>

definition IOAPIC_VER_OFFSET :: u8 where [kconst]: "IOAPIC_VER_OFFSET = 1"
definition IOAPIC_LOW_PRIORITY :: u32 where [kconst]: "IOAPIC_LOW_PRIORITY = 0x100"

definition set_field :: "nat \<Rightarrow> nat \<Rightarrow> u64 \<Rightarrow> u64 \<Rightarrow> u64" where
  "set_field lo width v raw = (raw AND NOT (push_bit lo (mask width))) OR push_bit lo (v AND mask width)"

definition set_pin_polarity :: "u64 \<Rightarrow> u64 \<Rightarrow> u64" where "set_pin_polarity = set_field 13 1"
definition set_trigger_mode :: "u64 \<Rightarrow> u64 \<Rightarrow> u64" where "set_trigger_mode = set_field 15 1"
definition set_mask :: "u64 \<Rightarrow> u64 \<Rightarrow> u64" where "set_mask = set_field 16 1"
definition set_destination :: "u64 \<Rightarrow> u64 \<Rightarrow> u64" where "set_destination = set_field 56 8"

definition read_register :: "device \<Rightarrow> u8 \<Rightarrow> 'a kernel_scheme \<Rightarrow> u32 \<times> 'a kernel_scheme" where
  "read_register dev offset s = mmio_read dev (ioapic_addr s + 0x10) (mmio_write (ioapic_addr s) (ucast offset) s)"

definition write_register :: "u8 \<Rightarrow> u32 \<Rightarrow> 'a kernel_scheme \<Rightarrow> 'a kernel_scheme" where
  "write_register offset val s = mmio_write (ioapic_addr s + 0x10) val (mmio_write (ioapic_addr s) (ucast offset) s)"

definition redirect_index :: "u8 \<Rightarrow> bool" where
  "redirect_index index \<longleftrightarrow> \<not> (index < 0x10 \<or> index > 0x3F \<or> index mod 2 \<noteq> 0)"

definition read_redirect :: "device \<Rightarrow> u8 \<Rightarrow> 'a kernel_scheme \<Rightarrow> u64 option \<times> 'a kernel_scheme" where
  "read_redirect dev index s =
     (if \<not> redirect_index index then (None, s)
      else let (lower_part, s) = read_register dev index s;
               (upper_part, s) = read_register dev (index + 1) s
           in (Some (push_bit 32 (ucast upper_part) OR ucast lower_part), s))"

definition write_redirect :: "u8 \<Rightarrow> u64 \<Rightarrow> 'a kernel_scheme \<Rightarrow> bool \<times> 'a kernel_scheme" where
  "write_redirect index entry s =
     (if \<not> redirect_index index then (False, s)
      else (True, write_register (index + 1) (ucast (drop_bit 32 entry)) (write_register index (ucast entry) s)))"

definition find_so :: "u8 \<Rightarrow> 'a kernel_scheme \<Rightarrow> ioapic_so_t option" where
  "find_so irq s = find (\<lambda>so. so_irq_source so = irq) (map (ioapic_ovrds s) [0..<unat (ioapic_num_ovrds s)])"

text \<open>The entry \<open>set_irq\<close> builds and the position it writes it to.\<close>

definition irq_entry :: "ioapic_so_t option \<Rightarrow> u8 \<Rightarrow> u8 \<Rightarrow> u32 \<Rightarrow> bool \<Rightarrow> u64" where
  "irq_entry so idt_entry destination flags masked =
     (let raw = ucast (flags OR ucast idt_entry);
          raw = set_destination (ucast destination) raw;
          raw = set_mask (if masked then 1 else 0) raw
      in case so of None \<Rightarrow> raw
         | Some so \<Rightarrow> set_trigger_mode (ucast (so_flags so AND 8)) (set_pin_polarity (ucast (so_flags so AND 2)) raw))"

definition irq_pos :: "ioapic_so_t option \<Rightarrow> u8 \<Rightarrow> u8" where
  "irq_pos so irq = 0x10 + (case so of None \<Rightarrow> irq | Some so \<Rightarrow> ucast (so_gsi_base so)) * 2"

definition set_irq :: "u8 \<Rightarrow> u8 \<Rightarrow> u8 \<Rightarrow> u32 \<Rightarrow> bool \<Rightarrow> 'a kernel_scheme \<Rightarrow> 'a kernel_scheme" where
  "set_irq irq idt_entry destination_field flags masked s =
     (let so = find_so irq s
      in snd (write_redirect (irq_pos so irq) (irq_entry so idt_entry destination_field flags masked) s))"

text \<open>
  When \<open>read_redirect\<close> rejects the index the local \<open>entry\<close> stays uninitialised; \<open>write_redirect\<close> then
  rejects the same index, so its value (0 here) is never used.
\<close>

definition set_irq_mask :: "device \<Rightarrow> u8 \<Rightarrow> bool \<Rightarrow> 'a kernel_scheme \<Rightarrow> 'a kernel_scheme" where
  "set_irq_mask dev irq masked s =
     (let redtbl_pos = irq_pos (find_so irq s) irq;
          (e, s) = read_redirect dev redtbl_pos s;
          entry = (case e of None \<Rightarrow> 0 | Some e \<Rightarrow> e)
      in snd (write_redirect redtbl_pos (set_mask (if masked then 1 else 0) entry) s))"

definition init_ioapic :: "device \<Rightarrow> 'a kernel_scheme \<Rightarrow> 'a kernel_scheme option" where
  "init_ioapic dev s =
     Option.bind (map_addr (ioapic_addr s) (ioapic_addr s) KERNEL_PT_ENTRY (km_pml4 s) s) (\<lambda>s.
       let (_, s) = read_register dev IOAPIC_VER_OFFSET s;
           (_, s) = read_redirect dev 0x10 s
       in Some s)"

section \<open>The device\<close>

text \<open>
  The documented behaviour of the controller: writes to the window go to the selected register,
  \<open>io_sel\<close> and \<open>io_reg\<close> read the selection and the last value of a register off the access history.
  \<open>register_file\<close> is the hypothesis that the window reads back the selected register.
\<close>

primrec io_sel :: "u64 \<Rightarrow> io_op list \<Rightarrow> u32" where
  "io_sel base [] = 0"
| "io_sel base (op # h) = (case op of MmioWrite a v \<Rightarrow> if a = base then v else io_sel base h | _ \<Rightarrow> io_sel base h)"

primrec io_reg :: "u64 \<Rightarrow> u32 \<Rightarrow> io_op list \<Rightarrow> u32" where
  "io_reg base i [] = 0"
| "io_reg base i (op # h) = (case op of MmioWrite a v \<Rightarrow> if a = base + 0x10 \<and> io_sel base h = i then v else io_reg base i h
     | _ \<Rightarrow> io_reg base i h)"

definition register_file :: "u64 \<Rightarrow> device \<Rightarrow> bool" where
  "register_file base dev \<longleftrightarrow> (\<forall>h. dev (MmioRead (base + 0x10) # h) = ucast (io_reg base (io_sel base h) h))"

text \<open>The redirection entry at an index: two registers.\<close>

definition redirection :: "'a kernel_scheme \<Rightarrow> u8 \<Rightarrow> u64" where
  "redirection s i = push_bit 32 (ucast (io_reg (ioapic_addr s) (ucast i + 1) (k_io s))) OR
     ucast (io_reg (ioapic_addr s) (ucast i) (k_io s))"

section \<open>Entries\<close>

lemma bit_set_field:
  "n < 64 \<Longrightarrow> bit (set_field lo w v raw) n \<longleftrightarrow> (if lo \<le> n \<and> n < lo + w then bit v (n - lo) else bit raw n)"
  by (auto simp: set_field_def bit_simps)

lemma redirect_index_iff:
  "redirect_index i \<longleftrightarrow> 0x10 \<le> unat i \<and> unat i < 0x40 \<and> even (unat i)"
  by (auto simp: redirect_index_def word_less_nat_alt word_le_nat_alt unat_mod word_unat_eq_iff not_less even_iff_mod_2_eq_zero)

lemma redirect_index_Suc: "redirect_index i \<Longrightarrow> (ucast (i + 1) :: u32) = ucast i + 1"
proof -
  assume "redirect_index i"
  then have "unat (i + 1) = unat i + 1" "unat i < 0x40"
    by (auto simp: redirect_index_iff intro!: unat_add_nowrap [where b = "1 :: u8", simplified])
  then show ?thesis
    by (intro word_unat_eq_iff [THEN iffD2]) (simp add: unsigned_ucast_eq unat_word_ariths take_bit_eq_mod)
qed

lemma join_halves: "push_bit 32 (ucast (ucast (drop_bit 32 e) :: u32)) OR ucast (ucast e :: u32) = e" for e :: u64
  by (rule bit_word_eqI) (auto simp: bit_simps)

section \<open>Register accesses\<close>

lemma write_register_io:
  "k_io (write_register off v s) = MmioWrite (ioapic_addr s + 0x10) v # MmioWrite (ioapic_addr s) (ucast off) # k_io s"
  "ioapic_addr (write_register off v s) = ioapic_addr s"
  "ioapic_ovrds (write_register off v s) = ioapic_ovrds s" "ioapic_num_ovrds (write_register off v s) = ioapic_num_ovrds s"
  by (simp_all add: write_register_def mmio_write_def)

lemma io_reg_write:
  "io_reg (ioapic_addr s) j (k_io (write_register off v s)) = (if ucast off = j then v else io_reg (ioapic_addr s) j (k_io s))"
  by (simp add: write_register_io)

lemma ucast_index_eq:
  fixes i j :: u8
  assumes "redirect_index i" "redirect_index j"
  shows "(ucast i :: u32) = ucast j \<longleftrightarrow> i = j" "(ucast i :: u32) + 1 = ucast j + 1 \<longleftrightarrow> i = j"
    "(ucast i :: u32) \<noteq> ucast j + 1" "(ucast i :: u32) + 1 \<noteq> ucast j"
proof -
  have u: "unat (ucast k :: u32) = unat k" for k :: u8
  proof -
    have "unat k < 2 ^ LENGTH(8)" by (rule unsigned_less)
    then show ?thesis by (simp add: unsigned_ucast_eq take_bit_eq_mod)
  qed
  have u1: "unat ((ucast k :: u32) + 1) = unat k + 1" for k :: u8
  proof -
    have "unat k < 2 ^ LENGTH(8)" by (rule unsigned_less)
    then show ?thesis using u [of k] by (subst unat_add_nowrap) simp_all
  qed
  show "(ucast i :: u32) = ucast j \<longleftrightarrow> i = j" by (metis u word_unat_eq_iff)
  then show "(ucast i :: u32) + 1 = ucast j + 1 \<longleftrightarrow> i = j" by simp
  have e: "even (unat i)" "even (unat j)" using assms by (simp_all add: redirect_index_iff)
  show "(ucast i :: u32) \<noteq> ucast j + 1"
  proof
    assume "(ucast i :: u32) = ucast j + 1"
    then have "unat i = unat j + 1" by (metis u u1)
    with e show False by simp
  qed
  show "(ucast i :: u32) + 1 \<noteq> ucast j"
  proof
    assume "(ucast i :: u32) + 1 = ucast j"
    then have "unat i + 1 = unat j" by (metis u u1)
    with e show False by presburger
  qed
qed

lemma redirection_write:
  assumes "redirect_index i" "redirect_index j"
  shows "redirection (snd (write_redirect i e s)) j = (if i = j then e else redirection s j)"
proof -
  let ?s1 = "write_register i (ucast e) s"
  have ad: "ioapic_addr ?s1 = ioapic_addr s" by (simp add: write_register_io)
  have w: "snd (write_redirect i e s) = write_register (i + 1) (ucast (drop_bit 32 e)) ?s1"
    using assms(1) by (simp add: write_redirect_def)
  have r: "io_reg (ioapic_addr s) k (k_io (write_register (i + 1) v ?s1)) =
      (if ucast i + 1 = k then v else if ucast i = k then ucast e else io_reg (ioapic_addr s) k (k_io s))" for k v
    using io_reg_write [of ?s1 k "i + 1" v] io_reg_write [of s k i "ucast e"] redirect_index_Suc [OF assms(1)] by (simp add: ad)
  note u = ucast_index_eq [OF assms]
  show ?thesis
  proof (cases "i = j")
    case True
    then show ?thesis unfolding w redirection_def write_register_io(2) r using join_halves [of e] u by simp
  next
    case False
    then show ?thesis unfolding w redirection_def write_register_io(2) r using u by simp
  qed
qed

lemma ucast_up_down: "(ucast (ucast x :: u64) :: u32) = x"
  by (rule bit_word_eqI) (simp add: bit_simps)

lemma read_register_file:
  assumes "register_file (ioapic_addr s) dev" "read_register dev i s = (v, s')"
  shows "v = io_reg (ioapic_addr s) (ucast i) (k_io s)" "ioapic_addr s' = ioapic_addr s"
    "io_reg (ioapic_addr s) j (k_io s') = io_reg (ioapic_addr s) j (k_io s)"
    "ioapic_ovrds s' = ioapic_ovrds s" "ioapic_num_ovrds s' = ioapic_num_ovrds s"
  using assms by (auto simp: read_register_def mmio_read_def mmio_write_def io_read_def register_file_def ucast_up_down)

lemma read_redirect_file:
  assumes dev: "register_file (ioapic_addr s) dev" and i: "redirect_index i"
  obtains s' where "read_redirect dev i s = (Some (redirection s i), s')" "\<And>j. redirection s' j = redirection s j"
    "ioapic_addr s' = ioapic_addr s"
proof -
  obtain v1 s1 where r1: "read_register dev i s = (v1, s1)" by (metis surj_pair)
  note f1 = read_register_file [OF dev r1]
  obtain v2 s2 where r2: "read_register dev (i + 1) s1 = (v2, s2)" by (metis surj_pair)
  have dev1: "register_file (ioapic_addr s1) dev" using dev f1(2) by simp
  note f2 = read_register_file [OF dev1 r2]
  have "read_redirect dev i s = (Some (redirection s i), s2)"
    using i r1 r2 f1 f2 by (simp add: read_redirect_def redirection_def redirect_index_Suc [OF i])
  moreover have "redirection s2 j = redirection s j" for j
    using f1 f2 by (simp add: redirection_def)
  moreover have "ioapic_addr s2 = ioapic_addr s" using f1 f2 by simp
  ultimately show ?thesis using that by blast
qed

text \<open>A device that is a register file, for concrete instances.\<close>

definition ioapic_model :: "u64 \<Rightarrow> device" where
  "ioapic_model base h = (case h of MmioRead a # h \<Rightarrow> ucast (io_reg base (io_sel base h) h) | _ \<Rightarrow> 0)"

lemma ioapic_model_file: "register_file base (ioapic_model base)"
  by (simp add: register_file_def ioapic_model_def)

section \<open>What an entry says\<close>

lemmas entry_fields = set_destination_def set_mask_def set_trigger_mode_def set_pin_polarity_def

lemma bit_irq_entry:
  assumes "n < 64"
  shows "bit (irq_entry so vec dest flags masked) n \<longleftrightarrow>
    (if n = 13 \<and> so \<noteq> None then False else if n = 15 \<and> so \<noteq> None then False
     else if n = 16 then masked else if 56 \<le> n then bit dest (n - 56)
     else n < 32 \<and> (bit flags n \<or> bit vec n))"
proof -
  have "bit (x AND 2) 0 = False" "bit (x AND 8) 0 = False" for x :: u16 by (simp_all add: bit_simps)
  then show ?thesis using assms bit_imp_le_length [of flags n] bit_imp_le_length [of vec n]
    by (cases so) (auto simp: irq_entry_def Let_def entry_fields bit_set_field bit_simps)
qed

lemma irq_entry_parts:
  assumes "flags AND 0xFF = 0"
  shows "ucast (irq_entry so vec dest flags masked) = vec" "bit (irq_entry so vec dest flags masked) 16 = masked"
    "ucast (drop_bit 56 (irq_entry so vec dest flags masked)) = dest"
proof -
  have m: "(0xFF :: u32) = mask 8" by (simp add: mask_eq_exp_minus_1)
  have "\<not> bit flags n" if "n < 8" for n
  proof
    assume "bit flags n"
    then have "bit (flags AND mask 8) n" using that by (simp add: bit_simps)
    with assms m show False by simp
  qed
  then show "ucast (irq_entry so vec dest flags masked) = vec"
    by (intro bit_word_eqI) (auto simp: bit_ucast_iff bit_irq_entry)
  show "bit (irq_entry so vec dest flags masked) 16 = masked" by (simp add: bit_irq_entry)
  show "ucast (drop_bit 56 (irq_entry so vec dest flags masked)) = dest"
    by (intro bit_word_eqI) (auto simp: bit_ucast_iff bit_drop_bit_eq bit_irq_entry)
qed

section \<open>Properties\<close>

text \<open>
  C25. \<open>set_irq\<close> programs one redirection entry: if the pin (after the firmware's overrides) is one of the 24
  the driver accepts, the entry at its position gets the vector, the mask bit and the destination
  asked for, and every other entry stays as it was.
\<close>

theorem set_irq_programs_entry:
  assumes "redirect_index (irq_pos (find_so irq s) irq)" "flags AND 0xFF = 0" "set_irq irq vec dest flags masked s = s'"
  shows "ucast (redirection s' (irq_pos (find_so irq s) irq)) = vec \<and>
    bit (redirection s' (irq_pos (find_so irq s) irq)) 16 = masked \<and>
    ucast (drop_bit 56 (redirection s' (irq_pos (find_so irq s) irq))) = dest \<and>
    (\<forall>j. redirect_index j \<longrightarrow> j \<noteq> irq_pos (find_so irq s) irq \<longrightarrow> redirection s' j = redirection s j)"
proof -
  have s': "s' = snd (write_redirect (irq_pos (find_so irq s) irq) (irq_entry (find_so irq s) vec dest flags masked) s)"
    using assms(3) by (simp add: set_irq_def Let_def)
  show ?thesis unfolding s' by (simp add: redirection_write [OF assms(1)] irq_entry_parts [OF assms(2)] assms(1))
qed

theorem set_irq_programs_entry_witness:
  "ucast (redirection (set_irq 1 36 0 IOAPIC_LOW_PRIORITY False demo_kernel) 0x12) = (36 :: u8)"
proof -
  have "find_so 1 demo_kernel = None" by (simp add: find_so_def demo_kernel_def kheap.defs kernel.defs)
  then have p: "irq_pos (find_so 1 demo_kernel) 1 = 0x12" by (simp add: irq_pos_def)
  have "redirect_index 0x12" by (simp add: redirect_index_def)
  with set_irq_programs_entry [of 1 demo_kernel IOAPIC_LOW_PRIORITY 36 0 False] show ?thesis
    by (simp add: p kconst)
qed

text \<open>
  \<open>set_irq_mask\<close> on a controller that reads back what was written changes the mask bit of the
  interrupt's entry to what was asked for, keeps every other bit of that entry, and keeps every other entry.
\<close>

theorem set_irq_mask_only_mask:
  assumes "register_file (ioapic_addr s) dev" "redirect_index (irq_pos (find_so irq s) irq)" "set_irq_mask dev irq masked s = s'"
  shows "(\<forall>n<64. bit (redirection s' (irq_pos (find_so irq s) irq)) n =
      (if n = 16 then masked else bit (redirection s (irq_pos (find_so irq s) irq)) n)) \<and>
    (\<forall>j. redirect_index j \<longrightarrow> j \<noteq> irq_pos (find_so irq s) irq \<longrightarrow> redirection s' j = redirection s j)"
proof -
  let ?p = "irq_pos (find_so irq s) irq" and ?m = "set_mask (if masked then 1 else 0)"
  obtain t where t: "read_redirect dev ?p s = (Some (redirection s ?p), t)" "\<And>j. redirection t j = redirection s j"
    using read_redirect_file [OF assms(1,2)] by blast
  have s': "s' = snd (write_redirect ?p (?m (redirection s ?p)) t)"
    using assms(3) t(1) by (simp add: set_irq_mask_def Let_def)
  have m: "bit (?m e) n = (if n = 16 then masked else bit e n)" if "n < 64" for n e
    using that by (auto simp: set_mask_def bit_set_field le_less_Suc_eq)
  show ?thesis unfolding s' by (simp add: redirection_write [OF assms(2)] assms(2) t(2) m del: if_split)
qed

theorem set_irq_mask_only_mask_witness:
  "bit (redirection (set_irq_mask (ioapic_model 0xFEC00000) 1 True demo_kernel) 0x12) 16"
proof -
  have "find_so 1 demo_kernel = None" by (simp add: find_so_def demo_kernel_def kheap.defs kernel.defs)
  then have p: "irq_pos (find_so 1 demo_kernel) 1 = 0x12" by (simp add: irq_pos_def)
  have "redirect_index 0x12" by (simp add: redirect_index_def)
  with set_irq_mask_only_mask [of demo_kernel "ioapic_model 0xFEC00000" 1 True] show ?thesis
    by (simp add: p ioapic_model_file)
qed

text \<open>
  The polarity and trigger mode the firmware reports for an overridden interrupt never reach the
  controller: the values \<^verbatim>\<open>flags & 2\<close> and \<^verbatim>\<open>flags & 8\<close> are assigned to one-bit fields, which keep bit 0
  only, so both bits of the entry are clear whatever the override says.
\<close>

theorem set_irq_drops_polarity_and_trigger:
  assumes "find_so irq s = Some so" "redirect_index (irq_pos (Some so) irq)" "set_irq irq vec dest flags masked s = s'"
  shows "\<not> bit (redirection s' (irq_pos (Some so) irq)) 13 \<and> \<not> bit (redirection s' (irq_pos (Some so) irq)) 15"
proof -
  have "s' = snd (write_redirect (irq_pos (Some so) irq) (irq_entry (Some so) vec dest flags masked) s)"
    using assms(1,3) by (simp add: set_irq_def Let_def)
  then show ?thesis by (simp add: redirection_write [OF assms(2,2)] bit_irq_entry)
qed

theorem set_irq_drops_polarity_and_trigger_witness:
  "\<exists>so. find_so 0 demo_kernel = Some so \<and> so_flags so = 0xF \<and>
     \<not> bit (redirection (set_irq 0 34 0 0xA000 True demo_kernel) (irq_pos (Some so) 0)) 13"
proof -
  let ?so = "\<lparr>so_type = 2, so_length = 10, so_bus_source = 0, so_irq_source = 0, so_gsi_base = 2, so_flags = 0xF\<rparr>"
  have f: "find_so 0 demo_kernel = Some ?so" by (simp add: find_so_def demo_kernel_def kheap.defs kernel.defs)
  have "redirect_index (irq_pos (Some ?so) 0)" by (simp add: irq_pos_def redirect_index_def)
  from set_irq_drops_polarity_and_trigger [OF f this refl] f show ?thesis by auto
qed

end
