(* ===== verification/Descriptor_Tables.thy ===== *)
theory Descriptor_Tables
  imports Kernel_State
begin

text \<open>
  The processor's descriptor tables: \<^verbatim>\<open>src/kernel/cpu/gdt.c\<close>, \<^verbatim>\<open>src/kernel/cpu/tss.c\<close> with \<^verbatim>\<open>set_rsp0\<close> of
  \<^verbatim>\<open>include/cpu/tss.h\<close>, and \<^verbatim>\<open>src/kernel/cpu/idt.c\<close>. A segment descriptor is its \<open>raw\<close> word; the fields of the
  union are read off it. Addresses of assembly routines are parameters. Loading a table sets the
  register's limit; the interrupt flag is not part of the state.
\<close>

section \<open>Definitions\<close>

subsection \<open>gdt.c\<close>

definition MAX_GDT_ENTRIES :: nat where [kconst]: "MAX_GDT_ENTRIES = 37"

definition gdt_desc :: "u16 \<Rightarrow> u16 \<Rightarrow> u8 \<Rightarrow> u8 \<Rightarrow> u8 \<Rightarrow> u8 \<Rightarrow> u64" where
  "gdt_desc limit0 base0 base1 access_byte flags base2 =
     ucast limit0 OR push_bit 16 (ucast base0) OR push_bit 32 (ucast base1) OR push_bit 40 (ucast access_byte) OR
     push_bit 48 (ucast flags) OR push_bit 56 (ucast base2)"

definition desc_base0 :: "u64 \<Rightarrow> u16" where "desc_base0 raw = ucast (drop_bit 16 raw)"
definition desc_base1 :: "u64 \<Rightarrow> u8" where "desc_base1 raw = ucast (drop_bit 32 raw)"
definition desc_base2 :: "u64 \<Rightarrow> u8" where "desc_base2 raw = ucast (drop_bit 56 raw)"

definition gdt_table :: "nat \<Rightarrow> u64" where
  "gdt_table i =
     (if i = 1 then gdt_desc 0xFFFF 0 0 0b10011011 (0xF OR 0b00100000) 0
      else if i = 2 then gdt_desc 0xFFFF 0 0 0b10010011 0xF 0
      else if i = 3 then gdt_desc 0xFFFF 0 0 0b11111011 (0xF OR 0b00100000) 0
      else if i = 4 then gdt_desc 0xFFFF 0 0 0b11110011 0xF 0
      else 0)"

definition load_gdt :: "'a kernel_scheme \<Rightarrow> 'a kernel_scheme" where
  "load_gdt s = s\<lparr>k_gdtr_loaded := k_gdtr_size s\<rparr>"

definition init_gdt :: "'a kernel_scheme \<Rightarrow> 'a kernel_scheme" where
  "init_gdt s = load_gdt (s\<lparr>k_gdtr_size := k_gdt_entries s * 8 - 1\<rparr>)"

definition set_gdt_desc :: "u16 \<Rightarrow> u64 \<Rightarrow> 'a kernel_scheme \<Rightarrow> 'a kernel_scheme" where
  "set_gdt_desc idx entry s =
     (let s = s\<lparr>k_gdt := (k_gdt s)(unat idx := entry)\<rparr>
      in if idx \<ge> k_gdt_entries s
         then s\<lparr>k_gdt_entries := idx + 1, k_gdtr_size := (idx + 1) * 8 - 1\<rparr>
         else s)"

subsection \<open>tss.c\<close>

definition sizeof_tss_t :: u64 where [kconst]: "sizeof_tss_t = 104"

definition tss_low :: "u64 \<Rightarrow> u64" where
  "tss_low a = sizeof_tss_t OR push_bit 16 (a AND 0xFFFF) OR push_bit 32 (drop_bit 16 a AND 0xFF) OR
     push_bit 40 0b10001001 OR push_bit 56 (drop_bit 24 a AND 0xFF)"

definition tss_high :: "u64 \<Rightarrow> u64" where
  "tss_high a = drop_bit 32 a AND 0xFFFFFFFF"

definition init_tss :: "'a kernel_scheme \<Rightarrow> 'a kernel_scheme option" where
  "init_tss s =
     Option.bind (halloc sizeof_tss_t (k_heap s) s) (\<lambda>(kernel_tss_addr, s).
       let tss_reg = k_gdt_entries s * 8;
           s = set_gdt_desc (k_gdt_entries s) (tss_low kernel_tss_addr) s;
           s = set_gdt_desc (k_gdt_entries s) (tss_high kernel_tss_addr) s;
           s = load_gdt s
       in Some (s\<lparr>k_tr := tss_reg\<rparr>))"

text \<open>
  \<open>set_rsp0\<close> puts the base together again. \<open>base2 << 24\<close> is a 32-bit \<^verbatim>\<open>int\<close>, so the value or-ed with the
  upper half is sign-extended first.
\<close>

definition tss_base :: "u64 \<Rightarrow> u64 \<Rightarrow> u64" where
  "tss_base entry0 entry1 =
     scast (ucast (desc_base0 entry0) OR push_bit 16 (ucast (desc_base1 entry0)) OR push_bit 24 (ucast (desc_base2 entry0)) :: u32) OR
     push_bit 32 (entry1 AND 0xFFFFFFFF)"

definition set_rsp0 :: "u64 \<Rightarrow> 'a kernel_scheme \<Rightarrow> 'a kernel_scheme" where
  "set_rsp0 rsp s =
     (let i = unat (k_tr s div 8);
          tss = tss_base (k_gdt s i) (k_gdt s (i + 1))
      in s\<lparr>k_tss := (k_tss s)(tss := (k_tss s tss)\<lparr>tss_rsp0 := rsp\<rparr>)\<rparr>)"

subsection \<open>idt.c\<close>

definition set_idt_entry :: "u16 \<Rightarrow> u8 \<Rightarrow> u16 \<Rightarrow> u8 \<Rightarrow> u64 \<Rightarrow> 'a kernel_scheme \<Rightarrow> 'a kernel_scheme" where
  "set_idt_entry idx flags selector ist handler s =
     s\<lparr>k_idt := (k_idt s)(unat idx := (k_idt s (unat idx))\<lparr>id_flags := flags, id_segment_selector := selector, id_ist := ist,
        id_offset0 := ucast handler, id_offset1 := ucast (drop_bit 16 handler), id_offset2 := ucast (drop_bit 32 handler),
        id_rsv := 0\<rparr>)\<rparr>"

definition IDT_SET_INT :: "u16 \<Rightarrow> u8 \<Rightarrow> u64 \<Rightarrow> 'a kernel_scheme \<Rightarrow> 'a kernel_scheme" where
  "IDT_SET_INT num ring handler s = set_idt_entry num (0x8E OR push_bit 5 ring) 8 0 handler s"

definition IDT_SET_TRAP :: "u16 \<Rightarrow> u8 \<Rightarrow> u64 \<Rightarrow> 'a kernel_scheme \<Rightarrow> 'a kernel_scheme" where
  "IDT_SET_TRAP num ring handler s = set_idt_entry num (0x8F OR push_bit 5 ring) 8 0 handler s"

definition load_exceptions :: "(nat \<Rightarrow> u64) \<Rightarrow> 'a kernel_scheme \<Rightarrow> 'a kernel_scheme" where
  "load_exceptions isr s = for_upto 32 (\<lambda>i. IDT_SET_INT (of_nat i) 0 (isr i)) s"

definition zero_gate :: idt_desc_t where
  "zero_gate = \<lparr>id_offset0 = 0, id_segment_selector = 0, id_ist = 0, id_flags = 0, id_offset1 = 0, id_offset2 = 0, id_rsv = 0\<rparr>"

definition init_idt :: "(nat \<Rightarrow> u64) \<Rightarrow> 'a kernel_scheme \<Rightarrow> 'a kernel_scheme" where
  "init_idt isr s =
     (let s = s\<lparr>k_idt := (\<lambda>i. if i < 256 then zero_gate else k_idt s i)\<rparr>;
          s = load_exceptions isr s
      in s\<lparr>k_idtr_size := 256 * 16 - 1\<rparr>)"

section \<open>Descriptors\<close>

text \<open>The handler address the processor reads from a gate.\<close>

definition gate_handler :: "idt_desc_t \<Rightarrow> u64" where
  "gate_handler d = ucast (id_offset0 d) OR push_bit 16 (ucast (id_offset1 d)) OR push_bit 32 (ucast (id_offset2 d))"

lemma split_address: "ucast (ucast a :: u16) OR push_bit 16 (ucast (ucast (drop_bit 16 a) :: u16)) OR
    push_bit 32 (ucast (ucast (drop_bit 32 a) :: u32)) = a" for a :: u64
proof (rule bit_word_eqI)
  fix n assume n: "n < LENGTH(64)"
  consider "n < 16" | "16 \<le> n" "n < 32" | "32 \<le> n" by linarith
  then show "bit (ucast (ucast a :: u16) OR push_bit 16 (ucast (ucast (drop_bit 16 a) :: u16)) OR
      push_bit 32 (ucast (ucast (drop_bit 32 a) :: u32)) :: u64) n = bit a n"
    by cases (use n in \<open>auto simp: bit_simps\<close>)
qed

lemma set_idt_entry_gate:
  "k_idt (set_idt_entry idx fl sel ist h s) j =
    (if j = unat idx then \<lparr>id_offset0 = ucast h, id_segment_selector = sel, id_ist = ist, id_flags = fl,
       id_offset1 = ucast (drop_bit 16 h), id_offset2 = ucast (drop_bit 32 h), id_rsv = 0\<rparr> else k_idt s j)"
  by (simp add: set_idt_entry_def)

lemma numeral_masks: "(0xFFFF :: u64) = mask 16" "(0xFF :: u64) = mask 8" "(0xFFFFFFFF :: u64) = mask 32"
  by (simp_all add: mask_eq_exp_minus_1)

lemma bit_bounded: "take_bit k x = x \<Longrightarrow> bit x n \<Longrightarrow> n < k" for x :: u64
  by (metis bit_take_bit_iff)

text \<open>The three base fields of a descriptor whose limit and access byte are \<open>l\<close> and \<open>t\<close>.\<close>

lemma system_desc_bits:
  fixes a l t :: u64
  defines "d \<equiv> l OR push_bit 16 (a AND mask 16) OR push_bit 32 (drop_bit 16 a AND mask 8) OR push_bit 40 t OR
    push_bit 56 (drop_bit 24 a AND mask 8)"
  assumes "take_bit 16 l = l" "take_bit 8 t = t"
  shows "n < 16 \<Longrightarrow> bit d (16 + n) = bit a n" "n < 8 \<Longrightarrow> bit d (32 + n) = bit a (16 + n)" "n < 8 \<Longrightarrow> bit d (56 + n) = bit a (24 + n)"
  using bit_bounded [OF assms(2), of "16 + n"] bit_bounded [OF assms(2), of "32 + n"] bit_bounded [OF assms(2), of "56 + n"]
    bit_bounded [OF assms(3), of "16 + n"]
  by (auto simp: d_def bit_simps dest: bit_bounded [OF assms(3)])

lemma tss_low_bases:
  "desc_base0 (tss_low a) = ucast a" "desc_base1 (tss_low a) = ucast (drop_bit 16 a)" "desc_base2 (tss_low a) = ucast (drop_bit 24 a)"
proof -
  have l: "take_bit 16 (104 :: u64) = 104" "take_bit 8 (0b10001001 :: u64) = 0b10001001" by simp_all
  have d: "tss_low a = 104 OR push_bit 16 (a AND mask 16) OR push_bit 32 (drop_bit 16 a AND mask 8) OR push_bit 40 0b10001001 OR
      push_bit 56 (drop_bit 24 a AND mask 8)"
    unfolding tss_low_def sizeof_tss_t_def numeral_masks by (rule refl)
  note b = system_desc_bits [OF l, of _ a, folded d]
  show "desc_base0 (tss_low a) = ucast a" "desc_base1 (tss_low a) = ucast (drop_bit 16 a)" "desc_base2 (tss_low a) = ucast (drop_bit 24 a)"
    by (rule bit_word_eqI; simp add: desc_base0_def desc_base1_def desc_base2_def bit_ucast_iff bit_drop_bit_eq b)+
qed

lemma tss_base_decode:
  "tss_base (tss_low a) (tss_high a) = (if bit a 31 then a OR 0xFFFFFFFF00000000 else a)"
proof -
  have hi: "(0xFFFFFFFF00000000 :: u64) = push_bit 32 (mask 32)" by (simp add: mask_eq_exp_minus_1 push_bit_eq_mult)
  have low: "(ucast (desc_base0 (tss_low a)) OR push_bit 16 (ucast (desc_base1 (tss_low a))) OR
      push_bit 24 (ucast (desc_base2 (tss_low a))) :: u32) = ucast a"
    unfolding tss_low_bases
  proof (rule bit_word_eqI)
    fix n assume n: "n < LENGTH(32)"
    consider "n < 16" | "16 \<le> n" "n < 24" | "24 \<le> n" by linarith
    then show "bit (ucast (ucast a :: u16) OR push_bit 16 (ucast (ucast (drop_bit 16 a) :: u8)) OR
        push_bit 24 (ucast (ucast (drop_bit 24 a) :: u8)) :: u32) n = bit (ucast a :: u32) n"
      by cases (use n in \<open>auto simp: bit_simps\<close>)
  qed
  show ?thesis unfolding tss_base_def low
  proof (rule bit_word_eqI)
    fix n assume n: "n < LENGTH(64)"
    consider "n < 31" | "n = 31" | "32 \<le> n" by linarith
    then show "bit (scast (ucast a :: u32) OR push_bit 32 (tss_high a AND 0xFFFFFFFF) :: u64) n =
        bit (if bit a 31 then a OR 0xFFFFFFFF00000000 else a) n"
      unfolding hi by cases (use n in \<open>auto simp: bit_simps tss_high_def numeral_masks min_def\<close>)
  qed
qed


section \<open>Properties\<close>

text \<open>
  A gate set with \<open>set_idt_entry\<close> sends the processor to the handler it was given: the three offset
  fields put together are the handler's address, with the selector, the flags and the interrupt stack
  given, and no other gate changes.
\<close>

theorem set_idt_entry_roundtrip:
  assumes "set_idt_entry idx fl sel ist h s = s'"
  shows "gate_handler (k_idt s' (unat idx)) = h \<and> id_flags (k_idt s' (unat idx)) = fl \<and>
    id_segment_selector (k_idt s' (unat idx)) = sel \<and> id_ist (k_idt s' (unat idx)) = ist \<and>
    (\<forall>j. j \<noteq> unat idx \<longrightarrow> k_idt s' j = k_idt s j)"
  unfolding assms [symmetric] set_idt_entry_gate gate_handler_def by (simp add: split_address)

theorem set_idt_entry_roundtrip_witness:
  "gate_handler (k_idt (set_idt_entry 0x80 0xEF 8 0 0xFFFFFFFF80001234 demo_kernel) 0x80) = 0xFFFFFFFF80001234"
  using set_idt_entry_roundtrip [of "0x80" "0xEF" 8 0 "0xFFFFFFFF80001234" demo_kernel] by simp

lemma init_tss_gdt:
  assumes "init_tss s = Some s'" "halloc sizeof_tss_t (k_heap s) s = Some (a, t)" "k_gdt_entries t = n" "unat n < 36"
  shows "k_tr s' = n * 8" "k_gdt s' (unat n) = tss_low a" "k_gdt s' (unat n + 1) = tss_high a" "k_gdt_entries s' = n + 2"
    "k_gdtr_loaded s' = (n + 2) * 8 - 1" "k_tss s' = k_tss t" "i < unat n \<Longrightarrow> k_gdt s' i = k_gdt t i"
proof -
  have n1: "unat (n + 1) = unat n + 1" using assms(4) by (subst unat_add_nowrap) simp_all
  show "k_tr s' = n * 8" "k_gdt s' (unat n) = tss_low a" "k_gdt s' (unat n + 1) = tss_high a" "k_gdt_entries s' = n + 2"
    "k_gdtr_loaded s' = (n + 2) * 8 - 1" "k_tss s' = k_tss t" "i < unat n \<Longrightarrow> k_gdt s' i = k_gdt t i"
    using assms n1 by (auto simp: init_tss_def set_gdt_desc_def load_gdt_def Let_def add.assoc)
qed

text \<open>
  After \<open>init_tss\<close>, \<open>set_rsp0\<close> finds the task state segment through the two descriptors and stores the
  stack pointer there, provided bit 31 of its address is clear; when the bit is set, the upper half of
  the address it stores to is all ones, because the lower half is put together as a signed 32-bit
  number.
\<close>

theorem set_rsp0_after_init_tss:
  assumes "init_tss s = Some s'" "halloc sizeof_tss_t (k_heap s) s = Some (a, t)" "unat (k_gdt_entries t) < 36"
  shows "k_tss (set_rsp0 rsp s') =
    (let p = (if bit a 31 then a OR 0xFFFFFFFF00000000 else a) in (k_tss t)(p := (k_tss t p)\<lparr>tss_rsp0 := rsp\<rparr>))"
proof -
  note g = init_tss_gdt [OF assms(1,2) refl assms(3)]
  have "unat (k_tr s' div 8) = unat (k_gdt_entries t)"
    using assms(3) by (simp add: g(1) unat_div unat_mult_nowrap)
  then show ?thesis
    using g(2,3,6) tss_base_decode [of a] by (simp add: set_rsp0_def Let_def)
qed

theorem set_rsp0_after_init_tss_witness:
  "\<exists>s'. init_tss (demo_kernel\<lparr>k_heap := 0\<rparr>) = Some s' \<and> tss_rsp0 (k_tss (set_rsp0 0x7FF0 s') 0) = 0x7FF0"
proof -
  let ?s = "demo_kernel\<lparr>k_heap := 0\<rparr>"
  have h: "halloc sizeof_tss_t (k_heap ?s) ?s = Some (NULL, ?s)" by (subst halloc.simps) simp
  then obtain s' where s': "init_tss ?s = Some s'" by (simp add: init_tss_def Let_def)
  have "unat (k_gdt_entries ?s) < 36" by simp
  from set_rsp0_after_init_tss [OF s' h this, of "0x7FF0"] s' show ?thesis by (auto simp: Let_def)
qed

end
