(* ===== verification/Rtc.thy ===== *)
theory Rtc
  imports Stdio Ioapic Descriptor_Tables
begin

text \<open>
  The real-time clock driver, \<^verbatim>\<open>src/kernel/kernel/rtc.c\<close>. The static variables extend the console state; the
  clock's registers are read through the ports \<^verbatim>\<open>0x70\<close> and \<^verbatim>\<open>0x71\<close>, so what they hold is up to the device. \<open>None\<close> is
  "does not return". The calendar against which \<open>get_dow\<close> is judged is the second part of the theory.
\<close>

section \<open>Definitions\<close>

definition RTC_IDT_ENTRY :: u8 where [kconst]: "RTC_IDT_ENTRY = 35"
definition TIME_LENGTH :: u64 where [kconst]: "TIME_LENGTH = 8"
definition DATE_LENGTH :: u64 where [kconst]: "DATE_LENGTH = 8"

record time_t =
  tm_century :: u8
  tm_year :: u8
  tm_month :: u8
  tm_dom :: u8
  tm_dow :: u8
  tm_hour :: u8
  tm_minute :: u8
  tm_second :: u8

record rtc = console +
  rtc_bcd :: bool
  global_time :: time_t

definition rtc_read_register :: "device \<Rightarrow> u8 \<Rightarrow> 'a kernel_scheme \<Rightarrow> u8 \<times> 'a kernel_scheme" where
  "rtc_read_register dev port_num s = inb dev 0x71 (outb 0x70 (port_num OR 0x80) s)"

definition rtc_write_register :: "u8 \<Rightarrow> u8 \<Rightarrow> 'a kernel_scheme \<Rightarrow> 'a kernel_scheme" where
  "rtc_write_register port_num val s = outb 0x71 val (outb 0x70 (port_num OR 0x80) s)"

definition bcd2bin :: "u32 \<Rightarrow> u32" where
  "bcd2bin bcd_num = drop_bit 4 bcd_num * 10 + (bcd_num AND 0xF)"

text \<open>
  \<open>d\<close> is the parameter \<^verbatim>\<open>dom\<close>, a \<^verbatim>\<open>uint8_t\<close>, so the sum stored in it is truncated; the comma expression then computes
  in \<^verbatim>\<open>int\<close>.
\<close>

definition get_dow :: "u16 \<Rightarrow> u8 \<Rightarrow> u8 \<Rightarrow> u8" where
  "get_dow y m d =
     (let (d, y) = (if m < 3 then (d + ucast y, y - 1) else (d + ucast (y - 2), y));
          n = 23 * uint m div 9 + uint d + 4 + uint y div 4 - uint y div 100 + uint y div 400
      in word_of_int (n mod 7 + 1))"

text \<open>\<open>rtc_irq\<close> is the address of the interrupt stub.\<close>

definition init_rtc :: "device \<Rightarrow> u64 \<Rightarrow> 'a rtc_scheme \<Rightarrow> 'a rtc_scheme option" where
  "init_rtc dev rtc_irq s =
     (let s = IDT_SET_INT (ucast RTC_IDT_ENTRY) 0 rtc_irq s;
          s = set_irq 8 RTC_IDT_ENTRY 0 IOAPIC_LOW_PRIORITY True s;
          (status, s) = rtc_read_register dev 0xB s;
          status = status OR (0x2 OR 0x10);
          status = status AND NOT 0x20;
          status = status AND NOT 0x40;
          s = s\<lparr>rtc_bcd := (status AND 0x4 = 0)\<rparr>;
          s = rtc_write_register 0xB status s
      in Option.bind (log_msg dev Info (str_bytes ''RTC'') (str_bytes ''Initialized RTC timer (in %s mode)'')
              [Lit (str_bytes (if rtc_bcd s then ''BCD'' else ''binary''))] s) (\<lambda>s.
           Some (set_irq_mask dev 8 False (snd (rtc_read_register dev 0xC s)))))"

definition rtc_value :: "device \<Rightarrow> u8 \<Rightarrow> 'a rtc_scheme \<Rightarrow> u8 \<times> 'a rtc_scheme" where
  "rtc_value dev port_num s =
     (let (v, s) = rtc_read_register dev port_num s
      in (if rtc_bcd s then ucast (bcd2bin (ucast v)) else v, s))"

definition read_time :: "device \<Rightarrow> 'a rtc_scheme \<Rightarrow> 'a rtc_scheme" where
  "read_time dev s =
     (let (century, s) = rtc_value dev 0x32 s;
          (year, s) = rtc_value dev 0x9 s;
          (month, s) = rtc_value dev 0x8 s;
          (day, s) = rtc_value dev 0x7 s;
          (hour, s) = rtc_value dev 0x4 s;
          (minute, s) = rtc_value dev 0x2 s;
          (second, s) = rtc_value dev 0 s;
          century = (if century \<noteq> 0 then century else 20)
      in s\<lparr>global_time := \<lparr>tm_century = century, tm_year = year, tm_month = month, tm_dom = day,
             tm_dow = get_dow (ucast century * 100 + ucast year) month day,
             tm_hour = hour, tm_minute = minute, tm_second = second\<rparr>\<rparr>)"

definition two_digits :: "u8 \<Rightarrow> va_arg list" where
  "two_digits v = [Lit (str_bytes (if v < 10 then ''0'' else [])), Num (ucast v)]"

definition rtc_handler :: "device \<Rightarrow> u64 \<Rightarrow> 'a rtc_scheme \<Rightarrow> (u64 \<times> 'a rtc_scheme) option" where
  "rtc_handler dev status s =
     (let (rtc_status, s) = rtc_read_register dev 0xC s in
      if rtc_status AND 0b10000 \<noteq> 0
      then let s = read_time dev s; t = global_time s;
               old_color = screen_fg s;
               s = s\<lparr>screen_fg := 0x579cf7\<rparr>
           in Option.bind (printf_at dev (screen_num_cols s - TIME_LENGTH) 0 (str_bytes ''%s%u:%s%u:%s%u'')
                (two_digits (tm_hour t) @ two_digits (tm_minute t) @ two_digits (tm_second t)) s) (\<lambda>s.
              Option.bind (printf_at dev (screen_num_cols s - DATE_LENGTH) 1 (str_bytes ''%s%u/%s%u/%s%u'')
                (two_digits (tm_month t) @ two_digits (tm_dom t) @ two_digits (tm_year t)) s) (\<lambda>s.
              Some (status, APIC_EOI (s\<lparr>screen_fg := old_color\<rparr>))))
      else Some (status, APIC_EOI s))"

subsection \<open>The calendar\<close>

definition leap_year :: "nat \<Rightarrow> bool" where
  "leap_year y \<longleftrightarrow> 4 dvd y \<and> \<not> 100 dvd y \<or> 400 dvd y"

definition month_lengths :: "nat \<Rightarrow> nat list" where
  "month_lengths y = [31, if leap_year y then 29 else 28, 31, 30, 31, 30, 31, 31, 30, 31, 30, 31]"

definition valid_date :: "nat \<Rightarrow> nat \<Rightarrow> nat \<Rightarrow> bool" where
  "valid_date y m d \<longleftrightarrow> 1 \<le> y \<and> 1 \<le> m \<and> m \<le> 12 \<and> 1 \<le> d \<and> d \<le> month_lengths y ! (m - 1)"

text \<open>The day's number, from 1 January of the year 1, which was a Monday, and its weekday, 1 for Sunday.\<close>

definition day_number :: "nat \<Rightarrow> nat \<Rightarrow> nat \<Rightarrow> nat" where
  "day_number y m d =
     (\<Sum>k\<leftarrow>[1..<y]. sum_list (month_lengths k)) + sum_list (take (m - 1) (month_lengths y)) + d"

definition weekday :: "nat \<Rightarrow> nat \<Rightarrow> nat \<Rightarrow> nat" where
  "weekday y m d = day_number y m d mod 7 + 1"

section \<open>Lemmas\<close>

subsection \<open>The formula of \<open>get_dow\<close>\<close>

text \<open>Its two parts before the truncation, on day \<open>d\<close> of month \<open>m\<close> of year \<open>y\<close>, and the leap days up to a year.\<close>

definition leaps :: "nat \<Rightarrow> int" where
  "leaps y = int y div 4 - int y div 100 + int y div 400"

definition dow_sum :: "nat \<Rightarrow> nat \<Rightarrow> nat \<Rightarrow> nat" where
  "dow_sum y m d = d + (if m < 3 then y else y - 2)"

definition dow_rest :: "nat \<Rightarrow> nat \<Rightarrow> int" where
  "dow_rest y m = 23 * int m div 9 + 4 + leaps (if m < 3 then y - 1 else y)"

lemma year_length: "sum_list (month_lengths y) = (if leap_year y then 366 else 365)"
  by (simp add: month_lengths_def)

lemma leaps_Suc: "leaps (Suc n) = leaps n + (if leap_year (Suc n) then 1 else 0)"
proof -
  have *: "int (Suc n) div int k = int n div int k + (if k dvd Suc n then 1 else 0)" if "0 < k" for k
    using that by (simp only: zdiv_int [symmetric] div_Suc) (auto simp: dvd_eq_mod_eq_0)
  have d: "int (Suc n) div 4 = int n div 4 + (if 4 dvd Suc n then 1 else 0)"
    "int (Suc n) div 100 = int n div 100 + (if 100 dvd Suc n then 1 else 0)"
    "int (Suc n) div 400 = int n div 400 + (if 400 dvd Suc n then 1 else 0)"
    using *[of 4] *[of 100] *[of 400] by (simp_all only: of_nat_numeral zero_less_numeral)
  have "400 dvd Suc n \<longrightarrow> 100 dvd Suc n" "100 dvd Suc n \<longrightarrow> 4 dvd Suc n"
    using dvd_trans[of 100 400 "Suc n"] dvd_trans[of 4 100 "Suc n"] by simp_all
  then show ?thesis
    unfolding leaps_def d
    by (cases "400 dvd Suc n"; cases "100 dvd Suc n"; cases "4 dvd Suc n") (simp_all add: leap_year_def)
qed

lemma years_length: "int (\<Sum>k\<leftarrow>[1..<Suc n]. sum_list (month_lengths k)) = 365 * int n + leaps n"
proof (induction n)
  case (Suc n)
  then show ?case by (simp add: year_length leaps_Suc)
qed (simp add: leaps_def)

lemma day_number_mod:
  assumes "valid_date y m d" "2 \<le> y"
  shows "(int (dow_sum y m d) + dow_rest y m) mod 7 = int (day_number y m d) mod 7"
proof -
  obtain n where y: "y = Suc n" "1 \<le> n" using assms(2) by (cases y) auto
  have num: "int (day_number y m d) = 365 * int n + leaps n + int (sum_list (take (m - 1) (month_lengths y))) + int d"
    unfolding day_number_def of_nat_add y years_length ..
  have "1 \<le> m" "m \<le> 12" using assms(1) by (simp_all add: valid_date_def)
  then have "m \<in> {1, 2, 3, 4, 5, 6, 7, 8, 9, 10, 11, 12}"
    unfolding insert_iff empty_iff by presburger
  then have "int (dow_sum y m d) + dow_rest y m - int (day_number y m d) = 7 * (5 - 4 * int m - 52 * int n)"
    unfolding num unfolding dow_sum_def dow_rest_def y(1) month_lengths_def using y(2)
    by (elim insertE emptyE) (simp_all add: leaps_Suc of_nat_diff)
  then show ?thesis by (simp add: mod_eq_dvd_iff)
qed


lemma get_dow_eq:
  assumes "valid_date y m d" "2 \<le> y" "y < 2 ^ 16"
  shows "int (unat (get_dow (of_nat y) (of_nat m) (of_nat d))) =
    (int (dow_sum y m d mod 256) + dow_rest y m) mod 7 + 1"
proof -
  have b: "m \<le> 12" "1 \<le> m" "d \<le> 31"
    using assms(1) by (auto simp: valid_date_def month_lengths_def less_Suc_eq_le nth_Cons' split: if_splits)
  have m: "(of_nat m :: u8) < 3 \<longleftrightarrow> m < 3" "uint (of_nat m :: u8) = int m"
    using b by (simp_all add: word_less_nat_alt unat_of_nat uint_nat)
  have sub: "of_nat y - k = (of_nat (y - unat k) :: u16)" if "unat k \<le> 2" for k
    using that assms(2) by (simp add: of_nat_diff)
  have s12: "of_nat y - 1 = (of_nat (y - 1) :: u16)" "of_nat y - 2 = (of_nat (y - 2) :: u16)"
    using sub[of 1] sub[of 2] by simp_all
  have y: "uint (of_nat k :: u16) = int k" "(ucast (of_nat k :: u16) :: u8) = of_nat k" if "k \<le> y" for k
    using that assms(3) by (simp_all add: uint_nat unat_of_nat unsigned_of_nat take_bit_nat_eq_self)
  have t: "uint (of_nat d + of_nat k :: u8) = int ((d + k) mod 256)" for k
    by (simp add: uint_nat unat_of_nat flip: of_nat_add)
  have r: "uint (word_of_int (n mod 7 + 1) :: u8) = n mod 7 + 1" for n :: int
    unfolding uint_word_of_int by simp
  have *: "int (unat w) = uint w" for w :: u8 by simp
  show ?thesis
    unfolding * get_dow_def dow_sum_def dow_rest_def leaps_def Let_def m(1)
    by (cases "m < 3") (simp_all only: if_True if_False split_conv r t m s12 y diff_le_self order_refl, simp_all add: algebra_simps)
qed


lemma get_dow_weekday_iff:
  assumes "valid_date y m d" "1800 \<le> y" "y \<le> 2270"
  shows "unat (get_dow (of_nat y) (of_nat m) (of_nat d)) = weekday y m d \<longleftrightarrow> d + (if m < 3 then y else y - 2) < 2048"
proof -
  let ?t = "dow_sum y m d" and ?w = "int (dow_sum y m d) + dow_rest y m"
  have "d \<le> 31" using assms(1) by (auto simp: valid_date_def month_lengths_def less_Suc_eq_le nth_Cons' split: if_splits)
  then have t: "1792 \<le> ?t" "?t < 2304" using assms(2,3) assms(1) by (auto simp: dow_sum_def valid_date_def)
  have w: "int (weekday y m d) = ?w mod 7 + 1"
    using day_number_mod[OF assms(1)] assms(2) by (simp add: weekday_def zmod_int)
  have g: "int (unat (get_dow (of_nat y) (of_nat m) (of_nat d))) = (int (?t mod 256) + dow_rest y m) mod 7 + 1"
    using get_dow_eq[OF assms(1)] assms(2,3) by simp
  have "(int (?t mod 256) + dow_rest y m) mod 7 = ?w mod 7 \<longleftrightarrow> ?t < 2048"
  proof (cases "?t < 2048")
    case True
    then have "?t mod 256 = ?t - 1792" using t by (simp add: mod_if)
    then have "int (?t mod 256) + dow_rest y m - ?w = 7 * (- 256)" using t by (simp add: of_nat_diff)
    then show ?thesis using True by (simp add: mod_eq_dvd_iff)
  next
    case False
    then have "?t mod 256 = ?t - 2048" using t by (simp add: mod_if)
    then have "int (?t mod 256) + dow_rest y m - ?w = - 2048" using False by (simp add: of_nat_diff)
    then show ?thesis using False by (simp add: mod_eq_dvd_iff)
  qed
  then show ?thesis using w g by (simp flip: of_nat_eq_iff [where 'a = int] add: dow_sum_def)
qed


text \<open>
  C29. The weekday. \<open>get_dow\<close> stores an intermediate sum in its 8-bit parameter, so on a valid date of the years
  1800 to 2270 it gives the weekday of the calendar exactly as long as day plus year (less 2 from March on) is
  below 2048: on every date up to 2016, not on 31 January 2017, and on no date after 2048.
\<close>
theorem get_dow_weekday:
  assumes "valid_date y m d" "1800 \<le> y" "y \<le> 2270"
  shows "unat (get_dow (of_nat y) (of_nat m) (of_nat d)) = weekday y m d \<longleftrightarrow> d + (if m < 3 then y else y - 2) < 2048"
  using assms by (rule get_dow_weekday_iff)

theorem get_dow_weekday_witness:
  "unat (get_dow 2016 2 29) = weekday 2016 2 29 \<and> unat (get_dow 2024 12 26) \<noteq> weekday 2024 12 26"
  using get_dow_weekday[of 2016 2 29] get_dow_weekday[of 2024 12 26]
  by (simp add: valid_date_def month_lengths_def leap_year_def)

subsection \<open>Reading the clock\<close>

text \<open>
  The clock as its data sheet has it: reading the data port after selecting register \<open>r\<close> (with the
  non-maskable interrupt disabled by bit 7) gives the content of the register.
\<close>

definition clock :: "device \<Rightarrow> (u8 \<Rightarrow> u8) \<Rightarrow> bool" where
  "clock dev clk \<longleftrightarrow> (\<forall>r h. r < 0x80 \<longrightarrow> dev (Inb 0x71 # Outb 0x70 (r OR 0x80) # h) = ucast (clk r))"

definition bcd :: "nat \<Rightarrow> u8" where
  "bcd n = of_nat (16 * (n div 10) + n mod 10)"

lemma bcd2bin_bcd:
  assumes "n < 100" shows "(ucast (bcd2bin (ucast (bcd n))) :: u8) = of_nat n"
proof -
  define a b where "a = n div 10" and "b = n mod 10"
  then have n: "n = a * 10 + b" and ab: "a < 10" "b < 10" using assms by simp_all
  let ?w = "of_nat (16 * a + b) :: u32"
  have w: "unat ?w = 16 * a + b" using ab unfolding unat_of_nat by simp
  have u: "ucast (bcd n) = ?w"
    using ab unfolding bcd_def unsigned_of_nat a_def[symmetric] b_def[symmetric] by (simp add: take_bit_nat_eq_self)
  have "drop_bit 4 ?w = of_nat a"
    using ab by (simp add: drop_bit_eq_div word_unat_eq_iff unat_div w unat_of_nat del: of_nat_add of_nat_mult)
  moreover have "?w AND 0xF = take_bit 4 ?w" by (simp add: take_bit_eq_mask mask_eq_exp_minus_1)
  moreover have "take_bit 4 ?w = of_nat b"
    using ab by (simp add: word_unat_eq_iff unsigned_take_bit_eq take_bit_eq_mod unat_mod w unat_of_nat del: of_nat_add of_nat_mult)
  ultimately have "bcd2bin (ucast (bcd n)) = of_nat n"
    unfolding bcd2bin_def u by (simp add: n)
  then show ?thesis using assms by (simp add: unsigned_of_nat take_bit_nat_eq_self)
qed

lemma ucast_ucast_u8: "(ucast (ucast (v :: u8) :: u64) :: u8) = v"
  by (rule bit_word_eqI) (simp add: bit_simps)

lemma rtc_value_frame: "rtc_bcd (snd (rtc_value dev r s)) = rtc_bcd s"
  by (simp add: rtc_value_def rtc_read_register_def inb_def outb_def io_read_def io_write_def Let_def split_beta)

lemma rtc_read_register_clock:
  assumes "clock dev clk" "r < 0x80"
  shows "fst (rtc_read_register dev r s) = clk r"
  using assms by (simp add: rtc_read_register_def inb_def outb_def io_read_def io_write_def Let_def
      clock_def ucast_ucast_u8)

lemma rtc_value_clock:
  assumes "clock dev clk" "r < 0x80"
  shows "fst (rtc_value dev r s) = (if rtc_bcd s then ucast (bcd2bin (ucast (clk r))) else clk r)"
  using rtc_read_register_clock[OF assms, of s]
  by (simp add: rtc_value_def Let_def split_beta rtc_read_register_def inb_def outb_def io_read_def io_write_def)

lemma read_time_values:
  assumes "clock dev clk"
  shows "global_time (read_time dev s) =
    (let v = (\<lambda>r. if rtc_bcd s then ucast (bcd2bin (ucast (clk r))) else clk r);
         century = (if v 0x32 \<noteq> 0 then v 0x32 else 20)
     in \<lparr>tm_century = century, tm_year = v 9, tm_month = v 8, tm_dom = v 7,
         tm_dow = get_dow (ucast century * 100 + ucast (v 9)) (v 8) (v 7),
         tm_hour = v 4, tm_minute = v 2, tm_second = v 0\<rparr>)"
  by (simp add: read_time_def Let_def split_beta rtc_value_frame rtc_value_clock[OF assms])

text \<open>
  C36. The time read from a clock that keeps it in binary coded decimal is the time the clock shows, for every
  date of a year up to 2016 with its weekday: the decoding and the weekday computation undo the encoding.
\<close>
theorem read_time_roundtrip:
  assumes "clock dev (\<lambda>r. bcd (f r))" "rtc_bcd s" "\<forall>r. f r < 100"
    and "valid_date (100 * f 0x32 + f 9) (f 8) (f 7)" "1800 \<le> 100 * f 0x32 + f 9" "100 * f 0x32 + f 9 \<le> 2016"
  shows "global_time (read_time dev s) =
    \<lparr>tm_century = of_nat (f 0x32), tm_year = of_nat (f 9), tm_month = of_nat (f 8), tm_dom = of_nat (f 7),
     tm_dow = of_nat (weekday (100 * f 0x32 + f 9) (f 8) (f 7)),
     tm_hour = of_nat (f 4), tm_minute = of_nat (f 2), tm_second = of_nat (f 0)\<rparr>"
proof -
  let ?y = "100 * f 0x32 + f 9"
  have v: "(ucast (bcd2bin (ucast (bcd (f r)))) :: u8) = of_nat (f r)" for r using assms(3) bcd2bin_bcd by blast
  have f: "f 0x32 < 100" "f 9 < 100" using assms(3) by blast+
  have c: "of_nat (f 0x32) \<noteq> (0 :: u8)"
    using f assms(5) by (simp add: word_unat_eq_iff unat_of_nat)
  have y: "ucast (of_nat (f 0x32) :: u8) * 100 + ucast (of_nat (f 9) :: u8) = (of_nat ?y :: u16)"
    using f by (simp add: unsigned_of_nat take_bit_nat_eq_self)
  have "f 7 + (if f 8 < 3 then ?y else ?y - 2) < 2048"
    using assms(4,6) by (auto simp: valid_date_def month_lengths_def less_Suc_eq_le nth_Cons' split: if_splits)
  then have "unat (get_dow (of_nat ?y) (of_nat (f 8)) (of_nat (f 7))) = weekday ?y (f 8) (f 7)"
    using get_dow_weekday_iff[OF assms(4,5)] assms(6) by simp
  then have "get_dow (of_nat ?y) (of_nat (f 8)) (of_nat (f 7)) = of_nat (weekday ?y (f 8) (f 7))"
    by (metis of_nat_unat ucast_id)
  then show ?thesis
    unfolding read_time_values[OF assms(1)] by (simp only: Let_def assms(2) if_True v y c not_False_eq_True)
qed

definition demo_rtc :: rtc where
  "demo_rtc = console.extend demo_console \<lparr>rtc_bcd = True,
     global_time = \<lparr>tm_century = 0, tm_year = 0, tm_month = 0, tm_dom = 0, tm_dow = 0, tm_hour = 0, tm_minute = 0, tm_second = 0\<rparr>\<rparr>"

text \<open>29 February 2016, 12:30:45, as the registers hold it, and a device that answers with them.\<close>

definition demo_date :: "u8 \<Rightarrow> nat" where
  "demo_date = (\<lambda>r. case map_of [(0x32, 20), (9, 16), (8, 2), (7, 29), (4, 12), (2, 30), (0, 45)] r of None \<Rightarrow> 0 | Some v \<Rightarrow> v)"

definition clock_model :: "(u8 \<Rightarrow> u8) \<Rightarrow> device" where
  "clock_model clk h = (case h of Inb p # Outb q v # _ \<Rightarrow> ucast (clk (v AND 0x7F)) | _ \<Rightarrow> 0)"

lemma clock_model: "clock (clock_model clk) clk"
proof -
  have "(r OR 0x80) AND 0x7F = r" if "r < 0x80" for r :: u8
  proof -
    have "(r OR 0x80) AND 0x7F = (r AND 0x7F) OR (0x80 AND 0x7F)" by (rule bit.conj_disj_distrib2)
    also have "\<dots> = take_bit 7 r" by (simp add: take_bit_eq_mask mask_eq_exp_minus_1)
    also have "\<dots> = r" using that by (simp add: word_less_nat_alt take_bit_eq_mod word_unat_eq_iff unat_mod)
    finally show ?thesis .
  qed
  then show ?thesis by (simp add: clock_def clock_model_def)
qed

theorem read_time_roundtrip_witness:
  "tm_dow (global_time (read_time (clock_model (\<lambda>r. bcd (demo_date r))) demo_rtc)) = of_nat (weekday 2016 2 29)"
proof -
  have "\<forall>r. demo_date r < 100" by (simp add: demo_date_def)
  moreover have "rtc_bcd demo_rtc" by (simp add: demo_rtc_def rtc.defs console.defs)
  moreover have "demo_date 0x32 = 20" "demo_date 9 = 16" "demo_date 8 = 2" "demo_date 7 = 29"
    by (simp_all add: demo_date_def)
  moreover have "valid_date 2016 2 29" by (simp add: valid_date_def month_lengths_def leap_year_def)
  ultimately show ?thesis using read_time_roundtrip[OF clock_model, of demo_rtc demo_date] by simp
qed

text \<open>
  The clock interrupt. When the clock reports an update, the time is read and shown and the text colour is
  restored; if the interrupted code was inside \<^verbatim>\<open>printf\<close> and holds its lock, the handler waits for it on the same
  processor and never returns. Without an update the interrupt is only acknowledged.
\<close>
theorem rtc_handler_deadlocks:
  assumes "clock dev clk"
  shows "(\<not> bit (clk 0xC) 4 \<longrightarrow>
            rtc_handler dev status s = Some (status, APIC_EOI (snd (rtc_read_register dev 0xC s)))) \<and>
         (bit (clk 0xC) 4 \<longrightarrow> printf_mutex s \<longrightarrow> rtc_handler dev status s = None)"
proof -
  have v: "fst (rtc_read_register dev 0xC s) = clk 0xC"
    by (rule rtc_read_register_clock[OF assms]) simp
  have b: "clk 0xC AND 0b10000 \<noteq> 0 \<longleftrightarrow> bit (clk 0xC) 4"
    using bit_iff_and_push_bit_not_eq_0[of "clk 0xC" 4] by simp
  have m: "printf_mutex (read_time dev (snd (rtc_read_register dev 0xC s))) = printf_mutex s"
    by (simp add: read_time_def rtc_value_def rtc_read_register_def inb_def outb_def io_read_def io_write_def Let_def split_beta)
  show ?thesis
    unfolding rtc_handler_def split_beta Let_def v b by (simp add: printf_at_def m)
qed

theorem rtc_handler_deadlocks_witness:
  "rtc_handler (clock_model (\<lambda>_. 0x10)) 0x5000 (demo_rtc\<lparr>printf_mutex := True\<rparr>) = None"
  using rtc_handler_deadlocks[OF clock_model, of "\<lambda>_. 0x10" "0x5000" "demo_rtc\<lparr>printf_mutex := True\<rparr>"] by simp

end
