(* ===== verification/Keyboard.thy ===== *)
theory Keyboard
  imports Stdio Ioapic Descriptor_Tables
begin

text \<open>
  The PS/2 keyboard driver, \<^verbatim>\<open>src/kernel/drivers/keyboard.c\<close>, with the enumerations of
  \<^verbatim>\<open>include/drivers/keyboard.h\<close>. The static variables extend the console state. A C enumeration holds any
  integer, so \<open>translate\<close> returns the value, which need not be that of an enumerator. \<open>None\<close> is "does not
  return" or a read past the end of a key map. Characters are their codes.
\<close>

section \<open>Definitions\<close>

definition KEYBOARD_PORT :: u16 where [kconst]: "KEYBOARD_PORT = 0x60"
definition KEYBOARD_ACK :: u8 where [kconst]: "KEYBOARD_ACK = 0xFA"
definition PS2_DATA :: u16 where [kconst]: "PS2_DATA = 0x60"
definition PS2_STATUS :: u16 where [kconst]: "PS2_STATUS = 0x64"
definition KEY_RELEASE_MASK :: u8 where [kconst]: "KEY_RELEASE_MASK = 0x80"
definition KEYBOARD_IDT_ENTRY :: u8 where [kconst]: "KEYBOARD_IDT_ENTRY = 36"

type_synonym key_code_t = u8

definition key_codes :: "(string \<times> key_code_t) list" where
  "key_codes =
    [(''NO_KEY'', 0), (''ESCAPE'', 0x01), (''D1'', 0x02), (''D2'', 0x03), (''D3'', 0x04), (''D4'', 0x05),
     (''D5'', 0x06), (''D6'', 0x07), (''D7'', 0x08), (''D8'', 0x09), (''D9'', 0x0A), (''D0'', 0x0B),
     (''MINUS'', 0x0C), (''EQUALS'', 0x0D), (''BACKSPACE'', 0x0E), (''TAB'', 0x0F), (''Q'', 0x10), (''W'', 0x11),
     (''E'', 0x12), (''R'', 0x13), (''T'', 0x14), (''Y'', 0x15), (''U'', 0x16), (''I'', 0x17), (''O'', 0x18),
     (''P'', 0x19), (''SQBRACKET_OPEN'', 0x1A), (''SQBRACKET_CLOSE'', 0x1B), (''ENTER'', 0x1C),
     (''LEFT_CTRL'', 0x1D), (''A'', 0x1E), (''S'', 0x1F), (''D'', 0x20), (''F'', 0x21), (''G'', 0x22),
     (''H'', 0x23), (''J'', 0x24), (''K'', 0x25), (''L'', 0x26), (''SEMICOLON'', 0x27), (''SINGLE_QUOTE'', 0x28),
     (''BACK_TICK'', 0x29), (''LEFT_SHIFT'', 0x2A), (''SLASH'', 0x2B), (''Z'', 0x2C), (''X'', 0x2D),
     (''C'', 0x2E), (''V'', 0x2F), (''B'', 0x30), (''N'', 0x31), (''M'', 0x32), (''COMMA'', 0x33),
     (''DOT'', 0x34), (''BACKSLASH'', 0x35), (''RIGHT_SHIFT'', 0x36), (''KEYPAD_STAR'', 0x37),
     (''LEFT_ALT'', 0x38), (''SPACE'', 0x39), (''CAPS_LOCK'', 0x3A), (''F1'', 0x3B), (''F2'', 0x3C),
     (''F3'', 0x3D), (''F4'', 0x3E), (''F5'', 0x3F), (''F6'', 0x40), (''F7'', 0x41), (''F8'', 0x42),
     (''F9'', 0x43), (''F10'', 0x44), (''NUM_LOCK'', 0x45), (''SCROLL_LOCK'', 0x46), (''KEYPAD_D7'', 0x47),
     (''KEYPAD_D8'', 0x48), (''KEYPAD_D9'', 0x49), (''KEYPAD_MINUS'', 0x4A), (''KEYPAD_D4'', 0x4B),
     (''KEYPAD_D5'', 0x4C), (''KEYPAD_D6'', 0x4D), (''KEYPAD_PLUS'', 0x4E), (''KEYPAD_D1'', 0x4F),
     (''KEYPAD_D2'', 0x50), (''KEYPAD_D3'', 0x51), (''KEYPAD_D0'', 0x52), (''KEYPAD_DOT'', 0x53),
     (''ALT_SYSRQ'', 0x54), (''F11'', 0x57), (''F12'', 0x58), (''LEFT_GUI'', 0x5B), (''RIGHT_GUI'', 0x5C),
     (''EXTENDED_PREFIX'', 0xE0)]"

definition LEFT_CTRL :: key_code_t where [kconst]: "LEFT_CTRL = 0x1D"
definition LEFT_ALT :: key_code_t where [kconst]: "LEFT_ALT = 0x38"
definition LEFT_GUI :: key_code_t where [kconst]: "LEFT_GUI = 0x5B"
definition RIGHT_GUI :: key_code_t where [kconst]: "RIGHT_GUI = 0x5C"
definition LEFT_SHIFT :: key_code_t where [kconst]: "LEFT_SHIFT = 0x2A"
definition RIGHT_SHIFT :: key_code_t where [kconst]: "RIGHT_SHIFT = 0x36"
definition EXTENDED_PREFIX :: key_code_t where [kconst]: "EXTENDED_PREFIX = 0xE0"

datatype key_modifiers_t =
  left_shift | right_shift | left_alt | right_alt | left_ctrl | right_ctrl | left_gui | right_gui

primrec modifier_value :: "key_modifiers_t \<Rightarrow> u8" where
  "modifier_value left_shift = push_bit 0 1"
| "modifier_value right_shift = push_bit 1 1"
| "modifier_value left_alt = push_bit 2 1"
| "modifier_value right_alt = push_bit 3 1"
| "modifier_value left_ctrl = push_bit 4 1"
| "modifier_value right_ctrl = push_bit 5 1"
| "modifier_value left_gui = push_bit 6 1"
| "modifier_value right_gui = push_bit 7 1"

record keyboard = console +
  current_modifiers :: u8
  is_pressed :: u8
  extended_read :: u8

definition keymap :: "u8 list" where
  "keymap =
    [0, 0, 49, 50, 51, 52, 53, 54, 55, 56, 57, 48, 45, 61, 8,
     9, 113, 119, 101, 114, 116, 121, 117, 105, 111, 112, 91, 93, 10,
     0, 97, 115, 100, 102, 103, 104, 106, 107, 108, 59, 39, 96,
     0, 92, 122, 120, 99, 118, 98, 110, 109, 44, 46, 47, 0,
     42, 0, 32, 0,
     0, 0, 0, 0, 0, 0, 0, 0, 0, 0, 0, 0,
     55, 56, 57, 45, 52, 53, 54, 43, 49, 50, 51, 48, 46]"

definition shift_keymap :: "u8 list" where
  "shift_keymap =
    [0, 0, 33, 64, 35, 36, 37, 94, 38, 42, 40, 41, 95, 43, 8,
     9, 81, 87, 69, 82, 84, 89, 85, 73, 79, 80, 123, 125, 10,
     0, 65, 83, 68, 70, 71, 72, 74, 75, 76, 58, 34, 126,
     0, 63, 90, 88, 67, 86, 66, 78, 77, 60, 62, 124, 0,
     42, 0, 32, 0,
     0, 0, 0, 0, 0, 0, 0, 0, 0, 0, 0, 0,
     55, 56, 57, 45, 52, 53, 54, 43, 49, 50, 51, 48, 46]"

definition check_ack :: "device \<Rightarrow> 'a console_scheme \<Rightarrow> 'a console_scheme option" where
  "check_ack dev s =
     (let (v, s) = inb dev KEYBOARD_PORT s in
      if v \<noteq> KEYBOARD_ACK
      then log_msg dev Error (str_bytes ''KEYBOARD'') (str_bytes ''Unable to communicate with keyboard'') [] s
      else Some s)"

partial_function (option) ps2_wait :: "device \<Rightarrow> 'a kernel_scheme \<Rightarrow> 'a kernel_scheme option" where
  [code]: "ps2_wait dev s =
     (let (v, s) = inb dev PS2_STATUS s in if v AND 0b10 \<noteq> 0 then ps2_wait dev s else Some s)"

text \<open>A missing acknowledgement is only logged. \<open>keyboard_irq\<close> is the address of the interrupt stub.\<close>

definition init_keyboard :: "device \<Rightarrow> u64 \<Rightarrow> 'a console_scheme \<Rightarrow> 'a console_scheme option" where
  "init_keyboard dev keyboard_irq s =
     (let s = outb KEYBOARD_PORT 0xF5 (snd (inb dev KEYBOARD_PORT s)) in
      Option.bind (check_ack dev s) (\<lambda>s.
      Option.bind (check_ack dev (outb KEYBOARD_PORT 2 (outb KEYBOARD_PORT 0xF0 s))) (\<lambda>s.
      Option.bind (ps2_wait dev (outb 0x64 0x20 s)) (\<lambda>s.
        let (configuration_byte, s) = inb dev PS2_DATA s in
        if configuration_byte AND push_bit 6 1 = 0
        then log_msg dev Error (str_bytes ''KEYBOARD'') (str_bytes ''Translation is not enabled'') [] s
        else Option.bind (check_ack dev (outb KEYBOARD_PORT 0xF4 s)) (\<lambda>s.
          let s = IDT_SET_INT (ucast KEYBOARD_IDT_ENTRY) 0 keyboard_irq s;
              s = set_irq 1 KEYBOARD_IDT_ENTRY 0 IOAPIC_LOW_PRIORITY False s
          in log_msg dev Info (str_bytes ''KEYBOARD'') (str_bytes ''Initialized keyboard'') [] s)))))"

definition update_modifiers :: "key_modifiers_t \<Rightarrow> bool \<Rightarrow> 'a keyboard_scheme \<Rightarrow> 'a keyboard_scheme" where
  "update_modifiers modifier pressed s =
     (if pressed then s\<lparr>current_modifiers := current_modifiers s OR modifier_value modifier\<rparr>
      else s\<lparr>current_modifiers := current_modifiers s AND NOT (modifier_value modifier)\<rparr>)"

definition translate_switch :: "u8 \<Rightarrow> 'a keyboard_scheme \<Rightarrow> 'a keyboard_scheme" where
  "translate_switch scancode s =
     (let pressed = is_pressed s \<noteq> 0; ext = extended_read s \<noteq> 0 in
      if scancode = LEFT_CTRL then update_modifiers (if ext then right_ctrl else left_ctrl) pressed s
      else if scancode = LEFT_ALT then update_modifiers (if ext then right_alt else left_alt) pressed s
      else if scancode = LEFT_GUI then update_modifiers left_gui pressed s
      else if scancode = RIGHT_GUI then update_modifiers right_gui pressed s
      else if scancode = LEFT_SHIFT then update_modifiers left_shift pressed s
      else if scancode = RIGHT_SHIFT then update_modifiers right_shift pressed s
      else s)"

definition translate :: "u8 \<Rightarrow> 'a keyboard_scheme \<Rightarrow> u8 \<times> 'a keyboard_scheme" where
  "translate scancode s =
     (let s = s\<lparr>is_pressed := 1\<rparr> in
      if scancode = EXTENDED_PREFIX then (scancode, s\<lparr>extended_read := 1\<rparr>)
      else
        let (scancode, s) = (if scancode AND KEY_RELEASE_MASK \<noteq> 0
                             then (scancode AND NOT KEY_RELEASE_MASK, s\<lparr>is_pressed := 0\<rparr>) else (scancode, s))
        in if scancode < 0x60 then (scancode, (translate_switch scancode s)\<lparr>extended_read := 0\<rparr>)
           else (0, s\<lparr>extended_read := 0\<rparr>))"

definition get_char :: "u8 \<Rightarrow> 'a keyboard_scheme \<Rightarrow> u8 option" where
  "get_char scancode s =
     (let m = (if current_modifiers s AND (modifier_value left_shift OR modifier_value right_shift) \<noteq> 0
               then shift_keymap else keymap)
      in if unat scancode < length m then Some (m ! unat scancode) else None)"

definition keyboard_handler :: "device \<Rightarrow> u64 \<Rightarrow> 'a keyboard_scheme \<Rightarrow> (u64 \<times> 'a keyboard_scheme) option" where
  "keyboard_handler dev status s =
     (let (scancode, s) = inb dev KEYBOARD_PORT s;
          (translated_scancode, s) = translate scancode s
      in if scancode = EXTENDED_PREFIX then Some (status, APIC_EOI s)
         else if is_pressed s = 0 then Some (status, APIC_EOI s)
         else Option.bind (get_char translated_scancode s) (\<lambda>key.
           if key \<noteq> 0
           then Option.bind (printf dev (str_bytes ''%c'') [Num (scast key)] s) (\<lambda>s.
                Option.bind (flush_screen dev s) (\<lambda>s. Some (status, APIC_EOI s)))
           else Some (status, APIC_EOI s)))"

subsection \<open>The specification of the modifier state\<close>

text \<open>
  What the driver promises: \<open>held\<close> is the set of modifier keys that are down, and \<open>modifier_event\<close> says what a
  byte of the keyboard does to it, with the \<^verbatim>\<open>0xE0\<close> prefix as a state of its own.
\<close>

primrec modifier_bit :: "key_modifiers_t \<Rightarrow> nat" where
  "modifier_bit left_shift = 0"
| "modifier_bit right_shift = 1"
| "modifier_bit left_alt = 2"
| "modifier_bit right_alt = 3"
| "modifier_bit left_ctrl = 4"
| "modifier_bit right_ctrl = 5"
| "modifier_bit left_gui = 6"
| "modifier_bit right_gui = 7"

definition held :: "'a keyboard_scheme \<Rightarrow> key_modifiers_t set" where
  "held s = {m. current_modifiers s AND modifier_value m \<noteq> 0}"

definition modifier_key :: "bool \<Rightarrow> u8 \<Rightarrow> key_modifiers_t option" where
  "modifier_key ext c = map_of
     [(0x1D, if ext then right_ctrl else left_ctrl), (0x38, if ext then right_alt else left_alt),
      (0x5B, left_gui), (0x5C, right_gui), (0x2A, left_shift), (0x36, right_shift)] c"

definition modifier_event :: "u8 \<Rightarrow> key_modifiers_t set \<times> bool \<Rightarrow> key_modifiers_t set \<times> bool" where
  "modifier_event b = (\<lambda>(M, ext).
     if b = 0xE0 then (M, True)
     else case modifier_key ext (take_bit 7 b) of
            None \<Rightarrow> (M, False)
          | Some m \<Rightarrow> (if b < 0x80 then insert m M else M - {m}, False))"

section \<open>Lemmas\<close>

lemma modifier_value_push: "modifier_value m = push_bit (modifier_bit m) 1"
  by (cases m) simp_all

lemma modifier_bit_less: "modifier_bit m < 8"
  by (cases m) simp_all

lemma modifier_bit_inj: "modifier_bit m = modifier_bit n \<longleftrightarrow> m = n"
  by (cases m; cases n) simp_all

lemma held_iff: "m \<in> held s \<longleftrightarrow> bit (current_modifiers s) (modifier_bit m)"
  by (simp add: held_def modifier_value_push bit_iff_and_push_bit_not_eq_0)

lemma held_update_modifiers:
  "held (update_modifiers m pressed s) = (if pressed then insert m (held s) else held s - {m})"
  using modifier_bit_less modifier_bit_inj
  by (auto simp: held_iff update_modifiers_def modifier_value_push bit_simps)

lemma update_modifiers_frame [simp]:
  "is_pressed (update_modifiers m p s) = is_pressed s" "extended_read (update_modifiers m p s) = extended_read s"
  by (simp_all add: update_modifiers_def)

lemma held_cong: "current_modifiers s = current_modifiers t \<Longrightarrow> held s = held t"
  by (simp add: held_def)

lemma held_translate_switch:
  "held (translate_switch c s) =
     (case modifier_key (extended_read s \<noteq> 0) c of
        None \<Rightarrow> held s
      | Some m \<Rightarrow> if is_pressed s \<noteq> 0 then insert m (held s) else held s - {m})"
  by (simp add: translate_switch_def modifier_key_def Let_def held_update_modifiers kconst)

lemma scancode_bits: fixes c :: u8
  shows "c AND KEY_RELEASE_MASK \<noteq> 0 \<longleftrightarrow> \<not> c < 0x80" "c AND NOT KEY_RELEASE_MASK = take_bit 7 c"
proof -
  have m: "KEY_RELEASE_MASK = push_bit 7 1" by (simp add: kconst)
  have "unat c < 2 ^ LENGTH(8)" by (rule unsigned_less)
  then have lt: "unat c < 256" by simp
  have "odd (unat c div 128) \<longleftrightarrow> 128 \<le> unat c"
  proof (cases "128 \<le> unat c")
    case True
    with lt have "unat c div 128 = 1" by (simp add: div_nat_eqI)
    with True show ?thesis by simp
  qed simp
  moreover have "bit c 7 \<longleftrightarrow> bit (unat c) 7" by (simp add: bit_unsigned_iff)
  ultimately have "bit c 7 \<longleftrightarrow> \<not> c < 0x80"
    by (simp add: word_less_nat_alt bit_iff_odd not_less)
  then show "c AND KEY_RELEASE_MASK \<noteq> 0 \<longleftrightarrow> \<not> c < 0x80"
    unfolding m by (simp add: bit_iff_and_push_bit_not_eq_0)
  show "c AND NOT KEY_RELEASE_MASK = take_bit 7 c"
  proof (rule bit_word_eqI)
    fix n assume "n < LENGTH(8)"
    then have "bit KEY_RELEASE_MASK n \<longleftrightarrow> n = 7"
      unfolding m bit_push_bit_iff bit_1_iff by auto
    with \<open>n < LENGTH(8)\<close> show "bit (c AND NOT KEY_RELEASE_MASK) n = bit (take_bit 7 c) n"
      by (auto simp: bit_and_iff bit_not_iff bit_take_bit_iff)
  qed
qed

lemma take_bit_7_low: "c < 0x80 \<Longrightarrow> take_bit 7 c = c" for c :: u8
  by (simp add: word_less_nat_alt take_bit_eq_mod word_unat_eq_iff unat_mod)

lemma modifier_key_low: "modifier_key ext c = Some m \<Longrightarrow> c < 0x60"
  by (auto simp: modifier_key_def split: if_splits)

lemma translate_modifier_event:
  "(held (snd (translate c s)), extended_read (snd (translate c s)) \<noteq> 0) =
     modifier_event c (held s, extended_read s \<noteq> 0)"
proof (cases "c = EXTENDED_PREFIX")
  case True
  then show ?thesis
    by (simp add: translate_def modifier_event_def held_def kconst)
next
  case False
  note k = take_bit_7_low[of c]
  have none: "modifier_key ext d = None" if "\<not> d < 0x60" for ext d
    using that modifier_key_low by (cases "modifier_key ext d") auto
  have c: "held (t\<lparr>extended_read := x\<rparr>) = held t" "held (t\<lparr>is_pressed := x\<rparr>) = held t" for t :: "'a keyboard_scheme" and x
    by (simp_all add: held_def)
  show ?thesis
    using False k none
    by (auto simp: translate_def modifier_event_def scancode_bits Let_def c held_translate_switch
        EXTENDED_PREFIX_def split: option.splits)
qed

text \<open>
  C27. The modifier byte refines the set of held modifier keys: over every sequence of bytes the keyboard
  sends, \<open>translate\<close> keeps in \<open>current_modifiers\<close> and \<open>extended_read\<close> the set and the prefix state that the
  specification \<open>modifier_event\<close> gives, prefixed right-hand keys, releases and all other keys included.
\<close>
theorem translate_refines_modifiers:
  "(held (fold (\<lambda>c. snd \<circ> translate c) cs s), extended_read (fold (\<lambda>c. snd \<circ> translate c) cs s) \<noteq> 0) =
     fold modifier_event cs (held s, extended_read s \<noteq> 0)"
proof (induction cs arbitrary: s)
  case (Cons c cs)
  then show ?case by (simp flip: translate_modifier_event)
qed simp

lemma length_keymaps [simp]: "length keymap = 84" "length shift_keymap = 84"
  by (simp_all add: keymap_def shift_keymap_def)

lemma get_char_Some_iff: "get_char c s \<noteq> None \<longleftrightarrow> c < 0x54"
  by (simp add: get_char_def Let_def word_less_nat_alt)

lemma inb_frame [simp]:
  "current_modifiers (snd (inb dev p s)) = current_modifiers s" "is_pressed (snd (inb dev p s)) = is_pressed s"
  "extended_read (snd (inb dev p s)) = extended_read s" "printf_mutex (snd (inb dev p s)) = printf_mutex s"
  by (simp_all add: inb_def io_read_def io_write_def Let_def)

lemma translate_result:
  "fst (translate c s) = (if c = 0xE0 then c else if take_bit 7 c < 0x60 then take_bit 7 c else 0)"
  "is_pressed (snd (translate c s)) = (if c = 0xE0 \<or> c < 0x80 then 1 else 0)"
proof -
  note k = take_bit_7_low[of c]
  have p: "is_pressed (translate_switch d t) = is_pressed t" for d and t :: "'a keyboard_scheme"
    by (simp add: translate_switch_def Let_def)
  show "fst (translate c s) = (if c = 0xE0 then c else if take_bit 7 c < 0x60 then take_bit 7 c else 0)"
    using k by (auto simp: translate_def scancode_bits Let_def EXTENDED_PREFIX_def)
  show "is_pressed (snd (translate c s)) = (if c = 0xE0 \<or> c < 0x80 then 1 else 0)"
    by (auto simp: translate_def scancode_bits Let_def EXTENDED_PREFIX_def p)
qed

lemma keyboard_handler_unfold:
  assumes c: "fst (inb dev KEYBOARD_PORT s) = c"
  shows "keyboard_handler dev status s =
      (let t = snd (translate c (snd (inb dev KEYBOARD_PORT s))) in
       if c = 0xE0 \<or> is_pressed t = 0 then Some (status, APIC_EOI t)
       else Option.bind (get_char (fst (translate c (snd (inb dev KEYBOARD_PORT s)))) t) (\<lambda>key.
           if key \<noteq> 0
           then Option.bind (printf dev (str_bytes ''%c'') [Num (scast key)] t) (\<lambda>s.
                Option.bind (flush_screen dev s) (\<lambda>s. Some (status, APIC_EOI s)))
           else Some (status, APIC_EOI t)))"
  unfolding keyboard_handler_def split_beta Let_def c EXTENDED_PREFIX_def by simp

text \<open>
  The keyboard interrupt on a byte that is the prefix or a release changes the modifier state only and
  acknowledges the interrupt; a pressed key whose code is past the end of the key maps (\<^verbatim>\<open>0x54\<close> to
  \<^verbatim>\<open>0x5F\<close>, which \<^verbatim>\<open>translate\<close> lets through: F11, F12, both GUI keys and SysRq) makes \<^verbatim>\<open>get_char\<close> read outside
  the array.
\<close>
theorem keyboard_handler_reads_past_keymap:
  assumes c: "fst (inb dev KEYBOARD_PORT s) = c"
  shows "(c = EXTENDED_PREFIX \<or> \<not> c < KEY_RELEASE_MASK \<longrightarrow>
           keyboard_handler dev status s = Some (status, APIC_EOI (snd (translate c (snd (inb dev KEYBOARD_PORT s)))))) \<and>
         (\<not> c < 0x54 \<longrightarrow> c < 0x60 \<longrightarrow> keyboard_handler dev status s = None)"
proof (intro conjI impI)
  let ?t = "snd (translate c (snd (inb dev KEYBOARD_PORT s)))"
  show "keyboard_handler dev status s = Some (status, APIC_EOI ?t)" if "c = EXTENDED_PREFIX \<or> \<not> c < KEY_RELEASE_MASK"
    using that by (auto simp: keyboard_handler_unfold[OF c] translate_result kconst)
  show "keyboard_handler dev status s = None" if "\<not> c < 0x54" "c < 0x60"
  proof -
    have "c < 0x80" "c \<noteq> 0xE0" using that(2) by (auto simp: word_less_nat_alt)
    moreover have "get_char c ?t = None" using that(1) get_char_Some_iff by blast
    ultimately show ?thesis using that by (simp add: keyboard_handler_unfold[OF c] translate_result take_bit_7_low)
  qed
qed

definition demo_keyboard :: keyboard where
  "demo_keyboard = console.extend demo_console \<lparr>current_modifiers = 0, is_pressed = 0, extended_read = 0\<rparr>"

theorem keyboard_handler_reads_past_keymap_witness:
  "keyboard_handler (\<lambda>_. 0x58) 0x5000 demo_keyboard = None \<and>
   keyboard_handler (\<lambda>_. 0xAA) 0x5000 demo_keyboard =
     Some (0x5000, APIC_EOI (snd (translate 0xAA (snd (inb (\<lambda>_. 0xAA) KEYBOARD_PORT demo_keyboard)))))"
proof
  show "keyboard_handler (\<lambda>_. 0x58) 0x5000 demo_keyboard = None"
    using keyboard_handler_reads_past_keymap[of "\<lambda>_. 0x58" demo_keyboard "0x58" "0x5000"]
    by (simp add: inb_def io_read_def)
  show "keyboard_handler (\<lambda>_. 0xAA) 0x5000 demo_keyboard =
     Some (0x5000, APIC_EOI (snd (translate 0xAA (snd (inb (\<lambda>_. 0xAA) KEYBOARD_PORT demo_keyboard)))))"
    using keyboard_handler_reads_past_keymap[of "\<lambda>_. 0xAA" demo_keyboard "0xAA" "0x5000"]
    by (simp add: inb_def io_read_def kconst)
qed

text \<open>
  The key maps agree with the enumeration of key codes on every letter: a letter's code finds the small
  letter in \<open>keymap\<close> and the capital one in \<open>shift_keymap\<close>. On the code named \<open>SLASH\<close> they disagree with it and with
  one another: it finds a backslash and, shifted, a question mark.
\<close>
theorem keymaps_match_key_codes:
  "(let letters = filter (\<lambda>(n, _). length n = 1) key_codes in
    length letters = 26 \<and>
    map (\<lambda>(_, c). keymap ! unat c) letters = map (\<lambda>(n, _). of_char (hd n) + 32) letters \<and>
    map (\<lambda>(_, c). shift_keymap ! unat c) letters = map (\<lambda>(n, _). of_char (hd n)) letters) \<and>
   map_option (\<lambda>c. (keymap ! unat c, shift_keymap ! unat c)) (map_of key_codes ''SLASH'') = Some (92, 63) \<and>
   map_option (\<lambda>c. (keymap ! unat c, shift_keymap ! unat c)) (map_of key_codes ''BACKSLASH'') = Some (47, 124)"
  by (simp add: key_codes_def keymap_def shift_keymap_def)

end
