(* ===== verification/Interrupts.thy ===== *)
theory Interrupts
  imports Keyboard Threads
begin

text \<open>
  What is left of \<^verbatim>\<open>src/kernel/cpu/lapic.c\<close> (initialisation, the timer, the interrupt handlers), the exception
  handler of \<^verbatim>\<open>isr.c\<close> and the start of the other processors, \<^verbatim>\<open>smp.c\<close> and \<^verbatim>\<open>ap.c\<close>.

  Interrupts that arrive while the kernel waits in a loop are an argument: a list of interrupts, one for each
  turn of the loop, handled in order. A wait that sees the end of the list waits for ever (\<open>None\<close>). Only
  interrupts that return to the interrupted code occur there; the periodic timer is off. What \<^verbatim>\<open>cpuid\<close>
  reports and the addresses of the interrupt stubs are arguments as well.
\<close>

section \<open>Definitions\<close>

definition APIC_PERIODIC_IDT_ENTRY :: u8 where [kconst]: "APIC_PERIODIC_IDT_ENTRY = 32"
definition APIC_ONESHOT_IDT_ENTRY :: u8 where [kconst]: "APIC_ONESHOT_IDT_ENTRY = 33"
definition PIT_IDT_ENTRY :: u8 where [kconst]: "PIT_IDT_ENTRY = 34"
definition APIC_SPURIOUS_IDT_ENTRY :: u8 where [kconst]: "APIC_SPURIOUS_IDT_ENTRY = 255"
definition APIC_GLOBAL_ENABLE_BIT :: u64 where [kconst]: "APIC_GLOBAL_ENABLE_BIT = 0x800"
definition ICR_INIT :: u64 where [kconst]: "ICR_INIT = 0x500"
definition ICR_ASSERT :: u64 where [kconst]: "ICR_ASSERT = 0x4000"
definition ICR_LEVEL :: u64 where [kconst]: "ICR_LEVEL = 0x8000"
definition ICR_STARTUP :: u64 where [kconst]: "ICR_STARTUP = 0x600"
definition APIC_TIMER_PERIODIC :: u32 where [kconst]: "APIC_TIMER_PERIODIC = 0x20000"
definition PIT_CHANNEL_0_DATA_PORT :: u16 where [kconst]: "PIT_CHANNEL_0_DATA_PORT = 0x40"
definition PIT_MODE_COMMAND_REGISTER :: u16 where [kconst]: "PIT_MODE_COMMAND_REGISTER = 0x43"
definition PIT_1_MS :: u16 where [kconst]: "PIT_1_MS = 1193"

subsection \<open>lapic.c: the interrupt handlers\<close>

definition apic_periodic_handler :: "device \<Rightarrow> u64 \<Rightarrow> 'a kernel_scheme \<Rightarrow> u64 \<times> 'a kernel_scheme" where
  "apic_periodic_handler dev status s =
     (let s = cpu_update (\<lambda>c. c\<lparr>c_ticks := c_ticks c + 1\<rparr>) s;
          (status, s) = schedule dev status s
      in (status, APIC_EOI s))"

definition apic_oneshot_handler :: "u64 \<Rightarrow> 'a kernel_scheme \<Rightarrow> u64 \<times> 'a kernel_scheme" where
  "apic_oneshot_handler status s = (status, APIC_EOI (cpu_update (\<lambda>c. c\<lparr>c_trig := True\<rparr>) s))"

definition pit_handler :: "u64 \<Rightarrow> 'a kernel_scheme \<Rightarrow> u64 \<times> 'a kernel_scheme" where
  "pit_handler status s = (status, APIC_EOI (s\<lparr>lapic_pit_ticks := lapic_pit_ticks s + 1\<rparr>))"

definition spurious_handler :: "u64 \<Rightarrow> 'a kernel_scheme \<Rightarrow> u64 \<times> 'a kernel_scheme" where
  "spurious_handler status s = (status, s)"

datatype irq = Irq_oneshot | Irq_pit | Irq_spurious

primrec handle_irq :: "irq \<Rightarrow> 'a kernel_scheme \<Rightarrow> 'a kernel_scheme" where
  "handle_irq Irq_oneshot s = snd (apic_oneshot_handler 0 s)"
| "handle_irq Irq_pit s = snd (pit_handler 0 s)"
| "handle_irq Irq_spurious s = snd (spurious_handler 0 s)"

fun wait_until :: "('a kernel_scheme \<Rightarrow> bool) \<Rightarrow> irq list \<Rightarrow> 'a kernel_scheme \<Rightarrow> (irq list \<times> 'a kernel_scheme) option" where
  "wait_until done irqs s =
     (if done s then Some (irqs, s)
      else case irqs of [] \<Rightarrow> None | i # is \<Rightarrow> wait_until done is (handle_irq i s))"

declare wait_until.simps [simp del]

subsection \<open>lapic.c: initialisation and the timer\<close>

definition lapic_name :: "'a kernel_scheme \<Rightarrow> va_arg" where
  "lapic_name s = Lit (str_bytes (if lapic_x2mode s then ''x2'' else ''x''))"

definition warn_disabled :: "device \<Rightarrow> u64 \<Rightarrow> 'a console_scheme \<Rightarrow> 'a console_scheme option" where
  "warn_disabled dev msr s =
     (if msr AND APIC_GLOBAL_ENABLE_BIT = 0
      then log_msg dev Warning (str_bytes ''LAPIC'') (str_bytes ''APIC is disabled globally'') [] s else Some s)"

definition set_spurious :: "'a kernel_scheme \<Rightarrow> 'a kernel_scheme" where
  "set_spurious s = write_apic_register APIC_SPURIOUS_VEC_OFF (APIC_SOFTWARE_ENABLE OR ucast APIC_SPURIOUS_IDT_ENTRY) s"

definition init_lapic_tail ::
  "device \<Rightarrow> (u8 \<Rightarrow> u64) \<Rightarrow> u64 \<Rightarrow> 'a console_scheme \<Rightarrow> 'a console_scheme option" where
  "init_lapic_tail dev stubs msr s =
     (let s = set_spurious (wrmsr IA32_APIC_BASE msr s);
          s = pmm_set_bit (lapic_addr s) s;
          s = disable_pic s
      in Option.bind (log_msg dev Verbose (str_bytes ''LAPIC'') (str_bytes ''Disabled PIC'') [] s) (\<lambda>s.
         Option.bind (log_msg dev Verbose (str_bytes ''LAPIC'') (str_bytes ''Disabled 8259 PIC'') [] s) (\<lambda>s.
         let s = IDT_SET_INT (ucast APIC_PERIODIC_IDT_ENTRY) 3 (stubs APIC_PERIODIC_IDT_ENTRY) s;
             s = IDT_SET_INT (ucast APIC_ONESHOT_IDT_ENTRY) 0 (stubs APIC_ONESHOT_IDT_ENTRY) s;
             s = IDT_SET_INT (ucast PIT_IDT_ENTRY) 0 (stubs PIT_IDT_ENTRY) s;
             s = IDT_SET_INT (ucast APIC_SPURIOUS_IDT_ENTRY) 0 (stubs APIC_SPURIOUS_IDT_ENTRY) s;
             (apic_id, s) = get_apic_id dev s;
             s = s\<lparr>k_CPU := ucast apic_id\<rparr>
         in log_msg dev Info (str_bytes ''LAPIC'') (str_bytes ''Initialized %sAPIC'') [lapic_name s] s)))"

definition init_lapic ::
  "device \<Rightarrow> u32 \<Rightarrow> u32 \<Rightarrow> (u8 \<Rightarrow> u64) \<Rightarrow> 'a console_scheme \<Rightarrow> 'a console_scheme option" where
  "init_lapic dev x2ApicLeaf xApicLeaf stubs s =
     (let (msr, s) = rdmsr dev IA32_APIC_BASE s in
      Option.bind (warn_disabled dev msr s) (\<lambda>s.
      if x2ApicLeaf AND push_bit 21 1 \<noteq> 0
      then init_lapic_tail dev stubs (msr OR push_bit 10 1) (s\<lparr>lapic_x2mode := True\<rparr>)
      else if xApicLeaf AND push_bit 9 1 \<noteq> 0
      then Option.bind (map_lapic (km_pml4 s) (s\<lparr>lapic_x2mode := False\<rparr>)) (init_lapic_tail dev stubs msr)
      else log_msg dev Error (str_bytes ''LAPIC'') (str_bytes ''No LAPIC is supported by this CPU'') [] s))"

definition init_lapic_ap :: "device \<Rightarrow> 'a console_scheme \<Rightarrow> 'a console_scheme option" where
  "init_lapic_ap dev s =
     (let (msr, s) = rdmsr dev IA32_APIC_BASE s in
      Option.bind (warn_disabled dev msr s) (\<lambda>s.
      let msr = (if lapic_x2mode s then msr OR push_bit 10 1 else msr);
          s = set_spurious (wrmsr IA32_APIC_BASE msr s);
          (apic_id, s) = get_apic_id dev s;
          s = s\<lparr>k_CPU := ucast apic_id\<rparr>
      in log_msg dev Info (str_bytes ''LAPIC'') (str_bytes ''Initialized %sAPIC'') [lapic_name s] s))"

definition delay :: "u64 \<Rightarrow> irq list \<Rightarrow> 'a kernel_scheme \<Rightarrow> (irq list \<times> 'a kernel_scheme) option" where
  "delay num_ticks irqs s =
     (let s = start_apic_timer 0 num_ticks APIC_ONESHOT_IDT_ENTRY s in
      map_option (\<lambda>(irqs, s). (irqs, cpu_update (\<lambda>c. c\<lparr>c_trig := False\<rparr>) s))
        (wait_until (\<lambda>s. c_trig (this_cpu s)) irqs s))"

text \<open>\<open>calibrate_apic_timer\<close> up to its two log calls, and with them.\<close>

definition measure_apic_timer :: "device \<Rightarrow> irq list \<Rightarrow> 'a kernel_scheme \<Rightarrow> (irq list \<times> 'a kernel_scheme) option" where
  "measure_apic_timer dev irqs s =
     (let s = set_irq 0 PIT_IDT_ENTRY 0 0 True s;
          s = outb PIT_MODE_COMMAND_REGISTER 0b00110100 s;
          counter = PIT_1_MS;
          s = outb PIT_CHANNEL_0_DATA_PORT (ucast (counter AND 0xFF)) s;
          s = outb PIT_CHANNEL_0_DATA_PORT (ucast (drop_bit 8 counter AND 0xFF)) s;
          s = write_apic_register APIC_TIMER_INITIAL_COUNT_OFF 0 s;
          s = write_apic_register APIC_TIMER_CONFIG_OFF APIC_TIMER_DIVIDER s;
          s = s\<lparr>lapic_pit_ticks := 0\<rparr>;
          s = set_irq_mask dev 0 False s;
          s = write_apic_register APIC_TIMER_INITIAL_COUNT_OFF 0xFFFFFFFF s
      in Option.bind (wait_until (\<lambda>s. \<not> lapic_pit_ticks s < 500) irqs s) (\<lambda>(irqs, s).
        let (v, s) = read_apic_register dev APIC_TIMER_CURRENT_COUNT_OFF s;
            current_apic_count = (ucast v :: u32);
            s = write_apic_register APIC_TIMER_INITIAL_COUNT_OFF 0 s;
            s = set_irq_mask dev 0 True s;
            s = s\<lparr>lapic_pit_ticks := 0\<rparr>;
            time_elapsed = 0xFFFFFFFF - current_apic_count
        in Some (irqs, s\<lparr>lapic_ms_interval := ucast (time_elapsed div 500)\<rparr>)))"

definition calibrate_apic_timer :: "device \<Rightarrow> irq list \<Rightarrow> 'a console_scheme \<Rightarrow> (irq list \<times> 'a console_scheme) option" where
  "calibrate_apic_timer dev irqs s =
     Option.bind (measure_apic_timer dev irqs s) (\<lambda>(irqs, s).
     Option.bind (log_msg dev Verbose (str_bytes ''LAPIC'') (str_bytes ''Measured %u ticks per ms, %u ticks per us'')
       [Num (lapic_ms_interval s), Num ((lapic_ms_interval s + 500) div 1000)] s) (\<lambda>s.
     map_option (Pair irqs) (log_msg dev Info (str_bytes ''LAPIC'') (str_bytes ''Calibrated APIC timer'') [] s)))"

subsection \<open>isr.c\<close>

definition log_registers :: "device \<Rightarrow> u64 \<Rightarrow> 'a console_scheme \<Rightarrow> 'a console_scheme option" where
  "log_registers dev status s =
     (let r = k_efs s status; say = (\<lambda>fmt args. log_msg dev Verbose (str_bytes ''ISR'') (str_bytes fmt) (map Num args)) in
      Option.bind (say ''ss: %x, rsp: %x, rflags: %x, cs: %x'' [cs_ss r, cs_rsp r, cs_rflags r, cs_cs r] s) (\<lambda>s.
      Option.bind (say ''rip: %x, rax: %x, rbx: %x, rcx: %x'' [cs_rip r, cs_rax r, cs_rbx r, cs_rcx r] s) (\<lambda>s.
      Option.bind (say ''rdx: %x, rbp: %x, rsi: %x, rdi: %x'' [cs_rdx r, cs_rbp r, cs_rsi r, cs_rdi r] s) (\<lambda>s.
      Option.bind (say ''r8: %x, r9: %x, r10: %x, r11: %x'' [cs_r8 r, cs_r9 r, cs_r10 r, cs_r11 r] s) (\<lambda>s.
      say ''r12: %x, r13: %x, r14: %x, r15: %x'' [cs_r12 r, cs_r13 r, cs_r14 r, cs_r15 r] s)))))"

text \<open>Both branches end in \<^verbatim>\<open>hcf\<close>: the result is the state in which the processor halts. \<open>cr2\<close> is the register.\<close>

definition exception_handler :: "device \<Rightarrow> u64 \<Rightarrow> u64 \<Rightarrow> 'a console_scheme \<Rightarrow> 'a console_scheme option" where
  "exception_handler dev cr2 status s =
     (let r = k_efs s status in
      if cs_int_no r = 14
      then Option.bind (log_msg dev Error (str_bytes ''ISR'') (str_bytes ''Received interrupt number 14'') [] s) (\<lambda>s.
           Option.bind (log_msg dev Verbose (str_bytes ''ISR'') (str_bytes ''Error code: %b'') [Num (cs_err_code r)] s) (\<lambda>s.
           Option.bind (log_msg dev Verbose (str_bytes ''ISR'') (str_bytes ''cr2: %x'') [Num cr2] s) (\<lambda>s.
           log_registers dev status s)))
      else Option.bind (log_msg dev Error (str_bytes ''ISR'') (str_bytes ''Received interrupt number %u'') [Num (cs_int_no r)] s) (\<lambda>s.
           log_registers dev status s))"

subsection \<open>smp.c\<close>

record ap_info_t =
  ap_pml4 :: u64
  ap_stack_top :: u32
  ap_gdtr :: u64
  ap_idtr :: u64
  ap_ready :: u8

record smp = console +
  ap_boot :: ap_info_t

definition ipi_handler :: "device \<Rightarrow> u64 \<Rightarrow> 'a console_scheme \<Rightarrow> (u64 \<times> 'a console_scheme) option" where
  "ipi_handler dev status s =
     Option.bind (if ipc_action s = 1 then Some (load_cr3 (PADDR (ipc_addr s)) s)
       else if ipc_action s = 3 then log_msg dev Verbose (str_bytes ''SMP'') (str_bytes ''Test'') [] s
       else Some s) (\<lambda>s. Some (status, APIC_EOI s))"

definition send_startup :: "u64 \<Rightarrow> u8 \<Rightarrow> irq list \<times> 'a kernel_scheme \<Rightarrow> (irq list \<times> 'a kernel_scheme) option" where
  "send_startup ident trampoline_page = (\<lambda>(irqs, s).
     let s = write_apic_register APIC_ICRLO_OFF (push_bit 32 ident OR ucast trampoline_page OR ICR_STARTUP) s
     in delay (lapic_ms_interval s * 200 div 1000) irqs s)"

definition start_ap :: "u64 \<Rightarrow> u8 \<Rightarrow> irq list \<Rightarrow> 'a kernel_scheme \<Rightarrow> (irq list \<times> 'a kernel_scheme) option" where
  "start_ap ident trampoline_page irqs s =
     (let s = write_apic_register APIC_ICRLO_OFF (push_bit 32 ident OR ICR_INIT OR ICR_ASSERT OR ICR_LEVEL) s;
          s = write_apic_register APIC_ICRLO_OFF (push_bit 32 ident OR ICR_INIT OR ICR_LEVEL) s
      in for_opt 2 (\<lambda>_. send_startup ident trampoline_page) (irqs, s))"

definition set_ap_ready :: "'a smp_scheme \<Rightarrow> 'a smp_scheme" where
  "set_ap_ready s = s\<lparr>ap_boot := (ap_boot s)\<lparr>ap_ready := 1\<rparr>\<rparr>"

text \<open>
  The wait for processor \<open>ident\<close>: \<open>signals ident\<close> says whether the started processor reaches \<open>set_ap_ready\<close>. The data
  words of the trampoline are zero, which is what the copy leaves in \<open>ap_boot\<close>.
\<close>

definition wait_ready :: "(nat \<Rightarrow> bool) \<Rightarrow> nat \<Rightarrow> 'a smp_scheme \<Rightarrow> 'a smp_scheme option" where
  "wait_ready signals ident s =
     (let s = (if signals ident then set_ap_ready s else s) in if ap_ready (ap_boot s) \<noteq> 0 then Some s else None)"

definition start_one :: "(nat \<Rightarrow> bool) \<Rightarrow> nat \<Rightarrow> irq list \<times> 'a smp_scheme \<Rightarrow> (irq list \<times> 'a smp_scheme) option" where
  "start_one signals ident = (\<lambda>(irqs, s).
     if ident = unat (k_CPU s) then Some (irqs, s)
     else Option.bind (alloc_frame s) (\<lambda>(frame, s).
       let s = s\<lparr>ap_boot := (ap_boot s)\<lparr>ap_stack_top := ucast (frame + PAGE_SIZE)\<rparr>\<rparr>;
           stack = ucast (ap_stack_top (ap_boot s) - 0x1000) :: u64;
           s = s\<lparr>smp_cpus := (smp_cpus s)(ident := (smp_cpus s ident)\<lparr>c_stack := stack\<rparr>)\<rparr>
       in Option.bind (map_addr stack (VADDR stack) KERNEL_PT_ENTRY (vm_p4_tbl (t_vmm (k_threads s (smp_idle s)))) s) (\<lambda>s.
          Option.bind (map_addr stack stack KERNEL_PT_ENTRY (km_pml4 s) s) (\<lambda>s.
          Option.bind (start_ap (of_nat ident) 8 irqs s) (\<lambda>(irqs, s).
          map_option (\<lambda>s. (irqs, pmm_clear_bit stack s)) (wait_ready signals ident s))))))"

definition start_aps :: "device \<Rightarrow> (nat \<Rightarrow> bool) \<Rightarrow> u64 \<Rightarrow> u64 \<Rightarrow> u64 \<Rightarrow> irq list \<Rightarrow> 'a smp_scheme \<Rightarrow> (irq list \<times> 'a smp_scheme) option" where
  "start_aps dev signals ap_trampoline gdtr idtr irqs s =
     Option.bind (map_addr 0x8000 0x8000 KERNEL_PT_ENTRY (km_pml4 s) s) (\<lambda>s.
     let s = s\<lparr>vm_bytes := memcpy 0x8000 ap_trampoline PAGE_SIZE (vm_bytes s)\<rparr>;
         s = s\<lparr>ap_boot := \<lparr>ap_pml4 = PADDR (km_pml4 s), ap_stack_top = 0, ap_gdtr = gdtr, ap_idtr = idtr, ap_ready = 0\<rparr>\<rparr>
     in Option.bind (log_msg dev Verbose (str_bytes ''SMP'') (str_bytes ''%u'') [Num (ucast (k_CPU s))] s) (\<lambda>s.
        map_option (\<lambda>(irqs, s). (irqs, pmm_clear_bit 0x8000 s))
          (for_opt (unat (smp_num_cpus s)) (start_one signals) (irqs, s))))"

subsection \<open>ap.c\<close>

text \<open>The result is the state in which the processor enters its endless loop; \<open>rsp\<close> is its stack pointer.\<close>

definition ap_kernel :: "device \<Rightarrow> u64 \<Rightarrow> 'a console_scheme \<Rightarrow> 'a console_scheme option" where
  "ap_kernel dev rsp s =
     Option.bind (init_lapic_ap dev s) (\<lambda>s.
     Option.bind (init_tss s) (\<lambda>s.
     let s = set_rsp0 rsp s
     in Some (start_apic_timer APIC_TIMER_PERIODIC (lapic_ms_interval s * 50) APIC_PERIODIC_IDT_ENTRY s)))"

section \<open>Waiting for interrupts\<close>

lemma wait_until_Nil: "wait_until d [] s = (if d s then Some ([], s) else None)"
  by (subst wait_until.simps) simp

lemma wait_until_Cons: "wait_until d (i # is) s = (if d s then Some (i # is, s) else wait_until d is (handle_irq i s))"
  by (subst wait_until.simps) simp

lemma wait_until_takes:
  assumes "\<And>n. n < k \<Longrightarrow> \<not> d (fold handle_irq (take n irqs) s)" "d (fold handle_irq (take k irqs) s)" "k \<le> length irqs"
  shows "wait_until d irqs s = Some (drop k irqs, fold handle_irq (take k irqs) s)"
  using assms
proof (induction k arbitrary: irqs s)
  case 0
  then show ?case by (cases irqs) (simp_all add: wait_until_Nil wait_until_Cons)
next
  case (Suc k)
  obtain i "is" where irqs: "irqs = i # is" using Suc.prems(3) by (cases irqs) auto
  have "\<not> d s" using Suc.prems(1)[of 0] by simp
  moreover have "\<not> d (fold handle_irq (take n is) (handle_irq i s))" if "n < k" for n
    using Suc.prems(1)[of "Suc n"] that by (simp add: irqs)
  ultimately show ?case
    using Suc.IH[of "is" "handle_irq i s"] Suc.prems by (simp add: irqs wait_until_Cons)
qed

lemma eoi_frame [simp]:
  "lapic_pit_ticks (APIC_EOI s) = lapic_pit_ticks s" "smp_cpus (APIC_EOI s) = smp_cpus s" "k_CPU (APIC_EOI s) = k_CPU s"
  "lapic_x2mode (APIC_EOI s) = lapic_x2mode s" "lapic_addr (APIC_EOI s) = lapic_addr s"
  by (simp_all add: APIC_EOI_def write_apic_register_def wrmsr_def mmio_write_def io_write_def)

lemma handle_irq_frame:
  "lapic_pit_ticks (handle_irq i s) = lapic_pit_ticks s + (if i = Irq_pit then 1 else 0)"
  "c_trig (this_cpu (handle_irq i s)) = (c_trig (this_cpu s) \<or> i = Irq_oneshot)"
  by (cases i; simp add: apic_oneshot_handler_def pit_handler_def spurious_handler_def this_cpu_def cpu_update_def)+

lemma handle_irqs_pit:
  "lapic_pit_ticks (fold handle_irq irqs s) = lapic_pit_ticks s + of_nat (length (filter ((=) Irq_pit) irqs))"
  by (induction irqs arbitrary: s) (simp_all add: handle_irq_frame)

lemma handle_irqs_trig: "c_trig (this_cpu (fold handle_irq irqs s)) = (c_trig (this_cpu s) \<or> Irq_oneshot \<in> set irqs)"
  by (induction irqs arbitrary: s) (auto simp: handle_irq_frame)

lemma delay_eq:
  assumes "\<not> c_trig (this_cpu s)"
  shows "delay n irqs s =
    (if Irq_oneshot \<in> set irqs
     then let k = Suc (length (takeWhile (\<lambda>i. i \<noteq> Irq_oneshot) irqs)) in
       Some (drop k irqs, cpu_update (\<lambda>c. c\<lparr>c_trig := False\<rparr>)
         (fold handle_irq (take k irqs) (start_apic_timer 0 n APIC_ONESHOT_IDT_ENTRY s)))
     else None)"
proof -
  let ?t = "start_apic_timer 0 n APIC_ONESHOT_IDT_ENTRY s"
  let ?k = "length (takeWhile (\<lambda>i. i \<noteq> Irq_oneshot) irqs)"
  have t: "c_trig (this_cpu ?t) = c_trig (this_cpu s)"
    by (simp add: start_apic_timer_def Let_def write_apic_register_def wrmsr_def mmio_write_def io_write_def this_cpu_def)
  show ?thesis
  proof (cases "Irq_oneshot \<in> set irqs")
    case True
    then have len: "?k < length irqs" by (induction irqs) auto
    have "Irq_oneshot \<notin> set (take m irqs)" if "m \<le> ?k" for m
    proof -
      have "set (take m irqs) \<subseteq> set (take ?k irqs)" by (rule set_take_subset_set_take[OF that])
      also have "take ?k irqs = takeWhile (\<lambda>i. i \<noteq> Irq_oneshot) irqs" by (rule takeWhile_eq_take[symmetric])
      finally show ?thesis by (auto dest: set_takeWhileD)
    qed
    moreover have "irqs ! ?k = Irq_oneshot" using len nth_length_takeWhile[of _ irqs] by blast
    then have "Irq_oneshot \<in> set (take (Suc ?k) irqs)" using len by (simp add: take_Suc_conv_app_nth)
    ultimately have "wait_until (\<lambda>s. c_trig (this_cpu s)) irqs ?t = Some (drop (Suc ?k) irqs, fold handle_irq (take (Suc ?k) irqs) ?t)"
      using len assms t by (intro wait_until_takes) (auto simp: handle_irqs_trig)
    then show ?thesis using True by (simp add: delay_def)
  next
    case False
    have "wait_until (\<lambda>s. c_trig (this_cpu s)) is u = None" if "Irq_oneshot \<notin> set is" "\<not> c_trig (this_cpu u)" for "is" and u :: "'a kernel_scheme"
      using that by (induction "is" arbitrary: u) (auto simp: wait_until_Nil wait_until_Cons handle_irq_frame)
    then show ?thesis using False assms t by (simp add: delay_def)
  qed
qed

lemma delay_oneshot:
  fixes s :: "'a kernel_scheme"
  assumes "\<not> c_trig (this_cpu s)" and pre: "Irq_oneshot \<notin> set pre"
  shows "\<exists>s'. delay n (pre @ Irq_oneshot # post) s = Some (post, s') \<and> \<not> c_trig (this_cpu s') \<and>
        lapic_pit_ticks s' = lapic_pit_ticks s + of_nat (length (filter ((=) Irq_pit) pre))"
proof -
  have "takeWhile (\<lambda>i. i \<noteq> Irq_oneshot) (pre @ Irq_oneshot # post) = pre"
    using pre by (induction pre) auto
  then have call: "delay n (pre @ Irq_oneshot # post) s = Some (post, cpu_update (\<lambda>c. c\<lparr>c_trig := False\<rparr>)
      (fold handle_irq (pre @ [Irq_oneshot]) (start_apic_timer 0 n APIC_ONESHOT_IDT_ENTRY s)))"
    by (simp add: delay_eq[OF assms(1)])
  have p: "lapic_pit_ticks (start_apic_timer 0 n APIC_ONESHOT_IDT_ENTRY s) = lapic_pit_ticks s"
    by (simp add: start_apic_timer_def Let_def write_apic_register_def wrmsr_def mmio_write_def io_write_def)
  have "lapic_pit_ticks (cpu_update f t) = lapic_pit_ticks t" "c_trig (this_cpu (cpu_update (\<lambda>c. c\<lparr>c_trig := False\<rparr>) t)) = False"
    for f and t :: "'a kernel_scheme"
    by (simp_all add: cpu_update_def this_cpu_def)
  then show ?thesis
    using call p handle_irqs_pit[of "pre @ [Irq_oneshot]" "start_apic_timer 0 n APIC_ONESHOT_IDT_ENTRY s"] by (simp del: fold_append)
qed

section \<open>Properties\<close>

text \<open>
  C35. The one-shot delay returns exactly when the timer interrupt arrives: the interrupts before it are handled,
  those after it are left, and the flag is clear again for the next delay. Without it the wait never ends.
\<close>
theorem delay_returns_on_oneshot:
  fixes s :: "'a kernel_scheme"
  assumes "\<not> c_trig (this_cpu s)"
  shows "(Irq_oneshot \<notin> set (pre @ post) \<longrightarrow> delay n (pre @ post) s = None) \<and>
    (Irq_oneshot \<notin> set pre \<longrightarrow>
      (\<exists>s'. delay n (pre @ Irq_oneshot # post) s = Some (post, s') \<and> \<not> c_trig (this_cpu s') \<and>
        lapic_pit_ticks s' = lapic_pit_ticks s + of_nat (length (filter ((=) Irq_pit) pre))))"
  using delay_oneshot[OF assms] by (auto simp: delay_eq[OF assms])

theorem delay_returns_on_oneshot_witness:
  "\<exists>s'. delay 100 [Irq_pit, Irq_oneshot, Irq_spurious] demo_kernel = Some ([Irq_spurious], s') \<and> \<not> c_trig (this_cpu s')"
proof -
  have "\<not> c_trig (this_cpu demo_kernel)" by (simp add: this_cpu_def demo_cpu_def)
  from delay_returns_on_oneshot[OF this, of "[Irq_pit]" "[Irq_spurious]" 100] show ?thesis by auto
qed

text \<open>Commands to other processors: between \<open>s\<close> and \<open>t\<close> the only ones sent in x2APIC mode went to \<open>ident\<close>.\<close>

definition ipis_to :: "u64 \<Rightarrow> 'a kernel_scheme \<Rightarrow> 'a kernel_scheme \<Rightarrow> bool" where
  "ipis_to ident s t \<longleftrightarrow> lapic_x2mode t = lapic_x2mode s \<and>
     (\<forall>v. Wrmsr 0x830 v \<in> set (k_io t) \<longrightarrow> Wrmsr 0x830 v \<in> set (k_io s) \<or> drop_bit 32 v = ident)"

lemma ipis_to_refl: "ipis_to ident s s"
  by (simp add: ipis_to_def)

lemma ipis_to_trans: "ipis_to ident s t \<Longrightarrow> ipis_to ident t u \<Longrightarrow> ipis_to ident s u"
  by (auto simp: ipis_to_def)

lemma ipis_to_write:
  assumes "drop_bit 4 r + 0x800 = 0x830 \<Longrightarrow> drop_bit 32 v = ident"
  shows "ipis_to ident s (write_apic_register r v s)"
  using assms by (auto simp: ipis_to_def write_apic_register_def wrmsr_def mmio_write_def io_write_def)

lemma ipis_to_cpu: "ipis_to ident s (cpu_update f s)"
  by (simp add: ipis_to_def cpu_update_def)

lemma ipis_to_handle: "ipis_to ident s (handle_irq i s)"
proof -
  have e: "ipis_to ident t (APIC_EOI t)" for t :: "'a kernel_scheme"
    unfolding APIC_EOI_def by (rule ipis_to_write) (simp add: kconst)
  have "ipis_to ident s (s\<lparr>lapic_pit_ticks := x\<rparr>)" for x by (simp add: ipis_to_def)
  then show ?thesis
    by (cases i) (auto simp: apic_oneshot_handler_def pit_handler_def spurious_handler_def
        intro: ipis_to_refl ipis_to_trans[OF _ e] ipis_to_cpu)
qed

lemma ipis_to_timer: "ipis_to ident s (start_apic_timer m n e s)"
  unfolding start_apic_timer_def Let_def
  by (intro ipis_to_trans[OF ipis_to_trans[OF ipis_to_write ipis_to_write] ipis_to_write]) (simp_all add: kconst)

lemma ipis_to_wait: "wait_until d irqs s = Some (irqs', t) \<Longrightarrow> ipis_to ident s t"
proof (induction irqs arbitrary: s)
  case Nil
  then show ?case by (auto simp: wait_until_Nil ipis_to_refl split: if_splits)
next
  case (Cons i irqs)
  from Cons.prems show ?case
    by (auto simp: wait_until_Cons ipis_to_refl split: if_splits intro: ipis_to_trans[OF ipis_to_handle Cons.IH])
qed

lemma ipis_to_delay: "delay n irqs s = Some (irqs', t) \<Longrightarrow> ipis_to ident s t"
  unfolding delay_def Let_def
  by (auto intro: ipis_to_trans[OF ipis_to_timer] ipis_to_trans[OF _ ipis_to_cpu] dest!: ipis_to_wait)

lemma icr_destination:
  fixes ident c :: u64
  assumes "ident < 2 ^ 32" "drop_bit 32 c = 0"
  shows "drop_bit 32 (push_bit 32 ident OR c) = ident"
proof -
  have low: "take_bit 32 ident = ident"
    using assms(1) by (simp add: word_less_nat_alt take_bit_eq_mod word_unat_eq_iff unat_mod)
  have "drop_bit 32 (push_bit 32 ident) = take_bit 32 ident"
    by (rule bit_word_eqI) (auto simp: bit_simps)
  then show ?thesis by (simp add: drop_bit_or assms(2) low)
qed

lemma send_ipi:
  assumes "ident < 2 ^ 32" "drop_bit 32 c = 0"
  shows "ipis_to ident s (write_apic_register APIC_ICRLO_OFF (push_bit 32 ident OR c) s)"
  by (rule ipis_to_write) (rule icr_destination[OF assms])

lemma for_opt_2: "for_opt 2 (\<lambda>_. f) x = Option.bind (f x) f"
  by (simp add: for_opt_numeral)

lemma send_startup_ipis:
  assumes "send_startup ident trampoline_page (irqs, s) = Some (irqs', t)" "ident < 2 ^ 32"
  shows "ipis_to ident s t"
proof -
  have "drop_bit 32 (ucast trampoline_page :: u64) = 0"
    using bit_imp_le_length[of trampoline_page] by (intro bit_word_eqI) (fastforce simp: bit_simps)
  then have "drop_bit 32 (ucast trampoline_page OR ICR_STARTUP) = 0" by (simp add: drop_bit_or kconst)
  note w = send_ipi[OF assms(2) this]
  from assms(1) show ?thesis
    unfolding send_startup_def Let_def or.assoc prod.case by (rule ipis_to_trans[OF w ipis_to_delay])
qed

lemma start_ap_ipis:
  assumes "start_ap ident trampoline_page irqs s = Some (irqs', t)" "ident < 2 ^ 32"
  shows "ipis_to ident s t"
proof -
  let ?w = "\<lambda>c u. write_apic_register APIC_ICRLO_OFF (push_bit 32 ident OR c) u"
  let ?s = "?w (ICR_INIT OR ICR_LEVEL) (?w (ICR_INIT OR (ICR_ASSERT OR ICR_LEVEL)) s)"
  have i: "ipis_to ident s ?s"
    by (rule ipis_to_trans[OF send_ipi[OF assms(2)] send_ipi[OF assms(2)]]) (simp_all add: kconst)
  obtain i1 s1 where "send_startup ident trampoline_page (irqs, ?s) = Some (i1, s1)"
      "send_startup ident trampoline_page (i1, s1) = Some (irqs', t)"
    using assms(1) unfolding start_ap_def Let_def or.assoc for_opt_2 by (auto simp: bind_eq_Some_conv)
  then show ?thesis
    using ipis_to_trans[OF i ipis_to_trans[OF send_startup_ipis[OF _ assms(2)] send_startup_ipis[OF _ assms(2)]]] by blast
qed

lemma write_xapic:
  assumes "\<not> lapic_x2mode s"
  shows "write_apic_register r (push_bit 32 ident OR c) s = write_apic_register r c s"
proof -
  have "(ucast (push_bit 32 ident OR c) :: u32) = ucast c" by (rule bit_word_eqI) (simp add: bit_simps)
  then show ?thesis using assms by (simp add: write_apic_register_def)
qed

lemma write_x2mode: "lapic_x2mode (write_apic_register r v s) = lapic_x2mode s"
  by (simp add: write_apic_register_def wrmsr_def mmio_write_def io_write_def)

lemma send_startup_xapic:
  assumes "\<not> lapic_x2mode s"
  shows "send_startup ident p (irqs, s) = send_startup ident' p (irqs, s)"
  by (simp add: send_startup_def or.assoc write_xapic[OF assms])

lemma start_ap_xapic:
  fixes s :: "'a kernel_scheme"
  assumes "\<not> lapic_x2mode s"
  shows "start_ap ident p irqs s = start_ap ident' p irqs s"
proof -
  define u where "u = write_apic_register APIC_ICRLO_OFF (ICR_INIT OR ICR_LEVEL)
    (write_apic_register APIC_ICRLO_OFF (ICR_INIT OR (ICR_ASSERT OR ICR_LEVEL)) s)"
  have x: "\<not> lapic_x2mode u" using assms by (simp add: u_def write_x2mode)
  have eq: "start_ap i p irqs s = Option.bind (send_startup i p (irqs, u)) (send_startup i p)" for i
    using assms by (simp add: start_ap_def or.assoc for_opt_2 write_xapic write_x2mode u_def)
  have "send_startup ident p (irqs, u) = send_startup ident' p (irqs, u)" by (rule send_startup_xapic[OF x])
  moreover have "send_startup ident p (is, v) = send_startup ident' p (is, v)" if "send_startup ident p (irqs, u) = Some (is, v)" for "is" v
  proof -
    have "send_startup 0 p (irqs, u) = Some (is, v)" using that send_startup_xapic[OF x, of 0 p irqs ident] by simp
    then have "ipis_to 0 u v" by (rule send_startup_ipis) simp
    then show ?thesis using x by (intro send_startup_xapic) (simp add: ipis_to_def)
  qed
  ultimately have "Option.bind (send_startup ident p (irqs, u)) (send_startup ident p) =
      Option.bind (send_startup ident' p (irqs, u)) (send_startup ident' p)"
    by (cases "send_startup ident p (irqs, u)") (auto simp del: split_paired_All, metis bind.bind_lunit)
  then show ?thesis unfolding eq .
qed

text \<open>
  The start-up commands for another processor. In x2APIC mode every command that \<open>start_ap\<close> sends carries the
  identifier of the processor; in xAPIC mode the command register is 32 bits wide, the identifier is shifted out of
  it and the upper half is never written, so every processor is started with the same commands.
\<close>
theorem start_ap_destination:
  fixes s :: "'a kernel_scheme"
  assumes "start_ap ident trampoline_page irqs s = Some (irqs', t)" "ident < 2 ^ 32"
  shows "if lapic_x2mode s
    then \<forall>v. Wrmsr 0x830 v \<in> set (k_io t) \<longrightarrow> Wrmsr 0x830 v \<in> set (k_io s) \<or> drop_bit 32 v = ident
    else start_ap ident' trampoline_page irqs s = start_ap ident trampoline_page irqs s"
  using start_ap_ipis[OF assms] start_ap_xapic[of s ident' trampoline_page irqs ident] by (simp add: ipis_to_def)

theorem start_ap_destination_witness:
  "(\<exists>irqs' t. start_ap 1 8 [Irq_oneshot, Irq_oneshot] demo_kernel = Some (irqs', t)) \<and>
   start_ap 5 8 [Irq_oneshot, Irq_oneshot] demo_kernel = start_ap 1 8 [Irq_oneshot, Irq_oneshot] demo_kernel"
proof -
  have trig: "\<not> c_trig (this_cpu (write_apic_register r v s))" if "\<not> c_trig (this_cpu s)" for r v and s :: kernel
    using that by (simp add: write_apic_register_def wrmsr_def mmio_write_def io_write_def this_cpu_def)
  have step: "\<exists>t. send_startup 1 8 (Irq_oneshot # is, s) = Some (is, t) \<and> \<not> c_trig (this_cpu t)"
    if "\<not> c_trig (this_cpu s)" for "is" and s :: kernel
  proof -
    let ?u = "write_apic_register APIC_ICRLO_OFF (push_bit 32 1 OR ucast (8 :: u8) OR ICR_STARTUP) s"
    show ?thesis
      using delay_oneshot[OF trig[OF that], of "[]" "lapic_ms_interval ?u * 200 div 1000" "is" APIC_ICRLO_OFF
        "push_bit 32 1 OR ucast (8 :: u8) OR ICR_STARTUP"]
      unfolding send_startup_def Let_def prod.case by auto
  qed
  have "\<not> c_trig (this_cpu demo_kernel)" by (simp add: this_cpu_def demo_cpu_def)
  then obtain t1 t2 where
    "start_ap 1 8 [Irq_oneshot, Irq_oneshot] demo_kernel = send_startup 1 8 ([Irq_oneshot], t1)"
    "send_startup 1 8 ([Irq_oneshot], t1) = Some ([], t2)"
    unfolding start_ap_def Let_def for_opt_2 using step trig by (metis bind.bind_lunit)
  then have "start_ap 1 8 [Irq_oneshot, Irq_oneshot] demo_kernel = Some ([], t2)" by simp
  from this start_ap_destination[OF this, of 5] show ?thesis by simp
qed

text \<open>What the waits and register accesses leave alone: mode and address of the local APIC.\<close>

definition same_lapic :: "'a kernel_scheme \<Rightarrow> 'a kernel_scheme \<Rightarrow> bool" where
  "same_lapic s t \<longleftrightarrow> lapic_x2mode t = lapic_x2mode s \<and> lapic_addr t = lapic_addr s"

lemma lapic_frame:
  "lapic_x2mode (outb p v s) = lapic_x2mode s" "lapic_x2mode (write_apic_register r w s) = lapic_x2mode s"
  "lapic_x2mode (set_irq i e d f b s) = lapic_x2mode s" "lapic_x2mode (set_irq_mask dev i b s) = lapic_x2mode s"
  "lapic_addr (outb p v s) = lapic_addr s" "lapic_addr (write_apic_register r w s) = lapic_addr s"
  "lapic_addr (set_irq i e d f b s) = lapic_addr s" "lapic_addr (set_irq_mask dev i b s) = lapic_addr s"
  "lapic_pit_ticks (outb p v s) = lapic_pit_ticks s" "lapic_pit_ticks (write_apic_register r w s) = lapic_pit_ticks s"
  "lapic_pit_ticks (set_irq i e d f b s) = lapic_pit_ticks s" "lapic_pit_ticks (set_irq_mask dev i b s) = lapic_pit_ticks s"
  by (simp_all add: outb_def write_apic_register_def wrmsr_def mmio_write_def mmio_read_def io_read_def io_write_def
    set_irq_def set_irq_mask_def write_redirect_def read_redirect_def write_register_def read_register_def Let_def
    split: option.splits prod.splits)

lemma same_lapic_irq: "same_lapic s (handle_irq q s)"
  by (cases q) (simp_all add: same_lapic_def apic_oneshot_handler_def pit_handler_def spurious_handler_def cpu_update_def)

lemma same_lapic_trans: "same_lapic s t \<Longrightarrow> same_lapic t u \<Longrightarrow> same_lapic s u"
  by (simp add: same_lapic_def)

lemma wait_pit:
  fixes s :: "'a kernel_scheme"
  assumes "unat (lapic_pit_ticks s) \<le> 500"
  shows "if unat (lapic_pit_ticks s) + length (filter ((=) Irq_pit) irqs) < 500
    then wait_until (\<lambda>s. \<not> lapic_pit_ticks s < 500) irqs s = None
    else \<exists>irqs' t. wait_until (\<lambda>s. \<not> lapic_pit_ticks s < 500) irqs s = Some (irqs', t) \<and> same_lapic s t"
  using assms
proof (induction irqs arbitrary: s)
  case Nil
  then show ?case by (auto simp: wait_until_Nil word_less_nat_alt same_lapic_def)
next
  case (Cons i irqs)
  show ?case
  proof (cases "lapic_pit_ticks s < 500")
    case False
    then show ?thesis using Cons.prems by (auto simp: wait_until_Cons word_less_nat_alt same_lapic_def)
  next
    case True
    then have t: "unat (lapic_pit_ticks (handle_irq i s)) = unat (lapic_pit_ticks s) + (if i = Irq_pit then 1 else 0)"
      by (simp add: handle_irq_frame word_less_nat_alt unat_word_ariths)
    have "unat (lapic_pit_ticks s) < 500" using True by (simp add: word_less_nat_alt)
    with Cons.IH[of "handle_irq i s"] t same_lapic_trans[OF same_lapic_irq[of s i]] show ?thesis
      using True by (auto simp: wait_until_Cons split: if_splits)
  qed
qed

text \<open>A timer whose current count reads \<open>c\<close>.\<close>

definition timer_reads :: "device \<Rightarrow> 'a kernel_scheme \<Rightarrow> u32 \<Rightarrow> bool" where
  "timer_reads dev s c \<longleftrightarrow>
     (\<forall>h. dev ((if lapic_x2mode s then Rdmsr 0x839 else MmioRead (lapic_addr s + 0x390)) # h) = ucast c)"

lemma read_count:
  assumes "timer_reads dev s c" "same_lapic s t"
  shows "(ucast (fst (read_apic_register dev APIC_TIMER_CURRENT_COUNT_OFF t)) :: u32) = c"
proof -
  have u: "(ucast (ucast c :: u64) :: u32) = c" by (rule bit_word_eqI) (simp add: bit_simps)
  show ?thesis
    using assms u by (cases "lapic_x2mode s") (simp_all add: timer_reads_def same_lapic_def read_apic_register_def rdmsr_def
        mmio_read_def io_read_def Let_def kconst split_beta)
qed

lemma measure_apic_timer_result:
  fixes s :: "'a kernel_scheme"
  assumes "timer_reads dev s c"
  shows "if length (filter ((=) Irq_pit) irqs) < 500 then measure_apic_timer dev irqs s = None
    else \<exists>irqs' t. measure_apic_timer dev irqs s = Some (irqs', t) \<and> lapic_pit_ticks t = 0 \<and>
      lapic_ms_interval t = ucast ((0xFFFFFFFF - c) div 500)"
proof -
  define u where "u = write_apic_register APIC_TIMER_INITIAL_COUNT_OFF 0xFFFFFFFF (set_irq_mask dev 0 False
    ((write_apic_register APIC_TIMER_CONFIG_OFF APIC_TIMER_DIVIDER (write_apic_register APIC_TIMER_INITIAL_COUNT_OFF 0
      (outb PIT_CHANNEL_0_DATA_PORT (ucast (drop_bit 8 PIT_1_MS AND 0xFF)) (outb PIT_CHANNEL_0_DATA_PORT (ucast (PIT_1_MS AND 0xFF))
        (outb PIT_MODE_COMMAND_REGISTER 0b00110100 (set_irq 0 PIT_IDT_ENTRY 0 0 True s))))))\<lparr>lapic_pit_ticks := 0\<rparr>))"
  have su: "same_lapic s u" "lapic_pit_ticks u = 0" by (simp_all add: u_def same_lapic_def lapic_frame)
  have m: "measure_apic_timer dev irqs s = Option.bind (wait_until (\<lambda>s. \<not> lapic_pit_ticks s < 500) irqs u) (\<lambda>(irqs, s).
        let (v, s) = read_apic_register dev APIC_TIMER_CURRENT_COUNT_OFF s;
            s = write_apic_register APIC_TIMER_INITIAL_COUNT_OFF 0 s;
            s = set_irq_mask dev 0 True s
        in Some (irqs, s\<lparr>lapic_pit_ticks := 0, lapic_ms_interval := ucast ((0xFFFFFFFF - ucast v :: u32) div 500)\<rparr>))"
    unfolding measure_apic_timer_def Let_def u_def by (rule refl)
  show ?thesis
  proof (cases "length (filter ((=) Irq_pit) irqs) < 500")
    case True
    then show ?thesis using wait_pit[of u irqs] su by (simp add: m)
  next
    case False
    then obtain irqs' t where t: "wait_until (\<lambda>s. \<not> lapic_pit_ticks s < 500) irqs u = Some (irqs', t)" "same_lapic u t"
      using wait_pit[of u irqs] su by auto
    have "same_lapic s t" using same_lapic_trans su(1) t(2) by blast
    with False t(1) show ?thesis by (simp add: m read_count[OF assms] Let_def split_beta)
  qed
qed

text \<open>
  C28. Calibrating the timer: the measurement ends exactly when 500 ticks of the programmable interval timer have
  arrived, whatever other interrupts are mixed in, and the interval it stores is the number of counts per
  millisecond: what the timer, started at its maximum, lost, divided by 500.
\<close>
theorem measure_apic_timer_interval:
  fixes s :: "'a kernel_scheme"
  assumes "timer_reads dev s c"
  shows "if length (filter ((=) Irq_pit) irqs) < 500 then measure_apic_timer dev irqs s = None
    else \<exists>irqs' t. measure_apic_timer dev irqs s = Some (irqs', t) \<and> lapic_pit_ticks t = 0 \<and>
      lapic_ms_interval t = ucast ((0xFFFFFFFF - c) div 500)"
  by (rule measure_apic_timer_result[OF assms])

theorem measure_apic_timer_interval_witness:
  "\<exists>irqs' t. measure_apic_timer (\<lambda>_. 0xFFFFFFFF - 5000000) (replicate 600 Irq_pit) demo_kernel = Some (irqs', t) \<and>
     lapic_ms_interval t = 10000"
proof -
  have "timer_reads (\<lambda>_. 0xFFFFFFFF - 5000000) demo_kernel (0xFFFFFFFF - 5000000)" by (simp add: timer_reads_def)
  from measure_apic_timer_interval[OF this, of "replicate 600 Irq_pit"] show ?thesis by auto
qed

end
