(* ===== verification/Kernel_Main.thy ===== *)
theory Kernel_Main
  imports Interrupts Acpi
begin

text \<open>
  The entry of the kernel, \<^verbatim>\<open>src/kernel/kernel.c\<close>: \<^verbatim>\<open>init_kernel\<close> as the composition of the initialisers of the other
  theories, in its order, and the part of \<^verbatim>\<open>src/kernel/scheduler/thread.c\<close> that runs in user mode around a software
  interrupt. What the code takes from outside (addresses of assembly stubs, the font, \<^verbatim>\<open>cpuid\<close>, the stack pointer, the
  devices, which processors answer) is one record. \<^verbatim>\<open>init_kernel\<close> does not return: its result is the state in which it
  enters its last, endless loop, with the interrupts that are still to arrive; \<open>None\<close> means that it hangs before.
\<close>

section \<open>Definitions\<close>

definition SYSCALL_IDT_ENTRY :: u8 where [kconst]: "SYSCALL_IDT_ENTRY = 0x80"
definition IPI_IDT_ENTRY :: u8 where [kconst]: "IPI_IDT_ENTRY = 0x81"

record machine =
  mc_dev :: device
  mc_isr :: "nat \<Rightarrow> u64"
  mc_stubs :: "u8 \<Rightarrow> u64"
  mc_font_addr :: u64
  mc_font :: psf_font_t
  mc_x2ApicLeaf :: u32
  mc_xApicLeaf :: u32
  mc_rsp :: u64
  mc_signals :: "nat \<Rightarrow> bool"
  mc_ap_trampoline :: u64
  mc_gdtr :: u64
  mc_idtr :: u64
  mc_thread_wrapper :: u64
  mc_idle_name :: u64
  mc_idle :: u64

subsection \<open>kernel.c\<close>

text \<open>\<open>kinfo = *kernel_info\<close>: every field of \<^verbatim>\<open>kernel_info_t\<close>, with the arrays its pointers reach.\<close>

definition copy_kinfo :: "kernel \<Rightarrow> 'a kernel_scheme \<Rightarrow> 'a kernel_scheme" where
  "copy_kinfo ki s = s\<lparr>
     km_mmap := km_mmap ki, km_mmap_size := km_mmap_size ki, km_mmap_desc_size := km_mmap_desc_size ki,
     km_num_ke := km_num_ke ki, km_ke := km_ke ki, km_pml4 := km_pml4 ki,
     km_bitmap := km_bitmap ki, km_bitmap_addr := km_bitmap_addr ki, km_bitmap_entries := km_bitmap_entries ki,
     km_bitmap_size := km_bitmap_size ki, km_mem_pages := km_mem_pages ki, k_vmm := k_vmm ki,
     k_heap := k_heap ki, fb_buffer := fb_buffer ki, fb_horizontal_res := fb_horizontal_res ki,
     fb_vertical_res := fb_vertical_res ki, fb_pixels_per_scanline := fb_pixels_per_scanline ki, fb_bpp := fb_bpp ki,
     acpi_sdt_addr := acpi_sdt_addr ki, acpi_xsdt := acpi_xsdt ki, acpi_num_tables := acpi_num_tables ki,
     lapic_addr := lapic_addr ki, lapic_x2mode := lapic_x2mode ki, lapic_ms_interval := lapic_ms_interval ki,
     lapic_pit_ticks := lapic_pit_ticks ki, ioapic_addr := ioapic_addr ki, ioapic_gsi_base := ioapic_gsi_base ki,
     ioapic_num_ovrds := ioapic_num_ovrds ki, ioapic_ovrds_ptr := ioapic_ovrds_ptr ki, ioapic_ovrds := ioapic_ovrds ki,
     ipc_action := ipc_action ki, ipc_addr := ipc_addr ki, smp_idle := smp_idle ki, smp_num_cpus := smp_num_cpus ki,
     smp_cpus_ptr := smp_cpus_ptr ki, smp_cpus := smp_cpus ki\<rparr>"

definition init_tables :: "machine \<Rightarrow> 'a console_scheme \<Rightarrow> 'a console_scheme" where
  "init_tables mc s =
     (let s = init_qemu s;
          s = init_gdt s;
          s = init_idt (mc_isr mc) s;
          s = IDT_SET_TRAP (ucast SYSCALL_IDT_ENTRY) 3 (mc_stubs mc SYSCALL_IDT_ENTRY) s
      in IDT_SET_INT (ucast IPI_IDT_ENTRY) 0 (mc_stubs mc IPI_IDT_ENTRY) s)"

definition init_memory :: "machine \<Rightarrow> 'a console_scheme \<Rightarrow> 'a console_scheme option" where
  "init_memory mc s =
     (let s = init_pmm s in
      Option.bind (init_framebuffer (mc_font_addr mc) (mc_font mc) s) (\<lambda>s.
      Option.bind (init_vmm Supervisor (km_mem_pages s) (k_vmm s) s) (\<lambda>(vi, s).
      let s = s\<lparr>k_vmm := vi\<rparr> in
      Option.bind (heap_add 1 HEAP_DEFAULT_BS (k_vmm s) NULL s) (\<lambda>(heap, vi, s).
      Some (s\<lparr>k_vmm := vi, k_heap := heap\<rparr>)))))"

definition init_devices :: "machine \<Rightarrow> irq list \<Rightarrow> 'a console_scheme \<Rightarrow> (irq list \<times> 'a console_scheme) option" where
  "init_devices mc irqs s =
     Option.bind (init_acpi (mc_dev mc) s) (\<lambda>s.
     Option.bind (init_tss s) (\<lambda>s.
     let s = set_rsp0 (mc_rsp mc) s in
     Option.bind (init_lapic (mc_dev mc) (mc_x2ApicLeaf mc) (mc_xApicLeaf mc) (mc_stubs mc) s) (\<lambda>s.
     Option.bind (init_ioapic (mc_dev mc) s) (\<lambda>s.
     calibrate_apic_timer (mc_dev mc) irqs s))))"

definition init_threads :: "machine \<Rightarrow> u64 \<Rightarrow> 'a kernel_scheme \<Rightarrow> 'a kernel_scheme option" where
  "init_threads mc stack s =
     (let s = cpu_update (\<lambda>c. c\<lparr>c_stack := stack\<rparr>) s in
      map_option (\<lambda>(idle, s). s\<lparr>smp_idle := idle\<rparr>)
        (create_thread (mc_thread_wrapper mc) (mc_idle_name mc) (mc_idle mc) False s))"

definition init_kernel :: "machine \<Rightarrow> kernel \<Rightarrow> u64 \<Rightarrow> irq list \<Rightarrow> 'a smp_scheme \<Rightarrow> (irq list \<times> 'a smp_scheme) option" where
  "init_kernel mc kernel_info stack irqs s =
     (let s = copy_kinfo kernel_info (s\<lparr>k_CPU := 0\<rparr>);
          s = init_tables mc s in
      Option.bind (init_memory mc s) (\<lambda>s.
      Option.bind (init_devices mc irqs s) (\<lambda>(irqs, s).
      Option.bind (init_threads mc stack s) (\<lambda>s.
      start_aps (mc_dev mc) (mc_signals mc) (mc_ap_trampoline mc) (mc_gdtr mc) (mc_idtr mc) irqs s))))"

subsection \<open>thread.c: user mode\<close>

text \<open>
  A software interrupt saves the registers in a frame, whose address \<open>status\<close> is an argument, and calls the handler; the
  result of a yield is the frame that is resumed.
\<close>

definition syscall :: "u64 \<Rightarrow> u64 \<Rightarrow> u64 list \<Rightarrow> 'a kernel_scheme \<Rightarrow> 'a kernel_scheme option" where
  "syscall status ident args s =
     map_option (\<lambda>r. snd (syscall_handler status (s\<lparr>k_efs := (k_efs s)(status := r)\<rparr>)))
       (syscall_regs ident args (k_efs s status))"

definition thread_yield :: "device \<Rightarrow> u64 \<Rightarrow> 'a kernel_scheme \<Rightarrow> u64 \<times> 'a kernel_scheme" where
  "thread_yield dev status s = apic_periodic_handler dev status s"

definition thread_sleep :: "device \<Rightarrow> u64 \<Rightarrow> u64 \<Rightarrow> 'a kernel_scheme \<Rightarrow> (u64 \<times> 'a kernel_scheme) option" where
  "thread_sleep dev status ms s = map_option (thread_yield dev status) (syscall status 1 [ms] s)"

text \<open>Behind the yield \<open>thread_wrapper\<close> pauses for ever, so its result is that of the yield.\<close>

definition thread_wrapper ::
  "device \<Rightarrow> u64 \<Rightarrow> ('a kernel_scheme \<Rightarrow> 'a kernel_scheme option) \<Rightarrow> 'a kernel_scheme \<Rightarrow> (u64 \<times> 'a kernel_scheme) option" where
  "thread_wrapper dev status entry_point s =
     Option.bind (entry_point s) (\<lambda>s. map_option (thread_yield dev status) (syscall status 2 [] s))"

subsection \<open>kernel.c: the example threads\<close>

text \<open>\<open>others\<close> is what runs between a thread's going to sleep and its being resumed.\<close>

definition task1 :: "device \<Rightarrow> 'a console_scheme \<Rightarrow> 'a console_scheme option" where
  "task1 dev s = printf dev (str_bytes ''Hello World'' @ [10]) [] s"

definition task2 :: "device \<Rightarrow> u64 \<Rightarrow> ('a console_scheme \<Rightarrow> 'a console_scheme option) \<Rightarrow> 'a console_scheme \<Rightarrow> 'a console_scheme option" where
  "task2 dev status others s =
     Option.bind (printf dev (str_bytes ''Hello World 2'' @ [10]) [] s) (\<lambda>s.
     Option.bind (thread_sleep dev status 2000 s) (\<lambda>(_, s).
     Option.bind (others s) (printf dev (str_bytes ''Hello World after thread_sleep'' @ [10]) [])))"

definition task3 :: "device \<Rightarrow> u64 \<Rightarrow> ('a console_scheme \<Rightarrow> 'a console_scheme option) \<Rightarrow> 'a console_scheme \<Rightarrow> 'a console_scheme option" where
  "task3 dev status others s =
     Option.bind (printf dev (str_bytes ''Hello World 3'' @ [10]) [] s) (\<lambda>s.
     Option.bind (thread_sleep dev status 1000 s) (\<lambda>(_, s).
     Option.bind (others s) (printf dev (str_bytes ''Hello World after thread_sleep3'' @ [10]) [])))"

section \<open>The memory managers\<close>

lemma unat_higher_half: "unat HIGHER_HALF_OFFSET = 2 ^ 64 - 2 ^ 47" "HIGHER_HALF_OFFSET \<noteq> NULL"
  by (simp_all add: kconst)

text \<open>The id table of the kernel's page manager is all that \<open>init_vmm\<close> writes.\<close>

lemma init_vmm_bytes:
  fixes s :: "'a kheap_scheme"
  assumes wf: "wf_pmm s" and call: "init_vmm Supervisor n vi s = Some (vi', s')"
    and reg: "region_ok (vm_bm vi')" and a: "a \<notin> id_table (vm_bm vi')"
  shows "vm_bytes s' a = vm_bytes s a"
proof -
  let ?vi = "vi\<lparr>vm_flags := KERNEL_PT_ENTRY, vm_bm := (vm_bm vi)\<lparr>bmp_bm := HIGHER_HALF_OFFSET\<rparr>\<rparr>"
  obtain t where t: "map_fresh alloc_frame (\<lambda>p v. map_addr p v KERNEL_PT_ENTRY (vm_p4_tbl vi)) (unat (DIV_CEIL n PAGE_SIZE)) HIGHER_HALF_OFFSET s = Some t"
    and r: "(case init_bitmap (vm_bm ?vi) (n * PAGE_SIZE) PAGE_SIZE (vm_bytes t) of
        (b, m) \<Rightarrow> Some (?vi\<lparr>vm_bm := b\<rparr>, t\<lparr>vm_bytes := m\<rparr>)) = Some (vi', s')"
    using call by (auto simp: init_vmm_def Let_def bind_eq_Some_conv)
  obtain b m where ib: "init_bitmap (vm_bm ?vi) (n * PAGE_SIZE) PAGE_SIZE (vm_bytes t) = (b, m)" by (metis surj_pair)
  with r have e: "vm_bm vi' = b" "vm_bytes s' = m" by auto
  have "m = bm_mark (vm_bytes t) b 0 (bm_reserved b) 1" using ib by (auto simp: init_bitmap_eq Let_def)
  then have "m a = vm_bytes t a"
    using mark_payload [of b 0 "bm_reserved b" a] reg a bm_reserved_le [of b] by (simp add: e id_table_def)
  moreover have "vm_bytes t = vm_bytes s" using map_fresh_pt_only [OF wf t] pt_only_bytes by blast
  ultimately show ?thesis by (simp add: e)
qed

lemma wf_pmm_vmm [simp]: "wf_pmm (s\<lparr>k_vmm := v\<rparr>) = wf_pmm s" "free_frames (s\<lparr>k_vmm := v\<rparr>) = free_frames s"
  by (simp_all add: wf_pmm_def free_frames_def frame_used_def)

lemma walk_pt_read: "pt_read t = pt_read s \<Longrightarrow> walk t p q = walk s p q"
  by (induction q arbitrary: p) simp_all

lemma pview_read: "pt_read t = pt_read s \<Longrightarrow> pview t p4 pg = pview s p4 pg"
  using walk_pt_read [of t s p4 "fst pg"] by (simp add: pview_def split: option.splits)

lemma pt_inv_read: "pt_inv p4 s \<Longrightarrow> pt_read t = pt_read s \<Longrightarrow> free_frames t \<subseteq> free_frames s \<Longrightarrow> pt_inv p4 t"
  using pt_inv_same walk_pt_read by metis

lemma pt_read_vmm [simp]: "pt_read (s\<lparr>k_vmm := v\<rparr>) = pt_read s"
  by (simp add: pt_read_def fun_eq_iff)

text \<open>A fresh manager with a page to spare serves the first page behind its id table.\<close>

lemma fresh_valloc:
  fixes s :: "'a kheap_scheme"
  assumes ok: "vmm_ok (vm_bytes s) vi" and room: "bm_reserved (vm_bm vi) < bm_tblocks (vm_bm vi)"
    and used: "bm_used_blocks (vm_bytes s) (vm_bm vi) = {..<bm_reserved (vm_bm vi)}"
    and call: "valloc 1 vi s = Some (h, vi', s')"
  shows "h = bm_addr (vm_bm vi) (bm_reserved (vm_bm vi))" "h \<noteq> NULL"
proof -
  let ?b = "vm_bm vi" and ?r = "bm_reserved (vm_bm vi)"
  have wf: "wf_bitmap (vm_bytes s) ?b" "bmp_bsize ?b = PAGE_SIZE" using ok by (auto simp: vmm_ok_def)
  have nb: "bm_nblocks PAGE_SIZE ?b = 1" using pages_blocks [OF wf(2), of 1] by simp
  obtain b' m' where a: "bm_alloc PAGE_SIZE ?b (vm_bytes s) = (h, b', m')"
    using call by (auto simp: valloc_def Let_def bind_eq_Some_conv split: prod.splits)
  have free: "get_bm (vm_bytes s) (bmp_bm ?b) i = 0 \<longleftrightarrow> i \<notin> bm_used_blocks (vm_bytes s) ?b" if "i < bm_tblocks ?b" for i
    using that by (auto simp: bm_used_blocks_def)
  have fit: "bm_fits_in (vm_bytes s) ?b 1 i \<longleftrightarrow> i < bm_tblocks ?b \<and> ?r \<le> i" for i
    by (cases "i < bm_tblocks ?b") (simp_all add: bm_fits_def free used not_less)
  note r = bm_alloc_result [OF wf(1) a, unfolded nb fit]
  from r room show nn: "h \<noteq> NULL" by blast
  with r obtain i where i: "h = bm_addr ?b i" "?r \<le> i" "\<forall>j<i. \<not> (j < bm_tblocks ?b \<and> ?r \<le> j)" by blast
  have "\<not> ?r < i" using i(3) room by blast
  with i(1,2) show "h = bm_addr ?b ?r" by simp
qed

lemma kernel_heap_ready:
  fixes s :: "'a kheap_scheme"
  assumes wf: "wf_pmm s" and inv: "pt_inv (vm_p4_tbl vi) s" and n: "1 < unat pages" "unat pages < 2 ^ 34"
    and zero: "\<forall>a\<in>span HIGHER_HALF_OFFSET (unat pages * 4096). vm_bytes s a = 0"
    and v: "init_vmm Supervisor pages vi s = Some (vi1, s1)"
    and h: "heap_add 1 HEAP_DEFAULT_BS vi1 NULL (s1\<lparr>k_vmm := vi1\<rparr>) = Some (h, vi2, s2)" and ne: "free_frames s2 \<noteq> {}"
  shows "wf_pmm s2 \<and> pt_inv (vm_p4_tbl vi) s2 \<and> vmm_ok (vm_bytes s2) vi2 \<and> vm_p4_tbl vi2 = vm_p4_tbl vi \<and> h \<noteq> NULL \<and>
    heap_ok s2 [h] \<and> chain s2 h [h] \<and> bm_used_blocks (vm_bytes s2) (h_bitmap s2 h) = {..<bm_reserved (h_bitmap s2 h)} \<and>
    heap_area s2 [h] \<subseteq> span HIGHER_HALF_OFFSET (unat pages * 4096) \<and> translate_addr h (vm_p4_tbl vi) s2 \<noteq> 0 \<and>
    bmp_size (h_bitmap s2 h) = PAGE_SIZE - sizeof_heap_t \<and> bmp_bsize (h_bitmap s2 h) = HEAP_DEFAULT_BS"
proof -
  let ?t = "s1\<lparr>k_vmm := vi1\<rparr>" and ?b = "vm_bm vi1" and ?p4 = "vm_p4_tbl vi"
  let ?r = "bm_reserved (vm_bm vi1)"
  have p4: "vm_p4_tbl vi1 = ?p4" using init_vmm_steps [OF wf, of Supervisor pages vi] v by auto
  obtain vi0 t where va: "valloc 1 vi1 ?t = Some (h, vi0, t)"
    using h by (auto simp: heap_add_def bind_eq_Some_conv Let_def case_prod_beta)
  have eq: "vi0 = vi2" "\<exists>m hp. s2 = t\<lparr>vm_bytes := m, hp_heaps := hp\<rparr>"
    using h va by (auto simp: heap_add_def Let_def case_prod_beta)
  note va = va [unfolded eq(1)]
  obtain m hp where s2: "s2 = t\<lparr>vm_bytes := m, hp_heaps := hp\<rparr>" using eq(2) by blast
  have same: "free_frames s2 = free_frames t" "pt_read s2 = pt_read t" "km_pml4 s2 = km_pml4 t"
    by (simp_all add: s2 free_frames_def frame_used_def pt_read_def fun_eq_iff)
  have get0: "get_bm (vm_bytes s) HIGHER_HALF_OFFSET i = 0" if "i < unat pages" for i
  proof -
    have "i div 4 < unat pages * 4096" "i div 4 < 2 ^ 64" using that n by (linarith, simp)
    then show ?thesis using zero span_offset [of "i div 4" HIGHER_HALF_OFFSET "unat pages * 4096"] by (simp add: get_bm_eq)
  qed
  have wf1: "wf_pmm s1" using init_vmm_total [OF wf, of Supervisor pages vi] v by auto
  have wft: "wf_pmm ?t" using wf1 by simp
  have "free_frames t \<subseteq> free_frames s1"
  proof -
    have "vm_flags vi1 \<in> {KERNEL_PT_ENTRY, USER_PT_ENTRY}" using init_vmm_steps [OF wf, of Supervisor pages vi] v by auto
    from vmm_total [OF wft this, of 1] va show ?thesis by auto
  qed
  then have ne1: "free_frames s1 \<noteq> {}" using ne same(1) by auto
  have n0: "0 < unat pages" using n(1) by simp
  have k: "vmm_ok (vm_bytes s1) vi1" "wf_pmm s1" "pt_inv ?p4 s1" "bm_tblocks ?b = unat pages"
      "bm_used_blocks (vm_bytes s1) ?b = {..<?r}"
    using init_vmm_kernel [OF wf inv n0 n(2) get0 v ne1] by (simp_all add: p4)
  have b: "region_ok ?b" "bmp_bsize ?b = PAGE_SIZE" "unat (bmp_bsize ?b) = 4096" "bmp_bm ?b = HIGHER_HALF_OFFSET"
    using k(1) v by (auto simp: vmm_ok_def wf_bitmap_def kconst init_vmm_def Let_def init_bitmap_eq bind_eq_Some_conv split: prod.splits)
  have room: "?r < bm_tblocks ?b"
    using bm_reserved_eq [OF b(1)] n(1) by (simp add: k(4) b(3))
  have okt: "vmm_ok (vm_bytes ?t) vi1" using k(1) by simp
  have ut: "bm_used_blocks (vm_bytes ?t) ?b = {..<?r}" using k(5) by simp
  note hr = fresh_valloc [OF okt room ut va]
  have hu: "unat h = unat HIGHER_HALF_OFFSET + ?r * 4096"
    unfolding hr(1) using unat_bm_addr [OF b(1), of ?r] room by (simp add: b(3,4))
  have hsp: "span h 4096 \<subseteq> span HIGHER_HALF_OFFSET (unat pages * 4096)" and hid: "span h 4096 \<inter> id_table ?b = {}"
  proof -
    have lim: "unat h + 4096 \<le> 2 ^ 64" "unat HIGHER_HALF_OFFSET + unat pages * 4096 \<le> 2 ^ 64"
      "unat HIGHER_HALF_OFFSET + ?r * 4096 \<le> 2 ^ 64"
      using room n(2) hu by (simp_all add: k(4) unat_higher_half)
    show "span h 4096 \<subseteq> span HIGHER_HALF_OFFSET (unat pages * 4096)"
      using room lim by (auto simp: span_nowrap hu k(4))
    show "span h 4096 \<inter> id_table ?b = {}"
      using lim by (auto simp: id_table_def b(3,4) span_nowrap hu)
  qed
  have zt: "vm_bytes ?t a = 0" if "a \<in> span h (unat (1 :: u64) * 4096)" for a
  proof -
    have a: "a \<in> span h 4096" using that by simp
    then have "a \<notin> id_table ?b" "vm_bytes s a = 0" using hid hsp zero by blast+
    with init_vmm_bytes [OF wf v b(1)] show ?thesis by simp
  qed
  have one: "(1 :: u64) \<noteq> 0" "unat (1 :: u64) * 4096 \<le> 2 ^ 62" "unat (1 :: u64) * 4096 \<le> 2 ^ 63"
    "0 < unat HEAP_DEFAULT_BS" "unat HEAP_DEFAULT_BS < 2 ^ 63" by (simp_all add: kconst)
  note hp = heap_add_region [OF wft okt one(1,2,4,5) zt h hr(2)]
  have pt: "pt_inv (vm_p4_tbl vi1) ?t" unfolding p4 by (rule pt_inv_read [OF k(3)]) simp_all
  have net: "free_frames t \<noteq> {}" using ne same(1) by simp
  from valloc_pages [OF wft pt okt one(1,3) va hr(2) net] obtain fs where fs: "length fs = 1"
      "set fs \<subseteq> free_frames ?t" "translate_addr h ?p4 t = frame_addr (fs ! 0)" "pt_inv ?p4 t"
    by (auto simp: p4)
  have "fs ! 0 \<in> free_frames s1" using fs(1,2) nth_mem [of 0 fs] by auto
  then have "frame_addr (fs ! 0) \<noteq> 0" using free_frame_bound [OF wf1] unat_frame_addr [of "fs ! 0"] by fastforce
  then have tr: "translate_addr h ?p4 s2 \<noteq> 0" using fs(3) translate_addr_cong [OF same(2,3)] by simp
  have "pt_inv ?p4 s2" using pt_inv_read [OF fs(4) same(2)] same(1) by simp
  moreover have "vm_p4_tbl vi2 = ?p4" using va by (auto simp: valloc_def Let_def p4 bind_eq_Some_conv split: prod.splits)
  moreover have "heap_area s2 [h] \<subseteq> span HIGHER_HALF_OFFSET (unat pages * 4096)" using hp hsp by (auto simp: heap_area_def)
  moreover have "bmp_size (h_bitmap s2 h) = PAGE_SIZE - sizeof_heap_t \<and> bmp_bsize (h_bitmap s2 h) = HEAP_DEFAULT_BS"
    using h va by (auto simp: heap_add_def Let_def case_prod_beta init_bitmap_eq)
  ultimately show ?thesis using hp hr(2) tr by (simp add: heap_ok_def)
qed

section \<open>The framebuffer\<close>

text \<open>
  What the loader hands over about the screen: a linear framebuffer of 32-bit pixels, aligned to pages, below the higher half and
  outside the usable memory.
\<close>

definition screen_ready :: "psf_font_t \<Rightarrow> 'a kernel_scheme \<Rightarrow> bool" where
  "screen_ready font s \<longleftrightarrow> fb_bpp s = 4 \<and> fb_horizontal_res s \<le> fb_pixels_per_scanline s \<and> 0 < unat (fb_vertical_res s) \<and>
     0 < psf_width font \<and> 0 < psf_height font \<and> fb_bytes s < 2 ^ 32 \<and> unat (fb_buffer s) mod 4096 = 0 \<and> fb_buffer s \<noteq> 0 \<and>
     unat (fb_buffer s) + fb_bytes s \<le> 2 ^ 47 \<and>
     (\<forall>f\<in>usable_frames s. f * 4096 < unat (fb_buffer s) \<or> unat (fb_buffer s) + fb_bytes s \<le> f * 4096)"

definition fb_pages :: "'a kernel_scheme \<Rightarrow> nat" where
  "fb_pages s = (fb_bytes s + 4095) div 4096"

definition with_screen :: "u64 \<Rightarrow> psf_font_t \<Rightarrow> 'a console_scheme \<Rightarrow> 'a console_scheme" where
  "with_screen font_addr font s = s\<lparr>loaded_font := font_addr, font_header := font,
     screen_num_cols := ucast (fb_horizontal_res s div psf_width font),
     screen_num_rows := ucast (fb_vertical_res s div psf_height font), char_printer := Printer_fb, screen_x := 0, screen_y := 0\<rparr>"

lemma unat_fb_size:
  assumes "fb_bpp s = 4" "fb_bytes s < 2 ^ 32"
  shows "unat (SIZE_TO_PAGES (ucast (line_bytes s * fb_vertical_res s))) = fb_pages s"
proof -
  have "unat (ucast (line_bytes s * fb_vertical_res s) :: u64) = fb_bytes s"
    using assms by (simp add: line_bytes_def fb_bytes_def unat_word_ariths unsigned_ucast_eq take_bit_eq_mod mod_mult_left_eq)
  then show ?thesis
    using assms(2) by (simp add: SIZE_TO_PAGES_def unat_DIV_CEIL fb_pages_def kconst)
qed

lemma fb_page:
  assumes "screen_ready font s" "i < fb_pages s"
  defines "F \<equiv> unat (fb_buffer s) div 4096"
  shows "fb_buffer s + of_nat i * PAGE_SIZE = frame_addr (F + i)" "0 < F + i" "F + i < 2 ^ 35"
    "f \<in> usable_frames s \<Longrightarrow> f \<noteq> F + i"
proof -
  have a: "unat (fb_buffer s) = F * 4096" using assms(1) by (auto simp: screen_ready_def F_def)
  have nz: "unat (fb_buffer s) \<noteq> 0" using assms(1) by (simp add: screen_ready_def unat_eq_0)
  have "fb_buffer s = of_nat (F * 4096)" by (simp add: a [symmetric])
  then show "fb_buffer s + of_nat i * PAGE_SIZE = frame_addr (F + i)"
    by (simp add: frame_addr_def kconst algebra_simps)
  show "0 < F + i" using nz a by simp
  have i: "i * 4096 < fb_bytes s" using assms(2) by (simp add: fb_pages_def)
  then show "F + i < 2 ^ 35" using assms(1) a by (simp add: screen_ready_def)
  show "f \<noteq> F + i" if "f \<in> usable_frames s"
    using assms(1) that i a by (auto simp: screen_ready_def)
qed

lemma page_low:
  assumes "f < 2 ^ 35" "g < 2 ^ 35"
  shows "page (frame_addr f) = page (frame_addr g) \<longleftrightarrow> f = g"
  using assms by (simp add: page_number unat_frame_addr)

lemma init_framebuffer_ready:
  fixes s :: "'a console_scheme"
  assumes wf: "wf_pmm s" and inv: "pt_inv (km_pml4 s) s" and scr: "screen_ready font s"
    and sub: "free_frames s \<subseteq> usable_frames s"
  shows "\<exists>t b m v. init_framebuffer fa font s = Some t \<and> t = (with_screen fa font s)\<lparr>km_bitmap := b, pt_mem := m, vm_bytes := v\<rparr> \<and>
    wf_pmm t \<and> free_frames t \<subseteq> free_frames s \<and> geometry_ok t \<and>
    (\<forall>a. a \<notin> span (fb_buffer s) (fb_bytes s) \<longrightarrow> vm_bytes t a = vm_bytes s a) \<and>
    (free_frames t \<noteq> {} \<longrightarrow> pt_inv (km_pml4 s) t \<and>
      (\<forall>i<fb_pages s. translate_addr (fb_buffer s + of_nat i * PAGE_SIZE) (km_pml4 s) t = fb_buffer s + of_nat i * PAGE_SIZE))"
proof -
  define s0 where "s0 = s\<lparr>loaded_font := fa, font_header := font,
     screen_num_cols := ucast (fb_horizontal_res s div psf_width font),
     screen_num_rows := ucast (fb_vertical_res s div psf_height font)\<rparr>"
  let ?p4 = "km_pml4 s" and ?n = "SIZE_TO_PAGES (ucast (line_bytes s * fb_vertical_res s))"
  have f0: "wf_pmm s0" "free_frames s0 = free_frames s" "pt_read s0 = pt_read s" "km_pml4 s0 = ?p4" "fb_buffer s0 = fb_buffer s"
    "line_bytes s0 = line_bytes s" "fb_vertical_res s0 = fb_vertical_res s" "vm_bytes s0 = vm_bytes s"
    using wf by (simp_all add: s0_def wf_pmm_def free_frames_def frame_used_def pt_read_def fun_eq_iff line_bytes_def)
  have inv0: "pt_inv ?p4 s0" by (rule pt_inv_read [OF inv f0(3)]) (simp add: f0)
  have n: "unat ?n = fb_pages s" using scr by (intro unat_fb_size) (simp_all add: screen_ready_def)
  obtain u where u: "map_range (fb_buffer s) (fb_buffer s) ?n KERNEL_PT_ENTRY ?p4 s0 = Some u" "wf_pmm u"
      "free_frames u \<subseteq> free_frames s0" "pt_only s0 u"
    using map_range_shrinks [OF f0(1), of "fb_buffer s" "fb_buffer s" ?n KERNEL_PT_ENTRY ?p4] unfolding shrinks_def by blast
  define w where "w = pmm_set_area (fb_buffer s) ?n u"
  have w: "wf_pmm w" "free_frames w \<subseteq> free_frames u" "pt_only u w" "pt_read w = pt_read u"
  proof -
    show "wf_pmm w" "free_frames w \<subseteq> free_frames u" "pt_only u w"
      using pmm_set_area_shrinks [OF u(2), of "fb_buffer s" ?n] by (simp_all add: shrinks_def w_def)
    have "pt_read (for_upto k (\<lambda>i s. pmm_set_bit (a + PAGE_SIZE * of_nat i) s) u) = pt_read u" for k a
      by (induction k) (simp_all add: pmm_set_bit_def pt_read_def fun_eq_iff Let_def)
    then show "pt_read w = pt_read u" by (simp add: w_def pmm_set_area_def)
  qed
  obtain b m where bm: "w = s0\<lparr>km_bitmap := b, pt_mem := m\<rparr>" using pt_only_trans [OF u(4) w(3)] unfolding pt_only_def by blast
  define t where "t = clear_screen (w\<lparr>char_printer := Printer_fb\<rparr>)"
  have fu: "fb_buffer u = fb_buffer s" using u(4) by (auto simp: pt_only_def s0_def)
  have call: "init_framebuffer fa font s = Some t"
    unfolding init_framebuffer_def Let_def s0_def [symmetric]
    by (simp add: map_framebuffer_def f0 u(1) fu Let_def w_def [symmetric] t_def)
  have shape: "\<exists>v. t = (with_screen fa font s)\<lparr>km_bitmap := b, pt_mem := m, vm_bytes := v\<rparr>"
    by (rule exI [of _ "vm_bytes t"]) (simp add: t_def clear_screen_def bm s0_def with_screen_def)
  have geo: "geometry_ok (w\<lparr>char_printer := Printer_fb\<rparr>)"
  proof -
    have up: "unat (ucast x :: u64) = unat x" for x :: u32 using unsigned_less [of x, where 'a = nat] by (simp add: unsigned_ucast_eq take_bit_eq_mod)
    have "unat (x div y) * unat y \<le> unat x" for x y :: u32 by (simp add: unat_div)
    from this [of "fb_horizontal_res s" "psf_width font"] this [of "fb_vertical_res s" "psf_height font"] scr
    show ?thesis by (simp add: geometry_ok_def bm s0_def screen_ready_def fb_bytes_def word_le_nat_alt up)
  qed
  have ft: "free_frames t = free_frames w" "pt_read t = pt_read w" "wf_pmm t"
    using w(1) by (simp_all add: t_def clear_screen_def wf_pmm_def free_frames_def frame_used_def pt_read_def fun_eq_iff)
  have gt: "geometry_ok t" unfolding t_def by (rule geometry_ok_screen [OF clear_screen_screen, THEN iffD2, OF geo])
  have out: "vm_bytes t a = vm_bytes s a" if "a \<notin> span (fb_buffer s) (fb_bytes s)" for a
    using clear_screen_outside [OF geo, of a] that by (simp add: t_def bm s0_def fb_bytes_def)
  have tables: "pt_inv ?p4 t \<and> (\<forall>i<fb_pages s. translate_addr (fb_buffer s + of_nat i * PAGE_SIZE) ?p4 t = fb_buffer s + of_nat i * PAGE_SIZE)"
    if ne: "free_frames t \<noteq> {}"
  proof -
    have neu: "free_frames u \<noteq> {}" using ne ft w(2) by auto
    have nz: "fb_buffer s + of_nat i * PAGE_SIZE \<noteq> 0 \<and> fb_buffer s + of_nat i * PAGE_SIZE \<noteq> 0" if "i < unat ?n" for i
    proof -
      have "unat (frame_addr (unat (fb_buffer s) div 4096 + i)) \<noteq> 0"
        using fb_page(2,3) [OF scr, of i] that by (simp add: n unat_frame_addr)
      then show ?thesis using fb_page(1) [OF scr, of i] that by (auto simp: n)
    qed
    have apart: "page (fb_buffer s + of_nat i * PAGE_SIZE) \<noteq> page (frame_addr f)" if "i < unat ?n" "f \<in> free_frames s0" for i f
      using fb_page [OF scr, of i] that sub free_frame_bound(1) [OF wf, of f] by (auto simp: n f0 page_low)
    have small: "unat ?n \<le> 2 ^ 36" 
    proof -
      have "fb_bytes s < 2 ^ 32" using scr by (simp add: screen_ready_def)
      then show ?thesis unfolding n fb_pages_def by simp
    qed
    have fl: "KERNEL_PT_ENTRY AND SIGN_MASK = 0" by (simp add: kconst)
    have mp: "wf_pmm u \<and> pt_inv ?p4 u \<and> (\<forall>i<unat ?n. pview u ?p4 (page (fb_buffer s + of_nat i * PAGE_SIZE)) =
        ALIGN_ADDR (fb_buffer s + of_nat i * PAGE_SIZE) AND SIGN_MASK)"
      by (rule map_range_maps [OF f0(1) inv0 u(1) neu fl small]) (rule nz apart, assumption+)+
    have "pt_inv ?p4 u" using mp by blast
    then have "pt_inv ?p4 t" by (rule pt_inv_read) (simp_all only: ft w(2,4))
    moreover have "translate_addr (fb_buffer s + of_nat i * PAGE_SIZE) ?p4 t = fb_buffer s + of_nat i * PAGE_SIZE" if "i < fb_pages s" for i
    proof -
      note p = fb_page [OF scr that]
      have "pview t ?p4 pg = pview u ?p4 pg" for pg using ft(2) w(4) by (intro pview_read) simp
      then have "translate_addr (fb_buffer s + of_nat i * PAGE_SIZE) ?p4 t =
          ALIGN_ADDR (fb_buffer s + of_nat i * PAGE_SIZE) AND SIGN_MASK"
        using mp [THEN conjunct2, THEN conjunct2, rule_format, of i] that pt_inv_root [OF inv] by (simp add: n translate_addr_pview)
      also have "\<dots> = fb_buffer s + of_nat i * PAGE_SIZE"
        using p(3) unfolding p(1) by (simp add: ALIGN_frame_addr frame_addr_SIGN_MASK)
      finally show ?thesis .
    qed
    ultimately show ?thesis by blast
  qed
  have sub: "free_frames t \<subseteq> free_frames s" using ft(1) w(2) u(3) f0(2) by auto
  have "\<forall>a. a \<notin> span (fb_buffer s) (fb_bytes s) \<longrightarrow> vm_bytes t a = vm_bytes s a" using out by blast
  with call shape ft(3) sub gt tables show ?thesis by blast
qed

section \<open>From the loader's information to a heap\<close>

lemma bitmap_only_upto:
  assumes "\<And>i t. \<exists>b. f i t = t\<lparr>km_bitmap := b\<rparr>"
  shows "\<exists>b. for_upto n f s = s\<lparr>km_bitmap := b\<rparr>"
proof (induction n)
  case 0
  show ?case by (rule exI [of _ "km_bitmap s"]) simp
next
  case (Suc n)
  then obtain b where "for_upto n f s = s\<lparr>km_bitmap := b\<rparr>" by blast
  then show ?case using assms [of n "s\<lparr>km_bitmap := b\<rparr>"] by auto
qed

lemma bitmap_only_self: "\<exists>b. s = s\<lparr>km_bitmap := b\<rparr>"
  by (rule exI [of _ "km_bitmap s"]) simp

lemma init_pmm_only: "\<exists>b. init_pmm s = s\<lparr>k_vmm := (k_vmm s)\<lparr>vm_p4_tbl := km_pml4 s\<rparr>, km_bitmap := b\<rparr>"
proof -
  have set: "\<exists>b. pmm_set_bit a t = t\<lparr>km_bitmap := b\<rparr>" for a and t :: "'a kmem_scheme"
    using bitmap_only_self [of t] by (auto simp: pmm_set_bit_def Let_def)
  have clr: "\<exists>b. pmm_clear_bit a t = t\<lparr>km_bitmap := b\<rparr>" for a and t :: "'a kmem_scheme"
    using bitmap_only_self [of t] by (auto simp: pmm_clear_bit_def Let_def)
  have desc: "\<exists>b. init_pmm_desc i t = t\<lparr>km_bitmap := b\<rparr>" for i and t :: "'a kmem_scheme"
    using bitmap_only_upto [OF clr] bitmap_only_self [of t] by (auto simp: init_pmm_desc_def pmm_clear_area_def Let_def)
  let ?s1 = "s\<lparr>k_vmm := (k_vmm s)\<lparr>vm_p4_tbl := km_pml4 s\<rparr>\<rparr>"
  obtain b2 where 2: "for_upto (unat (km_bitmap_entries s)) (\<lambda>i s. s\<lparr>km_bitmap := (km_bitmap s)(i := BITMAP_ROW_FULL)\<rparr>) ?s1 = ?s1\<lparr>km_bitmap := b2\<rparr>"
    using bitmap_only_upto [of "\<lambda>i s. s\<lparr>km_bitmap := (km_bitmap s)(i := BITMAP_ROW_FULL)\<rparr>"] by blast
  obtain b3 where 3: "pmm_set_bit 0x8000 (?s1\<lparr>km_bitmap := b2\<rparr>) = ?s1\<lparr>km_bitmap := b3\<rparr>"
    using set [of "0x8000" "?s1\<lparr>km_bitmap := b2\<rparr>"] by auto
  obtain b4 where "for_upto (unat (km_mmap_size s div km_mmap_desc_size s)) init_pmm_desc (?s1\<lparr>km_bitmap := b3\<rparr>) = ?s1\<lparr>km_bitmap := b4\<rparr>"
    using bitmap_only_upto [of init_pmm_desc "unat (km_mmap_size s div km_mmap_desc_size s)" "?s1\<lparr>km_bitmap := b3\<rparr>", OF desc] by auto
  with 2 3 show ?thesis by (intro exI [of _ b4]) (simp add: init_pmm_def Let_def)
qed

text \<open>
  What the loader establishes before it jumps: a memory map and a bitmap for all of it, page tables in frames that are not free, and
  pages for the id table of the page manager and the first heap region that read as zero.
\<close>

definition memory_ready :: "'a kernel_scheme \<Rightarrow> bool" where
  "memory_ready s \<longleftrightarrow> mmap_ok s \<and> unat (km_bitmap_entries s) < 2 ^ 16 \<and> (\<forall>f\<in>usable_frames s. f \<le> unat (km_mem_pages s)) \<and>
     pt_inv (km_pml4 s) (init_pmm s) \<and> 1 < unat (km_mem_pages s) \<and> unat (km_mem_pages s) < 2 ^ 34 \<and>
     (\<forall>a\<in>span HIGHER_HALF_OFFSET (unat (km_mem_pages s) * 4096). vm_bytes s a = 0)"

lemma usable_frames_cong:
  "km_mmap t = km_mmap s \<Longrightarrow> mmap_entries t = mmap_entries s \<Longrightarrow> usable_frames t = usable_frames s"
  by (simp add: usable_frames_def)

text \<open>The state of the memory managers when the kernel's heap exists: the invariant of each, and one empty region that is mapped.\<close>

definition kernel_memory :: "'a kernel_scheme \<Rightarrow> bool" where
  "kernel_memory t \<longleftrightarrow> pt_inv (km_pml4 t) t \<and> vmm_ok (vm_bytes t) (k_vmm t) \<and> vm_p4_tbl (k_vmm t) = km_pml4 t \<and>
     heap_ok t [k_heap t] \<and> chain t (k_heap t) [k_heap t] \<and>
     bm_used_blocks (vm_bytes t) (h_bitmap t (k_heap t)) = {..<bm_reserved (h_bitmap t (k_heap t))} \<and>
     bmp_size (h_bitmap t (k_heap t)) = PAGE_SIZE - sizeof_heap_t \<and> bmp_bsize (h_bitmap t (k_heap t)) = HEAP_DEFAULT_BS \<and>
     heap_area t [k_heap t] \<subseteq> span HIGHER_HALF_OFFSET (unat (km_mem_pages t) * 4096) \<and> translate_addr (k_heap t) (km_pml4 t) t \<noteq> 0"

lemma init_memory_outcome:
  fixes s :: "'a console_scheme"
  assumes mem: "memory_ready s" and scr: "screen_ready (mc_font mc) s"
  shows "\<exists>t b m v hp vi h. init_memory mc s = Some t \<and>
    t = (with_screen (mc_font_addr mc) (mc_font mc) s)\<lparr>km_bitmap := b, pt_mem := m, vm_bytes := v, hp_heaps := hp, k_vmm := vi, k_heap := h\<rparr> \<and>
    wf_pmm t \<and> free_frames t \<subseteq> usable_frames s - {0} \<and> geometry_ok t \<and> (free_frames t \<noteq> {} \<longrightarrow> kernel_memory t)"
proof -
  obtain b where b: "init_pmm s = s\<lparr>k_vmm := (k_vmm s)\<lparr>vm_p4_tbl := km_pml4 s\<rparr>, km_bitmap := b\<rparr>" using init_pmm_only by blast
  let ?s1 = "init_pmm s"
  have f1: "km_pml4 ?s1 = km_pml4 s" "usable_frames ?s1 = usable_frames s" "screen_ready (mc_font mc) ?s1"
    "vm_bytes ?s1 = vm_bytes s" "fb_buffer ?s1 = fb_buffer s" "fb_bytes ?s1 = fb_bytes s" "vm_p4_tbl (k_vmm ?s1) = km_pml4 s"
    using scr by (simp_all add: b screen_ready_def fb_bytes_def usable_frames_def mmap_entries_def)
  have wf1: "wf_pmm ?s1" using mem by (intro init_pmm_wf) (simp_all add: memory_ready_def)
  have fr1: "free_frames ?s1 \<subseteq> usable_frames s - {0}"
    using init_pmm_free [of s] mem by (auto simp: memory_ready_def)
  have inv1: "pt_inv (km_pml4 ?s1) ?s1" using mem f1(1) by (simp add: memory_ready_def)
  obtain t2 b2 m2 v2 where t2: "init_framebuffer (mc_font_addr mc) (mc_font mc) ?s1 = Some t2"
    "t2 = (with_screen (mc_font_addr mc) (mc_font mc) ?s1)\<lparr>km_bitmap := b2, pt_mem := m2, vm_bytes := v2\<rparr>"
    "wf_pmm t2" "free_frames t2 \<subseteq> free_frames ?s1" "geometry_ok t2"
    "\<forall>a. a \<notin> span (fb_buffer ?s1) (fb_bytes ?s1) \<longrightarrow> vm_bytes t2 a = vm_bytes ?s1 a"
    "free_frames t2 \<noteq> {} \<longrightarrow> pt_inv (km_pml4 ?s1) t2"
  proof -
    have "free_frames ?s1 \<subseteq> usable_frames ?s1" using fr1 f1(2) by auto
    from init_framebuffer_ready [OF wf1 inv1 f1(3) this, of "mc_font_addr mc"] that show ?thesis by blast
  qed
  have f2: "km_mem_pages t2 = km_mem_pages s" "k_vmm t2 = (k_vmm s)\<lparr>vm_p4_tbl := km_pml4 s\<rparr>" "km_pml4 t2 = km_pml4 s"
    by (simp_all add: t2(2) with_screen_def b)
  let ?n = "km_mem_pages s" and ?vi0 = "k_vmm t2"
  obtain vi1 t3 where t3: "init_vmm Supervisor ?n ?vi0 t2 = Some (vi1, t3)" "wf_pmm t3" "free_frames t3 \<subseteq> free_frames t2"
    using init_vmm_total [OF t2(3)] by blast
  have st3: "space_only t2 t3" "flags_ok vi1" using init_vmm_steps [OF t2(3), of Supervisor ?n ?vi0] t3(1) by auto
  let ?t3 = "t3\<lparr>k_vmm := vi1\<rparr>"
  have wf3: "wf_pmm ?t3" using t3(2) by simp
  obtain h vi2 t4 where t4: "heap_add 1 HEAP_DEFAULT_BS vi1 NULL ?t3 = Some (h, vi2, t4)" "wf_pmm t4" "space_only ?t3 t4"
    using heap_add_steps [OF wf3 st3(2)] by blast
  let ?t = "t4\<lparr>k_vmm := vi2, k_heap := h\<rparr>"
  have call: "init_memory mc s = Some ?t"
    using t2(1) t3(1) t4(1) by (simp add: init_memory_def Let_def f2(1))
  obtain b3 m3 v3 h3 where e3: "t3 = t2\<lparr>km_bitmap := b3, pt_mem := m3, vm_bytes := v3, hp_heaps := h3\<rparr>"
    using st3(1) unfolding space_only_def by blast
  obtain b4 m4 v4 h4 where e4: "t4 = ?t3\<lparr>km_bitmap := b4, pt_mem := m4, vm_bytes := v4, hp_heaps := h4\<rparr>"
    using t4(3) unfolding space_only_def by blast
  have shape: "?t = (with_screen (mc_font_addr mc) (mc_font mc) s)\<lparr>km_bitmap := b4, pt_mem := m4, vm_bytes := v4, hp_heaps := h4, k_vmm := vi2, k_heap := h\<rparr>"
    by (simp add: e4 e3 t2(2) with_screen_def b)
  have ft: "free_frames ?t = free_frames t4" "wf_pmm ?t" "pt_read ?t = pt_read t4" "km_pml4 ?t = km_pml4 s" "km_mem_pages ?t = ?n"
    using t4(2) f2 by (simp_all add: free_frames_def frame_used_def wf_pmm_def pt_read_def fun_eq_iff e4 e3)
  have fr4: "free_frames t4 \<subseteq> free_frames t3"
  proof -
    obtain h' vi' t' where "valloc 1 vi1 ?t3 = Some (h', vi', t')" "free_frames t' \<subseteq> free_frames ?t3"
      using vmm_total [OF wf3 st3(2), of 1] by blast
    then show ?thesis using t4(1) by (auto simp: heap_add_def Let_def case_prod_beta free_frames_def frame_used_def)
  qed
  have geo: "geometry_ok ?t"
    using t2(5) by (simp add: geometry_ok_def fb_bytes_def e4 e3)
  have km: "kernel_memory ?t" if ne: "free_frames ?t \<noteq> {}"
  proof -
    have ne4: "free_frames t4 \<noteq> {}" using ne ft(1) by simp
    then have "free_frames t2 \<noteq> {}" using fr4 t3(3) by auto
    then have inv2: "pt_inv (vm_p4_tbl ?vi0) t2" using t2(7) f1 f2 by simp
    have zero: "\<forall>a\<in>span HIGHER_HALF_OFFSET (unat ?n * 4096). vm_bytes t2 a = 0"
    proof
      fix a assume a: "a \<in> span HIGHER_HALF_OFFSET (unat ?n * 4096)"
      have n: "unat ?n < 2 ^ 34" and z: "vm_bytes s a = 0" using mem a by (simp_all add: memory_ready_def)
      have "2 ^ 64 - 2 ^ 47 \<le> unat a" using a n by (subst (asm) span_nowrap) (auto simp: unat_higher_half)
      moreover have fb: "unat (fb_buffer s) + fb_bytes s \<le> 2 ^ 47" using scr by (simp add: screen_ready_def)
      ultimately have "a \<notin> span (fb_buffer s) (fb_bytes s)" by (subst span_nowrap) auto
      then show "vm_bytes t2 a = 0" using t2(6) f1 z by simp
    qed
    have n: "1 < unat ?n" "unat ?n < 2 ^ 34" using mem by (simp_all add: memory_ready_def)
    note k = kernel_heap_ready [OF t2(3) inv2 n zero t3(1) t4(1) ne4]
    have p4: "vm_p4_tbl ?vi0 = km_pml4 s" by (simp add: f2)
    have "pt_inv (km_pml4 s) ?t" using k [THEN conjunct2, THEN conjunct1] unfolding p4 by (rule pt_inv_read) (simp_all only: ft)
    moreover have "translate_addr h (km_pml4 s) ?t = translate_addr h (km_pml4 s) t4"
      by (rule translate_addr_cong [OF ft(3)]) simp
    ultimately show ?thesis using k unfolding p4 kernel_memory_def ft(4,5)
      by (simp add: heap_ok_def heap_area_def)
  qed
  have "free_frames ?t \<subseteq> usable_frames s - {0}" using fr4 t3(3) t2(4) fr1 ft(1) by auto
  with call shape ft(2) geo km show ?thesis by blast
qed

section \<open>A machine with its tables in place\<close>

lemma valid_page_path: "valid_path (fst (page v))" "length (fst (page v)) = 3" "P1_ENTRY v < 512"
  using valid_page_page(1) [of v] by (auto simp: valid_page_def page_def)

lemma map_present:
  fixes s :: "'a paging_scheme"
  assumes inv: "pt_inv p4 s" and w: "walk s p4 (fst (page v)) = Some u" and nz: "p \<noteq> 0" "v \<noteq> 0"
  shows "\<exists>t. map_addr p v fl p4 s = Some t \<and> free_frames t = free_frames s \<and> (\<forall>q. valid_path q \<longrightarrow> walk t p4 q = walk s p4 q)"
proof -
  obtain g where g: "u = frame_addr g" "g < 2 ^ 35" using pt_invE [OF inv valid_page_path(1) w] .
  have "walk (pt_write u (P1_ENTRY v) x s) p4 q = walk s p4 q" if "valid_path q" for q x
    unfolding g(1) by (rule leaf_write_walk [OF inv valid_page_path(1,2) w [unfolded g(1)] g(2) valid_page_path(3) that])
  then show ?thesis using map_addr_present [OF nz w] by simp
qed

text \<open>One fresh page where the tables exist costs one frame.\<close>

lemma map_fresh_present:
  fixes s :: "'a paging_scheme"
  assumes wf: "wf_pmm s" and inv: "pt_inv p4 s" and ne: "free_frames s \<noteq> {}" and w: "walk s p4 (fst (page v)) = Some u" and v: "v \<noteq> 0"
    and call: "map_fresh alloc_frame (\<lambda>p v. map_addr p v fl p4) 1 v s = Some t"
  shows "free_frames t = free_frames s - {Min (free_frames s)}" "valid_path q \<Longrightarrow> walk t p4 q = walk s p4 q"
proof -
  obtain a where a: "alloc_frame s = Some (frame_addr (Min (free_frames s)), a)" "free_frames a = free_frames s - {Min (free_frames s)}"
    using pmm.alloc_some [OF wf ne] by blast
  have r: "pt_read a = pt_read s" using alloc_frame_pt [OF a(1)] by simp
  have ia: "pt_inv p4 a" using pt_inv_read [OF inv r] a(2) by simp
  have wa: "walk a p4 (fst (page v)) = Some u" using w walk_pt_read [OF r] by simp
  have "Min (free_frames s) \<in> free_frames s" using ne by (simp add: Min_in)
  then have nz: "frame_addr (Min (free_frames s)) \<noteq> 0"
    using free_frame_bound [OF wf] unat_frame_addr [of "Min (free_frames s)"] by fastforce
  have "map_addr (frame_addr (Min (free_frames s))) v fl p4 a = Some t"
    using call a(1) by (simp add: map_fresh_def)
  with map_present [OF ia wa nz v, of fl] obtain
    t: "free_frames t = free_frames a" "\<forall>q. valid_path q \<longrightarrow> walk t p4 q = walk a p4 q" by auto
  show "free_frames t = free_frames s - {Min (free_frames s)}" using t(1) a(2) by simp
  show "valid_path q \<Longrightarrow> walk t p4 q = walk s p4 q" using t(2) walk_pt_read [OF r] by simp
qed

text \<open>
  A machine with 127 pages of memory of which the frames 11 to 15 are usable, the tables of \<open>demo_high\<close>, and a screen of 32 by 16
  pixels at 1 MiB.
\<close>

definition demo_start :: console where
  "demo_start = demo_console\<lparr>km_mmap := (\<lambda>_. demo_desc\<lparr>md_physical_start := 0xB000, md_count := 5\<rparr>),
     km_mmap_size := 48, km_mmap_desc_size := 48, km_bitmap_entries := 2, km_mem_pages := 127, km_pml4 := demo_p4, pt_mem := pt_mem demo_high, vm_bytes := (\<lambda>_. 0),
     fb_buffer := 0x100000, fb_horizontal_res := 32, fb_vertical_res := 16, fb_pixels_per_scanline := 32\<rparr>"

definition demo_machine :: machine where
  "demo_machine = \<lparr>mc_dev = (\<lambda>_. 0), mc_isr = (\<lambda>i. 0xFFFFFFFF80001000 + 16 * of_nat i), mc_stubs = (\<lambda>e. 0xFFFFFFFF80002000 + 16 * ucast e),
     mc_font_addr = 0xFFFFFFFF80003000, mc_font = demo_font, mc_x2ApicLeaf = 0, mc_xApicLeaf = 0x200, mc_rsp = 0xFFFF800000020000,
     mc_signals = (\<lambda>_. False), mc_ap_trampoline = 0xFFFFFFFF80004000, mc_gdtr = 0xFFFFFFFF80005000, mc_idtr = 0xFFFFFFFF80006000,
     mc_thread_wrapper = 0xFFFFFFFF80007000, mc_idle_name = 0xFFFFFFFF80008000, mc_idle = 0xFFFFFFFF80009000\<rparr>"

lemma demo_start_sel [simp]:
  "km_mmap demo_start = (\<lambda>_. demo_desc\<lparr>md_physical_start := 0xB000, md_count := 5\<rparr>)" "km_pml4 demo_start = demo_p4"
  "km_mmap_size demo_start = 48" "km_mmap_desc_size demo_start = 48" "km_bitmap_entries demo_start = 2" "km_mem_pages demo_start = 127"
  "pt_mem demo_start = pt_mem demo_high" "vm_bytes demo_start = (\<lambda>_. 0)" "fb_buffer demo_start = 0x100000"
  "fb_horizontal_res demo_start = 32" "fb_vertical_res demo_start = 16" "fb_pixels_per_scanline demo_start = 32" "fb_bpp demo_start = 4"
  by (simp_all add: demo_start_def)

lemma demo_start_frames:
  "mmap_ok demo_start" "usable_frames demo_start = {11, 12, 13, 14, 15}" "free_frames (init_pmm demo_start) = {11, 12, 13, 14, 15}"
proof -
  have e: "mmap_entries demo_start = 1" by (simp add: mmap_entries_def)
  show ok: "mmap_ok demo_start" by (simp add: mmap_ok_def e area_ok_def demo_desc_def)
  show u: "usable_frames demo_start = {11, 12, 13, 14, 15}"
    unfolding usable_frames_def e by (auto simp: demo_desc_def usable_desc_def area_frames_def)
  have "unat (km_bitmap_entries demo_start) = 2" by simp
  then have "free_frames (init_pmm demo_start) = {f \<in> {11, 12, 13, 14, 15}. 0 < f \<and> f < 64 * 2}"
    by (simp only: init_pmm_free [OF ok] u)
  also have "\<dots> = {11, 12, 13, 14, 15}" by auto
  finally show "free_frames (init_pmm demo_start) = {11, 12, 13, 14, 15}" .
qed

lemma demo_start_tables:
  "pt_inv demo_p4 (init_pmm demo_start)" "walk (init_pmm demo_start) demo_p4 [256, 0, 0] = Some (frame_addr 10)"
  "walk (init_pmm demo_start) demo_p4 [0, 0, 0] = Some (frame_addr 5)"
proof -
  obtain b where b: "init_pmm demo_start = demo_start\<lparr>k_vmm := (k_vmm demo_start)\<lparr>vm_p4_tbl := km_pml4 demo_start\<rparr>, km_bitmap := b\<rparr>"
    using init_pmm_only by blast
  then have r: "pt_read (init_pmm demo_start) = pt_read demo_high" by (simp add: pt_read_def fun_eq_iff)
  show "pt_inv demo_p4 (init_pmm demo_start)"
    by (rule pt_inv_read [OF demo_high_ok(2) r]) (simp add: demo_start_frames demo_high_ok)
  show "walk (init_pmm demo_start) demo_p4 [256, 0, 0] = Some (frame_addr 10)"
    "walk (init_pmm demo_start) demo_p4 [0, 0, 0] = Some (frame_addr 5)"
    unfolding walk_pt_read [OF r] by (rule demo_high_ok)+
qed

lemma demo_start_ready: "memory_ready demo_start" "screen_ready (mc_font demo_machine) demo_start"
proof -
  show "memory_ready demo_start"
    using demo_start_frames demo_start_tables(1) by (simp add: memory_ready_def)
  show "screen_ready (mc_font demo_machine) demo_start"
    using demo_start_frames(2) by (simp add: screen_ready_def demo_machine_def demo_font_def fb_bytes_def)
qed

lemma init_bitmap_free: "free_frames (s\<lparr>vm_bytes := v, hp_heaps := h\<rparr>) = free_frames s"
  by (simp add: free_frames_def frame_used_def)

text \<open>Its framebuffer is one page under tables that exist, and the id table and the first region cost a frame each.\<close>

lemma demo_framebuffer:
  assumes "init_framebuffer fa demo_font (init_pmm demo_start) = Some t"
  shows "free_frames t = {11, 12, 13, 14, 15}" "walk t demo_p4 [256, 0, 0] = Some (frame_addr 10)" "pt_inv demo_p4 t" "wf_pmm t"
proof -
  let ?s = "init_pmm demo_start"
  have s: "wf_pmm ?s" "fb_buffer ?s = 0x100000" "line_bytes ?s = 128" "fb_vertical_res ?s = 16" "km_pml4 ?s = demo_p4" "km_mem_pages ?s = 127"
    using init_pmm_only [of demo_start] init_pmm_wf [OF demo_start_frames(1)] demo_start_frames(2) by (auto simp: line_bytes_def)
  define s0 where "s0 = ?s\<lparr>loaded_font := fa, font_header := demo_font,
     screen_num_cols := ucast (fb_horizontal_res ?s div psf_width demo_font),
     screen_num_rows := ucast (fb_vertical_res ?s div psf_height demo_font)\<rparr>"
  have s0: "free_frames s0 = {11, 12, 13, 14, 15}" "pt_read s0 = pt_read ?s" "fb_buffer s0 = 0x100000" "line_bytes s0 = 128"
    "fb_vertical_res s0 = 16" "km_pml4 s0 = demo_p4" "km_mem_pages s0 = 127" "wf_pmm s0"
    using s demo_start_frames(3) by (simp_all add: s0_def free_frames_def frame_used_def pt_read_def fun_eq_iff line_bytes_def wf_pmm_def)
  have i0: "pt_inv demo_p4 s0" by (rule pt_inv_read [OF demo_start_tables(1) s0(2)]) (simp add: s0 demo_start_frames)
  have low: "fst (page 0x100000) = [0, 0, 0]" by (rule demo_low_page) simp
  have wk: "walk s0 demo_p4 (fst (page 0x100000)) = Some (frame_addr 5)"
    unfolding low walk_pt_read [OF s0(2)] by (rule demo_start_tables(3))
  have one: "SIZE_TO_PAGES (2048 :: u64) = 1" "unat (1 :: u64) = 1" by (simp_all add: SIZE_TO_PAGES_def DIV_CEIL_def kconst)
  obtain u where u: "map_addr 0x100000 0x100000 KERNEL_PT_ENTRY demo_p4 s0 = Some u" "free_frames u = free_frames s0"
      "\<forall>q. valid_path q \<longrightarrow> walk u demo_p4 q = walk s0 demo_p4 q"
    using map_present [OF i0 wk, of "0x100000" KERNEL_PT_ENTRY] by auto
  have u2: "wf_pmm u" "pt_only s0 u" using map_addr_shrinks [OF s0(8), of "0x100000" "0x100000" KERNEL_PT_ENTRY demo_p4] u(1) by (auto simp: shrinks_def)
  have fu: "fb_buffer u = 0x100000" "km_mem_pages u = 127" using u2(2) s0 by (auto simp: pt_only_def)
  define w where "w = pmm_set_bit 0x100000 u"
  have w: "free_frames w = free_frames u" "pt_read w = pt_read u" "wf_pmm w"
  proof -
    have e: "km_bitmap_entries w = km_bitmap_entries u" "km_mem_pages w = km_mem_pages u" by (simp_all add: w_def pmm_set_bit_def Let_def)
    have "frame_used w f = frame_used u f" for f
      unfolding w_def frame_used_set_bit using fu(2) by (auto simp: kconst)
    then show f: "free_frames w = free_frames u" by (simp add: free_frames_def e)
    show "wf_pmm w" using u2(1) by (simp add: wf_pmm_def f e)
    show "pt_read w = pt_read u" by (simp add: w_def pmm_set_bit_def Let_def pt_read_def fun_eq_iff)
  qed
  have t: "t = clear_screen (w\<lparr>char_printer := Printer_fb\<rparr>)"
    using assms u(1) unfolding init_framebuffer_def Let_def s0_def [symmetric]
    by (simp add: map_framebuffer_def s0 one map_range_def pmm_set_area_def fu w_def Let_def)
  have ft: "free_frames t = free_frames w" "pt_read t = pt_read w" "wf_pmm t"
    using w(3) by (simp_all add: t clear_screen_def wf_pmm_def free_frames_def frame_used_def pt_read_def fun_eq_iff)
  show "free_frames t = {11, 12, 13, 14, 15}" using ft(1) w(1) u(2) s0(1) by simp
  have wt: "walk t demo_p4 q = walk s0 demo_p4 q" if "valid_path q" for q
    using u(3) that walk_pt_read [of t u] ft(2) w(2) by simp
  then show "walk t demo_p4 [256, 0, 0] = Some (frame_addr 10)"
    using demo_start_tables(2) walk_pt_read [OF s0(2)] by (simp del: walk.simps)
  show "pt_inv demo_p4 t" using pt_inv_same [OF i0 wt] ft(1) w(1) u(2) by simp
  show "wf_pmm t" by (rule ft(3))
qed

lemma demo_page_manager:
  fixes s t :: "'a kheap_scheme"
  assumes call: "init_vmm Supervisor 127 vi s = Some (vi', t)" and vi: "vm_p4_tbl vi = demo_p4" and z: "\<forall>a\<in>span HIGHER_HALF_OFFSET (127 * 4096). vm_bytes s a = 0"
    and s: "free_frames s = {11, 12, 13, 14, 15}" "walk s demo_p4 [256, 0, 0] = Some (frame_addr 10)" "pt_inv demo_p4 s" "wf_pmm s"
  shows "free_frames t = {12, 13, 14, 15}" "walk t demo_p4 [256, 0, 0] = Some (frame_addr 10)" "pt_inv demo_p4 t" "wf_pmm t"
    "vm_p4_tbl vi' = demo_p4" "vmm_ok (vm_bytes t) vi'" "valloc 1 vi' (t\<lparr>k_vmm := vi'\<rparr>) = Some (h, vi2, u) \<Longrightarrow> h = HIGHER_HALF_OFFSET + PAGE_SIZE"
proof -
  have one: "unat (DIV_CEIL (127 :: u64) PAGE_SIZE) = 1" by (simp add: DIV_CEIL_def kconst)
  obtain x where x: "map_fresh alloc_frame (\<lambda>p v. map_addr p v KERNEL_PT_ENTRY demo_p4) 1 HIGHER_HALF_OFFSET s = Some x"
    and t: "\<exists>m. t = x\<lparr>vm_bytes := m\<rparr>"
    using call by (auto simp: init_vmm_def one vi Let_def bind_eq_Some_conv case_prod_beta)
  have ne: "free_frames s \<noteq> {}" by (simp add: s)
  have hh: "fst (page HIGHER_HALF_OFFSET) = [256, 0, 0]" by (simp add: page_def kmacro kconst)
  note f = map_fresh_present [OF s(4,3) ne s(2) [folded hh] unat_higher_half(2) x]
  obtain m where m: "t = x\<lparr>vm_bytes := m\<rparr>" using t by blast
  show ft: "free_frames t = {12, 13, 14, 15}" using f(1) by (simp add: m s)
  have "valid_path [256, 0, 0]" by simp
  then show "walk t demo_p4 [256, 0, 0] = Some (frame_addr 10)" using f(2) s(2) by (simp add: m del: walk.simps)
  have get0: "get_bm (vm_bytes s) HIGHER_HALF_OFFSET i = 0" if "i < unat (127 :: u64)" for i
    using that z span_offset [of "i div 4" HIGHER_HALF_OFFSET "127 * 4096"] by (simp add: get_bm_eq)
  have k: "vmm_ok (vm_bytes t) vi' \<and> wf_pmm t \<and> pt_inv (vm_p4_tbl vi') t \<and> bm_tblocks (vm_bm vi') = unat (127 :: u64) \<and>
      bm_used_blocks (vm_bytes t) (vm_bm vi') = {..<bm_reserved (vm_bm vi')} \<and>
      (\<forall>i<bm_reserved (vm_bm vi'). translate_addr (HIGHER_HALF_OFFSET + of_nat i * PAGE_SIZE) (vm_p4_tbl vi') t \<noteq> 0)"
    by (rule init_vmm_kernel [OF s(4) _ _ _ get0 call]) (simp_all add: vi s(3) ft)
  show p4: "vm_p4_tbl vi' = demo_p4" using init_vmm_steps [OF s(4), of Supervisor 127 vi] call vi by auto
  show ok: "vmm_ok (vm_bytes t) vi'" and "wf_pmm t" using k by blast+
  show "pt_inv demo_p4 t" using k p4 by simp
  have b: "bmp_bm (vm_bm vi') = HIGHER_HALF_OFFSET" "region_ok (vm_bm vi')" "bmp_bsize (vm_bm vi') = PAGE_SIZE" "bm_tblocks (vm_bm vi') = 127"
    using k call by (auto simp: vmm_ok_def wf_bitmap_def init_vmm_def Let_def init_bitmap_eq bind_eq_Some_conv split: prod.splits)
  have r: "bm_reserved (vm_bm vi') = 1" using bm_reserved_eq [OF b(2)] by (simp add: b(3,4)) (simp add: kconst)
  show "h = HIGHER_HALF_OFFSET + PAGE_SIZE" if "valloc 1 vi' (t\<lparr>k_vmm := vi'\<rparr>) = Some (h, vi2, u)"
    using fresh_valloc(1) [of "t\<lparr>k_vmm := vi'\<rparr>", OF _ _ _ that] k by (simp add: r b bm_addr_def)
qed

lemma demo_memory_left:
  assumes "init_memory demo_machine demo_start = Some t"
  shows "free_frames t = {13, 14, 15}"
proof -
  have fo: "mc_font demo_machine = demo_font" by (simp add: demo_machine_def)
  let ?s1 = "init_pmm demo_start"
  obtain b where b: "?s1 = demo_start\<lparr>k_vmm := (k_vmm demo_start)\<lparr>vm_p4_tbl := km_pml4 demo_start\<rparr>, km_bitmap := b\<rparr>"
    using init_pmm_only by blast
  have s1: "wf_pmm ?s1" "pt_inv (km_pml4 ?s1) ?s1" "screen_ready demo_font ?s1" "free_frames ?s1 \<subseteq> usable_frames ?s1"
  proof -
    show "wf_pmm ?s1" using init_pmm_wf [OF demo_start_frames(1)] demo_start_frames(2) by simp
    show "pt_inv (km_pml4 ?s1) ?s1" using demo_start_tables(1) b by simp
    have "usable_frames ?s1 = usable_frames demo_start" by (simp add: b usable_frames_def mmap_entries_def)
    then show "free_frames ?s1 \<subseteq> usable_frames ?s1" "screen_ready demo_font ?s1"
      using demo_start_frames demo_start_ready(2) by (simp_all add: fo screen_ready_def) (simp_all add: b fb_bytes_def)
  qed
  obtain t2 b2 m2 v2 where t2: "init_framebuffer (mc_font_addr demo_machine) demo_font ?s1 = Some t2"
    "t2 = (with_screen (mc_font_addr demo_machine) demo_font ?s1)\<lparr>km_bitmap := b2, pt_mem := m2, vm_bytes := v2\<rparr>"
    "\<forall>a. a \<notin> span (fb_buffer ?s1) (fb_bytes ?s1) \<longrightarrow> vm_bytes t2 a = vm_bytes ?s1 a"
    using init_framebuffer_ready [OF s1, of "mc_font_addr demo_machine"] by blast
  note f = demo_framebuffer [OF t2(1)]
  have e: "km_mem_pages t2 = 127" "vm_p4_tbl (k_vmm t2) = demo_p4" by (simp_all add: t2(2) with_screen_def b)
  have z: "\<forall>a\<in>span HIGHER_HALF_OFFSET (127 * 4096). vm_bytes t2 a = 0"
  proof
    fix a assume "a \<in> span HIGHER_HALF_OFFSET (127 * 4096)"
    then have "2 ^ 64 - 2 ^ 47 \<le> unat a" by (subst (asm) span_nowrap) (auto simp: unat_higher_half)
    then have "a \<notin> span (fb_buffer ?s1) (fb_bytes ?s1)" by (subst span_nowrap) (auto simp: b fb_bytes_def)
    then show "vm_bytes t2 a = 0" using t2(3) by (simp add: b)
  qed
  obtain vi1 t3 h vi2 t4 where c: "init_vmm Supervisor 127 (k_vmm t2) t2 = Some (vi1, t3)"
    "heap_add 1 HEAP_DEFAULT_BS vi1 NULL (t3\<lparr>k_vmm := vi1\<rparr>) = Some (h, vi2, t4)" "t = t4\<lparr>k_vmm := vi2, k_heap := h\<rparr>"
    using assms by (auto simp: init_memory_def fo t2(1) e Let_def bind_eq_Some_conv)
  note p = demo_page_manager [OF c(1) e(2) z f]
  obtain u where va: "valloc 1 vi1 (t3\<lparr>k_vmm := vi1\<rparr>) = Some (h, vi2, u)" "free_frames t4 = free_frames u"
    using c(2) by (auto simp: heap_add_def bind_eq_Some_conv Let_def case_prod_beta init_bitmap_free)
  note h = p(7) [OF va(1)]
  obtain m where mf: "map_fresh alloc_frame (\<lambda>p v. map_addr p v (vm_flags vi1) demo_p4) 1 h (t3\<lparr>k_vmm := vi1, vm_bytes := m\<rparr>) = Some u"
    using va(1) by (auto simp: valloc_def Let_def bind_eq_Some_conv p(5) split: prod.splits)
  let ?x = "t3\<lparr>k_vmm := vi1, vm_bytes := m\<rparr>"
  have rx: "pt_read ?x = pt_read t3" "free_frames ?x = free_frames t3" "wf_pmm ?x"
    using p(4) by (simp_all add: pt_read_def fun_eq_iff)
  have ix: "pt_inv demo_p4 ?x" by (rule pt_inv_read [OF p(3) rx(1)]) (simp add: rx(2))
  have hp: "fst (page h) = [256, 0, 0]" "h \<noteq> 0" unfolding h by (simp_all add: page_def kmacro kconst)
  have wx: "walk ?x demo_p4 (fst (page h)) = Some (frame_addr 10)" unfolding hp walk_pt_read [OF rx(1)] by (rule p(2))
  have "free_frames u = free_frames ?x - {Min (free_frames ?x)}"
    by (rule map_fresh_present(1) [OF rx(3) ix _ wx hp(2) mf]) (simp add: p(1))
  then have "free_frames u = {13, 14, 15}" unfolding rx(2) p(1) by auto
  moreover have "free_frames t = free_frames t4" unfolding c(3) by (simp add: free_frames_def frame_used_def)
  ultimately show ?thesis using va(2) by simp
qed

section \<open>Gates\<close>

lemma load_exceptions_gates:
  "k_idt (for_upto n (\<lambda>i. IDT_SET_INT (of_nat i) 0 (isr i)) s) j =
    (if j < n \<and> n \<le> 32 then \<lparr>id_offset0 = ucast (isr j), id_segment_selector = 8, id_ist = 0, id_flags = 0x8E,
       id_offset1 = ucast (drop_bit 16 (isr j)), id_offset2 = ucast (drop_bit 32 (isr j)), id_rsv = 0\<rparr> else k_idt s j)"
  if "n \<le> 32"
  using that
proof (induction n)
  case (Suc n)
  then have "unat (of_nat n :: u16) = n" by (simp add: unat_of_nat)
  with Suc show ?case by (auto simp: IDT_SET_INT_def set_idt_entry_gate less_Suc_eq)
qed simp

definition open_to_user :: "idt_desc_t \<Rightarrow> bool" where
  "open_to_user d \<longleftrightarrow> id_flags d AND 0x60 = 0x60"

section \<open>Waiting for the other side\<close>

lemma calibrate_hangs:
  assumes "length (filter ((=) Irq_pit) irqs) < 500"
  shows "calibrate_apic_timer dev irqs s = None"
proof -
  define u where "u = write_apic_register APIC_TIMER_INITIAL_COUNT_OFF 0xFFFFFFFF (set_irq_mask dev 0 False
    ((write_apic_register APIC_TIMER_CONFIG_OFF APIC_TIMER_DIVIDER (write_apic_register APIC_TIMER_INITIAL_COUNT_OFF 0
      (outb PIT_CHANNEL_0_DATA_PORT (ucast (drop_bit 8 PIT_1_MS AND 0xFF)) (outb PIT_CHANNEL_0_DATA_PORT (ucast (PIT_1_MS AND 0xFF))
        (outb PIT_MODE_COMMAND_REGISTER 0b00110100 (set_irq 0 PIT_IDT_ENTRY 0 0 True s))))))\<lparr>lapic_pit_ticks := 0\<rparr>))"
  have "lapic_pit_ticks u = 0" by (simp add: u_def lapic_frame)
  then have "wait_until (\<lambda>s. \<not> lapic_pit_ticks s < 500) irqs u = None" using wait_pit [of u irqs] assms by simp
  then show ?thesis by (simp add: calibrate_apic_timer_def measure_apic_timer_def Let_def u_def)
qed

section \<open>Going to sleep\<close>

lemma apic_periodic_handler_eq:
  assumes "apic_periodic_handler dev status s = (r, t)"
  shows "r = t_ef (k_threads s (smp_idle s))" "smp_cpus t = smp_cpus (cpu_update (\<lambda>c. c\<lparr>c_ticks := c_ticks c + 1\<rparr>) s)" "k_CPU t = k_CPU s"
    "p \<noteq> smp_idle s \<Longrightarrow> k_threads t p = k_threads s p"
  using assms read_apic_register_io [of dev APIC_TIMER_LVT_OFFSET "cpu_update (\<lambda>c. c\<lparr>c_ticks := c_ticks c + 1\<rparr>) s"]
  by (auto simp: apic_periodic_handler_def schedule_def ready_thread_def state_ops Let_def io_write_def APIC_EOI_def write_apic_register_def
      wrmsr_def mmio_write_def split: prod.splits)

section \<open>Properties\<close>



text \<open>
  C30. Before any other component runs, \<^verbatim>\<open>init_kernel\<close> has installed the interrupt gates: every processor exception goes to its own
  handler, the system call gate is a trap gate and the only one user mode may enter, the inter-processor gate is for the kernel, and
  every other vector is absent.
\<close>
theorem init_tables_gates:
  "let t = init_tables mc s in
     (\<forall>i<32. gate_handler (k_idt t i) = mc_isr mc i \<and> id_flags (k_idt t i) = 0x8E) \<and>
     gate_handler (k_idt t 0x80) = mc_stubs mc 0x80 \<and> id_flags (k_idt t 0x80) = 0xEF \<and>
     gate_handler (k_idt t 0x81) = mc_stubs mc 0x81 \<and> id_flags (k_idt t 0x81) = 0x8E \<and>
     (\<forall>i<256. i \<ge> 32 \<longrightarrow> i \<noteq> 0x80 \<longrightarrow> i \<noteq> 0x81 \<longrightarrow> k_idt t i = zero_gate) \<and>
     (\<forall>i<256. open_to_user (k_idt t i) \<longleftrightarrow> i = 0x80)"
proof -
  define s0 where "s0 = (init_gdt (init_qemu s))\<lparr>k_idt := (\<lambda>i. if i < 256 then zero_gate else k_idt (init_gdt (init_qemu s)) i)\<rparr>"
  have "k_idt (init_tables mc s) i =
    (if i = 0x81 then \<lparr>id_offset0 = ucast (mc_stubs mc 0x81), id_segment_selector = 8, id_ist = 0, id_flags = 0x8E,
        id_offset1 = ucast (drop_bit 16 (mc_stubs mc 0x81)), id_offset2 = ucast (drop_bit 32 (mc_stubs mc 0x81)), id_rsv = 0\<rparr>
     else if i = 0x80 then \<lparr>id_offset0 = ucast (mc_stubs mc 0x80), id_segment_selector = 8, id_ist = 0, id_flags = 0xEF,
        id_offset1 = ucast (drop_bit 16 (mc_stubs mc 0x80)), id_offset2 = ucast (drop_bit 32 (mc_stubs mc 0x80)), id_rsv = 0\<rparr>
     else if i < 32 then \<lparr>id_offset0 = ucast (mc_isr mc i), id_segment_selector = 8, id_ist = 0, id_flags = 0x8E,
        id_offset1 = ucast (drop_bit 16 (mc_isr mc i)), id_offset2 = ucast (drop_bit 32 (mc_isr mc i)), id_rsv = 0\<rparr>
     else zero_gate)" if "i < 256" for i
    using that load_exceptions_gates [of 32 "mc_isr mc" s0 i]
    by (simp add: init_tables_def init_idt_def load_exceptions_def IDT_SET_TRAP_def IDT_SET_INT_def set_idt_entry_gate s0_def Let_def kconst)
  then show ?thesis
    by (simp add: Let_def gate_handler_def split_address open_to_user_def zero_gate_def)
qed

theorem init_tables_gates_witness:
  "gate_handler (k_idt (init_tables demo_machine demo_start) 14) = 0xFFFFFFFF800010E0 \<and>
   open_to_user (k_idt (init_tables demo_machine demo_start) 0x80) \<and> \<not> open_to_user (k_idt (init_tables demo_machine demo_start) 14)"
  using init_tables_gates [of demo_machine demo_start, unfolded Let_def] by (simp add: demo_machine_def)

text \<open>
  C32. \<^verbatim>\<open>init_kernel\<close> reaches its last loop only if the interval timer delivers: with fewer than 500 ticks among the interrupts that
  arrive it waits for ever in the calibration, whatever the machine and whatever else happens.
\<close>
theorem init_kernel_needs_timer:
  assumes "length (filter ((=) Irq_pit) irqs) < 500"
  shows "init_kernel mc kernel_info stack irqs s = None"
  by (simp add: init_kernel_def init_devices_def Let_def calibrate_hangs [OF assms] bind_eq_None_conv)

theorem init_kernel_needs_timer_witness:
  "init_kernel demo_machine demo_kernel 0x9000 (replicate 499 Irq_pit @ [Irq_oneshot]) (console.extend demo_start (smp.fields
     \<lparr>ap_pml4 = 0, ap_stack_top = 0, ap_gdtr = 0, ap_idtr = 0, ap_ready = 0\<rparr>)) = None"
  by (rule init_kernel_needs_timer) simp

text \<open>
  C31. A thread that calls \<^verbatim>\<open>thread_sleep\<close> goes to sleep and stays there: it is marked asleep with the wake-up time it asked for and the
  idle thread is resumed in its place, but it is not put into the list of sleepers, the only place from which a thread is woken, and it
  stays the current thread.
\<close>
theorem thread_sleep_strands:
  assumes "c_cur (this_cpu s) \<noteq> smp_idle s"
  shows "\<exists>t. thread_sleep dev status ms s = Some (t_ef (k_threads s (smp_idle s)), t) \<and>
    t_status (k_threads t (c_cur (this_cpu s))) = SLEEP \<and>
    t_wakeup_time (k_threads t (c_cur (this_cpu s))) = c_ticks (this_cpu s) + ms \<and>
    c_cur (this_cpu t) = c_cur (this_cpu s) \<and> c_wakeups (this_cpu t) = c_wakeups (this_cpu s) \<and>
    c_ticks (this_cpu t) = c_ticks (this_cpu s) + 1 \<and>
    (\<forall>p. p \<noteq> c_cur (this_cpu s) \<longrightarrow> p \<noteq> smp_idle s \<longrightarrow> k_threads t p = k_threads s p)"
proof -
  let ?cur = "c_cur (this_cpu s)"
  obtain u where u: "syscall status 1 [ms] s = Some u" "smp_cpus u = smp_cpus s" "k_CPU u = k_CPU s" "smp_idle u = smp_idle s"
    "k_threads u = (k_threads s)(?cur := (k_threads s ?cur)\<lparr>t_status := SLEEP, t_wakeup_time := c_ticks (this_cpu s) + ms\<rparr>)"
    by (simp add: syscall_def syscall_regs_def syscall_handler_def thread_sleep_syscall_def state_ops Let_def numeral_2_eq_2)
  obtain r t where t: "apic_periodic_handler dev status u = (r, t)" by (metis surj_pair)
  note h = apic_periodic_handler_eq [OF t]
  have cpu: "this_cpu t = (this_cpu s)\<lparr>c_ticks := c_ticks (this_cpu s) + 1\<rparr>"
    using h(2,3) u(2,3) by (simp add: this_cpu_def cpu_update_def)
  have "thread_sleep dev status ms s = Some (r, t)" using u(1) t by (simp add: thread_sleep_def thread_yield_def)
  then show ?thesis using h(1,4) u(4,5) cpu assms by auto
qed

theorem thread_sleep_strands_witness:
  "\<exists>t. thread_sleep (\<lambda>_. 0) 0x7000 2000 demo_kernel = Some (0x1900, t) \<and> t_status (k_threads t 0x100) = SLEEP \<and>
     t_wakeup_time (k_threads t 0x100) = 2005 \<and> c_wakeups (this_cpu t) = 0"
proof -
  have c: "this_cpu demo_kernel = demo_cpu 0x100 0 2" by (simp add: this_cpu_def)
  show ?thesis using thread_sleep_strands [of demo_kernel "\<lambda>_. 0" "0x7000" 2000] by (auto simp: c demo_thread_def)
qed

end
