(* ===== verification/Spec2Isabelle.thy ===== *)
theory Spec2Isabelle
  imports Boot_Main Rtc Kernel_Main
begin

text \<open>
  A verification development for pivot-os, a 64-bit x86 kernel in C, and the UEFI loader that starts it. Paths below are relative to \<^verbatim>\<open>src/\<close> of the repository.

  \<^bold>\<open>The program.\<close> The loader (\<^verbatim>\<open>src/boot\<close>) reads the kernel image and the firmware's memory map, sets up the first page
  tables and hands a \<^verbatim>\<open>kernel_info_t\<close> to \<^verbatim>\<open>init_kernel\<close> (\<^verbatim>\<open>src/kernel/kernel.c\<close>). The kernel then initialises, in
  this order, the serial port, the descriptor tables, the physical frame allocator, the framebuffer, the virtual
  memory manager and the heap, the ACPI tables, the task state segment, the local APIC, the I/O APIC and the APIC
  timer, creates the idle thread and starts the other processors. All components share one structure,
  \<^verbatim>\<open>kinfo\<close>, which the model has as one record that each theory extends.

  \<^bold>\<open>The theories\<close>, from the bottom up:
  \<^item> \<open>Kernel_Prelude\<close>: the word types, the macros and constants of \<^verbatim>\<open>include/kernel.h\<close>, loops (\<open>for_upto\<close>, \<open>for_opt\<close>),
    address ranges (\<open>span\<close>) and the collections \<open>kconst\<close> and \<open>kmacro\<close>.
  \<^item> \<open>Libc_String\<close>: \<^verbatim>\<open>libc/string.c\<close> over byte memory; \<open>ultoa\<close> writes the digits of a number, \<open>strcpy\<close> a copy.
  \<^item> \<open>Bitmap_Alloc\<close>: \<^verbatim>\<open>mem/bitmap.c\<close>, the first-fit block allocator with its table of 2-bit ids. The contract of an
    allocator is the locale \<open>block_allocator\<close>, interpreted on \<open>bm_alloc\<close> and \<open>bm_free\<close>; first fit, safety of every
    grant, disjointness over any history, and what release and reallocation fail to do.
  \<^item> \<open>Kernel_Info\<close>, \<open>Pmm\<close>: \<^verbatim>\<open>kinfo.mem\<close> and the frame bitmap of \<^verbatim>\<open>mem/pmm.c\<close>; the locale \<open>frame_allocator\<close>, the
    lowest free frame, distinctness, and the divergence of the search on large memories.
  \<^item> \<open>Paging\<close>, \<open>Page_Tables\<close>, \<open>Address_Space\<close>: the page-table half of \<^verbatim>\<open>mem/pmm.c\<close> over a memory of 64-bit words. Page
    tables are shown to be a tree of distinct frames; \<open>page_mapper\<close> extends \<open>frame_allocator\<close> and is interpreted on
    \<open>map_addr\<close>: the address maps, no other translation changes, the recursion ends.
  \<^item> \<open>Vmm\<close>, \<open>Heap_Alloc\<close>: \<^verbatim>\<open>mem/vmm.c\<close> and \<^verbatim>\<open>mem/heap.c\<close>, clients of both allocators: every page handed out has its own
    frame; the list of heap regions stays well formed and disjoint.
  \<^item> \<open>Kernel_State\<close>: the rest of \<^verbatim>\<open>kernel_info_t\<close>, threads, register frames, descriptor tables and the accesses to
    devices (ports, model-specific registers, memory-mapped registers) as a history; \<open>Linked_List\<close>: singly linked
    lists in a store; \<open>Lapic\<close>: the registers of the local APIC.
  \<^item> \<open>Scheduler\<close>: \<^verbatim>\<open>scheduler/scheduler.c\<close>; the run queues refine lists (locale \<open>run_queue\<close>), round robin reaches every
    thread, sleepers are kept in order; what \<open>schedule\<close> really does.
  \<^item> \<open>Framebuffer\<close>, \<open>Stdio\<close>: \<^verbatim>\<open>drivers/framebuffer.c\<close>, \<^verbatim>\<open>io/stdio.c\<close>, \<^verbatim>\<open>kernel/logging.c\<close>, \<^verbatim>\<open>kernel/progress.c\<close> and
    \<^verbatim>\<open>drivers/qemu.c\<close>. Printing stays inside the framebuffer; \<open>vprintf\<close> emits the rendering of its format.
  \<^item> \<open>Threads\<close>: \<^verbatim>\<open>scheduler/thread.c\<close> and the system calls; a created thread can be run.
  \<^item> \<open>Ioapic\<close>, \<open>Descriptor_Tables\<close>: \<^verbatim>\<open>cpu/ioapic.c\<close>, \<^verbatim>\<open>cpu/gdt.c\<close>, \<^verbatim>\<open>cpu/tss.c\<close>, \<^verbatim>\<open>cpu/idt.c\<close>: redirection entries and
    gates hold what was asked for.
  \<^item> \<open>Keyboard\<close>, \<open>Rtc\<close>: \<^verbatim>\<open>drivers/keyboard.c\<close> (the modifier byte refines the set of held keys) and \<^verbatim>\<open>kernel/rtc.c\<close>
    (decoding and weekday against the Gregorian calendar).
  \<^item> \<open>Acpi\<close>: \<^verbatim>\<open>acpi/acpi.c\<close> and \<^verbatim>\<open>acpi/madt.c\<close>: what is taken from the interrupt controller table.
  \<^item> \<open>Interrupts\<close>: the rest of \<^verbatim>\<open>cpu/lapic.c\<close>, \<^verbatim>\<open>cpu/isr.c\<close>, \<^verbatim>\<open>cpu/smp.c\<close> and \<^verbatim>\<open>ap.c\<close>: delay and calibration under
    arriving interrupts, the commands that start another processor.
  \<^item> \<open>Kernel_Main\<close>: \<^verbatim>\<open>kernel.c\<close> and the part of \<^verbatim>\<open>scheduler/thread.c\<close> that runs in user mode. \<open>init_kernel\<close> composes the
    initialisers of all theories above; its memory phase brings the frame allocator, the page tables, the page manager, the heap and
    the console into their invariants together; the gates it installs; what it waits for.
  \<^item> \<open>Boot_Services\<close>: the firmware as the loader sees it. A call is a value of \<open>efi_call\<close>, the firmware a function of the
    history of calls (record \<open>uefi\<close>), \<open>boot\<close> the loader's state; sequencing with the loader's error returns.
  \<^item> \<open>Boot_Paging\<close>: \<open>AllocTable\<close>, \<open>MapAddr\<close>, \<open>MapRange\<close>, \<open>ConfigurePaging\<close> of \<^verbatim>\<open>boot/mem.c\<close>, the second copy of the
    page-table code, over the bytes of memory; it refines the walks of \<open>Page_Tables\<close> through \<open>view\<close>.
  \<^item> \<open>Boot_Loader\<close>, \<open>Boot_Image\<close>: \<^verbatim>\<open>boot/loader.c\<close>; every loadable segment of a well-formed image reads back through the new
    page tables byte for byte, zero-filled behind the file's part, and a file that is not such an image is rejected.
  \<^item> \<open>Boot_Map\<close>: the memory map of \<^verbatim>\<open>boot/mem.c\<close>; the bitmap covers every region, and \<open>init_pmm\<close> on what the loader
    hands over establishes the kernel's allocator.
  \<^item> \<open>Boot_Devices\<close>, \<open>Boot_Main\<close>: \<^verbatim>\<open>boot/acpi.c\<close>, \<^verbatim>\<open>boot/graphics.c\<close> and \<^verbatim>\<open>boot/uefi.c\<close>; \<open>efi_main\<close> ends with an
    error it can account for or jumps to the image's entry with a mapped stack and the image loaded, and leaves boot services with the
    key of the last memory map.

  \<^bold>\<open>State and operations.\<close> Machine integers are words of their width and wrap. A structure behind a pointer is an
  entry of a store indexed by its address, strings and tables are bytes of \<open>vm_bytes\<close>, page tables words of a
  separate memory. Every C function is one definition from state to state, in the order of its statements;
  a long one is cut into the parts its definition names.

  \<^bold>\<open>Results and loops.\<close> \<open>None\<close> means that the C function does not return: it loops for ever, spins on a lock that is
  taken, or (for \<open>get_char\<close> and \<open>vprintf\<close>) leaves defined behaviour. Loops with a bound are \<open>for_upto\<close> or structural
  recursion; loops without one are \<open>partial_function (option)\<close>, and theorems state that they return or that they do
  not. An operation of the loader gives \<open>Some (Inl e, s)\<close> where the C function returns the error \<open>e\<close> and \<open>Some (Inr x, s)\<close> where it
  succeeds. No fuel is used. A wait for interrupts takes the list of the interrupts that arrive, so it ends with the list.

  \<^bold>\<open>Parameters.\<close> What a device answers to a read is a function of the whole history of accesses; where a theorem needs
  more, the behaviour of the chip is a named hypothesis (\<open>register_file\<close>, \<open>clock\<close>, \<open>timer_reads\<close>) and a witness gives a
  device that has it. The addresses of assembly stubs, the font, the stack pointer, \<^verbatim>\<open>cpuid\<close> and \<^verbatim>\<open>cr2\<close> are arguments,
  collected in the record \<open>machine\<close> for \<open>init_kernel\<close>. The firmware is an argument of everything in the \<open>Boot_\<close> theories; what the
  UEFI specification promises of it are the hypotheses \<open>conforming\<close> (allocations are fresh pages below 16 GiB or an error, memory services
  write what they are asked to), \<open>refusal_keeps\<close>, \<open>reports_map\<close>, \<open>kernel_file\<close> (the file services serve the image), \<open>compares\<close>
  and \<open>video_modes\<close>; \<open>demo_uefi\<close> is a firmware that has them, and the witnesses run the loader on it.

  \<^bold>\<open>Bounds.\<close> Theorems about the frame allocator assume fewer than 65536 bitmap rows, that is less than 16 GiB, since the search
  does not end from there on; \<open>map_sane\<close> keeps memory regions below 128 TiB, where no address computation of the loader wraps;
  \<open>memory_ready\<close> and \<open>screen_ready\<close> state what the kernel's memory phase needs of the handover.

  \<^bold>\<open>Not modelled.\<close> Calls of \<^verbatim>\<open>log\<close> below \<open>Stdio\<close> and in \<open>Threads\<close>, \<open>Ioapic\<close> and \<open>Descriptor_Tables\<close> are left out, as are
  the loader's calls of \<^verbatim>\<open>Print\<close>: they write to the console only. The interrupt flag, the TLB and the cache have no state. Concurrency
  between processors is not modelled; locks are flags that another holder may have taken. The assembly files switch modes and save
  registers. \<^verbatim>\<open>hcf\<close>, \<^verbatim>\<open>idle\<close>, \<^verbatim>\<open>user_function\<close> and \<^verbatim>\<open>kernel_main\<close> are endless loops without effect. What is mapped where is a
  matter of page tables: instruction fetches and the switch of the stack by the loader's last jump are not modelled.
\<close>

end
